(* ===== verification/Mununu_Prelude.thy ===== *)
theory Mununu_Prelude
  imports Main "HOL-Library.Product_Order" "HOL-Library.AList"
begin

section \<open>Shared notions of the mununu development\<close>

text \<open>
  This theory holds what every component shares:
  \<^item> \<open>res\<close>, the outcome of a Rust function that may return an error, panic, or (in a
    model that runs on fuel) not have finished yet;
  \<^item> bit vectors (the \<^verbatim>\<open>BitVec<usize, Lsb0>\<close> of the sources) as \<open>bool list\<close>, with the
    set of indices they stand for;
  \<^item> facts on least and greatest fixpoints: how two fixpoints are related by a relation closed
    under suprema, the duality of \<open>lfp\<close> and \<open>gfp\<close> under a relative complement, and the
    convergence of a bounded iteration.
\<close>

named_theorems bv_simps \<open>rewriting bit vectors to the index sets they stand for\<close>

subsection \<open>Outcomes\<close>

datatype ('e, 'a) res = Ok 'a | Err 'e | Panic | OutOfFuel

fun rbind :: "('e, 'a) res \<Rightarrow> ('a \<Rightarrow> ('e, 'b) res) \<Rightarrow> ('e, 'b) res" where
  "rbind (Ok x) k = k x"
| "rbind (Err e) k = Err e"
| "rbind Panic k = Panic"
| "rbind OutOfFuel k = OutOfFuel"

fun_cases rbind_OkE: "rbind m k = Ok y"

lemma rbind_eq_Ok: "rbind m k = Ok y \<longleftrightarrow> (\<exists>x. m = Ok x \<and> k x = Ok y)"
  by (cases m) auto

subsection \<open>Bit vectors\<close>

type_synonym bitvec = "bool list"

definition bv_repeat :: "bool \<Rightarrow> nat \<Rightarrow> bitvec" where
  "bv_repeat b n = replicate n b"

definition bv_and :: "bitvec \<Rightarrow> bitvec \<Rightarrow> bitvec" where
  "bv_and a b = map2 (\<and>) a b"

definition bv_or :: "bitvec \<Rightarrow> bitvec \<Rightarrow> bitvec" where
  "bv_or a b = map2 (\<or>) a b"

definition bv_not :: "bitvec \<Rightarrow> bitvec" where
  "bv_not a = map Not a"

definition bit_is_set :: "bitvec \<Rightarrow> nat \<Rightarrow> bool" where
  "bit_is_set bits i \<longleftrightarrow> i < length bits \<and> bits ! i"

text \<open>The index set of a bit vector, and the bit vector of a predicate on \<open>0..<n\<close>.\<close>

definition bset :: "bitvec \<Rightarrow> nat set" where
  "bset bits = {i. bit_is_set bits i}"

definition bv_of :: "nat \<Rightarrow> (nat \<Rightarrow> bool) \<Rightarrow> bitvec" where
  "bv_of n P = map P [0..<n]"

lemma length_bv [bv_simps, simp]:
  "length (bv_repeat b n) = n"
  "length (bv_and a c) = min (length a) (length c)"
  "length (bv_or a c) = min (length a) (length c)"
  "length (bv_not a) = length a"
  "length (bv_of n P) = n"
  by (simp_all add: bv_repeat_def bv_and_def bv_or_def bv_not_def bv_of_def)

lemma mem_bset_iff: "i \<in> bset b \<longleftrightarrow> i < length b \<and> b ! i"
  by (simp add: bset_def bit_is_set_def)

lemma bit_is_set_bset [simp]: "bit_is_set b i \<longleftrightarrow> i \<in> bset b"
  by (simp add: mem_bset_iff bit_is_set_def)

lemma bset_subset: "bset b \<subseteq> {..<length b}"
  by (auto simp: mem_bset_iff)

lemma bset_less: "i \<in> bset b \<Longrightarrow> i < length b"
  by (simp add: mem_bset_iff)

lemma finite_bset [simp]: "finite (bset b)"
  by (rule finite_subset [OF bset_subset]) simp

lemma bset_repeat [bv_simps, simp]: "bset (bv_repeat b n) = (if b then {..<n} else {})"
  by (auto simp: mem_bset_iff bv_repeat_def)

lemma bset_and [bv_simps]: "length a = length b \<Longrightarrow> bset (bv_and a b) = bset a \<inter> bset b"
  by (auto simp: mem_bset_iff bv_and_def)

lemma bset_or [bv_simps]: "length a = length b \<Longrightarrow> bset (bv_or a b) = bset a \<union> bset b"
  by (auto simp: mem_bset_iff bv_or_def)

lemma bset_not [bv_simps]: "bset (bv_not a) = {..<length a} - bset a"
  by (auto simp: mem_bset_iff bv_not_def)

lemma bset_of [bv_simps, simp]: "bset (bv_of n P) = {i. i < n \<and> P i}"
  by (auto simp: mem_bset_iff bv_of_def)

lemma bv_eq_iff: "length a = length b \<Longrightarrow> a = b \<longleftrightarrow> bset a = bset b"
proof
  assume len: "length a = length b" and eq: "bset a = bset b"
  show "a = b"
  proof (rule nth_equalityI)
    fix i assume "i < length a"
    then show "a ! i = b ! i" using len eq by (metis mem_bset_iff)
  qed (fact len)
qed simp

lemma bv_eqI:
  assumes "length a = n" and "length b = n" and "\<And>i. i < n \<Longrightarrow> i \<in> bset a \<longleftrightarrow> i \<in> bset b"
  shows "a = b"
proof -
  have "bset a = bset b" using assms by (metis bset_less set_eqI)
  then show ?thesis using assms by (simp add: bv_eq_iff)
qed

lemma bv_and_same_length [simp]: "length a = n \<Longrightarrow> length b = n \<Longrightarrow> length (bv_and a b) = n"
  by simp

lemma card_bset_le: "card (bset b) \<le> length b"
  using card_mono [OF _ bset_subset] by simp

subsection \<open>Fixpoints\<close>

text \<open>
  Two monotone functions on complete lattices, and a relation between the lattices that both
  functions keep and that is closed under pointwise suprema: the least fixpoints are related.
  The dual holds for infima and greatest fixpoints.
\<close>

lemma Sup_prod_eq: "Sup M = (Sup (fst ` M), Sup (snd ` M))"
  for M :: "('a::complete_lattice \<times> 'b::complete_lattice) set"
  by (simp add: Sup_prod_def)

lemma lfp_prod_pair:
  fixes F :: "'a::complete_lattice \<Rightarrow> 'a" and G :: "'b::complete_lattice \<Rightarrow> 'b"
  assumes F: "mono F" and G: "mono G"
  shows "lfp (\<lambda>(x, y). (F x, G y)) = (lfp F, lfp G)"
proof (rule antisym)
  show "lfp (\<lambda>(x, y). (F x, G y)) \<le> (lfp F, lfp G)"
    by (rule lfp_lowerbound) (simp add: lfp_unfold [OF F, symmetric] lfp_unfold [OF G, symmetric])
  show "(lfp F, lfp G) \<le> lfp (\<lambda>(x, y). (F x, G y))"
  proof (rule lfp_greatest)
    fix u :: "'a \<times> 'b"
    assume "(\<lambda>(x, y). (F x, G y)) u \<le> u"
    then have "F (fst u) \<le> fst u" and "G (snd u) \<le> snd u"
      by (auto simp: less_eq_prod_def split: prod.splits)
    then show "(lfp F, lfp G) \<le> u"
      by (simp add: less_eq_prod_def lfp_lowerbound)
  qed
qed

lemma lfp_related:
  fixes F :: "'a::complete_lattice \<Rightarrow> 'a" and G :: "'b::complete_lattice \<Rightarrow> 'b"
  assumes F: "mono F" and G: "mono G"
    and step: "\<And>x y. R x y \<Longrightarrow> R (F x) (G y)"
    and sup: "\<And>M. (\<And>x y. (x, y) \<in> M \<Longrightarrow> R x y) \<Longrightarrow> R (Sup (fst ` M)) (Sup (snd ` M))"
  shows "R (lfp F) (lfp G)"
proof -
  let ?H = "\<lambda>(x, y). (F x, G y)"
  have H: "mono ?H"
    using F G by (auto simp: mono_def less_eq_prod_def)
  have "(\<lambda>(x, y). R x y) (lfp ?H)"
  proof (rule lfp_ordinal_induct [OF H])
    show "case ?H S of (x, y) \<Rightarrow> R x y" if "case S of (x, y) \<Rightarrow> R x y" for S
      using that step by (cases S) simp
    show "case Sup M of (x, y) \<Rightarrow> R x y" if "\<forall>S\<in>M. case S of (x, y) \<Rightarrow> R x y" for M
      using sup [of M] that by (force simp: Sup_prod_eq)
  qed
  then show ?thesis by (simp add: lfp_prod_pair [OF F G])
qed

lemma gfp_prod_pair:
  fixes F :: "'a::complete_lattice \<Rightarrow> 'a" and G :: "'b::complete_lattice \<Rightarrow> 'b"
  assumes F: "mono F" and G: "mono G"
  shows "gfp (\<lambda>(x, y). (F x, G y)) = (gfp F, gfp G)"
proof (rule antisym)
  show "(gfp F, gfp G) \<le> gfp (\<lambda>(x, y). (F x, G y))"
    by (rule gfp_upperbound) (simp add: gfp_unfold [OF F, symmetric] gfp_unfold [OF G, symmetric])
  show "gfp (\<lambda>(x, y). (F x, G y)) \<le> (gfp F, gfp G)"
  proof (rule gfp_least)
    fix u :: "'a \<times> 'b"
    assume "u \<le> (\<lambda>(x, y). (F x, G y)) u"
    then have "fst u \<le> F (fst u)" and "snd u \<le> G (snd u)"
      by (auto simp: less_eq_prod_def split: prod.splits)
    then show "u \<le> (gfp F, gfp G)"
      by (simp add: less_eq_prod_def gfp_upperbound)
  qed
qed

lemma gfp_related:
  fixes F :: "'a::complete_lattice \<Rightarrow> 'a" and G :: "'b::complete_lattice \<Rightarrow> 'b"
  assumes F: "mono F" and G: "mono G"
    and step: "\<And>x y. R x y \<Longrightarrow> R (F x) (G y)"
    and inf: "\<And>M. (\<And>x y. (x, y) \<in> M \<Longrightarrow> R x y) \<Longrightarrow> R (Inf (fst ` M)) (Inf (snd ` M))"
  shows "R (gfp F) (gfp G)"
proof -
  let ?H = "\<lambda>(x, y). (F x, G y)"
  have H: "mono ?H"
    using F G by (auto simp: mono_def less_eq_prod_def)
  have "(\<lambda>(x, y). R x y) (gfp ?H)"
  proof (rule gfp_ordinal_induct [OF H])
    show "case ?H S of (x, y) \<Rightarrow> R x y" if "case S of (x, y) \<Rightarrow> R x y" for S
      using that step by (cases S) simp
    show "case Inf M of (x, y) \<Rightarrow> R x y" if "\<forall>S\<in>M. case S of (x, y) \<Rightarrow> R x y" for M
      using inf [of M] that by (force simp: Inf_prod_def)
  qed
  then show ?thesis by (simp add: gfp_prod_pair [OF F G])
qed

text \<open>
  Iterating a monotone function from any point below its least fixpoint. The iterates are
  squeezed between the iterates from \<open>bot\<close> and the least fixpoint, so a fixpoint met on
  the way is the least one, and one is met as soon as the iterates from \<open>bot\<close> are stable.
\<close>

lemma funpow_below_lfp:
  assumes "mono F" and "x \<le> lfp F"
  shows "(F ^^ k) x \<le> lfp F"
proof (induction k)
  case (Suc k)
  then have "F ((F ^^ k) x) \<le> F (lfp F)" using assms(1) by (rule monoD [rotated])
  then show ?case by (simp add: lfp_unfold [OF assms(1), symmetric])
qed (simp add: assms(2))

lemma funpow_above_gfp:
  assumes "mono F" and "gfp F \<le> x"
  shows "gfp F \<le> (F ^^ k) x"
proof (induction k)
  case (Suc k)
  then have "F (gfp F) \<le> F ((F ^^ k) x)" using assms(1) by (rule monoD [rotated])
  then show ?case by (simp add: gfp_unfold [OF assms(1), symmetric])
qed (simp add: assms(2))

lemma fixpoint_below_lfp_eq:
  assumes "F x = x" and "x \<le> lfp F"
  shows "x = lfp F"
proof (rule antisym [OF assms(2)])
  show "lfp F \<le> x" by (rule lfp_lowerbound) (simp add: assms(1))
qed

lemma fixpoint_above_gfp_eq:
  assumes "F x = x" and "gfp F \<le> x"
  shows "x = gfp F"
proof (rule antisym [OF _ assms(2)])
  show "x \<le> gfp F" by (rule gfp_upperbound) (simp add: assms(1))
qed

text \<open>Relative complement in the subsets of \<open>U\<close>: \<open>lfp\<close> and \<open>gfp\<close> are dual.\<close>

lemma gfp_subset_cap: "gfp (\<lambda>X. U \<inter> F X) \<subseteq> U"
  by (rule gfp_least) auto

lemma lfp_relative_dual:
  fixes F :: "'a set \<Rightarrow> 'a set"
  assumes mono: "mono F" and bound: "\<And>X. X \<subseteq> U \<Longrightarrow> F X \<subseteq> U"
    and G: "\<And>X. X \<subseteq> U \<Longrightarrow> G X = U - F (U - X)" and monoG: "mono G"
  shows "U - lfp F = gfp (\<lambda>X. U \<inter> G X)"
proof (rule antisym)
  have lU: "lfp F \<subseteq> U" by (rule lfp_lowerbound) (rule bound, simp)
  have "U - lfp F \<subseteq> U \<inter> G (U - lfp F)"
    using G [of "U - lfp F"] lU by (auto simp: double_diff lfp_unfold [OF mono, symmetric])
  then show "U - lfp F \<subseteq> gfp (\<lambda>X. U \<inter> G X)" by (rule gfp_upperbound)
  show "gfp (\<lambda>X. U \<inter> G X) \<subseteq> U - lfp F"
  proof (rule gfp_least)
    fix X assume X: "X \<subseteq> U \<inter> G X"
    then have XU: "X \<subseteq> U" by auto
    have "F (U - X) \<subseteq> U - X" using X G [OF XU] bound [of "U - X"] by auto
    then have "lfp F \<subseteq> U - X" by (rule lfp_lowerbound)
    then show "X \<subseteq> U - lfp F" using XU by auto
  qed
qed

lemma gfp_relative_dual:
  fixes F :: "'a set \<Rightarrow> 'a set"
  assumes mono: "mono F" and G: "\<And>X. X \<subseteq> U \<Longrightarrow> G X = U - F (U - X)"
    and bound: "\<And>X. X \<subseteq> U \<Longrightarrow> F X \<subseteq> U" and monoG: "mono G"
  shows "U - gfp (\<lambda>X. U \<inter> F X) = lfp G"
proof -
  have Gb: "X \<subseteq> U \<Longrightarrow> G X \<subseteq> U" for X using G [of X] by auto
  have FG: "F X = U - G (U - X)" if "X \<subseteq> U" for X
    using G [of "U - X"] bound [OF that] that by (auto simp: double_diff)
  have lU: "lfp G \<subseteq> U" by (rule lfp_lowerbound) (rule Gb, simp)
  have "U - lfp G = gfp (\<lambda>X. U \<inter> F X)"
    by (rule lfp_relative_dual [OF monoG Gb FG mono])
  then show ?thesis using lU by auto
qed

lemma map_of_unique: "(k, v) \<in> set xs \<Longrightarrow> (\<And>w. (k, w) \<in> set xs \<Longrightarrow> w = v) \<Longrightarrow> map_of xs k = Some v"
  by (metis map_of_SomeD weak_map_of_SomeI)

end
