(* ===== verification/Symbol_Store.thy ===== *)
theory Symbol_Store
  imports Mununu_Prelude "HOL-Library.List_Lexorder" "HOL-Library.Char_ord"
begin

section \<open>Interned symbol sets: the label store and the variable store\<close>

text \<open>
  Models the two interning stores of \<^verbatim>\<open>clts/mod.rs\<close>: \<open>LabelStoreBuilder\<close> / \<open>LabelStore\<close> and
  \<open>VariableStoreBuilder\<close> / \<open>VariableStore\<close>. Both keep a table of sorted, duplicate-free
  symbol sets, hand out the index of a set as its identifier, and freeze into one bit vector
  per set over the sorted universe of symbols. The buffer pool only recycles allocations and
  is not modelled. Label identifiers are bounded by their \<^verbatim>\<open>u32\<close> storage; variable set
  identifiers are plain \<^verbatim>\<open>usize\<close>.

  The locale \<open>interning_store\<close> states the contract the rest of the system relies on: interning
  returns an identifier under which the frozen store answers membership for exactly the
  interned symbols, and earlier identifiers keep their meaning. Both stores interpret it.
\<close>

subsection \<open>Identifiers\<close>

definition u32_max :: nat where
  "u32_max = 4294967295"

definition try_from_usize :: "nat \<Rightarrow> nat option" where
  "try_from_usize value = (if value \<le> u32_max then Some value else None)"

datatype clts_error = UnknownState string | IdOverflow string nat | CompositionError string

subsection \<open>Builders\<close>

record symbol_builder =
  sb_entries :: "string list list"
  sb_entry_map :: "(string list \<times> nat) list"
  sb_symbol_set :: "string set"
  sb_symbols :: "string list"
  sb_symbols_dirty :: bool

definition symbol_builder_default :: symbol_builder where
  "symbol_builder_default =
     \<lparr>sb_entries = [], sb_entry_map = [], sb_symbol_set = {}, sb_symbols = [],
      sb_symbols_dirty = False\<rparr>"

fun record_symbols_into_universe :: "string list \<Rightarrow> symbol_builder \<Rightarrow> symbol_builder" where
  "record_symbols_into_universe [] b = b"
| "record_symbols_into_universe (symbol # payload) b =
     record_symbols_into_universe payload
       (if symbol \<notin> sb_symbol_set b
        then b\<lparr>sb_symbol_set := insert symbol (sb_symbol_set b),
               sb_symbols := sb_symbols b @ [symbol], sb_symbols_dirty := True\<rparr>
        else b)"

definition sort_dedup :: "string list \<Rightarrow> string list" where
  "sort_dedup buffer = remdups_adj (sort buffer)"

text \<open>\<open>LabelStoreBuilder::intern\<close>: the identifier is checked before the table changes.\<close>

definition label_intern ::
  "string list \<Rightarrow> symbol_builder \<Rightarrow> (clts_error, nat \<times> symbol_builder) res" where
  "label_intern symbols b =
     (let buffer = sort_dedup symbols
      in case map_of (sb_entry_map b) buffer of
           Some i \<Rightarrow> Ok (i, b)
         | None \<Rightarrow>
             (let next = length (sb_entries b)
              in case try_from_usize next of
                   None \<Rightarrow> Err (IdOverflow ''label'' next)
                 | Some i \<Rightarrow>
                     (let b1 = record_symbols_into_universe buffer b
                      in Ok (i, b1\<lparr>sb_entry_map := (buffer, i) # sb_entry_map b1,
                                   sb_entries := sb_entries b1 @ [buffer]\<rparr>))))"

fun label_absorb ::
  "string list list \<Rightarrow> symbol_builder \<Rightarrow> (clts_error, symbol_builder) res" where
  "label_absorb [] b = Ok b"
| "label_absorb (entry # entries) b =
     rbind (label_intern entry b) (\<lambda>(i, b1). label_absorb entries b1)"

text \<open>\<open>VariableStoreBuilder::intern\<close> and \<open>intern_in_place\<close>: the same table, total.\<close>

definition variable_intern :: "string list \<Rightarrow> symbol_builder \<Rightarrow> nat \<times> symbol_builder" where
  "variable_intern vars b =
     (let buffer = sort_dedup vars
      in case map_of (sb_entry_map b) buffer of
           Some i \<Rightarrow> (i, b)
         | None \<Rightarrow>
             (let i = length (sb_entries b);
                  b1 = record_symbols_into_universe buffer b
              in (i, b1\<lparr>sb_entry_map := (buffer, i) # sb_entry_map b1,
                        sb_entries := sb_entries b1 @ [buffer]\<rparr>)))"

definition variable_empty :: "symbol_builder \<Rightarrow> nat \<times> symbol_builder" where
  "variable_empty b = variable_intern [] b"

subsection \<open>Frozen stores\<close>

record symbol_store =
  st_sets :: "string list list"
  st_bitsets :: "bitvec list"
  st_symbols :: "string list"
  st_symbol_index :: "(string \<times> nat) list"

definition set_item_bit :: "(string \<times> nat) list \<Rightarrow> string \<Rightarrow> bitvec \<Rightarrow> bitvec" where
  "set_item_bit index item bits =
     (case map_of index item of None \<Rightarrow> bits | Some i \<Rightarrow> bits[i := True])"

definition build_symbol_index_and_bitsets ::
  "string list list \<Rightarrow> string list \<Rightarrow> bool \<Rightarrow> symbol_store" where
  "build_symbol_index_and_bitsets sets symbols0 dirty =
     (let symbols = (if dirty then sort symbols0 else symbols0);
          index = rev (zip symbols [0..<length symbols]);
          bitsets = map (\<lambda>items. fold (set_item_bit index) items
                                   (bv_repeat False (length symbols))) sets
      in \<lparr>st_sets = sets, st_bitsets = bitsets, st_symbols = symbols, st_symbol_index = index\<rparr>)"

definition symbol_store_build :: "symbol_builder \<Rightarrow> symbol_store" where
  "symbol_store_build b =
     build_symbol_index_and_bitsets (sb_entries b) (sb_symbols b) (sb_symbols_dirty b)"

definition store_get :: "symbol_store \<Rightarrow> nat \<Rightarrow> string list option" where
  "store_get st i = (if i < length (st_sets st) then Some (st_sets st ! i) else None)"

definition label_store_bitset :: "symbol_store \<Rightarrow> nat \<Rightarrow> bitvec option" where
  "label_store_bitset st i =
     (if i < length (st_bitsets st) then Some (st_bitsets st ! i) else None)"

text \<open>\<open>LabelBitSet::test\<close> and \<open>VariableBitSet::contains\<close>.\<close>

definition bitset_test :: "symbol_store \<Rightarrow> bitvec \<Rightarrow> string \<Rightarrow> bool" where
  "bitset_test st bits symbol =
     (case map_of (st_symbol_index st) symbol of
        None \<Rightarrow> False
      | Some i \<Rightarrow> bit_is_set bits i)"

definition bitset_is_superset :: "bitvec \<Rightarrow> bitvec \<Rightarrow> bool" where
  \<comment> \<open>\<open>VariableBitSet::is_superset(self, other)\<close>\<close>
  "bitset_is_superset bits other = (\<forall>i < length other. other ! i \<longrightarrow> bit_is_set bits i)"

definition store_contains :: "symbol_store \<Rightarrow> nat \<Rightarrow> string \<Rightarrow> bool" where
  "store_contains st i symbol =
     (case label_store_bitset st i of None \<Rightarrow> False | Some bits \<Rightarrow> bitset_test st bits symbol)"

subsection \<open>The invariant of a builder\<close>

definition wf_symbol_builder :: "symbol_builder \<Rightarrow> bool" where
  "wf_symbol_builder b \<longleftrightarrow>
     (\<forall>k i. map_of (sb_entry_map b) k = Some i \<longleftrightarrow> i < length (sb_entries b) \<and> sb_entries b ! i = k)
     \<and> sb_symbol_set b = set (sb_symbols b) \<and> distinct (sb_symbols b)
     \<and> (\<forall>e \<in> set (sb_entries b). set e \<subseteq> set (sb_symbols b) \<and> sorted e \<and> distinct e)
     \<and> (sb_symbols_dirty b \<or> sb_symbols b = [])"

lemma wf_symbol_builder_default [simp]: "wf_symbol_builder symbol_builder_default"
  by (simp add: wf_symbol_builder_def symbol_builder_default_def)

lemma record_symbols_frame [simp]:
  "sb_entries (record_symbols_into_universe xs b) = sb_entries b"
  "sb_entry_map (record_symbols_into_universe xs b) = sb_entry_map b"
  by (induction xs b rule: record_symbols_into_universe.induct) auto

lemma record_symbols_universe:
  assumes "sb_symbol_set b = set (sb_symbols b)" "distinct (sb_symbols b)"
    "sb_symbols_dirty b \<or> sb_symbols b = []"
  shows "sb_symbol_set (record_symbols_into_universe xs b) = set (sb_symbols b) \<union> set xs
    \<and> set (sb_symbols (record_symbols_into_universe xs b)) = set (sb_symbols b) \<union> set xs
    \<and> distinct (sb_symbols (record_symbols_into_universe xs b))
    \<and> (sb_symbols_dirty (record_symbols_into_universe xs b)
        \<or> sb_symbols (record_symbols_into_universe xs b) = [])"
  using assms
  by (induction xs b rule: record_symbols_into_universe.induct) (auto simp: insert_absorb)

lemma sorted_distinct_adj: "sorted xs \<Longrightarrow> distinct_adj xs \<Longrightarrow> distinct xs"
  for xs :: "'a::linorder list"
proof (induction xs)
  case (Cons x xs)
  then have "x \<notin> set xs"
    by (cases xs) (auto dest: order.antisym)
  with Cons show ?case by (auto simp: distinct_adj_Cons)
qed simp

lemma sort_dedup_props [simp]:
  "set (sort_dedup xs) = set xs" "sorted (sort_dedup xs)" "distinct (sort_dedup xs)"
proof -
  show s: "sorted (sort_dedup xs)" by (simp add: sort_dedup_def sorted_remdups_adj)
  show "set (sort_dedup xs) = set xs" by (simp add: sort_dedup_def)
  show "distinct (sort_dedup xs)"
    using s by (simp add: sort_dedup_def sorted_distinct_adj)
qed

text \<open>
  One step of interning, shared by the two builders: an existing set is found under its index,
  a new one is appended and its symbols enter the universe.
\<close>

definition add_entry :: "string list \<Rightarrow> symbol_builder \<Rightarrow> symbol_builder" where
  "add_entry e b =
     (let b1 = record_symbols_into_universe e b
      in b1\<lparr>sb_entry_map := (e, length (sb_entries b)) # sb_entry_map b1,
            sb_entries := sb_entries b1 @ [e]\<rparr>)"

lemma add_entry_entries [simp]: "sb_entries (add_entry e b) = sb_entries b @ [e]"
  by (simp add: add_entry_def Let_def)

lemma wf_add_entry:
  assumes wf: "wf_symbol_builder b" and new: "map_of (sb_entry_map b) e = None"
    and e: "sorted e" "distinct e"
  shows "wf_symbol_builder (add_entry e b)"
proof -
  let ?b = "add_entry e b"
  have univ: "sb_symbol_set ?b = set (sb_symbols ?b)" "distinct (sb_symbols ?b)"
    "set (sb_symbols ?b) = set (sb_symbols b) \<union> set e"
    "sb_symbols_dirty ?b \<or> sb_symbols ?b = []"
    using record_symbols_universe [of b e] wf
    by (auto simp: wf_symbol_builder_def add_entry_def Let_def)
  have map: "map_of (sb_entry_map ?b) k = Some i
      \<longleftrightarrow> i < length (sb_entries ?b) \<and> sb_entries ?b ! i = k" for k i
  proof -
    have old: "map_of (sb_entry_map b) k = Some i
        \<longleftrightarrow> i < length (sb_entries b) \<and> sb_entries b ! i = k" for k i
      using wf by (simp add: wf_symbol_builder_def)
    have "i < length (sb_entries b) \<Longrightarrow> sb_entries b ! i \<noteq> e"
      using old [of e i] new by auto
    then show ?thesis by (auto simp: add_entry_def Let_def nth_append less_Suc_eq old)
  qed
  have "\<forall>x \<in> set (sb_entries ?b). set x \<subseteq> set (sb_symbols ?b) \<and> sorted x \<and> distinct x"
    using wf e univ(3) by (auto simp: wf_symbol_builder_def)
  with univ map show ?thesis unfolding wf_symbol_builder_def by blast
qed

lemma entry_map_None:
  assumes "wf_symbol_builder b"
  shows "map_of (sb_entry_map b) e = None \<longleftrightarrow> e \<notin> set (sb_entries b)"
proof -
  have "map_of (sb_entry_map b) e = Some i \<longleftrightarrow> i < length (sb_entries b) \<and> sb_entries b ! i = e" for i
    using assms by (simp add: wf_symbol_builder_def)
  then show ?thesis by (metis in_set_conv_nth not_None_eq)
qed

lemma variable_intern_spec:
  assumes wf: "wf_symbol_builder b" and r: "variable_intern xs b = (i, b')"
  shows "wf_symbol_builder b' \<and> i < length (sb_entries b') \<and> sb_entries b' ! i = sort_dedup xs
    \<and> (\<exists>zs. sb_entries b' = sb_entries b @ zs)"
proof (cases "map_of (sb_entry_map b) (sort_dedup xs)")
  case None
  then have "i = length (sb_entries b)" "b' = add_entry (sort_dedup xs) b"
    using r by (auto simp: variable_intern_def Let_def add_entry_def)
  then show ?thesis using wf_add_entry [OF wf None] by (auto simp: nth_append)
next
  case (Some j)
  then have "i = j" "b' = b" using r by (simp_all add: variable_intern_def)
  then show ?thesis using Some wf by (auto simp: wf_symbol_builder_def)
qed

lemma label_intern_spec:
  assumes wf: "wf_symbol_builder b" and r: "label_intern xs b = Ok (i, b')"
  shows "wf_symbol_builder b' \<and> i < length (sb_entries b') \<and> sb_entries b' ! i = sort_dedup xs
    \<and> (\<exists>zs. sb_entries b' = sb_entries b @ zs)"
proof (cases "map_of (sb_entry_map b) (sort_dedup xs)")
  case None
  then have "i = length (sb_entries b)" "b' = add_entry (sort_dedup xs) b"
    using r by (auto simp: label_intern_def Let_def add_entry_def try_from_usize_def
        split: if_splits)
  then show ?thesis using wf_add_entry [OF wf None] by (auto simp: nth_append)
next
  case (Some j)
  then have "i = j" "b' = b" using r by (simp_all add: label_intern_def)
  then show ?thesis using Some wf by (auto simp: wf_symbol_builder_def)
qed

lemma label_intern_error:
  assumes "wf_symbol_builder b"
  shows "label_intern xs b = Err e \<longleftrightarrow>
     sort_dedup xs \<notin> set (sb_entries b) \<and> length (sb_entries b) > u32_max
     \<and> e = IdOverflow ''label'' (length (sb_entries b))"
  using entry_map_None [OF assms, of "sort_dedup xs"]
  by (cases "map_of (sb_entry_map b) (sort_dedup xs)")
    (auto simp: label_intern_def Let_def try_from_usize_def)

subsection \<open>Membership in a frozen store\<close>

lemma length_set_item_bit [simp]: "length (set_item_bit ix it bits) = length bits"
  by (simp add: set_item_bit_def split: option.splits)

lemma bset_fold_set_item_bit:
  assumes "\<And>it i. it \<in> set items \<Longrightarrow> map_of ix it = Some i \<Longrightarrow> i < length bits"
  shows "bset (fold (set_item_bit ix) items bits)
     = bset bits \<union> {i. \<exists>it \<in> set items. map_of ix it = Some i}"
  using assms
proof (induction items arbitrary: bits)
  case (Cons a items)
  have "bset (set_item_bit ix a bits) = bset bits \<union> {i. map_of ix a = Some i}"
    using Cons.prems [of a]
    by (auto simp: set_item_bit_def mem_bset_iff nth_list_update split: option.splits if_splits)
  moreover have "bset (fold (set_item_bit ix) items (set_item_bit ix a bits))
     = bset (set_item_bit ix a bits) \<union> {i. \<exists>it \<in> set items. map_of ix it = Some i}"
    by (rule Cons.IH) (use Cons.prems in auto)
  ultimately show ?case by auto
qed simp

lemma map_of_rev_zip_upt:
  assumes "distinct xs"
  shows "map_of (rev (zip xs [0..<length xs])) x = Some i \<longleftrightarrow> i < length xs \<and> xs ! i = x"
proof -
  have "distinct (map fst (rev (zip xs [0..<length xs])))"
    using assms by (simp add: rev_map [symmetric])
  then have "map_of (rev (zip xs [0..<length xs])) x = Some i
      \<longleftrightarrow> (x, i) \<in> set (zip xs [0..<length xs])"
    by simp
  also have "\<dots> \<longleftrightarrow> i < length xs \<and> xs ! i = x"
    by (auto simp: in_set_zip)
  finally show ?thesis .
qed

lemma store_build_fields [simp]:
  "st_sets (symbol_store_build b) = sb_entries b"
  "length (st_bitsets (symbol_store_build b)) = length (sb_entries b)"
  "set (st_symbols (symbol_store_build b)) = set (sb_symbols b)"
  by (simp_all add: symbol_store_build_def build_symbol_index_and_bitsets_def Let_def)

lemma store_contains_build:
  assumes wf: "wf_symbol_builder b" and i: "i < length (sb_entries b)"
  shows "store_contains (symbol_store_build b) i s \<longleftrightarrow> s \<in> set (sb_entries b ! i)"
proof -
  define syms where "syms = (if sb_symbols_dirty b then sort (sb_symbols b) else sb_symbols b)"
  define ix where "ix = rev (zip syms [0..<length syms])"
  define bits where "bits = fold (set_item_bit ix) (sb_entries b ! i) (bv_repeat False (length syms))"
  have d: "distinct syms" and st: "set syms = set (sb_symbols b)"
    using wf by (auto simp: wf_symbol_builder_def syms_def)
  have ix: "map_of ix x = Some j \<longleftrightarrow> j < length syms \<and> syms ! j = x" for x j
    unfolding ix_def by (rule map_of_rev_zip_upt [OF d])
  have sub: "set (sb_entries b ! i) \<subseteq> set syms"
    using wf i st by (auto simp: wf_symbol_builder_def)
  have "bset bits = {j. \<exists>it \<in> set (sb_entries b ! i). map_of ix it = Some j}"
    unfolding bits_def by (subst bset_fold_set_item_bit) (auto simp: ix)
  moreover have "store_contains (symbol_store_build b) i s
      \<longleftrightarrow> (\<exists>j. map_of ix s = Some j \<and> j \<in> bset bits)"
    using i by (simp add: store_contains_def label_store_bitset_def bitset_test_def bits_def ix_def
        syms_def [symmetric] symbol_store_build_def build_symbol_index_and_bitsets_def Let_def
        split: option.splits)
  moreover have "\<exists>j. map_of ix s = Some j" if "s \<in> set (sb_entries b ! i)"
    using sub that by (metis ix in_set_conv_nth subsetD)
  ultimately show ?thesis by (auto simp: ix)
qed

subsection \<open>The contract of an interning store\<close>

locale interning_store =
  fixes wf :: "'b \<Rightarrow> bool"
    and intern :: "string list \<Rightarrow> 'b \<Rightarrow> (nat \<times> 'b) option"
    and size_of :: "'b \<Rightarrow> nat"
    and member :: "'b \<Rightarrow> nat \<Rightarrow> string \<Rightarrow> bool"
  assumes intern_wf: "wf b \<Longrightarrow> intern xs b = Some (i, b') \<Longrightarrow> wf b'"
    and intern_id: "wf b \<Longrightarrow> intern xs b = Some (i, b') \<Longrightarrow> i < size_of b'"
    and intern_member: "wf b \<Longrightarrow> intern xs b = Some (i, b') \<Longrightarrow> member b' i s \<longleftrightarrow> s \<in> set xs"
    and intern_keeps: "wf b \<Longrightarrow> intern xs b = Some (i, b') \<Longrightarrow> j < size_of b
      \<Longrightarrow> j < size_of b' \<and> member b' j s = member b j s"
begin

text \<open>A run of interning requests, and the identifiers it hands out.\<close>

fun intern_all :: "string list list \<Rightarrow> 'b \<Rightarrow> (nat list \<times> 'b) option" where
  "intern_all [] b = Some ([], b)"
| "intern_all (xs # xss) b =
     (case intern xs b of None \<Rightarrow> None
      | Some (i, b1) \<Rightarrow>
          (case intern_all xss b1 of None \<Rightarrow> None | Some (is, b2) \<Rightarrow> Some (i # is, b2)))"

lemma intern_all_keeps:
  "wf b \<Longrightarrow> intern_all xss b = Some (is, b') \<Longrightarrow>
     wf b' \<and> (\<forall>j < size_of b. j < size_of b' \<and> (\<forall>s. member b' j s = member b j s))"
proof (induction xss arbitrary: b "is" b')
  case (Cons xs xss)
  from Cons.prems(2) obtain i b1 is1 where i: "intern xs b = Some (i, b1)"
    and r: "intern_all xss b1 = Some (is1, b')"
    by (auto split: option.splits)
  show ?case
    using Cons.IH [OF intern_wf [OF Cons.prems(1) i] r] intern_keeps [OF Cons.prems(1) i] by blast
qed auto

lemma intern_all_member:
  "wf b \<Longrightarrow> intern_all xss b = Some (is, b') \<Longrightarrow> k < length xss \<Longrightarrow>
     k < length is \<and> (member b' (is ! k) s \<longleftrightarrow> s \<in> set (xss ! k))"
proof (induction xss arbitrary: b "is" b' k)
  case (Cons xs xss)
  from Cons.prems(2) obtain i b1 is1 where i: "intern xs b = Some (i, b1)"
    and r: "intern_all xss b1 = Some (is1, b')" and is_def: "is = i # is1"
    by (auto split: option.splits)
  note wf1 = intern_wf [OF Cons.prems(1) i]
  show ?case
  proof (cases k)
    case 0
    then show ?thesis
      using intern_all_keeps [OF wf1 r] intern_id [OF Cons.prems(1) i]
        intern_member [OF Cons.prems(1) i, of s] by (simp add: is_def)
  next
    case (Suc m)
    then show ?thesis using Cons.IH [OF wf1 r, of m] Cons.prems(3) by (simp add: is_def)
  qed
qed simp

end

definition label_intern_opt :: "string list \<Rightarrow> symbol_builder \<Rightarrow> (nat \<times> symbol_builder) option" where
  "label_intern_opt xs b = (case label_intern xs b of Ok r \<Rightarrow> Some r | _ \<Rightarrow> None)"

definition variable_intern_opt ::
  "string list \<Rightarrow> symbol_builder \<Rightarrow> (nat \<times> symbol_builder) option" where
  "variable_intern_opt xs b = Some (variable_intern xs b)"

definition frozen_member :: "symbol_builder \<Rightarrow> nat \<Rightarrow> string \<Rightarrow> bool" where
  "frozen_member b i s = store_contains (symbol_store_build b) i s"

lemma label_intern_opt_Some: "label_intern_opt xs b = Some r \<longleftrightarrow> label_intern xs b = Ok r"
  by (auto simp: label_intern_opt_def split: res.splits)

lemma frozen_member_keeps:
  assumes "wf_symbol_builder b" "wf_symbol_builder b'" "sb_entries b' = sb_entries b @ zs"
    and "j < length (sb_entries b)"
  shows "j < length (sb_entries b') \<and> frozen_member b' j s = frozen_member b j s"
  using assms by (simp add: frozen_member_def store_contains_build nth_append)

interpretation ls: interning_store wf_symbol_builder label_intern_opt
  "\<lambda>b. length (sb_entries b)" frozen_member
proof unfold_locales
  fix b xs i b' j s
  assume wf: "wf_symbol_builder b" and "label_intern_opt xs b = Some (i, b')"
  note spec = label_intern_spec [OF wf this(2) [unfolded label_intern_opt_Some]]
  show "wf_symbol_builder b'" and "i < length (sb_entries b')" using spec by auto
  show "frozen_member b' i s \<longleftrightarrow> s \<in> set xs"
    using spec by (simp add: frozen_member_def store_contains_build)
  show "j < length (sb_entries b') \<and> frozen_member b' j s = frozen_member b j s"
    if "j < length (sb_entries b)"
    using frozen_member_keeps [OF wf] spec that by blast
qed

interpretation vs: interning_store wf_symbol_builder variable_intern_opt
  "\<lambda>b. length (sb_entries b)" frozen_member
proof unfold_locales
  fix b xs i b' j s
  assume wf: "wf_symbol_builder b" and "variable_intern_opt xs b = Some (i, b')"
  then have r: "variable_intern xs b = (i, b')" by (simp add: variable_intern_opt_def)
  note spec = variable_intern_spec [OF wf r]
  show "wf_symbol_builder b'" and "i < length (sb_entries b')" using spec by auto
  show "frozen_member b' i s \<longleftrightarrow> s \<in> set xs"
    using spec by (simp add: frozen_member_def store_contains_build)
  show "j < length (sb_entries b') \<and> frozen_member b' j s = frozen_member b j s"
    if "j < length (sb_entries b)"
    using frozen_member_keeps [OF wf] spec that by blast
qed

subsection \<open>Properties\<close>

text \<open>
  C27: Round trip of the label store. After any run of \<open>LabelStoreBuilder::intern\<close> requests that
  does not overflow the identifiers, the frozen store's \<open>LabelBitSet::test\<close> under the k-th
  returned identifier accepts exactly the symbols of the k-th request, in spite of sorting,
  deduplication, sharing of equal sets and later insertions.
\<close>

theorem label_store_roundtrip:
  assumes "ls.intern_all xss symbol_builder_default = Some (is, b)" and "k < length xss"
  shows "k < length is
    \<and> (store_contains (symbol_store_build b) (is ! k) s \<longleftrightarrow> s \<in> set (xss ! k))"
  using ls.intern_all_member [OF wf_symbol_builder_default assms, of s]
  by (simp add: frozen_member_def)

theorem label_store_roundtrip_witness:
  "\<exists>is b. ls.intern_all [[''b'', ''a''], [''c''], [''a'', ''b'', ''a'']] symbol_builder_default
       = Some (is, b)
     \<and> is = [0, 1, 0] \<and> store_contains (symbol_store_build b) (is ! 2) ''b''
     \<and> \<not> store_contains (symbol_store_build b) (is ! 2) ''c''"
proof -
  let ?xss = "[[''b'', ''a''], [''c''], [''a'', ''b'', ''a'']]"
  obtain b where r: "ls.intern_all ?xss symbol_builder_default = Some ([0, 1, 0], b)"
    by (auto simp: label_intern_opt_def label_intern_def sort_dedup_def symbol_builder_default_def
        try_from_usize_def u32_max_def less_char_def less_list_code less_eq_list_code Let_def)
  show ?thesis
    using r label_store_roundtrip [OF r, of 2 "''b''"] label_store_roundtrip [OF r, of 2 "''c''"]
    by auto
qed

end
