(* ===== verification/Kleene.thy ===== *)
theory Kleene
  imports Mununu_Prelude
begin

section \<open>Three-valued verdicts and three-valued state sets\<close>

text \<open>
  Models \<^verbatim>\<open>mu_calculus/trit.rs\<close> (\<open>Trit\<close>, \<open>TritSet\<close> and its operations) and the labelling
  values \<open>Tristate\<close> of \<^verbatim>\<open>clts/mod.rs\<close>. A \<open>TritSet\<close> is a pair of bit vectors
  \<open>(must_true, may_true)\<close>; the lemmas show that every operation keeps \<open>must_true \<subseteq> may_true\<close>
  and computes the pointwise Kleene connective, where the truth order is
  \<open>TFalse < TUnknown < TTrue\<close>.
\<close>

subsection \<open>Values\<close>

datatype trit = TTrue | TFalse | TUnknown

datatype tristate = KleeneT | KleeneF | KleeneBot

definition tristate_from_bool :: "bool \<Rightarrow> tristate" where
  "tristate_from_bool b = (if b then KleeneT else KleeneF)"

definition tristate_is_true :: "tristate \<Rightarrow> bool" where
  "tristate_is_true t \<longleftrightarrow> t = KleeneT"

definition tristate_is_definite :: "tristate \<Rightarrow> bool" where
  "tristate_is_definite t \<longleftrightarrow> t \<noteq> KleeneBot"

fun trit_of_tristate :: "tristate \<Rightarrow> trit" where
  "trit_of_tristate KleeneT = TTrue"
| "trit_of_tristate KleeneF = TFalse"
| "trit_of_tristate KleeneBot = TUnknown"

fun tristate_of_trit :: "trit \<Rightarrow> tristate" where
  "tristate_of_trit TTrue = KleeneT"
| "tristate_of_trit TFalse = KleeneF"
| "tristate_of_trit TUnknown = KleeneBot"

subsection \<open>Three-valued sets\<close>

record trit_set =
  must_true :: bitvec
  may_true :: bitvec

definition flip_bits :: "bitvec \<Rightarrow> bitvec" where
  \<comment> \<open>the loop \<open>for i in 0..not_oob.len() { not_oob.set(i, !v) }\<close>\<close>
  "flip_bits b = bv_not b"

definition tritset_from_predicate :: "bitvec \<Rightarrow> bitvec \<Rightarrow> trit_set" where
  "tritset_from_predicate bits oob_bits =
     (let must = bv_and bits (flip_bits oob_bits);
          may = bv_or bits oob_bits
      in \<lparr>must_true = must, may_true = may\<rparr>)"

definition tritset_all_true :: "nat \<Rightarrow> bitvec \<Rightarrow> trit_set" where
  "tritset_all_true state_count oob_bits =
     (let must = bv_and (bv_repeat True state_count) (flip_bits oob_bits);
          may = bv_repeat True state_count
      in \<lparr>must_true = must, may_true = may\<rparr>)"

definition tritset_all_false :: "nat \<Rightarrow> trit_set" where
  "tritset_all_false state_count =
     \<lparr>must_true = bv_repeat False state_count, may_true = bv_repeat False state_count\<rparr>"

definition tritset_len :: "trit_set \<Rightarrow> nat" where
  "tritset_len t = length (must_true t)"

definition verdict_at :: "trit_set \<Rightarrow> nat \<Rightarrow> trit" where
  "verdict_at t s =
     (if bit_is_set (must_true t) s then TTrue
      else if bit_is_set (may_true t) s then TUnknown
      else TFalse)"

definition tritset_and :: "trit_set \<Rightarrow> trit_set \<Rightarrow> trit_set" where
  "tritset_and a b =
     \<lparr>must_true = bv_and (must_true a) (must_true b), may_true = bv_and (may_true a) (may_true b)\<rparr>"

definition tritset_or :: "trit_set \<Rightarrow> trit_set \<Rightarrow> trit_set" where
  "tritset_or a b =
     \<lparr>must_true = bv_or (must_true a) (must_true b), may_true = bv_or (may_true a) (may_true b)\<rparr>"

definition tritset_eq_set :: "trit_set \<Rightarrow> trit_set \<Rightarrow> bool" where
  "tritset_eq_set a b \<longleftrightarrow> must_true a = must_true b \<and> may_true a = may_true b"

definition tritset_from_parts :: "bitvec \<Rightarrow> bitvec \<Rightarrow> trit_set" where
  "tritset_from_parts must may = \<lparr>must_true = must, may_true = may\<rparr>"

definition bitvec_complement :: "bitvec \<Rightarrow> bitvec" where
  "bitvec_complement b = map Not b"

definition tritset_not :: "trit_set \<Rightarrow> trit_set" where
  "tritset_not t =
     (let new_must = bitvec_complement (may_true t);
          new_may = bitvec_complement (must_true t)
      in \<lparr>must_true = new_must, may_true = new_may\<rparr>)"

text \<open>The invariant the module documents, for sets over \<open>n\<close> states.\<close>

definition wf_tritset :: "nat \<Rightarrow> trit_set \<Rightarrow> bool" where
  "wf_tritset n t \<longleftrightarrow> length (must_true t) = n \<and> length (may_true t) = n
     \<and> bset (must_true t) \<subseteq> bset (may_true t)"

text \<open>The pointwise specification: Kleene's connectives on the truth order.\<close>

instantiation trit :: linorder
begin

fun trit_rank :: "trit \<Rightarrow> nat" where
  "trit_rank TFalse = 0"
| "trit_rank TUnknown = 1"
| "trit_rank TTrue = 2"

definition less_eq_trit :: "trit \<Rightarrow> trit \<Rightarrow> bool" where
  "less_eq_trit a b \<longleftrightarrow> trit_rank a \<le> trit_rank b"

definition less_trit :: "trit \<Rightarrow> trit \<Rightarrow> bool" where
  "less_trit a b \<longleftrightarrow> trit_rank a < trit_rank b"

instance
proof
  fix a b c :: trit
  show "(a < b) = (a \<le> b \<and> \<not> b \<le> a)" by (auto simp: less_trit_def less_eq_trit_def)
  show "a \<le> a" by (simp add: less_eq_trit_def)
  show "a \<le> b \<Longrightarrow> b \<le> c \<Longrightarrow> a \<le> c" by (simp add: less_eq_trit_def)
  show "a \<le> b \<Longrightarrow> b \<le> a \<Longrightarrow> a = b" by (cases a; cases b) (auto simp: less_eq_trit_def)
  show "a \<le> b \<or> b \<le> a" by (auto simp: less_eq_trit_def)
qed

end

fun trit_not :: "trit \<Rightarrow> trit" where
  "trit_not TTrue = TFalse"
| "trit_not TFalse = TTrue"
| "trit_not TUnknown = TUnknown"

subsection \<open>Lemmas\<close>

lemmas tritset_defs =
  tritset_from_predicate_def tritset_all_true_def tritset_all_false_def tritset_and_def
  tritset_or_def tritset_not_def tritset_from_parts_def flip_bits_def Let_def

lemma bset_complement [bv_simps]: "bset (bitvec_complement a) = {..<length a} - bset a"
  using bset_not [of a] by (simp add: bitvec_complement_def bv_not_def)

lemma length_complement [simp]: "length (bitvec_complement a) = length a"
  by (simp add: bitvec_complement_def)

lemma trit_min_max:
  "min a b = (if trit_rank a \<le> trit_rank b then a else b)"
  "max a b = (if trit_rank a \<le> trit_rank b then b else a)"
  by (simp_all add: min_def max_def less_eq_trit_def)

lemma trit_not_not [simp]: "trit_not (trit_not t) = t"
  by (cases t) simp_all

lemma wf_tritset_and [intro]: "wf_tritset n a \<Longrightarrow> wf_tritset n b \<Longrightarrow> wf_tritset n (tritset_and a b)"
  by (auto simp: wf_tritset_def tritset_defs bset_and)

lemma wf_tritset_or [intro]: "wf_tritset n a \<Longrightarrow> wf_tritset n b \<Longrightarrow> wf_tritset n (tritset_or a b)"
  by (auto simp: wf_tritset_def tritset_defs bset_or)

lemma wf_tritset_not [intro]: "wf_tritset n a \<Longrightarrow> wf_tritset n (tritset_not a)"
  by (auto simp: wf_tritset_def tritset_defs bset_complement)

lemma wf_tritset_all_true [intro]: "length oob = n \<Longrightarrow> wf_tritset n (tritset_all_true n oob)"
  by (auto simp: wf_tritset_def tritset_defs bv_simps)

lemma wf_tritset_all_false [intro]: "wf_tritset n (tritset_all_false n)"
  by (auto simp: wf_tritset_def tritset_defs)

lemma wf_tritset_from_predicate [intro]:
  "length bits = n \<Longrightarrow> length oob = n \<Longrightarrow> wf_tritset n (tritset_from_predicate bits oob)"
  by (auto simp: wf_tritset_def tritset_defs bv_simps)

lemma tritset_eqI:
  "wf_tritset n a \<Longrightarrow> wf_tritset n b \<Longrightarrow> (\<And>i. i < n \<Longrightarrow> verdict_at a i = verdict_at b i) \<Longrightarrow> a = b"
proof -
  assume a: "wf_tritset n a" and b: "wf_tritset n b"
    and eq: "\<And>i. i < n \<Longrightarrow> verdict_at a i = verdict_at b i"
  have pt: "(i \<in> bset (must_true a) \<longleftrightarrow> i \<in> bset (must_true b))
      \<and> (i \<in> bset (may_true a) \<longleftrightarrow> i \<in> bset (may_true b))" if "i < n" for i
    using eq [OF that] a b by (auto simp: verdict_at_def wf_tritset_def split: if_splits)
  have "must_true a = must_true b"
    using a b pt by (intro bv_eqI [of _ n]) (auto simp: wf_tritset_def)
  moreover have "may_true a = may_true b"
    using a b pt by (intro bv_eqI [of _ n]) (auto simp: wf_tritset_def)
  ultimately show "a = b" by simp
qed

lemma verdict_and:
  "wf_tritset n a \<Longrightarrow> wf_tritset n b \<Longrightarrow>
   verdict_at (tritset_and a b) i = min (verdict_at a i) (verdict_at b i)"
  by (auto simp: verdict_at_def tritset_defs wf_tritset_def bset_and trit_min_max)

lemma verdict_or:
  "wf_tritset n a \<Longrightarrow> wf_tritset n b \<Longrightarrow>
   verdict_at (tritset_or a b) i = max (verdict_at a i) (verdict_at b i)"
  by (auto simp: verdict_at_def tritset_defs wf_tritset_def bset_or trit_min_max)

lemma verdict_not:
  "wf_tritset n a \<Longrightarrow> i < n \<Longrightarrow> verdict_at (tritset_not a) i = trit_not (verdict_at a i)"
  by (auto simp: verdict_at_def tritset_defs wf_tritset_def bset_complement)

subsection \<open>Properties\<close>

text \<open>
  C26: The operations of \<open>TritSet\<close> compute Kleene's three-valued connectives at every state:
  conjunction is the minimum, disjunction the maximum and negation the swap of true and
  false in the truth order, and all three keep the documented invariant
  \<open>must_true \<subseteq> may_true\<close>.
\<close>

theorem tritset_ops_kleene:
  assumes "wf_tritset n a" and "wf_tritset n b" and "i < n"
  shows "verdict_at (tritset_and a b) i = min (verdict_at a i) (verdict_at b i)
    \<and> verdict_at (tritset_or a b) i = max (verdict_at a i) (verdict_at b i)
    \<and> verdict_at (tritset_not a) i = trit_not (verdict_at a i)
    \<and> wf_tritset n (tritset_and a b) \<and> wf_tritset n (tritset_or a b)
    \<and> wf_tritset n (tritset_not a)"
  using assms verdict_and [of n a b i] verdict_or [of n a b i] verdict_not [of n a i] by auto

theorem tritset_ops_kleene_witness:
  "let a = \<lparr>must_true = [True, False, False], may_true = [True, True, False]\<rparr>;
       b = \<lparr>must_true = [False, False, False], may_true = [True, True, True]\<rparr>
   in verdict_at (tritset_and a b) 1 = min (verdict_at a 1) (verdict_at b 1)"
proof -
  have "wf_tritset 3 \<lparr>must_true = [True, False, False], may_true = [True, True, False]\<rparr>"
    and "wf_tritset 3 \<lparr>must_true = [False, False, False], may_true = [True, True, True]\<rparr>"
    by (auto simp: wf_tritset_def mem_bset_iff nth_Cons split: nat.splits)
  from tritset_ops_kleene [OF this, of 1] show ?thesis by simp
qed

text \<open>
  Three-valued negation is an involution on well-formed sets, and a state whose atomic
  value comes from an out-of-bounds sink is Unknown under \<open>from_predicate\<close> and stays
  Unknown under negation.
\<close>

lemma tritset_not_involutive_oob:
  assumes "wf_tritset n a" and "length bits = n" and "length oob = n" and "i \<in> bset oob"
  shows "tritset_not (tritset_not a) = a
    \<and> verdict_at (tritset_from_predicate bits oob) i = TUnknown
    \<and> verdict_at (tritset_not (tritset_from_predicate bits oob)) i = TUnknown"
proof -
  have i: "i < n" using assms(3,4) bset_less by auto
  have wf: "wf_tritset n (tritset_from_predicate bits oob)" using assms(2,3) by auto
  have "tritset_not (tritset_not a) = a"
  proof (rule tritset_eqI [of n])
    show "verdict_at (tritset_not (tritset_not a)) j = verdict_at a j" if "j < n" for j
      using verdict_not [OF wf_tritset_not, OF assms(1) that] verdict_not [OF assms(1) that] by simp
  qed (use assms(1) in auto)
  moreover have "verdict_at (tritset_from_predicate bits oob) i = TUnknown"
    using assms(2,3,4) by (auto simp: verdict_at_def tritset_defs bv_simps)
  ultimately show ?thesis using verdict_not [OF wf i] by simp
qed

end
