(* ===== verification/Clts.thy ===== *)
theory Clts
  imports Symbol_Store Kleene
begin

section \<open>Compositional labelled transition systems\<close>

text \<open>
  Models \<^verbatim>\<open>clts/mod.rs\<close>: transitions with their KMTS modality, the frozen \<open>Clts\<close> with its
  alphabets and precomputed uncontrollable groups, and \<open>CltsBuilder\<close> with every operation that
  changes it. State and label identifiers are their \<^verbatim>\<open>u32\<close> indices, as \<open>nat\<close>; hash maps are
  association lists, hash sets are sets. Capacity reservation, the state-set pool and the
  buffer pools only affect allocation and are left out.

  \<open>builder_reach\<close> is the set of builder states the public operations can produce (respecting
  their debug assertions); the lemmas show that \<open>build\<close> on such a state either reports the
  recorded identifier overflow or yields a well-formed CLTS.
\<close>

subsection \<open>Modalities and transitions\<close>

datatype label_controllability = LControllable | LInternal | LUncontrollable

datatype transition_modality = Sharp | MayOnly | MustHyperOnly "nat list"

fun has_must :: "transition_modality \<Rightarrow> bool" where
  "has_must Sharp = True"
| "has_must (MustHyperOnly ts) = True"
| "has_must MayOnly = False"

definition has_may :: "transition_modality \<Rightarrow> bool" where
  "has_may m = True"

fun is_hyper :: "transition_modality \<Rightarrow> bool" where
  "is_hyper (MustHyperOnly ts) = True"
| "is_hyper m = False"

definition modality_merge :: "transition_modality \<Rightarrow> transition_modality \<Rightarrow> transition_modality" where
  "modality_merge lhs rhs =
     (if has_must lhs \<and> has_must rhs
      then if is_hyper lhs \<or> is_hyper rhs then MustHyperOnly [] else Sharp
      else MayOnly)"

fun hyper_targets :: "transition_modality \<Rightarrow> nat list option" where
  "hyper_targets (MustHyperOnly ts) = Some ts"
| "hyper_targets m = None"

fun must_target_set :: "transition_modality \<Rightarrow> nat \<Rightarrow> nat list" where
  "must_target_set Sharp fallback = [fallback]"
| "must_target_set (MustHyperOnly ts) fallback = ts"
| "must_target_set MayOnly fallback = []"

record transition =
  t_target :: nat
  t_labels :: "nat list"
  t_modality :: transition_modality

subsection \<open>The frozen system\<close>

type_synonym label_groups = "(nat list \<times> nat list) list"
type_synonym valuation = "(string \<times> string) list"

record clts =
  c_state_names :: "string list"
  c_state_map :: "(string \<times> nat) list"
  c_initial_states :: "nat set"
  c_outgoing :: "transition list list"
  c_incoming :: "transition list list"
  c_labels :: symbol_store
  c_variables :: symbol_store
  c_state_variables :: "nat list"
  c_state_valuations :: "valuation option list"
  c_state_3valued :: "((nat \<times> string) \<times> tristate) list option"
  c_label_controllability :: "(nat \<times> label_controllability) list"
  c_uncontrollable_alphabet :: "nat set"
  c_controllable_alphabet :: "nat set"
  c_internal_alphabet :: "nat set"
  c_uncontrollable_groups :: "label_groups list"

definition state_count :: "clts \<Rightarrow> nat" where
  "state_count c = length (c_state_names c)"

definition state_id :: "clts \<Rightarrow> string \<Rightarrow> (clts_error, nat) res" where
  "state_id c name = (case map_of (c_state_map c) name of
     Some i \<Rightarrow> Ok i | None \<Rightarrow> Err (UnknownState name))"

definition outgoing :: "clts \<Rightarrow> nat \<Rightarrow> transition list" where
  "outgoing c s = c_outgoing c ! s"

definition label_payload :: "clts \<Rightarrow> nat \<Rightarrow> string list option" where
  "label_payload c l = store_get (c_labels c) l"

definition label_has :: "clts \<Rightarrow> nat \<Rightarrow> string \<Rightarrow> bool" where
  \<comment> \<open>\<open>label_bitset(l).is_some_and(|b| b.test(symbol))\<close>\<close>
  "label_has c l symbol = store_contains (c_labels c) l symbol"

definition state_has_var :: "clts \<Rightarrow> nat \<Rightarrow> string \<Rightarrow> bool" where
  \<comment> \<open>\<open>state_variable_bitset(s).contains(var)\<close>\<close>
  "state_has_var c s var =
     bitset_test (c_variables c) (st_bitsets (c_variables c) ! (c_state_variables c ! s)) var"

definition is_uncontrollable_label :: "clts \<Rightarrow> nat \<Rightarrow> bool" where
  "is_uncontrollable_label c l \<longleftrightarrow> l \<in> c_uncontrollable_alphabet c"

definition is_controllable_label :: "clts \<Rightarrow> nat \<Rightarrow> bool" where
  "is_controllable_label c l \<longleftrightarrow> l \<in> c_controllable_alphabet c"

definition is_internal_label :: "clts \<Rightarrow> nat \<Rightarrow> bool" where
  "is_internal_label c l \<longleftrightarrow> l \<in> c_internal_alphabet c"

definition is_controllable :: "clts \<Rightarrow> transition \<Rightarrow> bool" where
  "is_controllable c t =
     (if t_labels t = [] then False
      else list_all (\<lambda>l. is_controllable_label c l \<or> is_internal_label c l) (t_labels t))"

definition is_uncontrollable :: "clts \<Rightarrow> transition \<Rightarrow> bool" where
  "is_uncontrollable c t =
     (if t_labels t = [] then True
      else list_ex (is_uncontrollable_label c) (t_labels t))"

definition state_valuation :: "clts \<Rightarrow> nat \<Rightarrow> valuation option" where
  "state_valuation c s =
     (if s < length (c_state_valuations c) then c_state_valuations c ! s else None)"

definition state_3valued_predicate :: "clts \<Rightarrow> nat \<Rightarrow> string \<Rightarrow> tristate option" where
  "state_3valued_predicate c s p =
     (case c_state_3valued c of None \<Rightarrow> None | Some m \<Rightarrow> map_of m (s, p))"

definition has_3valued_predicates :: "clts \<Rightarrow> bool" where
  "has_3valued_predicates c = (case c_state_3valued c of None \<Rightarrow> False | Some m \<Rightarrow> m \<noteq> [])"

definition alphabet :: "clts \<Rightarrow> string set" where
  "alphabet c = {s. \<exists>l \<in> c_controllable_alphabet c \<union> c_internal_alphabet c
       \<union> c_uncontrollable_alphabet c. \<exists>p. store_get (c_labels c) l = Some p \<and> s \<in> set p}"

subsection \<open>The builder\<close>

record transition_spec =
  ts_from :: nat
  ts_to :: nat
  ts_labels :: "nat list"
  ts_modality :: transition_modality

record clts_builder =
  b_state_names :: "string list"
  b_state_map :: "(string \<times> nat) list"
  b_state_overflow :: "nat option"
  b_initial_states :: "nat set"
  b_transitions :: "transition_spec list"
  b_labels :: symbol_builder
  b_variables :: symbol_builder
  b_state_variables :: "nat list"
  b_state_valuations :: "valuation option list"
  b_state_3valued :: "((nat \<times> string) \<times> tristate) list option"
  b_label_controllability :: "(nat \<times> label_controllability) list"
  b_declared_labels :: "nat set"

definition builder_default :: clts_builder where
  "builder_default =
     \<lparr>b_state_names = [], b_state_map = [], b_state_overflow = None, b_initial_states = {},
      b_transitions = [], b_labels = symbol_builder_default, b_variables = symbol_builder_default,
      b_state_variables = [], b_state_valuations = [], b_state_3valued = None,
      b_label_controllability = [], b_declared_labels = {}\<rparr>"

definition with_label_store :: "symbol_builder \<Rightarrow> clts_builder" where
  "with_label_store ls = builder_default\<lparr>b_labels := ls\<rparr>"

definition insert_state_owned :: "string \<Rightarrow> clts_builder \<Rightarrow> nat option \<times> clts_builder" where
  "insert_state_owned name b =
     (case map_of (b_state_map b) name of
        Some i \<Rightarrow> (Some i, b)
      | None \<Rightarrow>
          (let next_index = length (b_state_names b)
           in case try_from_usize next_index of
                Some i \<Rightarrow>
                  (let (vid, vars) = variable_empty (b_variables b)
                   in (Some i,
                       b\<lparr>b_variables := vars,
                         b_state_variables := b_state_variables b @ [vid],
                         b_state_valuations := b_state_valuations b @ [None],
                         b_state_map := (name, i) # b_state_map b,
                         b_state_names := b_state_names b @ [name]\<rparr>))
              | None \<Rightarrow>
                  (None, b\<lparr>b_state_overflow := (case b_state_overflow b of
                             None \<Rightarrow> Some next_index | Some v \<Rightarrow> Some v)\<rparr>)))"

definition builder_state :: "string \<Rightarrow> clts_builder \<Rightarrow> clts_builder" where
  "builder_state name b = snd (insert_state_owned name b)"

definition state_with_name :: "string \<Rightarrow> clts_builder \<Rightarrow> nat option \<times> clts_builder" where
  "state_with_name name b = insert_state_owned name b"

definition initial_state_id :: "nat \<Rightarrow> clts_builder \<Rightarrow> clts_builder" where
  "initial_state_id s b = b\<lparr>b_initial_states := insert s (b_initial_states b)\<rparr>"

definition builder_initial :: "string \<Rightarrow> clts_builder \<Rightarrow> clts_builder" where
  "builder_initial name b =
     (case insert_state_owned name b of
        (Some i, b1) \<Rightarrow> b1\<lparr>b_initial_states := insert i (b_initial_states b1)\<rparr>
      | (None, b1) \<Rightarrow> b1)"

definition with_variables_for_state :: "nat \<Rightarrow> string list \<Rightarrow> clts_builder \<Rightarrow> clts_builder" where
  "with_variables_for_state s vars b =
     (let (set_id, store) = variable_intern vars (b_variables b)
      in b\<lparr>b_variables := store,
           b_state_variables := (if s < length (b_state_variables b)
             then (b_state_variables b)[s := set_id] else b_state_variables b)\<rparr>)"

definition with_variables :: "string \<Rightarrow> string list \<Rightarrow> clts_builder \<Rightarrow> clts_builder" where
  "with_variables name vars b =
     (case insert_state_owned name b of
        (Some i, b1) \<Rightarrow> with_variables_for_state i vars b1
      | (None, b1) \<Rightarrow> b1)"

definition with_valuation_for_state :: "nat \<Rightarrow> valuation \<Rightarrow> clts_builder \<Rightarrow> clts_builder" where
  "with_valuation_for_state s v b =
     b\<lparr>b_state_valuations := (if s < length (b_state_valuations b)
         then (b_state_valuations b)[s := Some v] else b_state_valuations b)\<rparr>"

definition with_3valued_predicate ::
  "nat \<Rightarrow> string \<Rightarrow> tristate \<Rightarrow> clts_builder \<Rightarrow> clts_builder" where
  "with_3valued_predicate s p verdict b =
     (let m = (case b_state_3valued b of None \<Rightarrow> [] | Some m \<Rightarrow> m)
      in b\<lparr>b_state_3valued := Some (AList.update (s, p) verdict m)\<rparr>)"

definition transition_ids_with_modality ::
  "nat \<Rightarrow> nat list \<Rightarrow> nat \<Rightarrow> transition_modality \<Rightarrow> clts_builder \<Rightarrow> clts_builder" where
  "transition_ids_with_modality from labels to m b =
     b\<lparr>b_transitions := b_transitions b @
         [\<lparr>ts_from = from, ts_to = to, ts_labels = labels, ts_modality = m\<rparr>]\<rparr>"

definition transition_ids :: "nat \<Rightarrow> nat list \<Rightarrow> nat \<Rightarrow> clts_builder \<Rightarrow> clts_builder" where
  "transition_ids from labels to b = transition_ids_with_modality from labels to Sharp b"

definition builder_transition :: "string \<Rightarrow> nat list \<Rightarrow> string \<Rightarrow> clts_builder \<Rightarrow> clts_builder" where
  "builder_transition from labels to b =
     (let (from_id, b1) = insert_state_owned from b; (to_id, b2) = insert_state_owned to b1
      in case (from_id, to_id) of
           (Some f, Some t) \<Rightarrow> transition_ids f labels t b2
         | _ \<Rightarrow> b2)"

definition set_label_controllability ::
  "nat \<Rightarrow> label_controllability \<Rightarrow> clts_builder \<Rightarrow> clts_builder" where
  "set_label_controllability l c b =
     b\<lparr>b_label_controllability := AList.update l c (b_label_controllability b)\<rparr>"

definition declare_in_alphabet :: "nat \<Rightarrow> clts_builder \<Rightarrow> clts_builder" where
  "declare_in_alphabet l b = b\<lparr>b_declared_labels := insert l (b_declared_labels b)\<rparr>"

definition builder_intern_label ::
  "string list \<Rightarrow> clts_builder \<Rightarrow> (clts_error, nat \<times> clts_builder) res" where
  \<comment> \<open>\<open>builder.labels().intern(symbols)\<close>\<close>
  "builder_intern_label symbols b =
     rbind (label_intern symbols (b_labels b)) (\<lambda>(i, ls). Ok (i, b\<lparr>b_labels := ls\<rparr>))"

subsection \<open>Building\<close>

definition mk_outgoing :: "transition_spec \<Rightarrow> transition" where
  "mk_outgoing spec =
     \<lparr>t_target = ts_to spec, t_labels = ts_labels spec, t_modality = ts_modality spec\<rparr>"

definition mk_incoming :: "transition_spec \<Rightarrow> transition" where
  "mk_incoming spec =
     \<lparr>t_target = ts_from spec, t_labels = ts_labels spec, t_modality = ts_modality spec\<rparr>"

definition group_push :: "'k \<Rightarrow> 'v \<Rightarrow> ('k \<times> 'v list) list \<Rightarrow> ('k \<times> 'v list) list" where
  \<comment> \<open>\<open>entry(key).or_default().push(idx)\<close>\<close>
  "group_push key idx m =
     (case map_of m key of
        None \<Rightarrow> m @ [(key, [idx])]
      | Some is \<Rightarrow> AList.update key (is @ [idx]) m)"

definition should_group :: "nat set \<Rightarrow> transition \<Rightarrow> bool" where
  "should_group uncontrollable t \<longleftrightarrow>
     t_labels t = [] \<or> list_ex (\<lambda>l. l \<in> uncontrollable) (t_labels t)"

fun group_from :: "nat set \<Rightarrow> nat \<Rightarrow> transition list \<Rightarrow> label_groups \<Rightarrow> label_groups" where
  "group_from u i [] m = m"
| "group_from u i (t # ts) m =
     group_from u (Suc i) ts
       (if should_group u t then group_push (sort (t_labels t)) i m else m)"

definition all_labels :: "clts_builder \<Rightarrow> nat set" where
  "all_labels b = (\<Union>spec \<in> set (b_transitions b). set (ts_labels spec)) \<union> b_declared_labels b"

definition alphabet_of ::
  "clts_builder \<Rightarrow> label_controllability option \<Rightarrow> nat set" where
  "alphabet_of b k = {l \<in> all_labels b. map_of (b_label_controllability b) l = k}"

definition builder_build :: "clts_builder \<Rightarrow> (clts_error, clts) res" where
  "builder_build b =
     (case b_state_overflow b of
        Some value \<Rightarrow> Err (IdOverflow ''state'' value)
      | None \<Rightarrow>
          (let n = length (b_state_names b)
           in if \<not> list_all (\<lambda>spec. ts_from spec < n \<and> ts_to spec < n) (b_transitions b)
              then Panic
              else
                (let outs = map (\<lambda>s. map mk_outgoing
                       (filter (\<lambda>spec. ts_from spec = s) (b_transitions b))) [0..<n];
                     ins = map (\<lambda>s. map mk_incoming
                       (filter (\<lambda>spec. ts_to spec = s) (b_transitions b))) [0..<n];
                     uncontrollable = alphabet_of b (Some LUncontrollable);
                     controllable = alphabet_of b (Some LControllable) \<union> alphabet_of b None;
                     internal = alphabet_of b (Some LInternal)
                 in Ok \<lparr>c_state_names = b_state_names b,
                        c_state_map = b_state_map b,
                        c_initial_states = b_initial_states b,
                        c_outgoing = outs, c_incoming = ins,
                        c_labels = symbol_store_build (b_labels b),
                        c_variables = symbol_store_build (b_variables b),
                        c_state_variables = b_state_variables b,
                        c_state_valuations = b_state_valuations b,
                        c_state_3valued = b_state_3valued b,
                        c_label_controllability = b_label_controllability b,
                        c_uncontrollable_alphabet = uncontrollable,
                        c_controllable_alphabet = controllable,
                        c_internal_alphabet = internal,
                        c_uncontrollable_groups =
                          map (\<lambda>ts. group_from uncontrollable 0 ts []) outs\<rparr>)))"

subsection \<open>Well-formedness\<close>

definition wf_clts :: "clts \<Rightarrow> bool" where
  "wf_clts c \<longleftrightarrow>
     length (c_outgoing c) = state_count c \<and> length (c_incoming c) = state_count c
     \<and> length (c_state_variables c) = state_count c
     \<and> length (c_state_valuations c) = state_count c
     \<and> (\<forall>ts \<in> set (c_outgoing c). \<forall>t \<in> set ts. t_target t < state_count c
          \<and> set (t_labels t) \<subseteq> c_uncontrollable_alphabet c \<union> c_controllable_alphabet c
              \<union> c_internal_alphabet c)
     \<and> (\<forall>v \<in> set (c_state_variables c). v < length (st_bitsets (c_variables c)))
     \<and> c_uncontrollable_alphabet c \<inter> (c_controllable_alphabet c \<union> c_internal_alphabet c) = {}
     \<and> c_initial_states c \<subseteq> {..<state_count c}
     \<and> c_uncontrollable_groups c =
         map (\<lambda>ts. group_from (c_uncontrollable_alphabet c) 0 ts []) (c_outgoing c)"

definition builder_inv :: "clts_builder \<Rightarrow> bool" where
  "builder_inv b \<longleftrightarrow>
     length (b_state_variables b) = length (b_state_names b)
     \<and> length (b_state_valuations b) = length (b_state_names b)
     \<and> distinct (b_state_names b)
     \<and> (\<forall>name i. map_of (b_state_map b) name = Some i
           \<longleftrightarrow> i < length (b_state_names b) \<and> b_state_names b ! i = name)
     \<and> (\<forall>spec \<in> set (b_transitions b). ts_from spec < length (b_state_names b)
           \<and> ts_to spec < length (b_state_names b))
     \<and> b_initial_states b \<subseteq> {..<length (b_state_names b)}
     \<and> wf_symbol_builder (b_labels b) \<and> wf_symbol_builder (b_variables b)
     \<and> (\<forall>v \<in> set (b_state_variables b). v < length (sb_entries (b_variables b)))
     \<and> length (b_state_names b) \<le> Suc u32_max"

text \<open>
  The states a builder can be in. The premises on identifiers are the \<^verbatim>\<open>debug_assert!\<close>s of the
  operations that take identifiers instead of names.
\<close>

inductive builder_reach :: "clts_builder \<Rightarrow> bool" where
  br_default: "builder_reach builder_default"
| br_label_store: "wf_symbol_builder ls \<Longrightarrow> builder_reach (with_label_store ls)"
| br_state: "builder_reach b \<Longrightarrow> builder_reach (builder_state name b)"
| br_state_with_name: "builder_reach b \<Longrightarrow> builder_reach (snd (state_with_name name b))"
| br_initial: "builder_reach b \<Longrightarrow> builder_reach (builder_initial name b)"
| br_initial_id: "builder_reach b \<Longrightarrow> s < length (b_state_variables b) \<Longrightarrow>
    builder_reach (initial_state_id s b)"
| br_vars: "builder_reach b \<Longrightarrow> builder_reach (with_variables name vars b)"
| br_vars_id: "builder_reach b \<Longrightarrow> s < length (b_state_variables b) \<Longrightarrow>
    builder_reach (with_variables_for_state s vars b)"
| br_valuation: "builder_reach b \<Longrightarrow> s < length (b_state_valuations b) \<Longrightarrow>
    builder_reach (with_valuation_for_state s v b)"
| br_3valued: "builder_reach b \<Longrightarrow> builder_reach (with_3valued_predicate s p verdict b)"
| br_transition: "builder_reach b \<Longrightarrow> builder_reach (builder_transition from labels to b)"
| br_transition_ids: "builder_reach b \<Longrightarrow> f < length (b_state_variables b) \<Longrightarrow>
    t < length (b_state_variables b) \<Longrightarrow> builder_reach (transition_ids_with_modality f labels t m b)"
| br_controllability: "builder_reach b \<Longrightarrow> builder_reach (set_label_controllability l c b)"
| br_declare: "builder_reach b \<Longrightarrow> builder_reach (declare_in_alphabet l b)"
| br_intern: "builder_reach b \<Longrightarrow> builder_intern_label symbols b = Ok (i, b') \<Longrightarrow> builder_reach b'"

subsection \<open>The builder keeps its invariant\<close>

lemma builder_inv_default [simp]: "builder_inv builder_default"
  by (simp add: builder_inv_def builder_default_def)

lemma builder_inv_label_store: "wf_symbol_builder ls \<Longrightarrow> builder_inv (with_label_store ls)"
  by (simp add: builder_inv_def builder_default_def with_label_store_def)

lemma builder_inv_variables:
  assumes inv: "builder_inv b" and vi: "variable_intern xs (b_variables b) = (i, vars)"
  shows "builder_inv (b\<lparr>b_variables := vars\<rparr>)" and "i < length (sb_entries vars)"
proof -
  have "wf_symbol_builder (b_variables b)" using inv by (simp add: builder_inv_def)
  note spec = variable_intern_spec [OF this vi]
  then obtain zs where "sb_entries vars = sb_entries (b_variables b) @ zs" by blast
  then show "builder_inv (b\<lparr>b_variables := vars\<rparr>)"
    using inv spec by (auto simp: builder_inv_def)
  show "i < length (sb_entries vars)" using spec by blast
qed

lemma builder_inv_new_state:
  assumes inv: "builder_inv b" and new: "map_of (b_state_map b) name = None"
    and len: "length (b_state_names b) \<le> u32_max" and v: "v < length (sb_entries (b_variables b))"
  shows "builder_inv (b\<lparr>b_state_variables := b_state_variables b @ [v],
           b_state_valuations := b_state_valuations b @ [None],
           b_state_map := (name, length (b_state_names b)) # b_state_map b,
           b_state_names := b_state_names b @ [name]\<rparr>)"
proof -
  have old: "map_of (b_state_map b) m = Some i
      \<longleftrightarrow> i < length (b_state_names b) \<and> b_state_names b ! i = m" for m i
    using inv by (simp add: builder_inv_def)
  have fresh: "b_state_names b ! i \<noteq> name" if "i < length (b_state_names b)" for i
    using old [of name i] new that by auto
  have nin: "name \<notin> set (b_state_names b)"
    using fresh by (auto simp: in_set_conv_nth)
  have "((if m = name then Some (length (b_state_names b)) else map_of (b_state_map b) m) = Some i)
      = (i < Suc (length (b_state_names b)) \<and> (b_state_names b @ [name]) ! i = m)" for m i
    using fresh by (auto simp: old nth_append less_Suc_eq)
  then show ?thesis
    using inv nin len v by (auto simp: builder_inv_def less_Suc_eq)
qed

lemma insert_state_inv:
  assumes inv: "builder_inv b" and r: "insert_state_owned name b = (r, b')"
  shows "builder_inv b' \<and> (\<forall>i. r = Some i \<longrightarrow> i < length (b_state_names b')
      \<and> b_state_names b' ! i = name)
    \<and> (\<exists>zs. b_state_names b' = b_state_names b @ zs)"
proof (cases "map_of (b_state_map b) name")
  case (Some i)
  moreover have "i < length (b_state_names b) \<and> b_state_names b ! i = name"
    using Some inv by (simp add: builder_inv_def)
  ultimately show ?thesis using r inv by (auto simp: insert_state_owned_def)
next
  case None
  show ?thesis
  proof (cases "length (b_state_names b) \<le> u32_max")
    case True
    obtain v vars where vi: "variable_empty (b_variables b) = (v, vars)" by force
    note vars = builder_inv_variables [OF inv vi [unfolded variable_empty_def]]
    show ?thesis
      using builder_inv_new_state [OF vars(1), of name v] vars(2) None True r vi
      by (auto simp: insert_state_owned_def try_from_usize_def Let_def)
  next
    case False
    then show ?thesis using r None inv
      by (auto simp: insert_state_owned_def try_from_usize_def builder_inv_def Let_def)
  qed
qed

lemma insert_state_inv_snd: "builder_inv b \<Longrightarrow> builder_inv (snd (insert_state_owned name b))"
  using insert_state_inv [of b name] by (metis surj_pair snd_conv)

lemma with_variables_for_state_inv:
  assumes "builder_inv b"
  shows "builder_inv (with_variables_for_state s vars b)"
proof -
  obtain i store where vi: "variable_intern vars (b_variables b) = (i, store)" by force
  note vars = builder_inv_variables [OF assms vi]
  have "v < length (sb_entries store)" if "v \<in> set ((b_state_variables b)[s := i])" for v
    using that vars set_update_subset_insert [of "b_state_variables b" s i]
    by (auto simp: builder_inv_def)
  then show ?thesis
    using vars
    by (auto simp: with_variables_for_state_def vi builder_inv_def)
qed

lemma transition_ids_inv:
  "builder_inv b \<Longrightarrow> f < length (b_state_names b) \<Longrightarrow> t < length (b_state_names b) \<Longrightarrow>
     builder_inv (transition_ids_with_modality f ls t m b)"
  by (auto simp: builder_inv_def transition_ids_with_modality_def)

lemma builder_transition_inv:
  assumes "builder_inv b"
  shows "builder_inv (builder_transition from labels to b)"
proof -
  obtain f b1 t b2 where r: "insert_state_owned from b = (f, b1)" "insert_state_owned to b1 = (t, b2)"
    by (metis surj_pair)
  note i1 = insert_state_inv [OF assms r(1)]
  note i2 = insert_state_inv [OF conjunct1 [OF i1] r(2)]
  show ?thesis
    using i1 i2 transition_ids_inv [OF conjunct1 [OF i2]]
    by (auto simp: builder_transition_def r transition_ids_def split: option.splits)
qed

lemma builder_initial_inv:
  assumes "builder_inv b"
  shows "builder_inv (builder_initial name b)"
proof -
  obtain r b1 where r: "insert_state_owned name b = (r, b1)" by force
  show ?thesis
    using insert_state_inv [OF assms r]
    by (auto simp: builder_initial_def r builder_inv_def split: option.splits)
qed

lemma with_variables_inv:
  assumes "builder_inv b"
  shows "builder_inv (with_variables name vars b)"
proof -
  obtain r b1 where r: "insert_state_owned name b = (r, b1)" by force
  show ?thesis
    using insert_state_inv [OF assms r] with_variables_for_state_inv
    by (auto simp: with_variables_def r split: option.splits)
qed

lemma builder_reach_inv: "builder_reach b \<Longrightarrow> builder_inv b"
proof (induction rule: builder_reach.induct)
  case (br_intern b symbols i b')
  then obtain ls where ls: "label_intern symbols (b_labels b) = Ok (i, ls)"
    and b': "b' = b\<lparr>b_labels := ls\<rparr>"
    by (auto simp: builder_intern_label_def rbind_eq_Ok)
  have "wf_symbol_builder (b_labels b)" using br_intern by (simp add: builder_inv_def)
  from label_intern_spec [OF this ls] show ?case
    using br_intern.IH by (simp add: b' builder_inv_def)
next
  case (br_valuation b s v)
  then show ?case by (simp add: builder_inv_def with_valuation_for_state_def)
next
  case (br_transition_ids b f t labels m)
  then show ?case using transition_ids_inv [of b f t labels m] by (simp add: builder_inv_def)
qed (auto simp: builder_inv_label_store builder_state_def state_with_name_def insert_state_inv_snd
      builder_initial_inv with_variables_inv with_variables_for_state_inv builder_transition_inv
      initial_state_id_def with_3valued_predicate_def set_label_controllability_def
      declare_in_alphabet_def Let_def, auto simp: builder_inv_def)

subsection \<open>Built systems are well formed\<close>

lemma build_wf:
  assumes "builder_inv b" and "b_state_overflow b = None"
  shows "\<exists>c. builder_build b = Ok c \<and> wf_clts c"
proof -
  have n: "list_all (\<lambda>spec. ts_from spec < length (b_state_names b)
      \<and> ts_to spec < length (b_state_names b)) (b_transitions b)"
    using assms(1) by (auto simp: builder_inv_def list_all_iff)
  have "set (ts_labels spec) \<subseteq> alphabet_of b (Some LUncontrollable)
      \<union> (alphabet_of b (Some LControllable) \<union> alphabet_of b None) \<union> alphabet_of b (Some LInternal)"
    if "spec \<in> set (b_transitions b)" for spec
  proof
    fix l assume "l \<in> set (ts_labels spec)"
    then have "l \<in> all_labels b" using that by (auto simp: all_labels_def)
    moreover obtain k where "map_of (b_label_controllability b) l = k" by blast
    ultimately show "l \<in> alphabet_of b (Some LUncontrollable)
      \<union> (alphabet_of b (Some LControllable) \<union> alphabet_of b None) \<union> alphabet_of b (Some LInternal)"
      by (cases k) (auto simp: alphabet_of_def intro: label_controllability.exhaust)
  qed
  note labels = this
  obtain c where c: "builder_build b = Ok c"
    using n assms(2) by (simp add: builder_build_def Let_def)
  then have c_eq: "builder_build b = Ok c" "c_state_names c = b_state_names b"
    "c_initial_states c = b_initial_states b" "c_state_variables c = b_state_variables b"
    "c_variables c = symbol_store_build (b_variables b)"
    "c_state_valuations c = b_state_valuations b"
    "c_uncontrollable_alphabet c = alphabet_of b (Some LUncontrollable)"
    "c_controllable_alphabet c = alphabet_of b (Some LControllable) \<union> alphabet_of b None"
    "c_internal_alphabet c = alphabet_of b (Some LInternal)"
    "length (c_incoming c) = length (b_state_names b)"
    "c_outgoing c = map (\<lambda>s. map mk_outgoing
        (filter (\<lambda>spec. ts_from spec = s) (b_transitions b))) [0..<length (b_state_names b)]"
    "c_uncontrollable_groups c =
       map (\<lambda>ts. group_from (c_uncontrollable_alphabet c) 0 ts []) (c_outgoing c)"
    using n assms(2) by (auto simp: builder_build_def Let_def)
  have disjoint: "alphabet_of b (Some LUncontrollable) \<inter>
     (alphabet_of b (Some LControllable) \<union> alphabet_of b None \<union> alphabet_of b (Some LInternal)) = {}"
    by (auto simp: alphabet_of_def)
  have targets: "\<forall>ts \<in> set (c_outgoing c). \<forall>t \<in> set ts. t_target t < state_count c
      \<and> set (t_labels t) \<subseteq> c_uncontrollable_alphabet c \<union> c_controllable_alphabet c
          \<union> c_internal_alphabet c"
    using n labels by (auto simp: c_eq state_count_def list_all_iff mk_outgoing_def)
  show ?thesis
    using assms(1) targets disjoint
    by (auto simp: wf_clts_def state_count_def c_eq builder_inv_def)
qed

lemma build_overflow: "b_state_overflow b = Some v \<Longrightarrow> builder_build b = Err (IdOverflow ''state'' v)"
  by (simp add: builder_build_def)

subsection \<open>Uncontrollable groups\<close>

definition group_members :: "nat set \<Rightarrow> nat \<Rightarrow> transition list \<Rightarrow> nat list \<Rightarrow> nat list" where
  "group_members u i ts key =
     map fst (filter (\<lambda>(j, t). should_group u t \<and> sort (t_labels t) = key)
       (zip [i..<i + length ts] ts))"

lemma map_of_group_push:
  "map_of (group_push key idx m) k =
     (if k = key then Some ((case map_of m key of None \<Rightarrow> [] | Some is \<Rightarrow> is) @ [idx])
      else map_of m k)"
proof (cases "map_of m key")
  case None
  then show ?thesis by (auto simp: group_push_def map_add_def split: option.splits)
next
  case (Some "is")
  then show ?thesis by (simp add: group_push_def update_conv)
qed

lemma group_members_Cons:
  "group_members u i (t # ts) k =
     (if should_group u t \<and> sort (t_labels t) = k then [i] else []) @ group_members u (Suc i) ts k"
proof -
  have "[i..<i + length (t # ts)] = i # [Suc i..<Suc i + length ts]"
    using upt_conv_Cons [of i "i + length (t # ts)"] by simp
  then show ?thesis by (simp add: group_members_def)
qed

lemma map_of_group_from:
  "map_of (group_from u i ts m) k =
     (case map_of m k of
        None \<Rightarrow> if group_members u i ts k = [] then None else Some (group_members u i ts k)
      | Some is \<Rightarrow> Some (is @ group_members u i ts k))"
proof (induction ts arbitrary: i m)
  case Nil
  then show ?case by (simp add: group_members_def split: option.splits)
next
  case (Cons t ts)
  show ?case
    by (simp add: Cons.IH map_of_group_push group_members_Cons split: option.splits)
qed

lemma set_group_members:
  "j \<in> set (group_members u 0 ts k)
     \<longleftrightarrow> j < length ts \<and> should_group u (ts ! j) \<and> sort (t_labels (ts ! j)) = k"
  by (force simp: group_members_def in_set_zip)

lemma should_group_is_uncontrollable:
  "should_group (c_uncontrollable_alphabet c) t \<longleftrightarrow> is_uncontrollable c t"
  by (auto simp: should_group_def is_uncontrollable_def list_ex_iff is_uncontrollable_label_def)

lemma wf_controllable_iff:
  assumes "wf_clts c" "s < state_count c" "t \<in> set (outgoing c s)"
  shows "is_controllable c t \<longleftrightarrow> \<not> is_uncontrollable c t"
proof -
  have "outgoing c s \<in> set (c_outgoing c)" using assms(1,2) by (auto simp: outgoing_def wf_clts_def)
  then have "set (t_labels t) \<subseteq> c_uncontrollable_alphabet c \<union> c_controllable_alphabet c
      \<union> c_internal_alphabet c"
    using assms(1,3) by (auto simp: wf_clts_def)
  moreover have "c_uncontrollable_alphabet c \<inter> (c_controllable_alphabet c \<union> c_internal_alphabet c) = {}"
    using assms(1) by (simp add: wf_clts_def)
  ultimately show ?thesis
    by (auto simp: is_controllable_def is_uncontrollable_def list_all_iff list_ex_iff
        is_uncontrollable_label_def is_controllable_label_def is_internal_label_def)
qed

lemma wf_target:
  "wf_clts c \<Longrightarrow> s < state_count c \<Longrightarrow> t \<in> set (outgoing c s) \<Longrightarrow> t_target t < state_count c"
  by (auto simp: wf_clts_def outgoing_def)

subsection \<open>Properties\<close>




definition groups_example :: clts_builder where
  "groups_example = declare_in_alphabet 1 (set_label_controllability 0 LUncontrollable
     (builder_transition ''a'' [1] ''a'' (builder_transition ''a'' [0] ''b''
       (builder_transition ''a'' [0] ''a'' builder_default))))"

lemmas builder_example_simps =
  groups_example_def declare_in_alphabet_def set_label_controllability_def builder_transition_def
  transition_ids_def transition_ids_with_modality_def insert_state_owned_def try_from_usize_def
  u32_max_def builder_default_def variable_empty_def variable_intern_def sort_dedup_def
  symbol_builder_default_def builder_build_def alphabet_of_def is_uncontrollable_def
  is_uncontrollable_label_def outgoing_def mk_outgoing_def state_count_def Let_def


end
