(* ===== verification/Formula.thy ===== *)
theory Formula
  imports Clts
begin

section \<open>Formulas of the mu-calculus\<close>

text \<open>
  Models \<^verbatim>\<open>mu_calculus/mod.rs\<close>: the arena representation of formulas with its builder, the
  structural analyses (fixpoint nesting order, alternation depth, property class, constant
  value) and the guard filter shared by the evaluator and the game engines.

  The analyses recurse over node identifiers; nothing in the types excludes a cyclic arena, so
  they run on fuel, and a node identifier out of range is a panic. \<open>tree_of\<close> unfolds an arena to
  the tree it stands for; \<open>wf_formula\<close> says that children precede their parents, which is what
  every builder in the code produces, and makes \<open>length nodes\<close> enough fuel. The lemmas give
  each analysis as a function of the tree.
\<close>

named_theorems tree_simps \<open>inversion of the unfolding of an arena\<close>

subsection \<open>Nodes and guards\<close>

datatype property_class = Safety | Reachability | Liveness | Mixed | Propositional

datatype modal_kind = Box | Diamond

datatype control = CAll | CControllable | CEnvironment

record variable_guard =
  vg_required :: "string list"
  vg_forbidden :: "string list"

record guard =
  g_labels :: "string list"
  g_current :: variable_guard
  g_next :: variable_guard
  g_control :: control
  g_max_steps :: "nat option"

definition variable_guard_default :: variable_guard where
  "variable_guard_default = \<lparr>vg_required = [], vg_forbidden = []\<rparr>"

definition guard_default :: guard where
  "guard_default = \<lparr>g_labels = [], g_current = variable_guard_default,
     g_next = variable_guard_default, g_control = CAll, g_max_steps = None\<rparr>"

datatype node =
    NTrue | NFalse | NPredicate string | NVariable nat
  | NNot nat | NAnd nat nat | NOr nat nat
  | NModal modal_kind guard nat
  | NMu nat nat | NNu nat nat

fun is_fixpoint :: "node \<Rightarrow> bool" where
  "is_fixpoint (NMu v b) = True"
| "is_fixpoint (NNu v b) = True"
| "is_fixpoint n = False"

record formula =
  f_root :: nat
  f_nodes :: "node list"
  f_vars :: "string list"

definition node_at :: "formula \<Rightarrow> nat \<Rightarrow> (unit, node) res" where
  "node_at f i = (if i < length (f_nodes f) then Ok (f_nodes f ! i) else Panic)"

record formula_builder =
  fb_nodes :: "node list"
  fb_vars :: "string list"

definition formula_builder_default :: formula_builder where
  "formula_builder_default = \<lparr>fb_nodes = [], fb_vars = []\<rparr>"

definition push_node :: "node \<Rightarrow> formula_builder \<Rightarrow> nat \<times> formula_builder" where
  "push_node nd b = (length (fb_nodes b), b\<lparr>fb_nodes := fb_nodes b @ [nd]\<rparr>)"

definition push_var :: "string \<Rightarrow> formula_builder \<Rightarrow> nat \<times> formula_builder" where
  "push_var name b = (length (fb_vars b), b\<lparr>fb_vars := fb_vars b @ [name]\<rparr>)"

definition into_formula :: "formula_builder \<Rightarrow> nat \<Rightarrow> formula" where
  "into_formula b root = \<lparr>f_root = root, f_nodes = fb_nodes b, f_vars = fb_vars b\<rparr>"

subsection \<open>Structural analyses\<close>

fun collect_fixpoint_order ::
  "nat \<Rightarrow> formula \<Rightarrow> nat \<Rightarrow> (nat \<times> bool) list \<Rightarrow> (unit, (nat \<times> bool) list) res" where
  "collect_fixpoint_order 0 f i out = OutOfFuel"
| "collect_fixpoint_order (Suc k) f i out = rbind (node_at f i) (\<lambda>nd.
     case nd of
       NMu v b \<Rightarrow> collect_fixpoint_order k f b (out @ [(v, True)])
     | NNu v b \<Rightarrow> collect_fixpoint_order k f b (out @ [(v, False)])
     | NAnd l r \<Rightarrow> rbind (collect_fixpoint_order k f l out) (collect_fixpoint_order k f r)
     | NOr l r \<Rightarrow> rbind (collect_fixpoint_order k f l out) (collect_fixpoint_order k f r)
     | NNot a \<Rightarrow> collect_fixpoint_order k f a out
     | NModal m g t \<Rightarrow> collect_fixpoint_order k f t out
     | _ \<Rightarrow> Ok out)"

definition fixpoint_nesting_order :: "nat \<Rightarrow> formula \<Rightarrow> (unit, (nat \<times> bool) list) res" where
  "fixpoint_nesting_order k f = collect_fixpoint_order k f (f_root f) []"

definition mu_obligations :: "nat \<Rightarrow> formula \<Rightarrow> (unit, nat list) res" where
  "mu_obligations k f = rbind (fixpoint_nesting_order k f)
     (\<lambda>order. Ok (map fst (filter snd order)))"

fun contains_opposite_fixpoint :: "nat \<Rightarrow> formula \<Rightarrow> nat \<Rightarrow> bool \<Rightarrow> (unit, bool) res" where
  "contains_opposite_fixpoint 0 f i looking_for_nu = OutOfFuel"
| "contains_opposite_fixpoint (Suc k) f i looking_for_nu = rbind (node_at f i) (\<lambda>nd.
     case nd of
       NNot a \<Rightarrow> contains_opposite_fixpoint k f a looking_for_nu
     | NAnd l r \<Rightarrow> rbind (contains_opposite_fixpoint k f l looking_for_nu)
         (\<lambda>x. if x then Ok True else contains_opposite_fixpoint k f r looking_for_nu)
     | NOr l r \<Rightarrow> rbind (contains_opposite_fixpoint k f l looking_for_nu)
         (\<lambda>x. if x then Ok True else contains_opposite_fixpoint k f r looking_for_nu)
     | NModal m g t \<Rightarrow> contains_opposite_fixpoint k f t looking_for_nu
     | NNu v b \<Rightarrow> if looking_for_nu then Ok True
         else contains_opposite_fixpoint k f b looking_for_nu
     | NMu v b \<Rightarrow> if \<not> looking_for_nu then Ok True
         else contains_opposite_fixpoint k f b looking_for_nu
     | _ \<Rightarrow> Ok False)"

fun ad_node ::
  "nat \<Rightarrow> formula \<Rightarrow> nat \<Rightarrow> nat option list \<Rightarrow> (unit, nat \<times> nat option list) res" where
  "ad_node 0 f i cache = OutOfFuel"
| "ad_node (Suc k) f i cache =
     (if \<not> i < length cache then Panic
      else case cache ! i of
        Some d \<Rightarrow> Ok (d, cache)
      | None \<Rightarrow> rbind (node_at f i) (\<lambda>nd. rbind (case nd of
            NNot a \<Rightarrow> ad_node k f a cache
          | NAnd l r \<Rightarrow> rbind (ad_node k f l cache) (\<lambda>(dl, c1).
              rbind (ad_node k f r c1) (\<lambda>(dr, c2). Ok (max dl dr, c2)))
          | NOr l r \<Rightarrow> rbind (ad_node k f l cache) (\<lambda>(dl, c1).
              rbind (ad_node k f r c1) (\<lambda>(dr, c2). Ok (max dl dr, c2)))
          | NModal m g t \<Rightarrow> ad_node k f t cache
          | NMu v b \<Rightarrow> rbind (ad_node k f b cache) (\<lambda>(d, c1).
              rbind (contains_opposite_fixpoint k f b True) (\<lambda>alt.
                Ok (if alt then max d 1 + 1 else max d 1, c1)))
          | NNu v b \<Rightarrow> rbind (ad_node k f b cache) (\<lambda>(d, c1).
              rbind (contains_opposite_fixpoint k f b False) (\<lambda>alt.
                Ok (if alt then max d 1 + 1 else max d 1, c1)))
          | _ \<Rightarrow> Ok (0, cache))
          (\<lambda>(depth, c1). Ok (depth, c1[i := Some depth]))))"

definition alternation_depth :: "nat \<Rightarrow> formula \<Rightarrow> (unit, nat) res" where
  "alternation_depth k f =
     rbind (ad_node k f (f_root f) (replicate (length (f_nodes f)) None)) (\<lambda>(d, c). Ok d)"

definition box_modality_count :: "formula \<Rightarrow> nat" where
  "box_modality_count f =
     length (filter (\<lambda>nd. case nd of NModal Box g t \<Rightarrow> True | _ \<Rightarrow> False) (f_nodes f))"

definition has_modality :: "formula \<Rightarrow> bool" where
  "has_modality f = list_ex (\<lambda>nd. case nd of NModal k g t \<Rightarrow> True | _ \<Rightarrow> False) (f_nodes f)"

fun fixpoint_kinds :: "nat \<Rightarrow> formula \<Rightarrow> nat \<Rightarrow> (unit, bool \<times> bool) res" where
  "fixpoint_kinds 0 f i = OutOfFuel"
| "fixpoint_kinds (Suc k) f i = rbind (node_at f i) (\<lambda>nd.
     case nd of
       NNot a \<Rightarrow> fixpoint_kinds k f a
     | NAnd l r \<Rightarrow> rbind (fixpoint_kinds k f l) (\<lambda>(lm, ln).
         rbind (fixpoint_kinds k f r) (\<lambda>(rm, rn). Ok (lm \<or> rm, ln \<or> rn)))
     | NOr l r \<Rightarrow> rbind (fixpoint_kinds k f l) (\<lambda>(lm, ln).
         rbind (fixpoint_kinds k f r) (\<lambda>(rm, rn). Ok (lm \<or> rm, ln \<or> rn)))
     | NModal m g t \<Rightarrow> fixpoint_kinds k f t
     | NMu v b \<Rightarrow> rbind (fixpoint_kinds k f b) (\<lambda>(bm, bn). Ok (True, bn))
     | NNu v b \<Rightarrow> rbind (fixpoint_kinds k f b) (\<lambda>(bm, bn). Ok (bm, True))
     | _ \<Rightarrow> Ok (False, False))"

definition property_class :: "nat \<Rightarrow> formula \<Rightarrow> (unit, property_class) res" where
  "property_class k f = rbind (fixpoint_kinds k f (f_root f)) (\<lambda>(has_mu, has_nu).
     rbind (alternation_depth k f) (\<lambda>ad.
       Ok (if \<not> has_mu \<and> \<not> has_nu then Propositional
           else if \<not> has_mu \<and> has_nu then Safety
           else if has_mu \<and> \<not> has_nu then Reachability
           else if ad \<ge> 2 then Liveness else Mixed)))"

text \<open>
  \<open>constant_value\<close>: the inner \<open>None\<close> is the code's \<open>None\<close> (the formula reads a predicate or a
  guarded modality). The fixpoint loop runs its body at most three times.
\<close>

fun env_find :: "(nat \<times> bool) list \<Rightarrow> nat \<Rightarrow> bool option" where
  \<comment> \<open>\<open>env.iter().rev().find(..)\<close>; the environment is a stack with the innermost entry first\<close>
  "env_find [] v = None"
| "env_find ((w, b) # env) v = (if w = v then Some b else env_find env v)"

fun obind :: "(unit, 'a option) res \<Rightarrow> ('a \<Rightarrow> (unit, 'b option) res) \<Rightarrow> (unit, 'b option) res" where
  "obind (Ok (Some x)) k = k x"
| "obind (Ok None) k = Ok None"
| "obind (Err e) k = Err e"
| "obind Panic k = Panic"
| "obind OutOfFuel k = OutOfFuel"

fun constant_eval ::
    "nat \<Rightarrow> formula \<Rightarrow> nat \<Rightarrow> (nat \<times> bool) list \<Rightarrow> (unit, bool option) res"
  and constant_loop ::
    "nat \<Rightarrow> formula \<Rightarrow> nat \<Rightarrow> nat \<Rightarrow> nat \<Rightarrow> bool \<Rightarrow> (nat \<times> bool) list \<Rightarrow> (unit, bool option) res" where
  "constant_eval 0 f i env = OutOfFuel"
| "constant_eval (Suc k) f i env = rbind (node_at f i) (\<lambda>nd.
     case nd of
       NTrue \<Rightarrow> Ok (Some True)
     | NFalse \<Rightarrow> Ok (Some False)
     | NPredicate p \<Rightarrow> Ok None
     | NVariable v \<Rightarrow> Ok (env_find env v)
     | NNot a \<Rightarrow> obind (constant_eval k f a env) (\<lambda>x. Ok (Some (\<not> x)))
     | NAnd a b \<Rightarrow> obind (constant_eval k f a env) (\<lambda>x.
         obind (constant_eval k f b env) (\<lambda>y. Ok (Some (x \<and> y))))
     | NOr a b \<Rightarrow> obind (constant_eval k f a env) (\<lambda>x.
         obind (constant_eval k f b env) (\<lambda>y. Ok (Some (x \<or> y))))
     | NModal m g t \<Rightarrow> if g \<noteq> guard_default then Ok None else constant_eval k f t env
     | NMu v b \<Rightarrow> constant_loop k f 3 v b False env
     | NNu v b \<Rightarrow> constant_loop k f 3 v b True env)"
| "constant_loop 0 f rounds v b cur env = OutOfFuel"
| "constant_loop (Suc k) f 0 v b cur env = Ok (Some cur)"
| "constant_loop (Suc k) f (Suc rounds) v b cur env =
     obind (constant_eval k f b ((v, cur) # env)) (\<lambda>next.
       if next = cur then Ok (Some cur) else constant_loop k f rounds v b next env)"

definition constant_value :: "nat \<Rightarrow> formula \<Rightarrow> (unit, bool option) res" where
  "constant_value k f = constant_eval k f (f_root f) []"

subsection \<open>The guard filter\<close>

definition vars_match :: "clts \<Rightarrow> nat \<Rightarrow> variable_guard \<Rightarrow> bool" where
  "vars_match c s vg \<longleftrightarrow>
     list_all (state_has_var c s) (vg_required vg)
     \<and> \<not> list_ex (state_has_var c s) (vg_forbidden vg)"

definition guard_matches_labels_and_vars :: "nat \<Rightarrow> transition \<Rightarrow> guard \<Rightarrow> clts \<Rightarrow> bool" where
  "guard_matches_labels_and_vars source t g c =
     (if g_labels g \<noteq> [] \<and>
         \<not> list_ex (\<lambda>wanted. list_ex (\<lambda>l. label_has c l wanted) (t_labels t)) (g_labels g)
      then False
      else if (vg_required (g_current g) \<noteq> [] \<or> vg_forbidden (g_current g) \<noteq> [])
        \<and> \<not> vars_match c source (g_current g)
      then False
      else if (vg_required (g_next g) \<noteq> [] \<or> vg_forbidden (g_next g) \<noteq> [])
        \<and> \<not> vars_match c (t_target t) (g_next g)
      then False
      else True)"

subsection \<open>The tree of an arena\<close>

datatype fml =
    FTrue | FFalse | FPred string | FVar nat
  | FNot fml | FAnd fml fml | FOr fml fml
  | FModal modal_kind guard fml
  | FMu nat fml | FNu nat fml

fun tree_of :: "nat \<Rightarrow> formula \<Rightarrow> nat \<Rightarrow> fml option" where
  "tree_of 0 f i = None"
| "tree_of (Suc k) f i =
     (if \<not> i < length (f_nodes f) then None
      else case f_nodes f ! i of
        NTrue \<Rightarrow> Some FTrue
      | NFalse \<Rightarrow> Some FFalse
      | NPredicate p \<Rightarrow> Some (FPred p)
      | NVariable v \<Rightarrow> Some (FVar v)
      | NNot a \<Rightarrow> map_option FNot (tree_of k f a)
      | NAnd a b \<Rightarrow> (case (tree_of k f a, tree_of k f b) of
          (Some s, Some t) \<Rightarrow> Some (FAnd s t) | _ \<Rightarrow> None)
      | NOr a b \<Rightarrow> (case (tree_of k f a, tree_of k f b) of
          (Some s, Some t) \<Rightarrow> Some (FOr s t) | _ \<Rightarrow> None)
      | NModal m g a \<Rightarrow> map_option (FModal m g) (tree_of k f a)
      | NMu v a \<Rightarrow> map_option (FMu v) (tree_of k f a)
      | NNu v a \<Rightarrow> map_option (FNu v) (tree_of k f a))"

definition tree :: "formula \<Rightarrow> fml option" where
  "tree f = tree_of (length (f_nodes f)) f (f_root f)"

fun children :: "node \<Rightarrow> nat list" where
  "children (NNot a) = [a]"
| "children (NAnd a b) = [a, b]"
| "children (NOr a b) = [a, b]"
| "children (NModal m g a) = [a]"
| "children (NMu v a) = [a]"
| "children (NNu v a) = [a]"
| "children nd = []"

definition wf_nodes :: "node list \<Rightarrow> bool" where
  "wf_nodes ns \<longleftrightarrow> (\<forall>i < length ns. \<forall>j \<in> set (children (ns ! i)). j < i)"

definition wf_formula :: "formula \<Rightarrow> bool" where
  "wf_formula f \<longleftrightarrow> f_root f < length (f_nodes f) \<and> wf_nodes (f_nodes f)"

text \<open>
  Inversion of \<open>tree_of\<close>: the node read is in range and determines the tree. The analyses below
  are evaluated with it.
\<close>

lemma tree_of_cases [consumes 1, case_names NTrue NFalse NPred NVar NNot NAnd NOr NModal NMu NNu]:
  assumes "tree_of k f i = Some t"
  obtains (NTrue) m where "k = Suc m" "i < length (f_nodes f)" "f_nodes f ! i = NTrue"
      "node_at f i = Ok (NTrue)" "t = FTrue"
  | (NFalse) m where "k = Suc m" "i < length (f_nodes f)" "f_nodes f ! i = NFalse"
      "node_at f i = Ok (NFalse)" "t = FFalse"
  | (NPred) m p where "k = Suc m" "i < length (f_nodes f)" "f_nodes f ! i = NPredicate p"
      "node_at f i = Ok (NPredicate p)" "t = FPred p"
  | (NVar) m v where "k = Suc m" "i < length (f_nodes f)" "f_nodes f ! i = NVariable v"
      "node_at f i = Ok (NVariable v)" "t = FVar v"
  | (NNot) m a s where "k = Suc m" "i < length (f_nodes f)" "f_nodes f ! i = NNot a"
      "node_at f i = Ok (NNot a)" "t = FNot s" "tree_of m f a = Some s"
  | (NAnd) m a b s u where "k = Suc m" "i < length (f_nodes f)" "f_nodes f ! i = NAnd a b"
      "node_at f i = Ok (NAnd a b)" "t = FAnd s u" "tree_of m f a = Some s" "tree_of m f b = Some u"
  | (NOr) m a b s u where "k = Suc m" "i < length (f_nodes f)" "f_nodes f ! i = NOr a b"
      "node_at f i = Ok (NOr a b)" "t = FOr s u" "tree_of m f a = Some s" "tree_of m f b = Some u"
  | (NModal) m q g a s where "k = Suc m" "i < length (f_nodes f)" "f_nodes f ! i = NModal q g a"
      "node_at f i = Ok (NModal q g a)" "t = FModal q g s" "tree_of m f a = Some s"
  | (NMu) m v a s where "k = Suc m" "i < length (f_nodes f)" "f_nodes f ! i = NMu v a"
      "node_at f i = Ok (NMu v a)" "t = FMu v s" "tree_of m f a = Some s"
  | (NNu) m v a s where "k = Suc m" "i < length (f_nodes f)" "f_nodes f ! i = NNu v a"
      "node_at f i = Ok (NNu v a)" "t = FNu v s" "tree_of m f a = Some s"
  using assms
  by (cases k; cases "f_nodes f ! i") (auto simp: node_at_def split: if_splits option.splits)

lemma tree_of_mono: "tree_of k f i = Some t \<Longrightarrow> k \<le> m \<Longrightarrow> tree_of m f i = Some t"
proof (induction k arbitrary: i t m)
  case (Suc k)
  then obtain n where m: "m = Suc n" "k \<le> n" by (cases m) auto
  note IH = Suc.IH [OF _ m(2)]
  from Suc.prems(1) show ?case
    by (cases rule: tree_of_cases) (auto simp: m dest!: IH)
qed simp

lemma tree_of_wf:
  assumes "wf_nodes (f_nodes f)"
  shows "i < length (f_nodes f) \<Longrightarrow> i < k \<Longrightarrow> \<exists>t. tree_of k f i = Some t"
proof (induction k arbitrary: i)
  case (Suc k)
  have "\<exists>t. tree_of k f j = Some t" if "j \<in> set (children (f_nodes f ! i))" for j
    using that Suc.prems assms by (intro Suc.IH) (auto simp: wf_nodes_def dest!: spec [of _ i])
  then have "\<forall>j \<in> set (children (f_nodes f ! i)). \<exists>t. tree_of k f j = Some t" by blast
  then show ?case using Suc.prems(1)
    by (cases "f_nodes f ! i") (auto split: option.splits)
qed simp

declare tree_of.simps(2) [simp del]

lemma wf_formula_tree: "wf_formula f \<Longrightarrow> \<exists>t. tree f = Some t"
  by (auto simp: wf_formula_def tree_def intro!: tree_of_wf)

subsection \<open>The analyses as functions of the tree\<close>

primrec order_tree :: "fml \<Rightarrow> (nat \<times> bool) list" where
  "order_tree FTrue = []"
| "order_tree FFalse = []"
| "order_tree (FPred p) = []"
| "order_tree (FVar v) = []"
| "order_tree (FNot t) = order_tree t"
| "order_tree (FAnd s t) = order_tree s @ order_tree t"
| "order_tree (FOr s t) = order_tree s @ order_tree t"
| "order_tree (FModal m g t) = order_tree t"
| "order_tree (FMu v t) = (v, True) # order_tree t"
| "order_tree (FNu v t) = (v, False) # order_tree t"

definition has_mu :: "fml \<Rightarrow> bool" where
  "has_mu t \<longleftrightarrow> (\<exists>v. (v, True) \<in> set (order_tree t))"

definition has_nu :: "fml \<Rightarrow> bool" where
  "has_nu t \<longleftrightarrow> (\<exists>v. (v, False) \<in> set (order_tree t))"

primrec ad_tree :: "fml \<Rightarrow> nat" where
  "ad_tree FTrue = 0"
| "ad_tree FFalse = 0"
| "ad_tree (FPred p) = 0"
| "ad_tree (FVar v) = 0"
| "ad_tree (FNot t) = ad_tree t"
| "ad_tree (FAnd s t) = max (ad_tree s) (ad_tree t)"
| "ad_tree (FOr s t) = max (ad_tree s) (ad_tree t)"
| "ad_tree (FModal m g t) = ad_tree t"
| "ad_tree (FMu v t) = (if has_nu t then max (ad_tree t) 1 + 1 else max (ad_tree t) 1)"
| "ad_tree (FNu v t) = (if has_mu t then max (ad_tree t) 1 + 1 else max (ad_tree t) 1)"

text \<open>A fixpoint in the scope of a fixpoint of the other kind.\<close>

primrec alternates :: "fml \<Rightarrow> bool" where
  "alternates FTrue = False"
| "alternates FFalse = False"
| "alternates (FPred p) = False"
| "alternates (FVar v) = False"
| "alternates (FNot t) = alternates t"
| "alternates (FAnd s t) = (alternates s \<or> alternates t)"
| "alternates (FOr s t) = (alternates s \<or> alternates t)"
| "alternates (FModal m g t) = alternates t"
| "alternates (FMu v t) = (has_nu t \<or> alternates t)"
| "alternates (FNu v t) = (has_mu t \<or> alternates t)"

lemma has_mu_nu_simps [simp]:
  "\<not> has_mu FTrue" "\<not> has_mu FFalse" "\<not> has_mu (FPred p)" "\<not> has_mu (FVar v)"
  "\<not> has_nu FTrue" "\<not> has_nu FFalse" "\<not> has_nu (FPred p)" "\<not> has_nu (FVar v)"
  "has_mu (FNot t) = has_mu t" "has_nu (FNot t) = has_nu t"
  "has_mu (FAnd s t) = (has_mu s \<or> has_mu t)" "has_nu (FAnd s t) = (has_nu s \<or> has_nu t)"
  "has_mu (FOr s t) = (has_mu s \<or> has_mu t)" "has_nu (FOr s t) = (has_nu s \<or> has_nu t)"
  "has_mu (FModal m g t) = has_mu t" "has_nu (FModal m g t) = has_nu t"
  "has_mu (FMu v t)" "has_nu (FMu v t) = has_nu t"
  "has_mu (FNu v t) = has_mu t" "has_nu (FNu v t)"
  by (auto simp: has_mu_def has_nu_def)

lemma ad_tree_pos: "1 \<le> ad_tree t \<longleftrightarrow> has_mu t \<or> has_nu t"
  by (induction t) auto

lemma ad_tree_alternates: "2 \<le> ad_tree t \<longleftrightarrow> alternates t"
proof (induction t)
  case (FMu v t)
  then show ?case using ad_tree_pos [of t] by auto
next
  case (FNu v t)
  then show ?case using ad_tree_pos [of t] by auto
qed auto

lemma collect_fixpoint_order_tree:
  "tree_of k f i = Some t \<Longrightarrow> collect_fixpoint_order k f i out = Ok (out @ order_tree t)"
proof (induction k arbitrary: i t out)
  case (Suc k)
  from Suc.prems show ?case by (cases rule: tree_of_cases) (auto simp: Suc.IH)
qed simp

lemma contains_opposite_tree:
  "tree_of k f i = Some t \<Longrightarrow>
     contains_opposite_fixpoint k f i True = Ok (has_nu t)
     \<and> contains_opposite_fixpoint k f i False = Ok (has_mu t)"
proof (induction k arbitrary: i t)
  case (Suc k)
  from Suc.prems show ?case by (cases rule: tree_of_cases) (auto simp: Suc.IH)
qed simp

lemma fixpoint_kinds_tree:
  "tree_of k f i = Some t \<Longrightarrow> fixpoint_kinds k f i = Ok (has_mu t, has_nu t)"
proof (induction k arbitrary: i t)
  case (Suc k)
  from Suc.prems show ?case by (cases rule: tree_of_cases) (auto simp: Suc.IH)
qed simp

text \<open>The depth cache: every entry is the depth of the tree of its node.\<close>

definition ad_cache_ok :: "formula \<Rightarrow> nat option list \<Rightarrow> bool" where
  "ad_cache_ok f cache \<longleftrightarrow> length cache = length (f_nodes f)
     \<and> (\<forall>i d k t. i < length cache \<longrightarrow> cache ! i = Some d \<longrightarrow> tree_of k f i = Some t \<longrightarrow> d = ad_tree t)"

lemma tree_of_unique: "tree_of k f i = Some t \<Longrightarrow> tree_of m f i = Some u \<Longrightarrow> t = u"
  using tree_of_mono [of k f i t "max k m"] tree_of_mono [of m f i u "max k m"] by simp

lemma ad_cache_update:
  assumes "ad_cache_ok f cache" "tree_of k f i = Some t"
  shows "ad_cache_ok f (cache[i := Some (ad_tree t)])"
  unfolding ad_cache_ok_def
proof (intro conjI allI impI)
  fix j d m u
  assume j: "j < length (cache[i := Some (ad_tree t)])" "cache[i := Some (ad_tree t)] ! j = Some d"
    and u: "tree_of m f j = Some u"
  show "d = ad_tree u"
  proof (cases "j = i")
    case True
    then show ?thesis using j u tree_of_unique [OF assms(2)] by auto
  next
    case False
    then show ?thesis using j u assms(1) unfolding ad_cache_ok_def by fastforce
  qed
qed (use assms(1) in \<open>simp add: ad_cache_ok_def\<close>)

lemma ad_node_tree:
  "tree_of k f i = Some t \<Longrightarrow> ad_cache_ok f cache \<Longrightarrow>
     \<exists>c1. ad_node k f i cache = Ok (ad_tree t, c1) \<and> ad_cache_ok f c1"
proof (induction k arbitrary: i t cache)
  case (Suc k)
  note upd = ad_cache_update [OF _ Suc.prems(1)]
  have len: "length cache = length (f_nodes f)" using Suc.prems(2) by (simp add: ad_cache_ok_def)
  have two: "\<exists>c1 c2. ad_node k f a cache = Ok (ad_tree s, c1) \<and> ad_node k f b c1 = Ok (ad_tree u, c2)
      \<and> ad_cache_ok f c2"
    if "tree_of k f a = Some s" "tree_of k f b = Some u" for a b s u
    using Suc.IH [OF that(1) Suc.prems(2)] Suc.IH [OF that(2)] by blast
  show ?case
  proof (cases "i < length (f_nodes f) \<and> cache ! i \<noteq> None")
    case True
    then obtain d where d: "cache ! i = Some d" "i < length (f_nodes f)" by auto
    then have "d = ad_tree t" using Suc.prems len unfolding ad_cache_ok_def by metis
    then show ?thesis using d len Suc.prems(2) by simp
  next
    case False
    then have none: "i < length (f_nodes f) \<Longrightarrow> cache ! i = None" by auto
    from Suc.prems(1) show ?thesis
    proof (cases rule: tree_of_cases)
      case (NAnd m a b s u)
      with two [of a s b u] show ?thesis using upd none len by (auto split: prod.splits)
    next
      case (NOr m a b s u)
      with two [of a s b u] show ?thesis using upd none len by (auto split: prod.splits)
    next
      case (NMu m v a s)
      with Suc.IH [of a s] show ?thesis
        using upd none len Suc.prems(2) by (fastforce simp: contains_opposite_tree)
    next
      case (NNu m v a s)
      with Suc.IH [of a s] show ?thesis
        using upd none len Suc.prems(2) by (fastforce simp: contains_opposite_tree)
    qed (use upd none len Suc.prems(2) Suc.IH in \<open>fastforce+\<close>)
  qed
qed simp

lemma alternation_depth_tree:
  assumes "tree_of k f (f_root f) = Some t"
  shows "alternation_depth k f = Ok (ad_tree t)"
proof -
  have "ad_cache_ok f (replicate (length (f_nodes f)) None)"
    by (simp add: ad_cache_ok_def)
  from ad_node_tree [OF assms this] show ?thesis by (auto simp: alternation_depth_def)
qed

subsection \<open>Properties\<close>

text \<open>
  C28: Classification of formulas. On an arena whose children precede their parents the analyses
  terminate (with the number of nodes as recursion depth) without an out-of-range access, and
  \<open>property_class\<close> is exact: \<open>Liveness\<close> iff both kinds of fixpoints occur and one is nested in
  the scope of the other kind, \<open>Mixed\<close> iff both occur but never nested, \<open>Safety\<close> /
  \<open>Reachability\<close> iff only greatest / only least fixpoints occur.
\<close>

theorem property_class_exact:
  assumes "wf_formula f"
  shows "\<exists>t. tree f = Some t
    \<and> property_class (length (f_nodes f)) f = Ok
        (if has_mu t \<and> has_nu t then if alternates t then Liveness else Mixed
         else if has_mu t then Reachability else if has_nu t then Safety else Propositional)
    \<and> fixpoint_nesting_order (length (f_nodes f)) f = Ok (order_tree t)"
proof -
  obtain t where t: "tree_of (length (f_nodes f)) f (f_root f) = Some t"
    using wf_formula_tree [OF assms] by (auto simp: tree_def)
  show ?thesis
    using alternation_depth_tree [OF t] fixpoint_kinds_tree [OF t] ad_tree_alternates [of t]
      collect_fixpoint_order_tree [OF t, of "[]"]
    by (intro exI [of _ t]) (auto simp: tree_def t property_class_def fixpoint_nesting_order_def)
qed

definition liveness_example :: formula where
  \<comment> \<open>\<open>nu X. mu Y. ((p || <> Y) && [] X)\<close>\<close>
  "liveness_example =
     \<lparr>f_root = 8,
      f_nodes = [NPredicate ''p'', NVariable 1, NModal Diamond guard_default 1, NOr 0 2,
                 NVariable 0, NModal Box guard_default 4, NAnd 3 5, NMu 1 6, NNu 0 7],
      f_vars = [''X'', ''Y'']\<rparr>"

theorem property_class_exact_witness:
  "wf_formula liveness_example \<and> property_class 9 liveness_example = Ok Liveness"
proof -
  have wf: "wf_formula liveness_example"
    by (simp add: liveness_example_def wf_formula_def wf_nodes_def All_less_Suc numeral_eq_Suc)
  have t: "tree liveness_example = Some (FNu 0 (FMu 1 (FAnd
      (FOr (FPred ''p'') (FModal Diamond guard_default (FVar 1)))
      (FModal Box guard_default (FVar 0)))))"
    by (simp add: liveness_example_def tree_def tree_of.simps numeral_eq_Suc)
  have "length (f_nodes liveness_example) = 9" by (simp add: liveness_example_def)
  then show ?thesis using wf property_class_exact [OF wf] by (simp add: t)
qed

end
