(* ===== verification/Modal_Ops.thy ===== *)
theory Modal_Ops
  imports Formula "HOL-Library.Multiset"
begin

section \<open>Modal operators of the evaluator\<close>

text \<open>
  Models the modal part of \<^verbatim>\<open>mu_calculus/evaluator.rs\<close>: the transition-modality filter, target
  coverage of hyper transitions, guard partitions, the grouping of uncontrollable transitions,
  \<open>modal_exists\<close> and \<open>modal_forall\<close> with their three control modes, the bounded (\<open>steps=k\<close>)
  variants with their breadth-first fallbacks and memo table, and the per-player three-valued
  rule \<open>modal_trit_core\<close>.

  Iteration over the values of a hash map is a traversal of an association list: the code only
  quantifies over those values, so the order does not matter.

  The lemmas give the plain reading of the operators for \<open>Control::All\<close> on unbounded guards,
  show that every operator is monotone in its target set, and that guard partitions do not
  change results.
\<close>

subsection \<open>Filters and coverage\<close>

datatype modality_filter = FilterAll | FilterMustOnly

fun filter_allows :: "modality_filter \<Rightarrow> transition \<Rightarrow> bool" where
  "filter_allows FilterAll t = True"
| "filter_allows FilterMustOnly t = (t_modality t \<noteq> MayOnly)"

definition transition_target_in_set_diamond :: "transition \<Rightarrow> bitvec \<Rightarrow> bool" where
  "transition_target_in_set_diamond t targets =
     (case t_modality t of
        MustHyperOnly hyper \<Rightarrow>
          if length hyper > 1 then list_ex (bit_is_set targets) hyper
          else bit_is_set targets (t_target t)
      | _ \<Rightarrow> bit_is_set targets (t_target t))"

definition transition_target_in_set_box :: "transition \<Rightarrow> bitvec \<Rightarrow> bool" where
  "transition_target_in_set_box t targets =
     (case t_modality t of
        MustHyperOnly hyper \<Rightarrow>
          if length hyper > 1 then list_all (bit_is_set targets) hyper
          else bit_is_set targets (t_target t)
      | _ \<Rightarrow> bit_is_set targets (t_target t))"

subsection \<open>Guards\<close>

definition guard_matches :: "clts \<Rightarrow> nat \<Rightarrow> transition \<Rightarrow> guard \<Rightarrow> bool" where
  "guard_matches c s t g = guard_matches_labels_and_vars s t g c"

definition guard_current_matches :: "clts \<Rightarrow> nat \<Rightarrow> guard \<Rightarrow> bool" where
  "guard_current_matches c s g =
     (if vg_required (g_current g) \<noteq> []
         \<and> list_ex (\<lambda>v. \<not> state_has_var c s v) (vg_required (g_current g)) then False
      else if vg_forbidden (g_current g) \<noteq> []
         \<and> list_ex (state_has_var c s) (vg_forbidden (g_current g)) then False
      else True)"

definition guard_zero_step_allowed :: "guard \<Rightarrow> bool" where
  "guard_zero_step_allowed g \<longleftrightarrow>
     g_labels g = [] \<and> vg_required (g_next g) = [] \<and> vg_forbidden (g_next g) = []"

record guard_partitions =
  gp_current_required :: bitvec
  gp_current_forbidden :: bitvec
  gp_next_required :: bitvec
  gp_next_forbidden :: bitvec

definition guard_partitions_new :: "guard \<Rightarrow> clts \<Rightarrow> guard_partitions" where
  "guard_partitions_new g c =
     (let n = state_count c
      in \<lparr>gp_current_required = bv_of n (\<lambda>s. \<not> (vg_required (g_current g) \<noteq> []
              \<and> list_ex (\<lambda>v. \<not> state_has_var c s v) (vg_required (g_current g)))),
          gp_current_forbidden = bv_of n (\<lambda>s. \<not> (vg_forbidden (g_current g) \<noteq> []
              \<and> list_ex (state_has_var c s) (vg_forbidden (g_current g)))),
          gp_next_required = bv_of n (\<lambda>s. \<not> (vg_required (g_next g) \<noteq> []
              \<and> list_ex (\<lambda>v. \<not> state_has_var c s v) (vg_required (g_next g)))),
          gp_next_forbidden = bv_of n (\<lambda>s. \<not> (vg_forbidden (g_next g) \<noteq> []
              \<and> list_ex (state_has_var c s) (vg_forbidden (g_next g))))\<rparr>)"

definition matches_current :: "guard_partitions \<Rightarrow> nat \<Rightarrow> bool" where
  "matches_current p idx \<longleftrightarrow>
     bit_is_set (gp_current_required p) idx \<and> bit_is_set (gp_current_forbidden p) idx"

definition matches_next :: "guard_partitions \<Rightarrow> nat \<Rightarrow> bool" where
  "matches_next p idx \<longleftrightarrow>
     bit_is_set (gp_next_required p) idx \<and> bit_is_set (gp_next_forbidden p) idx"

definition parts_current_ok :: "guard_partitions option \<Rightarrow> nat \<Rightarrow> bool" where
  \<comment> \<open>negation of \<open>if let Some(parts) = guard_parts && !parts.matches_current(idx)\<close>\<close>
  "parts_current_ok parts idx = (case parts of None \<Rightarrow> True | Some p \<Rightarrow> matches_current p idx)"

definition parts_next_ok :: "guard_partitions option \<Rightarrow> nat \<Rightarrow> bool" where
  "parts_next_ok parts idx = (case parts of None \<Rightarrow> True | Some p \<Rightarrow> matches_next p idx)"

record guard_signature =
  gs_labels :: "string list"
  gs_current_required :: "string list"
  gs_current_forbidden :: "string list"
  gs_next_required :: "string list"
  gs_next_forbidden :: "string list"
  gs_max_steps :: "nat option"

definition guard_signature_new :: "guard \<Rightarrow> guard_signature" where
  "guard_signature_new g =
     \<lparr>gs_labels = sort_dedup (g_labels g),
      gs_current_required = sort_dedup (vg_required (g_current g)),
      gs_current_forbidden = sort_dedup (vg_forbidden (g_current g)),
      gs_next_required = sort_dedup (vg_required (g_next g)),
      gs_next_forbidden = sort_dedup (vg_forbidden (g_next g)),
      gs_max_steps = g_max_steps g\<rparr>"

subsection \<open>Grouping\<close>

definition transition_label_set :: "clts \<Rightarrow> transition \<Rightarrow> string list" where
  "transition_label_set c t =
     sort (concat (map (\<lambda>l. case label_payload c l of None \<Rightarrow> [] | Some p \<Rightarrow> p) (t_labels t)))"

fun join_comma :: "string list \<Rightarrow> string" where
  "join_comma [] = ''''"
| "join_comma [x] = x"
| "join_comma (x # xs) = x @ '','' @ join_comma xs"

definition extract_uncontrollable_label_ids :: "clts \<Rightarrow> transition \<Rightarrow> nat list" where
  "extract_uncontrollable_label_ids c t =
     (if t_labels t = [] then [] else sort (filter (is_uncontrollable_label c) (t_labels t)))"

type_synonym indexed = "transition \<times> nat"

definition edge_ok ::
  "clts \<Rightarrow> guard \<Rightarrow> nat \<Rightarrow> guard_partitions option \<Rightarrow> modality_filter \<Rightarrow> transition \<Rightarrow> bool" where
  \<comment> \<open>the three skips shared by the loops: filter, guard, next-state partition\<close>
  "edge_ok c g s parts flt t \<longleftrightarrow>
     filter_allows flt t \<and> guard_matches c s t g \<and> parts_next_ok parts (t_target t)"

definition group_transitions_by_uncontrollable_labels ::
  "clts \<Rightarrow> transition list \<Rightarrow> guard \<Rightarrow> nat \<Rightarrow> guard_partitions option \<Rightarrow> modality_filter
     \<Rightarrow> (nat list \<times> indexed list) list" where
  "group_transitions_by_uncontrollable_labels c ts g s parts flt =
     filter (\<lambda>(key, group). group \<noteq> [])
       (map (\<lambda>(key, idxs). (key,
          map (\<lambda>i. (ts ! i, i))
            (filter (\<lambda>i. i < length ts \<and> edge_ok c g s parts flt (ts ! i)) idxs)))
         (c_uncontrollable_groups c ! s))"

fun sub_groups :: "clts \<Rightarrow> indexed list \<Rightarrow> (string \<times> indexed list) list
    \<Rightarrow> (string \<times> indexed list) list" where
  \<comment> \<open>\<open>label_set_groups.entry(full_label_set.join(\",\")).or_default().push(..)\<close>\<close>
  "sub_groups c [] m = m"
| "sub_groups c ((t, i) # ts) m =
     sub_groups c ts (group_push (join_comma (transition_label_set c t)) (t, i) m)"

definition in_group :: "clts \<Rightarrow> (nat list \<times> 'a) list \<Rightarrow> transition \<Rightarrow> bool" where
  \<comment> \<open>\<open>in_uncontrollable_group\<close>\<close>
  "in_group c groups t =
     (let ids = extract_uncontrollable_label_ids c t
      in if ids \<noteq> [] then map_of groups ids \<noteq> None else False)"

subsection \<open>Diamond\<close>

definition sub_group_satisfies :: "clts \<Rightarrow> (transition \<Rightarrow> bool) \<Rightarrow> indexed list \<Rightarrow> bool" where
  "sub_group_satisfies c sat sub_group =
     (let controllable = filter (\<lambda>(t, i). is_controllable c t) sub_group;
          uncontrollable = filter (\<lambda>(t, i). is_uncontrollable c t) sub_group
      in if controllable \<noteq> [] then list_all (\<lambda>(t, i). sat t) controllable
         else list_all (\<lambda>(t, i). sat t) uncontrollable)"

definition any_group_satisfies ::
  "clts \<Rightarrow> (transition \<Rightarrow> bool) \<Rightarrow> (nat list \<times> indexed list) list \<Rightarrow> bool" where
  "any_group_satisfies c sat groups =
     list_ex (\<lambda>(key, group). list_ex (\<lambda>(k, sub_group). sub_group_satisfies c sat sub_group)
       (sub_groups c group [])) groups"

definition label_set_satisfies ::
  "clts \<Rightarrow> (transition \<Rightarrow> bool) \<Rightarrow> (nat list \<times> indexed list) list \<Rightarrow> indexed list \<Rightarrow> bool" where
  \<comment> \<open>one round of the loop over \<open>all_transitions_by_label_set.values()\<close>\<close>
  "label_set_satisfies c sat groups same_labels =
     (case same_labels of [] \<Rightarrow> False
      | (first, i) # rest \<Rightarrow>
          if in_group c groups first then False
          else
            (let controllable = filter (\<lambda>(t, i). is_controllable c t) same_labels;
                 uncontrollable = filter (\<lambda>(t, i). is_uncontrollable c t) same_labels
             in if controllable \<noteq> [] then list_all (\<lambda>(t, i). sat t) controllable
                else uncontrollable \<noteq> [] \<and> list_all (\<lambda>(t, i). sat t) uncontrollable))"

definition modal_exists ::
  "clts \<Rightarrow> nat \<Rightarrow> guard \<Rightarrow> bitvec \<Rightarrow> guard_partitions option \<Rightarrow> modality_filter \<Rightarrow> bool" where
  "modal_exists c s g targets parts flt =
     (if \<not> parts_current_ok parts s then False
      else
        (let outs = outgoing c s in
         if g_control g = CAll then
           (let all_coverage = (flt = FilterMustOnly)
            in list_ex (\<lambda>t. edge_ok c g s parts flt t
                 \<and> (if all_coverage then transition_target_in_set_box t targets
                    else transition_target_in_set_diamond t targets)) outs)
         else
           (let sat = (\<lambda>t. transition_target_in_set_diamond t targets);
                groups = group_transitions_by_uncontrollable_labels c outs g s parts flt;
                by_label_set = sub_groups c
                  (filter (\<lambda>(t, i). edge_ok c g s parts flt t) (zip outs [0..<length outs])) []
            in if list_ex (\<lambda>(k, same). label_set_satisfies c sat groups same) by_label_set
               then True
               else if any_group_satisfies c sat groups then True
               else if g_control g = CEnvironment then
                 (if list_ex (\<lambda>t. is_uncontrollable c t \<and> edge_ok c g s parts flt t \<and> sat t) outs
                  then True
                  else
                    (let ctrl = filter (\<lambda>t. is_controllable c t \<and> edge_ok c g s parts flt t) outs
                     in if ctrl \<noteq> [] \<and> list_all sat ctrl then True else ctrl = []))
               else False)))"

subsection \<open>Box\<close>

definition modal_forall ::
  "clts \<Rightarrow> nat \<Rightarrow> guard \<Rightarrow> bitvec \<Rightarrow> guard_partitions option \<Rightarrow> modality_filter \<Rightarrow> bool" where
  "modal_forall c s g targets parts flt =
     (if \<not> parts_current_ok parts s then True
      else
        (let outs = outgoing c s;
             sat = (\<lambda>t. transition_target_in_set_box t targets)
         in case g_control g of
              CAll \<Rightarrow>
                (let groups = group_transitions_by_uncontrollable_labels c outs g s parts flt
                 in if \<not> list_all (\<lambda>(key, group).
                        list_all (\<lambda>(t, i). bit_is_set targets (t_target t)) group) groups
                    then False
                    else if list_ex (\<lambda>t. is_controllable c t \<and> edge_ok c g s parts flt t
                        \<and> \<not> in_group c groups t \<and> \<not> sat t) outs
                    then False
                    else if groups = [] \<and> list_ex (\<lambda>t. edge_ok c g s parts flt t \<and> \<not> sat t) outs
                    then False
                    else True)
            | CControllable \<Rightarrow>
                (let groups = group_transitions_by_uncontrollable_labels c outs g s parts flt
                 in if \<not> list_all (\<lambda>(key, group). list_all (\<lambda>(t, i). sat t) group) groups
                    then False
                    else
                      (let ctrl = filter (\<lambda>t. edge_ok c g s parts flt t \<and> is_controllable c t) outs
                       in if ctrl \<noteq> [] then list_ex sat ctrl else True))
            | CEnvironment \<Rightarrow>
                \<not> list_ex (\<lambda>t. edge_ok c g s parts flt t \<and> \<not> sat t) outs))"

subsection \<open>Bounded modalities\<close>

text \<open>
  The breadth-first fallbacks. \<open>visited\<close> is the table of (state, depth) cells. Termination: every
  queue entry is replaced by entries of greater depth, so the multiset of remaining depths
  decreases.
\<close>

type_synonym cells = "(nat \<times> nat) set"

fun bfs_scan_exists ::
  "clts \<Rightarrow> guard \<Rightarrow> bitvec \<Rightarrow> nat \<Rightarrow> modality_filter \<Rightarrow> nat \<Rightarrow> nat \<Rightarrow> transition list \<Rightarrow> cells
     \<Rightarrow> nat list \<Rightarrow> (cells \<times> nat list) option" where
  \<comment> \<open>\<open>None\<close>: a target was met; \<open>Some (visited, pushed)\<close>: the states to enqueue\<close>
  "bfs_scan_exists c g targets bound flt cur depth [] visited pushed = Some (visited, pushed)"
| "bfs_scan_exists c g targets bound flt cur depth (t # ts) visited pushed =
     (if \<not> guard_matches c cur t g \<or> \<not> filter_allows flt t
      then bfs_scan_exists c g targets bound flt cur depth ts visited pushed
      else
        (let nxt = t_target t; next_depth = depth + 1
         in if bit_is_set targets nxt then None
            else if next_depth \<le> bound \<and> (nxt, next_depth) \<notin> visited
            then bfs_scan_exists c g targets bound flt cur depth ts
                   (insert (nxt, next_depth) visited)
                   (if next_depth < bound then pushed @ [nxt] else pushed)
            else bfs_scan_exists c g targets bound flt cur depth ts visited pushed))"

fun bfs_scan_forall ::
  "clts \<Rightarrow> guard \<Rightarrow> bitvec \<Rightarrow> nat \<Rightarrow> modality_filter \<Rightarrow> nat \<Rightarrow> nat \<Rightarrow> transition list \<Rightarrow> cells
     \<Rightarrow> nat list \<Rightarrow> (cells \<times> nat list) option" where
  \<comment> \<open>\<open>None\<close>: a successor outside the targets was met\<close>
  "bfs_scan_forall c g targets bound flt cur depth [] visited pushed = Some (visited, pushed)"
| "bfs_scan_forall c g targets bound flt cur depth (t # ts) visited pushed =
     (if \<not> guard_matches c cur t g \<or> \<not> filter_allows flt t
      then bfs_scan_forall c g targets bound flt cur depth ts visited pushed
      else
        (let nxt = t_target t; next_depth = depth + 1
         in if \<not> bit_is_set targets nxt then None
            else if next_depth \<le> bound \<and> (nxt, next_depth) \<notin> visited
            then bfs_scan_forall c g targets bound flt cur depth ts
                   (insert (nxt, next_depth) visited)
                   (if next_depth < bound then pushed @ [nxt] else pushed)
            else bfs_scan_forall c g targets bound flt cur depth ts visited pushed))"

definition queue_measure :: "nat \<Rightarrow> (nat \<times> nat) list \<Rightarrow> nat multiset" where
  "queue_measure bound queue = image_mset (\<lambda>(s, d). bound - d) (mset queue)"

lemma queue_measure_pop: "(queue_measure bound q, queue_measure bound (e # q)) \<in> mult less_than"
  using one_step_implies_mult [of "{#(case e of (s, d) \<Rightarrow> bound - d)#}" "{#}" less_than
      "queue_measure bound q"]
  by (simp add: queue_measure_def)

lemma queue_measure_push:
  assumes "d < bound"
  shows "(queue_measure bound (q @ map (\<lambda>s. (s, Suc d)) pushed), queue_measure bound ((cur, d) # q))
    \<in> mult less_than"
proof -
  let ?J = "image_mset (\<lambda>s. bound - Suc d) (mset pushed)"
  have "(queue_measure bound q + ?J, queue_measure bound q + {#bound - d#}) \<in> mult less_than"
    using assms by (intro one_step_implies_mult) auto
  moreover have "queue_measure bound (q @ map (\<lambda>s. (s, Suc d)) pushed) = queue_measure bound q + ?J"
    by (simp add: queue_measure_def image_mset.compositionality comp_def)
  ultimately show ?thesis by (simp add: queue_measure_def)
qed

function bfs_exists ::
  "clts \<Rightarrow> guard \<Rightarrow> bitvec \<Rightarrow> nat \<Rightarrow> modality_filter \<Rightarrow> cells \<Rightarrow> (nat \<times> nat) list \<Rightarrow> bool" where
  "bfs_exists c g targets bound flt visited [] = False"
| "bfs_exists c g targets bound flt visited ((cur, depth) # queue) =
     (if depth > bound then bfs_exists c g targets bound flt visited queue
      else if depth > 0 \<and> bit_is_set targets cur then True
      else if depth = bound then bfs_exists c g targets bound flt visited queue
      else case bfs_scan_exists c g targets bound flt cur depth (outgoing c cur) visited [] of
             None \<Rightarrow> True
           | Some (visited', pushed) \<Rightarrow>
               bfs_exists c g targets bound flt visited'
                 (queue @ map (\<lambda>s. (s, Suc depth)) pushed))"
  by pat_completeness auto

termination bfs_exists
  by (relation "inv_image (mult less_than) (\<lambda>(c, g, T, bound, flt, v, q). queue_measure bound q)")
    (auto intro: wf_mult queue_measure_pop queue_measure_push)

function bfs_forall ::
  "clts \<Rightarrow> guard \<Rightarrow> bitvec \<Rightarrow> nat \<Rightarrow> modality_filter \<Rightarrow> cells \<Rightarrow> (nat \<times> nat) list \<Rightarrow> bool" where
  "bfs_forall c g targets bound flt visited [] = True"
| "bfs_forall c g targets bound flt visited ((cur, depth) # queue) =
     \<comment> \<open>\<open>depth == bound\<close>: no entry of the queue is deeper\<close>
     (if \<not> depth < bound then bfs_forall c g targets bound flt visited queue
      else case bfs_scan_forall c g targets bound flt cur depth (outgoing c cur) visited [] of
             None \<Rightarrow> False
           | Some (visited', pushed) \<Rightarrow>
               bfs_forall c g targets bound flt visited'
                 (queue @ map (\<lambda>s. (s, Suc depth)) pushed))"
  by pat_completeness auto

termination bfs_forall
  by (relation "inv_image (mult less_than) (\<lambda>(c, g, T, bound, flt, v, q). queue_measure bound q)")
    (auto intro: wf_mult queue_measure_pop queue_measure_push)

primrec modal_exists_bounded ::
  "clts \<Rightarrow> guard \<Rightarrow> bitvec \<Rightarrow> modality_filter \<Rightarrow> nat \<Rightarrow> nat \<Rightarrow> bool" where
  "modal_exists_bounded c g targets flt 0 = (\<lambda>s.
     guard_zero_step_allowed g \<and> guard_current_matches c s g \<and> bit_is_set targets s)"
| "modal_exists_bounded c g targets flt (Suc b) = (\<lambda>s.
     if \<not> guard_current_matches c s g then False
     else
       (let outs = outgoing c s;
            groups = group_transitions_by_uncontrollable_labels c outs g s None flt;
            sat = (\<lambda>t. bit_is_set targets (t_target t)
                    \<or> Suc b > 1 \<and> modal_exists_bounded c g targets flt b (t_target t));
            any_group = any_group_satisfies c sat groups
        in if \<not> any_group \<and> groups \<noteq> [] then False
           else if list_ex (\<lambda>t. is_controllable c t \<and> guard_matches c s t g \<and> filter_allows flt t
                    \<and> \<not> in_group c groups t \<and> sat t) outs
           then True
           else if groups \<noteq> [] then True
           else bfs_exists c g targets (Suc b) flt {(s, 0)} [(s, 0)]))"

text \<open>
  \<open>modal_forall_bounded_controllable_rec\<close> with its memo table \<open>memo[idx][remaining]\<close>, and the two
  loops of its body as auxiliary functions.
\<close>

type_synonym step_memo = "(nat \<times> nat) \<Rightarrow> bool option"

definition fbc_groups :: "clts \<Rightarrow> guard \<Rightarrow> modality_filter \<Rightarrow> nat \<Rightarrow> transition list" where
  \<comment> \<open>the transitions visited by the nested loops over \<open>uncontrollable_groups.values()\<close>\<close>
  "fbc_groups c g flt s = concat (map (\<lambda>(key, group). map fst group)
     (group_transitions_by_uncontrollable_labels c (outgoing c s) g s None flt))"

definition fbc_ctrl :: "clts \<Rightarrow> guard \<Rightarrow> modality_filter \<Rightarrow> nat \<Rightarrow> transition list" where
  "fbc_ctrl c g flt s =
     filter (\<lambda>t. guard_matches c s t g \<and> filter_allows flt t \<and> is_controllable c t) (outgoing c s)"

function (sequential)
  modal_forall_bounded_controllable_rec ::
    "clts \<Rightarrow> guard \<Rightarrow> bitvec \<Rightarrow> modality_filter \<Rightarrow> nat \<Rightarrow> nat \<Rightarrow> step_memo \<Rightarrow> bool \<times> step_memo"
  and fbc_all_loop ::
    "clts \<Rightarrow> guard \<Rightarrow> bitvec \<Rightarrow> modality_filter \<Rightarrow> nat \<Rightarrow> transition list \<Rightarrow> step_memo
       \<Rightarrow> bool \<times> step_memo"
  and fbc_ex_loop ::
    "clts \<Rightarrow> guard \<Rightarrow> bitvec \<Rightarrow> modality_filter \<Rightarrow> nat \<Rightarrow> transition list \<Rightarrow> bool \<Rightarrow> step_memo
       \<Rightarrow> bool \<times> step_memo" where
  "modal_forall_bounded_controllable_rec c g targets flt r s memo =
     (case memo (s, r) of
        Some v \<Rightarrow> (v, memo)
      | None \<Rightarrow>
          if \<not> guard_current_matches c s g then (False, memo((s, r) \<mapsto> False))
          else case r of
            0 \<Rightarrow> (let result = guard_zero_step_allowed g \<and> bit_is_set targets s
                  in (result, memo((s, 0) \<mapsto> result)))
          | Suc r' \<Rightarrow>
              (case fbc_all_loop c g targets flt r' (fbc_groups c g flt s) memo of
                 (False, memo1) \<Rightarrow> (False, memo1((s, r) \<mapsto> False))
               | (True, memo1) \<Rightarrow>
                   (case fbc_ex_loop c g targets flt r' (fbc_ctrl c g flt s) False memo1 of
                      (satisfied, memo2) \<Rightarrow>
                        (let result = (if fbc_ctrl c g flt s \<noteq> [] then satisfied else True)
                         in (result, memo2((s, r) \<mapsto> result))))))"
| "fbc_all_loop c g targets flt r [] memo = (True, memo)"
| "fbc_all_loop c g targets flt r (t # ts) memo =
     (if \<not> bit_is_set targets (t_target t) then (False, memo)
      else case modal_forall_bounded_controllable_rec c g targets flt r (t_target t) memo of
             (False, memo1) \<Rightarrow> (False, memo1)
           | (True, memo1) \<Rightarrow> fbc_all_loop c g targets flt r ts memo1)"
| "fbc_ex_loop c g targets flt r [] satisfied memo = (satisfied, memo)"
| "fbc_ex_loop c g targets flt r (t # ts) satisfied memo =
     (if \<not> bit_is_set targets (t_target t) then fbc_ex_loop c g targets flt r ts satisfied memo
      else case modal_forall_bounded_controllable_rec c g targets flt r (t_target t) memo of
             (ok, memo1) \<Rightarrow> fbc_ex_loop c g targets flt r ts (satisfied \<or> ok) memo1)"
  by pat_completeness auto

termination
  by (relation "measures [\<lambda>p. (case p of Inl (c, g, T, flt, r, s, m) \<Rightarrow> 2 * r
        | Inr (Inl (c, g, T, flt, r, ts, m)) \<Rightarrow> 2 * r + 1
        | Inr (Inr (c, g, T, flt, r, ts, b, m)) \<Rightarrow> 2 * r + 1),
      \<lambda>p. (case p of Inl (c, g, T, flt, r, s, m) \<Rightarrow> 0
        | Inr (Inl (c, g, T, flt, r, ts, m)) \<Rightarrow> length ts
        | Inr (Inr (c, g, T, flt, r, ts, b, m)) \<Rightarrow> length ts)]") auto

definition modal_forall_bounded_controllable ::
  "clts \<Rightarrow> guard \<Rightarrow> bitvec \<Rightarrow> modality_filter \<Rightarrow> nat \<Rightarrow> nat \<Rightarrow> bool" where
  "modal_forall_bounded_controllable c g targets flt bound s =
     fst (modal_forall_bounded_controllable_rec c g targets flt bound s (\<lambda>_. None))"

primrec modal_forall_bounded ::
  "clts \<Rightarrow> guard \<Rightarrow> bitvec \<Rightarrow> modality_filter \<Rightarrow> nat \<Rightarrow> nat \<Rightarrow> bool" where
  "modal_forall_bounded c g targets flt 0 = (\<lambda>s.
     guard_zero_step_allowed g \<and> guard_current_matches c s g \<and> bit_is_set targets s)"
| "modal_forall_bounded c g targets flt (Suc b) = (\<lambda>s.
     if \<not> guard_current_matches c s g then False
     else if g_control g = CControllable
     then modal_forall_bounded_controllable c g targets flt (Suc b) s
     else
       (let outs = outgoing c s;
            groups = group_transitions_by_uncontrollable_labels c outs g s None flt;
            sat = (\<lambda>t. bit_is_set targets (t_target t)
                    \<and> (Suc b > 1 \<longrightarrow> modal_forall_bounded c g targets flt b (t_target t)))
        in if \<not> list_all (\<lambda>(key, group). list_all (\<lambda>(t, i). sat t) group) groups then False
           else if list_ex (\<lambda>t. is_controllable c t \<and> guard_matches c s t g \<and> filter_allows flt t
                    \<and> \<not> in_group c groups t \<and> \<not> sat t) outs
           then False
           else if groups = [] then bfs_forall c g targets (Suc b) flt {(s, 0)} [(s, 0)]
           else True))"

subsection \<open>The per-player three-valued rule\<close>

record edge_facts =
  ef_controllable :: bool
  ef_is_must :: bool
  ef_reaches_must :: bool
  ef_reaches_may :: bool

definition ef_reaches :: "edge_facts \<Rightarrow> bool \<Rightarrow> bool" where
  "ef_reaches e def = (if def then ef_reaches_must e else ef_reaches_may e)"

definition ef_in_subset :: "edge_facts \<Rightarrow> bool option \<Rightarrow> bool \<Rightarrow> bool" where
  "ef_in_subset e ctrl must \<longleftrightarrow>
     (case ctrl of None \<Rightarrow> True | Some b \<Rightarrow> ef_controllable e = b) \<and> (must \<longrightarrow> ef_is_must e)"

definition ef_exists :: "edge_facts list \<Rightarrow> bool option \<Rightarrow> bool \<Rightarrow> bool \<Rightarrow> bool" where
  "ef_exists edges ctrl must def = list_ex (\<lambda>e. ef_in_subset e ctrl must \<and> ef_reaches e def) edges"

definition ef_forall :: "edge_facts list \<Rightarrow> bool option \<Rightarrow> bool \<Rightarrow> bool \<Rightarrow> bool" where
  "ef_forall edges ctrl must def =
     list_all (\<lambda>e. \<not> ef_in_subset e ctrl must \<or> ef_reaches e def) edges"

definition modal_trit_core :: "modal_kind \<Rightarrow> control \<Rightarrow> edge_facts list \<Rightarrow> trit" where
  "modal_trit_core kind control edges =
     (let env = Some False; ctrl = Some True; has_ctrl = list_ex ef_controllable edges
      in case control of
           CAll \<Rightarrow>
             (case kind of
                Diamond \<Rightarrow> if ef_exists edges None True True then TTrue
                  else if ef_exists edges None False False then TUnknown else TFalse
              | Box \<Rightarrow> if ef_forall edges None False True then TTrue
                  else if ef_forall edges None True False then TUnknown else TFalse)
         | CControllable \<Rightarrow>
             (let must_good = (ef_forall edges env False True
                    \<and> (ef_exists edges ctrl True True \<or> \<not> has_ctrl));
                  may_good = (ef_forall edges env True False
                    \<and> (ef_exists edges ctrl False False \<or> \<not> has_ctrl))
              in if must_good then TTrue else if may_good then TUnknown else TFalse)
         | CEnvironment \<Rightarrow>
             (let must_good = (ef_exists edges env True True
                    \<or> has_ctrl \<and> ef_forall edges ctrl False True);
                  may_good = (ef_exists edges env False False
                    \<or> has_ctrl \<and> ef_forall edges ctrl True False)
              in if must_good then TTrue else if may_good then TUnknown else TFalse))"

subsection \<open>Monotonicity in the target set\<close>

lemma diamond_cover_mono:
  "bset T \<subseteq> bset T' \<Longrightarrow> transition_target_in_set_diamond t T \<Longrightarrow> transition_target_in_set_diamond t T'"
  by (auto simp: transition_target_in_set_diamond_def list_ex_iff
      split: transition_modality.splits if_splits)

lemma box_cover_mono:
  "bset T \<subseteq> bset T' \<Longrightarrow> transition_target_in_set_box t T \<Longrightarrow> transition_target_in_set_box t T'"
  by (auto simp: transition_target_in_set_box_def list_all_iff
      split: transition_modality.splits if_splits)

lemmas cover_mono = diamond_cover_mono box_cover_mono

lemma sub_group_satisfies_mono:
  "(\<And>t. P t \<Longrightarrow> Q t) \<Longrightarrow> sub_group_satisfies c P xs \<Longrightarrow> sub_group_satisfies c Q xs"
  by (auto simp: sub_group_satisfies_def list_all_iff Let_def split: if_splits)

lemma list_ex_mono: "(\<And>x. P x \<Longrightarrow> Q x) \<Longrightarrow> list_ex P xs \<Longrightarrow> list_ex Q xs"
  by (auto simp: list_ex_iff)

lemma list_all_mono: "(\<And>x. P x \<Longrightarrow> Q x) \<Longrightarrow> list_all P xs \<Longrightarrow> list_all Q xs"
  by (auto simp: list_all_iff)

lemma any_group_satisfies_mono:
  assumes "\<And>t. P t \<Longrightarrow> Q t" and "any_group_satisfies c P groups"
  shows "any_group_satisfies c Q groups"
  using assms(2) unfolding any_group_satisfies_def
  by (rule list_ex_mono [rotated])
    (auto elim!: list_ex_mono [rotated] intro: sub_group_satisfies_mono assms(1))

lemma label_set_satisfies_mono:
  assumes "\<And>t. P t \<Longrightarrow> Q t" and "label_set_satisfies c P groups xs"
  shows "label_set_satisfies c Q groups xs"
proof (cases xs)
  case (Cons e rest)
  obtain t i where e: "e = (t, i)" by force
  have imp: "list_all (\<lambda>(t, i). P t) ys \<Longrightarrow> list_all (\<lambda>(t, i). Q t) ys" for ys :: "indexed list"
    using assms(1) by (auto simp: list_all_iff)
  show ?thesis
    using assms(2) imp [of "filter (\<lambda>(t, i). is_controllable c t) ((t, i) # rest)"]
      imp [of "filter (\<lambda>(t, i). is_uncontrollable c t) ((t, i) # rest)"]
    unfolding label_set_satisfies_def Let_def Cons e
    by (simp only: list.case prod.case split: if_splits) blast+
qed (use assms(2) in \<open>simp add: label_set_satisfies_def\<close>)

text \<open>The operators without their control flow.\<close>

definition label_set_part where
  "label_set_part c s g sat parts flt \<longleftrightarrow>
     list_ex (\<lambda>(k, same). label_set_satisfies c sat
         (group_transitions_by_uncontrollable_labels c (outgoing c s) g s parts flt) same)
       (sub_groups c (filter (\<lambda>(t, i). edge_ok c g s parts flt t)
         (zip (outgoing c s) [0..<length (outgoing c s)])) [])"

lemma modal_exists_All:
  "g_control g = CAll \<Longrightarrow> modal_exists c s g T parts flt \<longleftrightarrow>
     parts_current_ok parts s \<and> (\<exists>t \<in> set (outgoing c s). edge_ok c g s parts flt t
       \<and> (if flt = FilterMustOnly then transition_target_in_set_box t T
          else transition_target_in_set_diamond t T))"
  by (simp add: modal_exists_def list_ex_iff)

lemma modal_exists_player:
  "g_control g \<noteq> CAll \<Longrightarrow> modal_exists c s g T parts flt \<longleftrightarrow>
     parts_current_ok parts s \<and>
     (label_set_part c s g (\<lambda>t. transition_target_in_set_diamond t T) parts flt
      \<or> any_group_satisfies c (\<lambda>t. transition_target_in_set_diamond t T)
          (group_transitions_by_uncontrollable_labels c (outgoing c s) g s parts flt)
      \<or> g_control g = CEnvironment \<and>
        ((\<exists>t \<in> set (outgoing c s). is_uncontrollable c t \<and> edge_ok c g s parts flt t
            \<and> transition_target_in_set_diamond t T)
         \<or> (\<forall>t \<in> set (outgoing c s). is_controllable c t \<and> edge_ok c g s parts flt t
            \<longrightarrow> transition_target_in_set_diamond t T)))"
  by (auto simp: modal_exists_def Let_def label_set_part_def list_ex_iff list_all_iff
      filter_empty_conv)

lemma modal_exists_mono:
  assumes T: "bset T \<subseteq> bset T'" and ex: "modal_exists c s g T parts flt"
  shows "modal_exists c s g T' parts flt"
proof (cases "g_control g = CAll")
  case True
  then show ?thesis
    using ex cover_mono [OF T] by (auto simp: modal_exists_All split: if_splits)
next
  case False
  let ?S = "\<lambda>T t. transition_target_in_set_diamond t T"
  note S = diamond_cover_mono [OF T]
  have "label_set_part c s g (?S T) parts flt \<Longrightarrow> label_set_part c s g (?S T') parts flt"
    unfolding label_set_part_def
    by (erule list_ex_mono [rotated]) (auto intro: label_set_satisfies_mono [of "?S T" "?S T'"] S)
  then show ?thesis
    using ex any_group_satisfies_mono [of "?S T" "?S T'", OF S] S
    unfolding modal_exists_player [OF False] by blast
qed

lemma modal_forall_All:
  "g_control g = CAll \<Longrightarrow> modal_forall c s g T parts flt \<longleftrightarrow>
     (parts_current_ok parts s \<longrightarrow>
       (let groups = group_transitions_by_uncontrollable_labels c (outgoing c s) g s parts flt
        in (\<forall>grp \<in> set groups. \<forall>e \<in> set (snd grp). t_target (fst e) \<in> bset T)
         \<and> (\<forall>t \<in> set (outgoing c s). is_controllable c t \<and> edge_ok c g s parts flt t
              \<and> \<not> in_group c groups t \<longrightarrow> transition_target_in_set_box t T)
         \<and> (groups = [] \<longrightarrow> (\<forall>t \<in> set (outgoing c s). edge_ok c g s parts flt t
              \<longrightarrow> transition_target_in_set_box t T))))"
  by (auto simp: modal_forall_def Let_def list_ex_iff list_all_iff case_prod_beta)

lemma modal_forall_Controllable:
  "g_control g = CControllable \<Longrightarrow> modal_forall c s g T parts flt \<longleftrightarrow>
     (parts_current_ok parts s \<longrightarrow>
       (\<forall>grp \<in> set (group_transitions_by_uncontrollable_labels c (outgoing c s) g s parts flt).
          \<forall>e \<in> set (snd grp). transition_target_in_set_box (fst e) T)
       \<and> (let ctrl = {t \<in> set (outgoing c s). edge_ok c g s parts flt t \<and> is_controllable c t}
          in ctrl \<noteq> {} \<longrightarrow> (\<exists>t \<in> ctrl. transition_target_in_set_box t T)))"
  by (auto simp: modal_forall_def Let_def list_ex_iff list_all_iff filter_empty_conv case_prod_beta)

lemma modal_forall_Environment:
  "g_control g = CEnvironment \<Longrightarrow> modal_forall c s g T parts flt \<longleftrightarrow>
     (parts_current_ok parts s \<longrightarrow> (\<forall>t \<in> set (outgoing c s).
        edge_ok c g s parts flt t \<longrightarrow> transition_target_in_set_box t T))"
  by (auto simp: modal_forall_def list_ex_iff)

lemma modal_forall_mono:
  assumes T: "bset T \<subseteq> bset T'" and all: "modal_forall c s g T parts flt"
  shows "modal_forall c s g T' parts flt"
proof -
  note S = box_cover_mono [OF T]
  show ?thesis
  proof (cases "g_control g")
    case CAll
    then show ?thesis using all S T unfolding modal_forall_All [OF CAll] Let_def by fast
  next
    case CControllable
    then show ?thesis
      using all S unfolding modal_forall_Controllable [OF CControllable] Let_def by fast
  next
    case CEnvironment
    then show ?thesis using all S unfolding modal_forall_Environment [OF CEnvironment] by blast
  qed
qed

subsection \<open>Bounded modalities: the memo table and monotonicity\<close>

text \<open>The recursion of \<open>modal_forall_bounded_controllable_rec\<close> without its memo table.\<close>

primrec fbc_spec :: "clts \<Rightarrow> guard \<Rightarrow> bitvec \<Rightarrow> modality_filter \<Rightarrow> nat \<Rightarrow> nat \<Rightarrow> bool" where
  "fbc_spec c g targets flt 0 = (\<lambda>s.
     guard_current_matches c s g \<and> guard_zero_step_allowed g \<and> s \<in> bset targets)"
| "fbc_spec c g targets flt (Suc r) = (\<lambda>s.
     guard_current_matches c s g
     \<and> (\<forall>t \<in> set (fbc_groups c g flt s).
          t_target t \<in> bset targets \<and> fbc_spec c g targets flt r (t_target t))
     \<and> (fbc_ctrl c g flt s \<noteq> [] \<longrightarrow> (\<exists>t \<in> set (fbc_ctrl c g flt s).
          t_target t \<in> bset targets \<and> fbc_spec c g targets flt r (t_target t))))"

definition fbc_memo_ok :: "clts \<Rightarrow> guard \<Rightarrow> bitvec \<Rightarrow> modality_filter \<Rightarrow> step_memo \<Rightarrow> bool" where
  "fbc_memo_ok c g T flt memo \<longleftrightarrow> (\<forall>s r v. memo (s, r) = Some v \<longrightarrow> v = fbc_spec c g T flt r s)"

lemma fbc_memo_upd:
  "fbc_memo_ok c g T flt memo \<Longrightarrow> v = fbc_spec c g T flt r s \<Longrightarrow>
     fbc_memo_ok c g T flt (memo((s, r) \<mapsto> v))"
  by (auto simp: fbc_memo_ok_def)

lemma fbc_loops:
  assumes rec: "\<And>s memo. fbc_memo_ok c g T flt memo \<Longrightarrow>
      \<exists>m'. modal_forall_bounded_controllable_rec c g T flt r s memo = (fbc_spec c g T flt r s, m')
        \<and> fbc_memo_ok c g T flt m'"
  shows "fbc_memo_ok c g T flt memo \<Longrightarrow> \<exists>m'. fbc_all_loop c g T flt r ts memo
        = (\<forall>t \<in> set ts. t_target t \<in> bset T \<and> fbc_spec c g T flt r (t_target t), m')
      \<and> fbc_memo_ok c g T flt m'"
    and "fbc_memo_ok c g T flt memo \<Longrightarrow> \<exists>m'. fbc_ex_loop c g T flt r ts b memo
        = (b \<or> (\<exists>t \<in> set ts. t_target t \<in> bset T \<and> fbc_spec c g T flt r (t_target t)), m')
      \<and> fbc_memo_ok c g T flt m'"
proof -
  show "fbc_memo_ok c g T flt memo \<Longrightarrow> \<exists>m'. fbc_all_loop c g T flt r ts memo
        = (\<forall>t \<in> set ts. t_target t \<in> bset T \<and> fbc_spec c g T flt r (t_target t), m')
      \<and> fbc_memo_ok c g T flt m'"
  proof (induction ts arbitrary: memo)
    case (Cons t ts)
    obtain m1 where m1: "modal_forall_bounded_controllable_rec c g T flt r (t_target t) memo
        = (fbc_spec c g T flt r (t_target t), m1)" "fbc_memo_ok c g T flt m1"
      using rec [OF Cons.prems] by blast
    show ?case using Cons.IH [OF m1(2)] Cons.prems m1
      by (cases "fbc_spec c g T flt r (t_target t)") auto
  qed simp
  show "fbc_memo_ok c g T flt memo \<Longrightarrow> \<exists>m'. fbc_ex_loop c g T flt r ts b memo
        = (b \<or> (\<exists>t \<in> set ts. t_target t \<in> bset T \<and> fbc_spec c g T flt r (t_target t)), m')
      \<and> fbc_memo_ok c g T flt m'"
  proof (induction ts arbitrary: memo b)
    case (Cons t ts)
    obtain m1 where m1: "modal_forall_bounded_controllable_rec c g T flt r (t_target t) memo
        = (fbc_spec c g T flt r (t_target t), m1)" "fbc_memo_ok c g T flt m1"
      using rec [OF Cons.prems] by blast
    show ?case
      using Cons.IH [OF m1(2), of "b \<or> fbc_spec c g T flt r (t_target t)"] Cons.IH [OF Cons.prems, of b]
        m1 by (cases "t_target t \<in> bset T") auto
  qed simp
qed

lemma fbc_rec_spec:
  "fbc_memo_ok c g T flt memo \<Longrightarrow>
     \<exists>m'. modal_forall_bounded_controllable_rec c g T flt r s memo = (fbc_spec c g T flt r s, m')
       \<and> fbc_memo_ok c g T flt m'"
proof (induction r arbitrary: s memo)
  case 0
  show ?case
  proof (cases "memo (s, 0)")
    case None
    then show ?thesis
      using fbc_memo_upd [OF 0, of "fbc_spec c g T flt 0 s" 0 s] by (auto simp: Let_def)
  next
    case (Some v)
    then have "v = fbc_spec c g T flt 0 s" using 0 unfolding fbc_memo_ok_def by blast
    then show ?thesis using Some 0 by (auto simp del: fbc_spec.simps)
  qed
next
  case (Suc r)
  show ?case
  proof (cases "memo (s, Suc r)")
    case (Some v)
    then have "v = fbc_spec c g T flt (Suc r) s" using Suc.prems unfolding fbc_memo_ok_def by blast
    then show ?thesis using Some Suc.prems by (auto simp del: fbc_spec.simps)
  next
    case None
    obtain m1 where m1: "fbc_all_loop c g T flt r (fbc_groups c g flt s) memo
        = (\<forall>t \<in> set (fbc_groups c g flt s). t_target t \<in> bset T \<and> fbc_spec c g T flt r (t_target t), m1)"
      and ok1: "fbc_memo_ok c g T flt m1" using fbc_loops(1) [of c g T flt r memo] Suc.IH Suc.prems by blast
    obtain m2 where m2: "fbc_ex_loop c g T flt r (fbc_ctrl c g flt s) False m1
        = (\<exists>t \<in> set (fbc_ctrl c g flt s). t_target t \<in> bset T \<and> fbc_spec c g T flt r (t_target t), m2)"
      and ok2: "fbc_memo_ok c g T flt m2"
      using fbc_loops(2) [of c g T flt r m1 "fbc_ctrl c g flt s" False] Suc.IH ok1 by auto
    let ?v = "fbc_spec c g T flt (Suc r) s"
    have upd: "fbc_memo_ok c g T flt (m((s, Suc r) \<mapsto> ?v))" if "fbc_memo_ok c g T flt m" for m
      by (rule fbc_memo_upd [OF that refl])
    show ?thesis
      using None m1 m2 upd [OF Suc.prems] upd [OF ok1] upd [OF ok2]
      by (cases "\<forall>t \<in> set (fbc_groups c g flt s).
          t_target t \<in> bset T \<and> fbc_spec c g T flt r (t_target t)")
        (auto simp: Let_def split: if_splits)
  qed
qed

lemma modal_forall_bounded_controllable_spec:
  "modal_forall_bounded_controllable c g T flt bound s = fbc_spec c g T flt bound s"
  using fbc_rec_spec [of c g T flt "\<lambda>_. None" bound s]
  by (auto simp: modal_forall_bounded_controllable_def fbc_memo_ok_def
      simp del: modal_forall_bounded_controllable_rec.simps)

text \<open>The searches and recursions are monotone: what they enqueue does not depend on the targets.\<close>

lemma bfs_scan_exists_mono:
  "bset T \<subseteq> bset T' \<Longrightarrow> bfs_scan_exists c g T' bound flt cur d ts vis pushed = Some r \<Longrightarrow>
     bfs_scan_exists c g T bound flt cur d ts vis pushed = Some r"
  by (induction c g T' bound flt cur d ts vis pushed rule: bfs_scan_exists.induct)
    (auto simp: Let_def split: if_splits)

lemma bfs_scan_forall_mono:
  "bset T \<subseteq> bset T' \<Longrightarrow> bfs_scan_forall c g T bound flt cur d ts vis pushed = Some r \<Longrightarrow>
     bfs_scan_forall c g T' bound flt cur d ts vis pushed = Some r"
  by (induction c g T bound flt cur d ts vis pushed rule: bfs_scan_forall.induct)
    (auto simp: Let_def split: if_splits)

lemma bfs_exists_mono:
  "bset T \<subseteq> bset T' \<Longrightarrow> bfs_exists c g T bound flt vis q \<Longrightarrow> bfs_exists c g T' bound flt vis q"
proof (induction c g T bound flt vis q rule: bfs_exists.induct)
  case (2 c g T bound flt vis cur d q)
  show ?case
  proof (cases "bfs_scan_exists c g T' bound flt cur d (outgoing c cur) vis []")
    case None
    then show ?thesis using 2 by (auto split: if_splits)
  next
    case (Some r)
    then have "bfs_scan_exists c g T bound flt cur d (outgoing c cur) vis [] = Some r"
      using bfs_scan_exists_mono [OF 2(4)] by blast
    then show ?thesis using 2 Some by (auto split: if_splits prod.splits)
  qed
qed simp

lemma bfs_forall_mono:
  "bset T \<subseteq> bset T' \<Longrightarrow> bfs_forall c g T bound flt vis q \<Longrightarrow> bfs_forall c g T' bound flt vis q"
proof (induction c g T bound flt vis q rule: bfs_forall.induct)
  case (2 c g T bound flt vis cur d q)
  show ?case
  proof (cases "d < bound")
    case True
    then obtain r where r: "bfs_scan_forall c g T bound flt cur d (outgoing c cur) vis [] = Some r"
      using 2(4) by (auto split: option.splits)
    then have "bfs_scan_forall c g T' bound flt cur d (outgoing c cur) vis [] = Some r"
      using bfs_scan_forall_mono [OF 2(3)] by blast
    then show ?thesis using 2 True r by (auto split: prod.splits)
  next
    case False
    then show ?thesis using 2 by simp
  qed
qed simp

lemma modal_exists_bounded_mono:
  assumes T: "bset T \<subseteq> bset T'"
  shows "modal_exists_bounded c g T flt b s \<Longrightarrow> modal_exists_bounded c g T' flt b s"
proof (induction b arbitrary: s)
  case (Suc b)
  let ?groups = "group_transitions_by_uncontrollable_labels c (outgoing c s) g s None flt"
  let ?S = "\<lambda>T t. t_target t \<in> bset T
      \<or> Suc b > 1 \<and> modal_exists_bounded c g T flt b (t_target t)"
  have S: "?S T t \<Longrightarrow> ?S T' t" for t using T Suc.IH by blast
  have iff: "modal_exists_bounded c g T flt (Suc b) s \<longleftrightarrow> guard_current_matches c s g
      \<and> (any_group_satisfies c (?S T) ?groups \<or> ?groups = [])
      \<and> ((\<exists>t \<in> set (outgoing c s). is_controllable c t \<and> guard_matches c s t g \<and> filter_allows flt t
             \<and> \<not> in_group c ?groups t \<and> ?S T t)
         \<or> ?groups \<noteq> [] \<or> bfs_exists c g T (Suc b) flt {(s, 0)} [(s, 0)])" for T
    unfolding modal_exists_bounded.simps Let_def
    by (simp del: bfs_exists.simps One_nat_def add: list_ex_iff) blast
  show ?case
    using Suc.prems any_group_satisfies_mono [of "?S T" "?S T'", OF S] bfs_exists_mono [OF T] S
    unfolding iff by blast
qed (use T in auto)

lemma fbc_spec_mono:
  assumes T: "bset T \<subseteq> bset T'"
  shows "fbc_spec c g T flt r s \<Longrightarrow> fbc_spec c g T' flt r s"
proof (induction r arbitrary: s)
  case (Suc r)
  then show ?case using T by fastforce
qed (use T in auto)

lemma modal_forall_bounded_mono:
  assumes T: "bset T \<subseteq> bset T'"
  shows "modal_forall_bounded c g T flt b s \<Longrightarrow> modal_forall_bounded c g T' flt b s"
proof (induction b arbitrary: s)
  case (Suc b)
  let ?groups = "group_transitions_by_uncontrollable_labels c (outgoing c s) g s None flt"
  let ?S = "\<lambda>T t. t_target t \<in> bset T
      \<and> (Suc b > 1 \<longrightarrow> modal_forall_bounded c g T flt b (t_target t))"
  have S: "?S T t \<Longrightarrow> ?S T' t" for t using T Suc.IH by blast
  have iff: "modal_forall_bounded c g T flt (Suc b) s \<longleftrightarrow> guard_current_matches c s g
      \<and> (if g_control g = CControllable then fbc_spec c g T flt (Suc b) s
         else (\<forall>grp \<in> set ?groups. \<forall>e \<in> set (snd grp). ?S T (fst e))
           \<and> (\<forall>t \<in> set (outgoing c s). is_controllable c t \<and> guard_matches c s t g \<and> filter_allows flt t
               \<and> \<not> in_group c ?groups t \<longrightarrow> ?S T t)
           \<and> (?groups = [] \<longrightarrow> bfs_forall c g T (Suc b) flt {(s, 0)} [(s, 0)]))" for T
    unfolding modal_forall_bounded.simps Let_def modal_forall_bounded_controllable_spec
    by (simp del: bfs_forall.simps fbc_spec.simps One_nat_def
        add: list_ex_iff list_all_iff case_prod_beta) blast
  show ?case
  proof (cases "g_control g = CControllable")
    case True
    then show ?thesis
      using Suc.prems fbc_spec_mono [OF T, of c g flt "Suc b" s] unfolding iff if_P [OF True] by blast
  next
    case False
    have "(\<forall>grp \<in> set ?groups. \<forall>e \<in> set (snd grp). ?S T (fst e)) \<Longrightarrow>
        \<forall>grp \<in> set ?groups. \<forall>e \<in> set (snd grp). ?S T' (fst e)" using S by blast
    moreover note bfs_forall_mono [OF T, of c g "Suc b" flt "{(s, 0)}" "[(s, 0)]"]
    ultimately show ?thesis using Suc.prems S False unfolding iff if_not_P [OF False] by blast
  qed
qed (use T in auto)

subsection \<open>The plain reading of the box\<close>

text \<open>
  On a well-formed CLTS the filtered groups hold exactly the admitted uncontrollable
  transitions, and no controllable transition is mistaken for a member of a group.
\<close>

lemma group_push_members:
  "(\<exists>grp \<in> set (group_push key v m). j \<in> set (snd grp)) \<longleftrightarrow>
     j = v \<or> (\<exists>grp \<in> set m. j \<in> set (snd grp))"
proof (cases "map_of m key")
  case None
  then show ?thesis by (auto simp: group_push_def)
next
  case (Some "is")
  have "(\<exists>grp \<in> set (AList.update key (is @ [v]) m). j \<in> set (snd grp)) \<longleftrightarrow>
     j = v \<or> (\<exists>grp \<in> set m. j \<in> set (snd grp))"
    using Some by (induction m) (auto split: if_splits)
  then show ?thesis by (simp add: group_push_def Some)
qed

lemma group_from_members:
  "(\<exists>grp \<in> set (group_from u i ts m). j \<in> set (snd grp)) \<longleftrightarrow>
     (\<exists>grp \<in> set m. j \<in> set (snd grp))
     \<or> i \<le> j \<and> j < i + length ts \<and> should_group u (ts ! (j - i))"
proof (induction ts arbitrary: i m j)
  case (Cons t ts)
  show ?case
  proof (cases "j = i")
    case True
    then show ?thesis by (simp add: Cons.IH group_push_members)
  next
    case False
    then have "i \<le> j \<and> j < i + length (t # ts) \<and> should_group u ((t # ts) ! (j - i))
      \<longleftrightarrow> Suc i \<le> j \<and> j < Suc i + length ts \<and> should_group u (ts ! (j - Suc i))"
      by (auto simp: nth_Cons')
    with False show ?thesis by (simp add: Cons.IH group_push_members)
  qed
qed auto

lemma wf_group_members:
  assumes "wf_clts c" "s < state_count c"
  shows "(\<exists>grp \<in> set (c_uncontrollable_groups c ! s). j \<in> set (snd grp))
    \<longleftrightarrow> j < length (outgoing c s) \<and> is_uncontrollable c (outgoing c s ! j)"
proof -
  have "c_uncontrollable_groups c ! s
      = group_from (c_uncontrollable_alphabet c) 0 (outgoing c s) []"
    using assms by (simp add: wf_clts_def outgoing_def)
  then show ?thesis
    using group_from_members [of "c_uncontrollable_alphabet c" 0 "outgoing c s" "[]" j]
    by (simp add: should_group_is_uncontrollable)
qed

lemma filtered_groups_iff:
  assumes "wf_clts c" "s < state_count c"
  shows "(\<exists>grp \<in> set (group_transitions_by_uncontrollable_labels c (outgoing c s) g s parts flt).
      \<exists>e \<in> set (snd grp). fst e = t)
    \<longleftrightarrow> t \<in> set (outgoing c s) \<and> edge_ok c g s parts flt t \<and> is_uncontrollable c t"
    (is "?L \<longleftrightarrow> ?R")
proof
  assume ?L
  then show ?R
    using wf_group_members [OF assms]
    by (fastforce simp: group_transitions_by_uncontrollable_labels_def)
next
  assume R: ?R
  then obtain j where j: "j < length (outgoing c s)" "outgoing c s ! j = t"
    by (auto simp: in_set_conv_nth)
  then obtain key idxs where k: "(key, idxs) \<in> set (c_uncontrollable_groups c ! s)" "j \<in> set idxs"
    using wf_group_members [OF assms, of j] R by auto
  let ?grp = "(key, map (\<lambda>i. (outgoing c s ! i, i))
    (filter (\<lambda>i. i < length (outgoing c s) \<and> edge_ok c g s parts flt (outgoing c s ! i)) idxs))"
  have a: "(t, j) \<in> set (snd ?grp)" using j k R by force
  then have b: "?grp \<in> set (group_transitions_by_uncontrollable_labels c (outgoing c s) g s parts flt)"
    using k(1) unfolding group_transitions_by_uncontrollable_labels_def set_filter set_map
    by (intro CollectI conjI image_eqI [of _ _ "(key, idxs)"]) (auto simp: filter_empty_conv)
  show ?L
  proof (rule bexI [OF _ b], rule bexI [OF _ a])
    show "fst (t, j) = t" by simp
  qed
qed

lemma filtered_groups_ball:
  assumes "wf_clts c" "s < state_count c"
  shows "(\<forall>grp \<in> set (group_transitions_by_uncontrollable_labels c (outgoing c s) g s parts flt).
      \<forall>e \<in> set (snd grp). P (fst e))
    \<longleftrightarrow> (\<forall>t \<in> set (outgoing c s). edge_ok c g s parts flt t \<and> is_uncontrollable c t \<longrightarrow> P t)"
proof -
  have "(\<forall>t \<in> set (outgoing c s). edge_ok c g s parts flt t \<and> is_uncontrollable c t \<longrightarrow> P t)
      \<longleftrightarrow> (\<forall>t. (\<exists>grp \<in> set (group_transitions_by_uncontrollable_labels c (outgoing c s) g s parts flt).
            \<exists>e \<in> set (snd grp). fst e = t) \<longrightarrow> P t)"
    unfolding filtered_groups_iff [OF assms] by blast
  then show ?thesis by blast
qed

lemma filtered_groups_Nil:
  assumes "wf_clts c" "s < state_count c"
    and "group_transitions_by_uncontrollable_labels c (outgoing c s) g s parts flt = []"
    and "t \<in> set (outgoing c s)" "edge_ok c g s parts flt t"
  shows "\<not> is_uncontrollable c t"
  using filtered_groups_iff [OF assms(1,2), of g parts flt t] assms(3-5) by auto

lemma controllable_not_in_group:
  assumes "wf_clts c" "is_controllable c t"
  shows "\<not> in_group c groups t"
proof -
  have "filter (is_uncontrollable_label c) (t_labels t) = []"
    using assms by (auto simp: wf_clts_def is_controllable_def list_all_iff filter_empty_conv
        is_uncontrollable_label_def is_controllable_label_def is_internal_label_def split: if_splits)
  then show ?thesis by (simp add: in_group_def extract_uncontrollable_label_ids_def)
qed

lemma modal_forall_All_plain:
  assumes wf: "wf_clts c" "s < state_count c" and "g_control g = CAll"
  shows "modal_forall c s g T parts flt \<longleftrightarrow>
     (parts_current_ok parts s \<longrightarrow> (\<forall>t \<in> set (outgoing c s). edge_ok c g s parts flt t \<longrightarrow>
        (if is_uncontrollable c t then t_target t \<in> bset T
         else transition_target_in_set_box t T)))"
proof -
  let ?groups = "group_transitions_by_uncontrollable_labels c (outgoing c s) g s parts flt"
  have ctrl: "\<not> in_group c ?groups t" if "is_controllable c t" for t
    by (rule controllable_not_in_group [OF wf(1) that])
  have dich: "is_controllable c t \<longleftrightarrow> \<not> is_uncontrollable c t" if "t \<in> set (outgoing c s)" for t
    by (rule wf_controllable_iff [OF wf that])
  show ?thesis
    unfolding modal_forall_All [OF assms(3)] Let_def
      filtered_groups_ball [OF wf, of g parts flt "\<lambda>t. t_target t \<in> bset T"]
    using ctrl dich filtered_groups_Nil [OF wf, of g parts flt]
    by (cases "?groups = []") (simp_all, blast+)
qed

lemma modal_forall_Controllable_plain:
  assumes wf: "wf_clts c" "s < state_count c" and "g_control g = CControllable"
  shows "modal_forall c s g T parts flt \<longleftrightarrow>
     (parts_current_ok parts s \<longrightarrow>
       (\<forall>t \<in> set (outgoing c s). edge_ok c g s parts flt t \<and> is_uncontrollable c t \<longrightarrow>
          transition_target_in_set_box t T)
       \<and> ((\<exists>t \<in> set (outgoing c s). edge_ok c g s parts flt t \<and> is_controllable c t) \<longrightarrow>
          (\<exists>t \<in> set (outgoing c s). edge_ok c g s parts flt t \<and> is_controllable c t
             \<and> transition_target_in_set_box t T)))"
  unfolding modal_forall_Controllable [OF assms(3)] Let_def
    filtered_groups_ball [OF wf, of g parts flt "\<lambda>t. transition_target_in_set_box t T"] by blast

text \<open>Transitions without a forcing set of several targets: coverage is membership of the target.\<close>

definition single_target :: "transition \<Rightarrow> bool" where
  "single_target t = (case t_modality t of MustHyperOnly ts \<Rightarrow> length ts \<le> 1 | _ \<Rightarrow> True)"

lemma single_target_cover:
  assumes "single_target t"
  shows "transition_target_in_set_diamond t T \<longleftrightarrow> t_target t \<in> bset T"
    and "transition_target_in_set_box t T \<longleftrightarrow> t_target t \<in> bset T"
  using assms by (auto simp: single_target_def transition_target_in_set_diamond_def
      transition_target_in_set_box_def split: transition_modality.splits)

subsection \<open>Guard partitions are transparent\<close>

lemma guard_matches_iff:
  "guard_matches c s t g \<longleftrightarrow>
     (g_labels g = [] \<or> (\<exists>w \<in> set (g_labels g). \<exists>l \<in> set (t_labels t). label_has c l w))
     \<and> vars_match c s (g_current g) \<and> vars_match c (t_target t) (g_next g)"
  by (auto simp: guard_matches_def guard_matches_labels_and_vars_def list_ex_iff vars_match_def)

lemma partitions_match:
  "s < state_count c \<Longrightarrow> matches_current (guard_partitions_new g c) s \<longleftrightarrow> vars_match c s (g_current g)"
  "s < state_count c \<Longrightarrow> matches_next (guard_partitions_new g c) s \<longleftrightarrow> vars_match c s (g_next g)"
  by (auto simp: matches_current_def matches_next_def guard_partitions_new_def vars_match_def
      list_ex_iff list_all_iff Let_def)

lemma edge_ok_partitions:
  assumes "t_target t < state_count c"
  shows "edge_ok c g s (Some (guard_partitions_new g c)) flt t = edge_ok c g s None flt t"
  using assms by (auto simp: edge_ok_def parts_next_ok_def partitions_match guard_matches_iff)

lemma edge_ok_current:
  assumes "s < state_count c" "edge_ok c g s None flt t"
  shows "parts_current_ok (Some (guard_partitions_new g c)) s"
  using assms by (simp add: edge_ok_def parts_current_ok_def partitions_match guard_matches_iff)

lemma guard_partitions_signature:
  assumes "guard_signature_new g = guard_signature_new g'"
  shows "guard_partitions_new g c = guard_partitions_new g' c"
proof -
  have eq: "set (vg_required (g_current g)) = set (vg_required (g_current g'))"
    "set (vg_forbidden (g_current g)) = set (vg_forbidden (g_current g'))"
    "set (vg_required (g_next g)) = set (vg_required (g_next g'))"
    "set (vg_forbidden (g_next g)) = set (vg_forbidden (g_next g'))"
    using assms sort_dedup_props(1) by (auto simp: guard_signature_new_def dest: arg_cong [of _ _ set])
  have cond: "(xs \<noteq> [] \<and> list_ex P xs) = (\<exists>x \<in> set xs. P x)" for xs :: "string list" and P
    by (auto simp: list_ex_iff)
  show ?thesis by (simp add: guard_partitions_new_def cond eq Let_def)
qed

end
