(* ===== verification/Evaluator.thy ===== *)
theory Evaluator
  imports Modal_Ops
begin

section \<open>The explicit-state evaluator\<close>

text \<open>
  Models the rest of \<^verbatim>\<open>mu_calculus/evaluator.rs\<close> and \<^verbatim>\<open>mu_calculus/memo.rs\<close>: the environment, the
  options, the evaluation context, the witness map, the two evaluation domains and the generic
  evaluator body.

  \<open>EvalContext\<close> is split into \<open>ctx\<close>, the fields that are only read, and \<open>est\<close>, the fields that are
  mutated (memo table, guard cache, expression cache, witness map, and the log of convergence
  callbacks). The trait \<open>EvalDomain\<close> is the record \<open>eval_domain\<close> of its methods, and \<open>bool_dom\<close> and
  \<open>kleene_dom\<close> are its two implementations. The fixpoint loop may run forever (on a body that
  is not monotone), so \<open>eval_node_generic\<close> and \<open>eval_fixpoint_loop\<close> run on fuel, one unit per call
  or iteration; \<^verbatim>\<open>Eval_Correct\<close> gives an amount that suffices for positive formulas.

  On-demand evaluation of a predicate over abstract states (\<open>evaluate_expression_on_demand\<close>) is
  a function of the environment: it stands for parsing the predicate name as a guard and
  evaluating it on every abstract state.
\<close>

subsection \<open>Environment and options\<close>

datatype evaluation_error = LimitExceeded string nat nat

record environment =
  env_state_count :: nat
  env_predicates :: "(string \<times> bitvec) list"
  env_on_demand :: "(string \<Rightarrow> (evaluation_error, bitvec option) res) option"

definition environment_new :: "nat \<Rightarrow> environment" where
  "environment_new n = \<lparr>env_state_count = n, env_predicates = [], env_on_demand = None\<rparr>"

definition with_predicate :: "string \<Rightarrow> bitvec \<Rightarrow> environment \<Rightarrow> (unit, environment) res" where
  "with_predicate name bits env =
     (if length bits \<noteq> env_state_count env then Panic
      else Ok (env\<lparr>env_predicates := AList.update name bits (env_predicates env)\<rparr>))"

definition env_predicate :: "environment \<Rightarrow> string \<Rightarrow> bitvec option" where
  "env_predicate env name = map_of (env_predicates env) name"

definition has_abstract_states :: "environment \<Rightarrow> bool" where
  "has_abstract_states env \<longleftrightarrow> env_on_demand env \<noteq> None"

record prior_approximant =
  pa_state_count :: nat
  pa_must_true :: bitvec
  pa_may_true :: bitvec

record evaluation_options =
  o_use_memoisation :: bool
  o_use_partitions :: bool
  o_prior_approximants :: "(nat \<times> prior_approximant) list option"
  o_on_fixpoint_convergence :: bool

definition options_default :: evaluation_options where
  "options_default = \<lparr>o_use_memoisation = True, o_use_partitions = True,
     o_prior_approximants = None, o_on_fixpoint_convergence = False\<rparr>"

datatype fixpoint_kind = Least | Greatest

record approximant_view =
  av_must_true :: bitvec
  av_may_true :: bitvec
  av_polarity :: fixpoint_kind
  av_iteration_count :: nat

definition av_indefinite :: "approximant_view \<Rightarrow> bitvec" where
  "av_indefinite v = bv_and (av_may_true v) (bv_not (av_must_true v))"

subsection \<open>Iteration ranks and witnesses\<close>

definition usize_max :: nat where
  "usize_max = 2 ^ 64 - 1"

type_synonym iteration_ranks = "nat list list"

definition ranks_record :: "nat \<Rightarrow> nat \<Rightarrow> nat \<Rightarrow> nat \<Rightarrow> iteration_ranks \<Rightarrow> iteration_ranks" where
  "ranks_record v state_idx iteration n rows =
     (let rows1 = (if length rows \<le> v then rows @ replicate (Suc v - length rows) [] else rows);
          row = rows1 ! v;
          row1 = (if row = [] then replicate n u32_max else row)
      in if row1 ! state_idx = u32_max
         then rows1[v := row1[state_idx := min iteration (u32_max - 1)]]
         else rows1[v := row1])"

definition get_rank :: "iteration_ranks \<Rightarrow> nat \<Rightarrow> nat \<Rightarrow> nat" where
  "get_rank rows v state_idx =
     (if v < length rows \<and> state_idx < length (rows ! v) \<and> rows ! v ! state_idx \<noteq> u32_max
      then rows ! v ! state_idx else usize_max)"

definition ranks_len :: "iteration_ranks \<Rightarrow> nat" where
  "ranks_len rows = length (filter (\<lambda>v. v \<noteq> u32_max) (concat rows))"

record witness_map =
  wm_witnesses :: "((nat \<times> nat) \<times> nat) list"
  wm_iteration_ranks :: iteration_ranks

definition witness_map_default :: witness_map where
  "witness_map_default = \<lparr>wm_witnesses = [], wm_iteration_ranks = []\<rparr>"

definition signature :: "witness_map \<Rightarrow> nat \<Rightarrow> (nat \<times> bool) list \<Rightarrow> nat list" where
  "signature wm state_idx nesting =
     map (\<lambda>(v, is_mu). get_rank (wm_iteration_ranks wm) v state_idx) nesting"

definition signature_nonincreasing :: "witness_map \<Rightarrow> nat \<Rightarrow> nat \<Rightarrow> (nat \<times> bool) list \<Rightarrow> bool" where
  "signature_nonincreasing wm source target nesting \<longleftrightarrow>
     signature wm target nesting \<le> signature wm source nesting"

definition signature_decreasing :: "witness_map \<Rightarrow> nat \<Rightarrow> nat \<Rightarrow> (nat \<times> bool) list \<Rightarrow> bool" where
  "signature_decreasing wm source target nesting \<longleftrightarrow>
     signature wm target nesting < signature wm source nesting"

subsection \<open>Context\<close>

record ctx =
  x_formula :: formula
  x_clts :: clts
  x_env :: environment
  x_options :: evaluation_options
  x_oob :: bitvec
  x_not_oob :: bitvec

record est =
  e_memo :: "(nat \<times> bitvec) list"
  e_guard_cache :: "(guard_signature \<times> guard_partitions) list"
  e_expr_cache :: "(string \<times> bitvec) list"
  e_witness :: "witness_map option"
  e_log :: "(nat \<times> approximant_view) list"

definition est_new :: "witness_map option \<Rightarrow> est" where
  "est_new wm = \<lparr>e_memo = [], e_guard_cache = [], e_expr_cache = [], e_witness = wm, e_log = []\<rparr>"

abbreviation x_n :: "ctx \<Rightarrow> nat" where
  "x_n x \<equiv> env_state_count (x_env x)"

definition compute_oob_bits :: "clts \<Rightarrow> bitvec" where
  "compute_oob_bits c = bv_of (state_count c) (\<lambda>s.
     case state_valuation c s of
       None \<Rightarrow> False
     | Some val \<Rightarrow> map_of val ''__mununu_oob__'' = Some ''true'')"

definition ctx_new :: "formula \<Rightarrow> clts \<Rightarrow> environment \<Rightarrow> evaluation_options \<Rightarrow> ctx" where
  "ctx_new f c env options =
     (let oob = compute_oob_bits c
      in \<lparr>x_formula = f, x_clts = c, x_env = env, x_options = options, x_oob = oob,
          x_not_oob = bv_not oob\<rparr>)"

definition alloc_bitvec :: "ctx \<Rightarrow> bool \<Rightarrow> bitvec" where
  "alloc_bitvec x fill =
     (let bits = bv_repeat fill (x_n x) in if fill then bv_and bits (x_not_oob x) else bits)"

subsection \<open>Predicates\<close>

type_synonym 'a ev = "(evaluation_error, 'a \<times> est) res"

definition predicate_bits :: "ctx \<Rightarrow> string \<Rightarrow> est \<Rightarrow> (bitvec \<times> bitvec) ev" where
  "predicate_bits x name st =
     (case env_predicate (x_env x) name of
        Some bits \<Rightarrow> (let out = bv_and bits (x_not_oob x) in Ok ((out, out), st))
      | None \<Rightarrow>
        (case map_of (e_expr_cache st) name of
           Some bits \<Rightarrow> Ok ((bits, bits), st)
         | None \<Rightarrow>
           (let n = x_n x; c = x_clts x;
                mentioned = list_ex (\<lambda>s. state_3valued_predicate c s name \<noteq> None) [0..<n]
            in if has_3valued_predicates c \<and> mentioned
               then
                 (let must = bv_of n (\<lambda>s. state_3valued_predicate c s name = Some KleeneT);
                      may = bv_of n (\<lambda>s. state_3valued_predicate c s name = Some KleeneT
                                       \<or> state_3valued_predicate c s name = Some KleeneBot)
                  in Ok ((bv_and must (x_not_oob x), bv_and may (x_not_oob x)), st))
               else
                 (let empty = alloc_bitvec x False
                  in case env_on_demand (x_env x) of
                       None \<Rightarrow> Ok ((empty, empty), st)
                     | Some eval_on_demand \<Rightarrow>
                         rbind (eval_on_demand name) (\<lambda>r.
                           case r of
                             None \<Rightarrow> Ok ((empty, empty), st)
                           | Some bits0 \<Rightarrow>
                               (let bits = bv_and bits0 (x_not_oob x)
                                in Ok ((bits, bits),
                                     st\<lparr>e_expr_cache :=
                                       AList.update name bits (e_expr_cache st)\<rparr>)))))))"

subsection \<open>Modal images\<close>

definition guard_partitions_cached :: "ctx \<Rightarrow> guard \<Rightarrow> est \<Rightarrow> guard_partitions \<times> est" where
  "guard_partitions_cached x g st =
     (let sig = guard_signature_new g
      in case map_of (e_guard_cache st) sig of
           Some p \<Rightarrow> (p, st)
         | None \<Rightarrow> (let p = guard_partitions_new g (x_clts x)
                   in (p, st\<lparr>e_guard_cache := (sig, p) # e_guard_cache st\<rparr>)))"

definition guard_parts_opt :: "ctx \<Rightarrow> guard \<Rightarrow> est \<Rightarrow> guard_partitions option \<times> est" where
  "guard_parts_opt x g st =
     (if o_use_partitions (x_options x)
      then (case guard_partitions_cached x g st of (p, st1) \<Rightarrow> (Some p, st1))
      else (None, st))"

definition eval_modal_bounded ::
  "ctx \<Rightarrow> modal_kind \<Rightarrow> guard \<Rightarrow> bitvec \<Rightarrow> nat \<Rightarrow> modality_filter \<Rightarrow> bitvec" where
  "eval_modal_bounded x kind g targets bound flt =
     bv_of (x_n x) (\<lambda>s. case kind of
        Diamond \<Rightarrow> modal_exists_bounded (x_clts x) g targets flt bound s
      | Box \<Rightarrow> modal_forall_bounded (x_clts x) g targets flt bound s)"

definition modal_bits ::
  "ctx \<Rightarrow> modal_kind \<Rightarrow> guard \<Rightarrow> bitvec \<Rightarrow> guard_partitions option \<Rightarrow> modality_filter \<Rightarrow> bitvec" where
  \<comment> \<open>the loop over the states that fills \<open>result\<close>\<close>
  "modal_bits x kind g targets parts flt =
     bv_of (x_n x) (\<lambda>s. case kind of
        Diamond \<Rightarrow> modal_exists (x_clts x) s g targets parts flt
      | Box \<Rightarrow> modal_forall (x_clts x) s g targets parts flt)"

fun first_index :: "('a \<Rightarrow> bool) \<Rightarrow> 'a list \<Rightarrow> nat \<Rightarrow> nat option" where
  "first_index P [] i = None"
| "first_index P (a # as) i = (if P a then Some i else first_index P as (Suc i))"

definition record_witness ::
  "ctx \<Rightarrow> guard \<Rightarrow> bitvec \<Rightarrow> nat \<Rightarrow> nat \<Rightarrow> witness_map \<Rightarrow> witness_map" where
  "record_witness x g targets node_id s wm =
     (case first_index (\<lambda>t. guard_matches (x_clts x) s t g
             \<and> transition_target_in_set_diamond t targets) (outgoing (x_clts x) s) 0 of
        None \<Rightarrow> wm
      | Some idx \<Rightarrow> wm\<lparr>wm_witnesses := AList.update (s, node_id) idx (wm_witnesses wm)\<rparr>)"

definition record_witnesses ::
  "ctx \<Rightarrow> modal_kind \<Rightarrow> guard \<Rightarrow> bitvec \<Rightarrow> nat \<Rightarrow> bitvec \<Rightarrow> est \<Rightarrow> est" where
  "record_witnesses x kind g targets node_id result st =
     (if kind = Diamond
      then st\<lparr>e_witness := map_option
             (fold (record_witness x g targets node_id) (filter (bit_is_set result) [0..<x_n x]))
             (e_witness st)\<rparr>
      else st)"

definition eval_modal_with_target_set ::
  "ctx \<Rightarrow> modal_kind \<Rightarrow> guard \<Rightarrow> bitvec \<Rightarrow> nat \<Rightarrow> est \<Rightarrow> bitvec ev" where
  "eval_modal_with_target_set x kind g targets node_id st =
     (case g_max_steps g of
        Some bound \<Rightarrow> Ok (eval_modal_bounded x kind g targets bound FilterAll, st)
      | None \<Rightarrow>
          (case guard_parts_opt x g st of
             (parts, st1) \<Rightarrow>
               (let result = modal_bits x kind g targets parts FilterAll
                in Ok (result, record_witnesses x kind g targets node_id result st1))))"

definition modal_bits_from_target ::
  "ctx \<Rightarrow> modal_kind \<Rightarrow> guard \<Rightarrow> bitvec \<Rightarrow> modality_filter \<Rightarrow> est \<Rightarrow> bitvec ev" where
  "modal_bits_from_target x kind g targets flt st =
     (case g_max_steps g of
        Some bound \<Rightarrow> Ok (eval_modal_bounded x kind g targets bound flt, st)
      | None \<Rightarrow>
          (case guard_parts_opt x g st of
             (parts, st1) \<Rightarrow> Ok (modal_bits x kind g targets parts flt, st1)))"

definition edge_facts_of ::
  "ctx \<Rightarrow> guard \<Rightarrow> guard_partitions option \<Rightarrow> trit_set \<Rightarrow> nat \<Rightarrow> edge_facts list" where
  "edge_facts_of x g parts target s =
     map (\<lambda>t. \<lparr>ef_controllable = is_controllable (x_clts x) t,
               ef_is_must = (t_modality t \<noteq> MayOnly),
               ef_reaches_must = transition_target_in_set_box t (must_true target),
               ef_reaches_may = transition_target_in_set_diamond t (may_true target)\<rparr>)
       (filter (\<lambda>t. guard_matches (x_clts x) s t g \<and> parts_next_ok parts (t_target t))
         (outgoing (x_clts x) s))"

definition modal_trit_from_target ::
  "ctx \<Rightarrow> modal_kind \<Rightarrow> guard \<Rightarrow> trit_set \<Rightarrow> est \<Rightarrow> trit_set ev" where
  "modal_trit_from_target x kind g target st =
     (case guard_parts_opt x g st of
        (parts, st1) \<Rightarrow>
          (let verdict = (\<lambda>s. modal_trit_core kind (g_control g) (edge_facts_of x g parts target s))
           in Ok (tritset_from_parts (bv_of (x_n x) (\<lambda>s. verdict s = TTrue))
                    (bv_of (x_n x) (\<lambda>s. verdict s = TTrue \<or> verdict s = TUnknown)), st1)))"

subsection \<open>Domains\<close>

record 'v eval_domain =
  d_memoised :: bool
  d_top :: "ctx \<Rightarrow> 'v"
  d_bottom :: "ctx \<Rightarrow> 'v"
  d_from_predicate :: "ctx \<Rightarrow> bitvec \<Rightarrow> bitvec \<Rightarrow> 'v"
  d_from_binding :: "ctx \<Rightarrow> 'v option \<Rightarrow> 'v"
  d_not :: "ctx \<Rightarrow> 'v \<Rightarrow> 'v"
  d_and :: "'v \<Rightarrow> 'v \<Rightarrow> 'v"
  d_or :: "'v \<Rightarrow> 'v \<Rightarrow> 'v"
  d_modal_image :: "ctx \<Rightarrow> modal_kind \<Rightarrow> guard \<Rightarrow> 'v \<Rightarrow> nat \<Rightarrow> est \<Rightarrow> 'v ev"
  d_fixpoint_eq :: "'v \<Rightarrow> 'v \<Rightarrow> bool"
  d_seed_from_prior :: "prior_approximant \<Rightarrow> fixpoint_kind \<Rightarrow> 'v option"
  d_must_view :: "'v \<Rightarrow> bitvec"
  d_may_view :: "'v \<Rightarrow> bitvec"
  d_record_iteration_ranks :: "nat \<Rightarrow> 'v \<Rightarrow> 'v \<Rightarrow> nat \<Rightarrow> est \<Rightarrow> est"
  d_memo_get :: "est \<Rightarrow> nat \<Rightarrow> 'v option"
  d_memo_store :: "nat \<Rightarrow> 'v \<Rightarrow> est \<Rightarrow> est"

definition bool_not :: "ctx \<Rightarrow> bitvec \<Rightarrow> bitvec" where
  "bool_not x input = bv_and (bv_of (x_n x) (\<lambda>i. i < length input \<and> \<not> input ! i)) (x_not_oob x)"

definition bool_record_iteration_ranks :: "nat \<Rightarrow> bitvec \<Rightarrow> bitvec \<Rightarrow> nat \<Rightarrow> est \<Rightarrow> est" where
  "bool_record_iteration_ranks v prev next iteration st =
     st\<lparr>e_witness := map_option (\<lambda>wm. wm\<lparr>wm_iteration_ranks :=
          fold (\<lambda>s. ranks_record v s iteration (length next))
            (filter (\<lambda>s. bit_is_set next s \<and> \<not> bit_is_set prev s) [0..<length next])
            (wm_iteration_ranks wm)\<rparr>) (e_witness st)\<rparr>"

definition bool_dom :: "bitvec eval_domain" where
  "bool_dom =
     \<lparr>d_memoised = True,
      d_top = (\<lambda>x. bv_and (bv_repeat True (x_n x)) (x_not_oob x)),
      d_bottom = (\<lambda>x. bv_repeat False (x_n x)),
      d_from_predicate = (\<lambda>x must may. must),
      d_from_binding = (\<lambda>x b. case b of Some v \<Rightarrow> v | None \<Rightarrow> bv_repeat False (x_n x)),
      d_not = bool_not, d_and = bv_and, d_or = bv_or,
      d_modal_image = eval_modal_with_target_set,
      d_fixpoint_eq = (=),
      d_seed_from_prior = (\<lambda>pa k. Some (pa_must_true pa)),
      d_must_view = (\<lambda>v. v), d_may_view = (\<lambda>v. v),
      d_record_iteration_ranks = bool_record_iteration_ranks,
      d_memo_get = (\<lambda>st i. map_of (e_memo st) i),
      d_memo_store = (\<lambda>i v st. st\<lparr>e_memo := AList.update i v (e_memo st)\<rparr>)\<rparr>"

definition kleene_modal_image ::
  "ctx \<Rightarrow> modal_kind \<Rightarrow> guard \<Rightarrow> trit_set \<Rightarrow> nat \<Rightarrow> est \<Rightarrow> trit_set ev" where
  "kleene_modal_image x kind g target node_id st =
     (if g_max_steps g = None \<and> (g_control g = CControllable \<or> g_control g = CEnvironment)
      then modal_trit_from_target x kind g target st
      else
        (let (must_filter, may_filter) = (case kind of
             Diamond \<Rightarrow> (FilterMustOnly, FilterAll) | Box \<Rightarrow> (FilterAll, FilterMustOnly))
         in rbind (modal_bits_from_target x kind g (must_true target) must_filter st)
              (\<lambda>(must_bits, st1).
            rbind (modal_bits_from_target x kind g (may_true target) may_filter st1)
              (\<lambda>(may_bits, st2). Ok (tritset_from_parts must_bits may_bits, st2)))))"

definition kleene_dom :: "trit_set eval_domain" where
  "kleene_dom =
     \<lparr>d_memoised = False,
      d_top = (\<lambda>x. tritset_all_true (x_n x) (x_oob x)),
      d_bottom = (\<lambda>x. tritset_all_false (x_n x)),
      d_from_predicate = (\<lambda>x must may. tritset_from_parts must (bv_or may (x_oob x))),
      d_from_binding = (\<lambda>x b. case b of Some t \<Rightarrow> t | None \<Rightarrow> tritset_all_false (x_n x)),
      d_not = (\<lambda>x v. tritset_not v), d_and = tritset_and, d_or = tritset_or,
      d_modal_image = kleene_modal_image,
      d_fixpoint_eq = tritset_eq_set,
      d_seed_from_prior = (\<lambda>pa k. Some (tritset_from_parts (pa_must_true pa) (pa_may_true pa))),
      d_must_view = must_true, d_may_view = may_true,
      d_record_iteration_ranks = (\<lambda>v prev next iteration st. st),
      d_memo_get = (\<lambda>st i. None),
      d_memo_store = (\<lambda>i v st. st)\<rparr>"

subsection \<open>The generic evaluator\<close>

definition seed_of :: "'v eval_domain \<Rightarrow> ctx \<Rightarrow> nat \<Rightarrow> fixpoint_kind \<Rightarrow> 'v option" where
  "seed_of D x v kind =
     (case o_prior_approximants (x_options x) of
        None \<Rightarrow> None
      | Some m \<Rightarrow>
          (case map_of m v of
             None \<Rightarrow> None
           | Some pa \<Rightarrow> if pa_state_count pa = x_n x then d_seed_from_prior D pa kind else None))"

definition initial_iterate :: "'v eval_domain \<Rightarrow> ctx \<Rightarrow> nat \<Rightarrow> fixpoint_kind \<Rightarrow> 'v" where
  "initial_iterate D x v kind =
     (case seed_of D x v kind of
        Some prior \<Rightarrow> prior
      | None \<Rightarrow> (case kind of Least \<Rightarrow> d_bottom D x | Greatest \<Rightarrow> d_top D x))"

definition fire_callback ::
  "'v eval_domain \<Rightarrow> ctx \<Rightarrow> nat \<Rightarrow> fixpoint_kind \<Rightarrow> 'v \<Rightarrow> nat \<Rightarrow> est \<Rightarrow> est" where
  "fire_callback D x v kind next iteration st =
     (if o_on_fixpoint_convergence (x_options x)
      then st\<lparr>e_log := e_log st @ [(v, \<lparr>av_must_true = d_must_view D next,
             av_may_true = d_may_view D next, av_polarity = kind,
             av_iteration_count = iteration\<rparr>)]\<rparr>
      else st)"

definition node_of :: "ctx \<Rightarrow> nat \<Rightarrow> (evaluation_error, node) res" where
  \<comment> \<open>\<open>self.formula.node(id)\<close>\<close>
  "node_of x i = (if i < length (f_nodes (x_formula x)) then Ok (f_nodes (x_formula x) ! i)
     else Panic)"

fun eval_node_generic ::
    "nat \<Rightarrow> 'v eval_domain \<Rightarrow> ctx \<Rightarrow> nat \<Rightarrow> (nat \<times> 'v) list \<Rightarrow> est \<Rightarrow> 'v ev"
  and eval_fixpoint_loop ::
    "nat \<Rightarrow> 'v eval_domain \<Rightarrow> ctx \<Rightarrow> nat \<Rightarrow> nat \<Rightarrow> fixpoint_kind \<Rightarrow> (nat \<times> 'v) list \<Rightarrow> 'v \<Rightarrow> nat
       \<Rightarrow> est \<Rightarrow> 'v ev" where
  "eval_node_generic 0 D x node_id bindings st = OutOfFuel"
| "eval_node_generic (Suc k) D x node_id bindings st =
     (let use_memo = (d_memoised D \<and> o_use_memoisation (x_options x) \<and> bindings = [])
      in case (if use_memo then d_memo_get D st node_id else None) of
           Some hit \<Rightarrow> Ok (hit, st)
         | None \<Rightarrow>
             rbind (node_of x node_id) (\<lambda>nd.
               rbind
                 (case nd of
                    NTrue \<Rightarrow> Ok (d_top D x, st)
                  | NFalse \<Rightarrow> Ok (d_bottom D x, st)
                  | NPredicate name \<Rightarrow> rbind (predicate_bits x name st) (\<lambda>((must, may), st1).
                      Ok (d_from_predicate D x must may, st1))
                  | NVariable v \<Rightarrow> Ok (d_from_binding D x (map_of bindings v), st)
                  | NNot a \<Rightarrow> rbind (eval_node_generic k D x a bindings st) (\<lambda>(v, st1).
                      Ok (d_not D x v, st1))
                  | NAnd a b \<Rightarrow> rbind (eval_node_generic k D x a bindings st) (\<lambda>(l, st1).
                      rbind (eval_node_generic k D x b bindings st1) (\<lambda>(r, st2).
                        Ok (d_and D l r, st2)))
                  | NOr a b \<Rightarrow> rbind (eval_node_generic k D x a bindings st) (\<lambda>(l, st1).
                      rbind (eval_node_generic k D x b bindings st1) (\<lambda>(r, st2).
                        Ok (d_or D l r, st2)))
                  | NModal kind g a \<Rightarrow> rbind (eval_node_generic k D x a bindings st) (\<lambda>(v, st1).
                      d_modal_image D x kind g v node_id st1)
                  | NMu v b \<Rightarrow> eval_fixpoint_loop k D x v b Least bindings
                      (initial_iterate D x v Least) 0 st
                  | NNu v b \<Rightarrow> eval_fixpoint_loop k D x v b Greatest bindings
                      (initial_iterate D x v Greatest) 0 st)
                 (\<lambda>(result, st1).
                    Ok (result, if use_memo \<and> \<not> is_fixpoint nd then d_memo_store D node_id result st1
                                else st1))))"
| "eval_fixpoint_loop 0 D x v b kind bindings current iteration st = OutOfFuel"
| "eval_fixpoint_loop (Suc k) D x v b kind bindings current iteration st =
     rbind (eval_node_generic k D x b (AList.update v current bindings) st) (\<lambda>(next, st1).
       let st2 = d_record_iteration_ranks D v current next (Suc iteration) st1
       in if d_fixpoint_eq D next current
          then Ok (next, fire_callback D x v kind next (Suc iteration) st2)
          else eval_fixpoint_loop k D x v b kind bindings next (Suc iteration) st2)"

subsection \<open>Entry points\<close>

definition evaluate_with_options ::
  "nat \<Rightarrow> formula \<Rightarrow> clts \<Rightarrow> environment \<Rightarrow> evaluation_options \<Rightarrow> (evaluation_error, bitvec) res" where
  "evaluate_with_options k f c env options =
     (if state_count c \<noteq> env_state_count env then Panic
      else rbind (eval_node_generic k bool_dom (ctx_new f c env options) (f_root f) []
             (est_new None)) (\<lambda>(r, st). Ok r))"

definition evaluate ::
  "nat \<Rightarrow> formula \<Rightarrow> clts \<Rightarrow> environment \<Rightarrow> (evaluation_error, bitvec) res" where
  "evaluate k f c env = evaluate_with_options k f c env options_default"

definition evaluate_with_witnesses ::
  "nat \<Rightarrow> formula \<Rightarrow> clts \<Rightarrow> environment \<Rightarrow> evaluation_options
     \<Rightarrow> (evaluation_error, bitvec \<times> witness_map) res" where
  "evaluate_with_witnesses k f c env options =
     (if state_count c \<noteq> env_state_count env then Panic
      else rbind (eval_node_generic k bool_dom (ctx_new f c env options) (f_root f) []
             (est_new (Some witness_map_default)))
           (\<lambda>(r, st). Ok (r, case e_witness st of None \<Rightarrow> witness_map_default | Some w \<Rightarrow> w)))"

definition evaluate_tri_with_options ::
  "nat \<Rightarrow> formula \<Rightarrow> clts \<Rightarrow> environment \<Rightarrow> evaluation_options
     \<Rightarrow> (evaluation_error, trit_set) res" where
  "evaluate_tri_with_options k f c env options =
     (if state_count c \<noteq> env_state_count env then Panic
      else rbind (eval_node_generic k kleene_dom (ctx_new f c env options) (f_root f) []
             (est_new None)) (\<lambda>(r, st). Ok r))"

definition evaluate_tri ::
  "nat \<Rightarrow> formula \<Rightarrow> clts \<Rightarrow> environment \<Rightarrow> (evaluation_error, trit_set) res" where
  "evaluate_tri k f c env = evaluate_tri_with_options k f c env options_default"

end
