(* ===== verification/Mu_Semantics.thy ===== *)
theory Mu_Semantics
  imports Formula
begin

section \<open>The reference semantics of the mu-calculus\<close>

text \<open>
  The specification the evaluators are compared with: formulas as trees, interpreted in a
  complete lattice. An algebra fixes the value of \<open>true\<close>, of the predicates, the negation and
  the modal operators; fixpoints are \<open>lfp\<close> and \<open>gfp\<close>. The lattice is the powerset of the states
  for the two-valued evaluator and pairs of state sets for the three-valued one.

  A formula is positive when every bound variable occurs under an even number of negations in
  its fixpoint; then all fixpoints are over monotone functions.
\<close>

record 'l mu_algebra =
  a_top :: 'l
  a_pred :: "string \<Rightarrow> 'l"
  a_not :: "'l \<Rightarrow> 'l"
  a_modal :: "modal_kind \<Rightarrow> guard \<Rightarrow> 'l \<Rightarrow> 'l"

primrec sem :: "('l::complete_lattice) mu_algebra \<Rightarrow> fml \<Rightarrow> (nat \<Rightarrow> 'l) \<Rightarrow> 'l" where
  "sem A FTrue \<rho> = a_top A"
| "sem A FFalse \<rho> = bot"
| "sem A (FPred p) \<rho> = a_pred A p"
| "sem A (FVar v) \<rho> = \<rho> v"
| "sem A (FNot t) \<rho> = a_not A (sem A t \<rho>)"
| "sem A (FAnd s t) \<rho> = inf (sem A s \<rho>) (sem A t \<rho>)"
| "sem A (FOr s t) \<rho> = sup (sem A s \<rho>) (sem A t \<rho>)"
| "sem A (FModal k g t) \<rho> = a_modal A k g (sem A t \<rho>)"
| "sem A (FMu v t) \<rho> = lfp (\<lambda>X. sem A t (\<rho>(v := X)))"
| "sem A (FNu v t) \<rho> = gfp (\<lambda>X. inf (a_top A) (sem A t (\<rho>(v := X))))"

text \<open>\<open>polar p v t\<close>: the free occurrences of \<open>v\<close> are positive (\<open>p\<close>) resp. negative (\<open>\<not> p\<close>).\<close>

primrec polar :: "bool \<Rightarrow> nat \<Rightarrow> fml \<Rightarrow> bool" where
  "polar p v FTrue = True"
| "polar p v FFalse = True"
| "polar p v (FPred q) = True"
| "polar p v (FVar w) = (w = v \<longrightarrow> p)"
| "polar p v (FNot t) = polar (\<not> p) v t"
| "polar p v (FAnd s t) = (polar p v s \<and> polar p v t)"
| "polar p v (FOr s t) = (polar p v s \<and> polar p v t)"
| "polar p v (FModal k g t) = polar p v t"
| "polar p v (FMu w t) = (w = v \<or> polar p v t)"
| "polar p v (FNu w t) = (w = v \<or> polar p v t)"

primrec positive :: "fml \<Rightarrow> bool" where
  "positive FTrue = True"
| "positive FFalse = True"
| "positive (FPred q) = True"
| "positive (FVar w) = True"
| "positive (FNot t) = positive t"
| "positive (FAnd s t) = (positive s \<and> positive t)"
| "positive (FOr s t) = (positive s \<and> positive t)"
| "positive (FModal k g t) = positive t"
| "positive (FMu w t) = (polar True w t \<and> positive t)"
| "positive (FNu w t) = (polar True w t \<and> positive t)"

definition algebra_mono :: "('l::complete_lattice) mu_algebra \<Rightarrow> bool" where
  "algebra_mono A \<longleftrightarrow>
     (\<forall>x y. x \<le> y \<longrightarrow> a_not A y \<le> a_not A x)
     \<and> (\<forall>k g x y. x \<le> y \<longrightarrow> a_modal A k g x \<le> a_modal A k g y)"

lemma sem_polar:
  assumes A: "algebra_mono A" and XY: "X \<le> Y"
  shows "(polar True v t \<longrightarrow> sem A t (\<rho>(v := X)) \<le> sem A t (\<rho>(v := Y)))
    \<and> (polar False v t \<longrightarrow> sem A t (\<rho>(v := Y)) \<le> sem A t (\<rho>(v := X)))"
proof (induction t arbitrary: \<rho>)
  case (FNot t)
  then show ?case using A by (auto simp: algebra_mono_def)
next
  case (FAnd s t)
  then show ?case by (auto simp del: fun_upd_apply intro: le_infI1 le_infI2)
next
  case (FOr s t)
  then show ?case by (auto simp del: fun_upd_apply intro: le_supI1 le_supI2)
next
  case (FModal k g t)
  then show ?case using A by (auto simp: algebra_mono_def)
next
  case (FMu w t)
  show ?case
  proof (cases "w = v")
    case False
    then show ?thesis
      using FMu.IH [of "\<rho>(w := Z)" for Z]
      by (auto simp: fun_upd_twist [OF False] simp del: fun_upd_apply intro!: lfp_mono)
  qed (simp del: fun_upd_apply)
next
  case (FNu w t)
  show ?case
  proof (cases "w = v")
    case False
    then show ?thesis
      using FNu.IH [of "\<rho>(w := Z)" for Z]
      by (auto simp: fun_upd_twist [OF False] simp del: fun_upd_apply intro!: gfp_mono inf_mono)
  qed (simp del: fun_upd_apply)
qed (use XY in auto)

lemma sem_mono_var:
  "algebra_mono A \<Longrightarrow> polar True v t \<Longrightarrow> mono (\<lambda>X. sem A t (\<rho>(v := X)))"
  using sem_polar [of A] by (blast intro: monoI)

lemma sem_mono_var_inf:
  "algebra_mono A \<Longrightarrow> polar True v t \<Longrightarrow> mono (\<lambda>X. inf T (sem A t (\<rho>(v := X))))"
  using sem_polar [of A] by (intro monoI inf_mono order.refl) blast

text \<open>A property of every modality of a formula, and algebras that agree on a formula.\<close>

primrec all_modalities :: "(modal_kind \<Rightarrow> guard \<Rightarrow> bool) \<Rightarrow> fml \<Rightarrow> bool" where
  "all_modalities P FTrue = True"
| "all_modalities P FFalse = True"
| "all_modalities P (FPred q) = True"
| "all_modalities P (FVar w) = True"
| "all_modalities P (FNot t) = all_modalities P t"
| "all_modalities P (FAnd s t) = (all_modalities P s \<and> all_modalities P t)"
| "all_modalities P (FOr s t) = (all_modalities P s \<and> all_modalities P t)"
| "all_modalities P (FModal k g t) = (P k g \<and> all_modalities P t)"
| "all_modalities P (FMu w t) = all_modalities P t"
| "all_modalities P (FNu w t) = all_modalities P t"

lemma sem_cong:
  assumes "a_top A = a_top B" "a_pred A = a_pred B" "a_not A = a_not B"
    and "\<And>k g y. P k g \<Longrightarrow> a_modal A k g y = a_modal B k g y"
  shows "all_modalities P t \<Longrightarrow> sem A t \<rho> = sem B t \<rho>"
  using assms by (induction t arbitrary: \<rho>) simp_all

text \<open>\<open>plain\<close> modalities: no control mode and no step bound (labels and variable guards allowed).\<close>

definition plain :: "guard \<Rightarrow> bool" where
  "plain g \<longleftrightarrow> g_control g = CAll \<and> g_max_steps g = None"

lemma all_modalities_mono:
  "all_modalities P t \<Longrightarrow> (\<And>k g. P k g \<Longrightarrow> Q k g) \<Longrightarrow> all_modalities Q t"
  by (induction t) simp_all

abbreviation plain_formula :: "fml \<Rightarrow> bool" where
  "plain_formula t \<equiv> all_modalities (\<lambda>k g. plain g) t"

subsection \<open>Iteration up to a fixpoint\<close>

text \<open>
  \<open>S\<close> is a set of values closed under the function, on which a height function is strictly
  increasing and bounded by \<open>H\<close>: then \<open>H\<close> iterations from \<open>bot\<close> reach the least fixpoint, and
  \<open>H\<close> iterations from a pre-fixpoint above the greatest fixpoint reach the greatest one.
\<close>

lemma chain_stable:
  fixes f :: "nat \<Rightarrow> 'l" and h :: "'l \<Rightarrow> nat"
  assumes step: "\<And>n. f n = f (Suc n) \<Longrightarrow> f (Suc n) = f (Suc (Suc n))"
    and lt: "\<And>n. f n \<noteq> f (Suc n) \<Longrightarrow> h (f n) < h (f (Suc n))" and bound: "\<And>n. h (f n) \<le> H"
  shows "f H = f (Suc H)"
proof (rule ccontr)
  assume neq: "f H \<noteq> f (Suc H)"
  have "f n \<noteq> f (Suc n)" if "n \<le> H" for n
  proof
    assume eq: "f n = f (Suc n)"
    have "f (n + k) = f (Suc (n + k))" for k
      by (induction k) (use eq step in auto)
    from this [of "H - n"] show False using neq that by simp
  qed
  then have up: "h (f n) < h (f (Suc n))" if "n \<le> H" for n
    using lt that by blast
  have "n \<le> Suc H \<Longrightarrow> n \<le> h (f n)" for n
  proof (induction n)
    case (Suc n)
    then show ?case using up [of n] by simp
  qed simp
  from this [of "Suc H"] bound [of "Suc H"] show False by simp
qed

lemma funpow_step: "(F ^^ n) x = (F ^^ Suc n) x \<Longrightarrow> (F ^^ Suc n) x = (F ^^ Suc (Suc n)) x"
  for F :: "'l \<Rightarrow> 'l"
  by (drule arg_cong [of _ _ F]) (simp only: funpow.simps o_apply)

lemma lfp_iterate:
  fixes F :: "'l::complete_lattice \<Rightarrow> 'l" and ht :: "'l \<Rightarrow> nat"
  assumes mono: "mono F" and S: "bot \<in> S" "\<And>x. x \<in> S \<Longrightarrow> F x \<in> S"
    and ht: "\<And>x y. x \<in> S \<Longrightarrow> y \<in> S \<Longrightarrow> x < y \<Longrightarrow> ht x < ht y" "\<And>x. x \<in> S \<Longrightarrow> ht x \<le> H"
  shows "(F ^^ H) bot = lfp F"
proof -
  have inS: "(F ^^ n) bot \<in> S" for n by (induction n) (use S in auto)
  have up: "(F ^^ n) bot \<le> (F ^^ Suc n) bot" for n
  proof (induction n)
    case (Suc n)
    then show ?case using mono by (simp add: monoD)
  qed simp
  have lt: "ht ((F ^^ n) bot) < ht ((F ^^ Suc n) bot)" if "(F ^^ n) bot \<noteq> (F ^^ Suc n) bot" for n
    by (intro ht(1) inS) (use up [of n] that in \<open>simp add: order.strict_iff_order del: funpow.simps\<close>)
  have "(F ^^ H) bot = (F ^^ Suc H) bot"
    by (rule chain_stable [of "\<lambda>n. (F ^^ n) bot" ht])
      (fact funpow_step lt ht(2) [OF inS])+
  then have "F ((F ^^ H) bot) = (F ^^ H) bot" by simp
  then show ?thesis by (rule fixpoint_below_lfp_eq) (rule funpow_below_lfp [OF mono bot_least])
qed

lemma gfp_iterate:
  fixes F :: "'l::complete_lattice \<Rightarrow> 'l" and ht :: "'l \<Rightarrow> nat"
  assumes mono: "mono F" and T: "F T \<le> T" "gfp F \<le> T"
    and S: "T \<in> S" "\<And>x. x \<in> S \<Longrightarrow> F x \<in> S"
    and ht: "\<And>x y. x \<in> S \<Longrightarrow> y \<in> S \<Longrightarrow> x < y \<Longrightarrow> ht x < ht y" "\<And>x. x \<in> S \<Longrightarrow> ht x \<le> H"
  shows "(F ^^ H) T = gfp F"
proof -
  have inS: "(F ^^ n) T \<in> S" for n by (induction n) (use S in auto)
  have down: "(F ^^ Suc n) T \<le> (F ^^ n) T" for n
  proof (induction n)
    case (Suc n)
    then show ?case using mono by (simp add: monoD)
  qed (use T in simp)
  have "ht ((F ^^ Suc n) T) < ht ((F ^^ n) T)" if "(F ^^ n) T \<noteq> (F ^^ Suc n) T" for n
    by (intro ht(1) inS) (use down [of n] that in \<open>simp add: order.strict_iff_order del: funpow.simps\<close>)
  then have lt: "H - ht ((F ^^ n) T) < H - ht ((F ^^ Suc n) T)" if "(F ^^ n) T \<noteq> (F ^^ Suc n) T" for n
    using ht(2) [OF inS, of n] that by (meson diff_less_mono2 order.strict_trans2)
  have "(F ^^ H) T = (F ^^ Suc H) T"
    by (rule chain_stable [of "\<lambda>n. (F ^^ n) T" "\<lambda>x. H - ht x"]) (fact funpow_step lt diff_le_self)+
  then have "F ((F ^^ H) T) = (F ^^ H) T" by simp
  then show ?thesis by (rule fixpoint_above_gfp_eq) (rule funpow_above_gfp [OF mono T(2)])
qed

end
