(* ===== verification/Eval_Correct.thy ===== *)
theory Eval_Correct
  imports Evaluator Mu_Semantics
begin

section \<open>The evaluator computes the reference semantics\<close>

text \<open>
  The generic evaluator body is proved correct once, in the locale \<open>sound_domain\<close>, which states
  what the body relies on in an evaluation domain: a representation \<open>abs\<close> of valuations in a
  complete lattice under which the domain's operations are the operations of an algebra, a
  bounded height, and a memo table that returns what was stored. Both domains of the code
  interpret it: \<open>bool_dom\<close> with sets of states, \<open>kleene_dom\<close> with pairs of sets.

  The result is total correctness: with fuel \<open>need H t\<close> (at most \<open>H + 2\<close> iterations per
  fixpoint, \<open>H\<close> the height) the evaluator returns, and it returns the semantics of the tree,
  whatever the memo table, the guard cache and the expression cache contain of previous work.
  The hypotheses are: no out-of-bounds sink in the model (\<open>ctx_ok\<close>), a positive formula, and
  seeds on the right side of the fixpoints they start.
\<close>

subsection \<open>Caches\<close>

definition ctx_ok :: "ctx \<Rightarrow> bool" where
  "ctx_ok x \<longleftrightarrow>
     state_count (x_clts x) = x_n x
     \<and> x_oob x = bv_repeat False (x_n x) \<and> x_not_oob x = bv_repeat True (x_n x)
     \<and> (\<forall>p bits. env_predicate (x_env x) p = Some bits \<longrightarrow> length bits = x_n x)
     \<and> (\<forall>ev p. env_on_demand (x_env x) = Some ev \<longrightarrow>
          (\<exists>r. ev p = Ok r \<and> (\<forall>bits. r = Some bits \<longrightarrow> length bits = x_n x)))"

definition pred_spec :: "ctx \<Rightarrow> string \<Rightarrow> bitvec \<times> bitvec" where
  \<comment> \<open>the value of a predicate, computed without the expression cache\<close>
  "pred_spec x p = (case predicate_bits x p (est_new None) of Ok (r, st) \<Rightarrow> r | _ \<Rightarrow> ([], []))"

definition ctx_parts :: "ctx \<Rightarrow> guard \<Rightarrow> guard_partitions option" where
  "ctx_parts x g =
     (if o_use_partitions (x_options x) then Some (guard_partitions_new g (x_clts x)) else None)"

definition caches_ok :: "ctx \<Rightarrow> est \<Rightarrow> bool" where
  "caches_ok x st \<longleftrightarrow>
     (\<forall>g p. map_of (e_guard_cache st) (guard_signature_new g) = Some p \<longrightarrow>
        p = guard_partitions_new g (x_clts x))
     \<and> (\<forall>p bits. map_of (e_expr_cache st) p = Some bits \<longrightarrow>
          env_predicate (x_env x) p = None \<longrightarrow> pred_spec x p = (bits, bits))"

lemma caches_ok_new [simp]: "caches_ok x (est_new w)"
  by (simp add: caches_ok_def est_new_def)

lemma caches_ok_cong:
  "e_guard_cache st' = e_guard_cache st \<Longrightarrow> e_expr_cache st' = e_expr_cache st \<Longrightarrow>
     caches_ok x st' = caches_ok x st"
  by (simp add: caches_ok_def)

lemma ctx_ok_oob:
  assumes "ctx_ok x"
  shows "x_oob x = bv_repeat False (x_n x)" "x_not_oob x = bv_repeat True (x_n x)"
    "state_count (x_clts x) = x_n x"
  using assms unfolding ctx_ok_def by blast+

lemma bv_and_True [simp]: "length b = n \<Longrightarrow> bv_and b (bv_repeat True n) = b"
  by (rule bv_eqI [of _ n]) (auto simp: bset_and dest: bset_less)

lemma bv_or_False [simp]: "length b = n \<Longrightarrow> bv_or b (bv_repeat False n) = b"
  by (rule bv_eqI [of _ n]) (auto simp: bset_or dest: bset_less)

lemma predicate_bits_ok:
  assumes x: "ctx_ok x" and st: "caches_ok x st"
  shows "\<exists>st'. predicate_bits x p st = Ok (pred_spec x p, st') \<and> caches_ok x st'
    \<and> e_memo st' = e_memo st"
    and "length (fst (pred_spec x p)) = x_n x" "length (snd (pred_spec x p)) = x_n x"
proof -
  let ?e = "map_of (e_expr_cache st) p"
  have len: "length bits = x_n x" if "env_predicate (x_env x) p = Some bits" for bits
    using x that unfolding ctx_ok_def by blast
  have dem: "\<exists>r. ev p = Ok r \<and> (\<forall>bits. r = Some bits \<longrightarrow> length bits = x_n x)"
    if "env_on_demand (x_env x) = Some ev" for ev
    using x that unfolding ctx_ok_def by blast
  note oob = ctx_ok_oob [OF x]
  have cold: "\<exists>st'. predicate_bits x p st0 = Ok (pred_spec x p, st')
      \<and> (e_expr_cache st' = e_expr_cache st0 \<or> env_predicate (x_env x) p = None \<and>
         (\<exists>bits. pred_spec x p = (bits, bits) \<and> e_expr_cache st' = AList.update p bits (e_expr_cache st0)))
      \<and> e_memo st' = e_memo st0 \<and> e_guard_cache st' = e_guard_cache st0
      \<and> length (fst (pred_spec x p)) = x_n x \<and> length (snd (pred_spec x p)) = x_n x"
    if "env_predicate (x_env x) p \<noteq> None \<or> map_of (e_expr_cache st0) p = None" for st0
  proof (cases "env_predicate (x_env x) p")
    case (Some bits)
    then show ?thesis using len [OF Some] by (simp add: oob predicate_bits_def pred_spec_def Let_def)
  next
    case None
    let ?m = "has_3valued_predicates (x_clts x)
      \<and> list_ex (\<lambda>s. state_3valued_predicate (x_clts x) s p \<noteq> None) [0..<x_n x]"
    show ?thesis
    proof (cases ?m)
      case True
      then show ?thesis using None that
        by (simp add: oob predicate_bits_def pred_spec_def Let_def est_new_def)
    next
      case False
      show ?thesis
      proof (cases "env_on_demand (x_env x)")
        case None
        then show ?thesis using \<open>env_predicate (x_env x) p = None\<close> that False
          by (auto simp: oob predicate_bits_def pred_spec_def Let_def est_new_def alloc_bitvec_def)
      next
        case (Some ev)
        obtain r where r: "ev p = Ok r" "\<forall>bits. r = Some bits \<longrightarrow> length bits = x_n x"
          using dem [OF Some] by blast
        show ?thesis
          using \<open>env_predicate (x_env x) p = None\<close> that False Some r
          by (cases r) (auto simp: oob predicate_bits_def pred_spec_def Let_def est_new_def alloc_bitvec_def)
      qed
    qed
  qed
  show "length (fst (pred_spec x p)) = x_n x" "length (snd (pred_spec x p)) = x_n x"
    using cold [of "est_new None"] by (auto simp: est_new_def)
  show "\<exists>st'. predicate_bits x p st = Ok (pred_spec x p, st') \<and> caches_ok x st'
    \<and> e_memo st' = e_memo st"
  proof (cases "env_predicate (x_env x) p \<noteq> None \<or> ?e = None")
    case True
    then show ?thesis
      using cold [OF True] st by (auto simp: caches_ok_def update_conv split: if_splits)
  next
    case False
    then obtain bits where b: "env_predicate (x_env x) p = None" "?e = Some bits" by auto
    then have "pred_spec x p = (bits, bits)" using st by (simp add: caches_ok_def)
    then show ?thesis using b st by (simp add: predicate_bits_def)
  qed
qed

lemma guard_parts_opt_ok:
  assumes "caches_ok x st"
  shows "\<exists>st'. guard_parts_opt x g st = (ctx_parts x g, st') \<and> caches_ok x st'
    \<and> e_memo st' = e_memo st"
proof (cases "o_use_partitions (x_options x)")
  case True
  show ?thesis
  proof (cases "map_of (e_guard_cache st) (guard_signature_new g)")
    case None
    have "caches_ok x (st\<lparr>e_guard_cache := (guard_signature_new g, guard_partitions_new g (x_clts x))
        # e_guard_cache st\<rparr>)"
      unfolding caches_ok_def
    proof (intro conjI allI impI)
      fix g' p
      assume p: "map_of (e_guard_cache (st\<lparr>e_guard_cache := (guard_signature_new g,
          guard_partitions_new g (x_clts x)) # e_guard_cache st\<rparr>)) (guard_signature_new g') = Some p"
      show "p = guard_partitions_new g' (x_clts x)"
      proof (cases "guard_signature_new g' = guard_signature_new g")
        case True
        then show ?thesis using p guard_partitions_signature [OF True] by simp
      next
        case False
        then show ?thesis using p assms by (simp add: caches_ok_def)
      qed
    qed (use assms in \<open>simp add: caches_ok_def\<close>)
    then show ?thesis
      using None True by (simp add: guard_parts_opt_def guard_partitions_cached_def ctx_parts_def Let_def)
  next
    case (Some p)
    then have "p = guard_partitions_new g (x_clts x)" using assms by (simp add: caches_ok_def)
    then show ?thesis
      using Some True assms by (simp add: guard_parts_opt_def guard_partitions_cached_def ctx_parts_def)
  qed
qed (use assms in \<open>simp add: guard_parts_opt_def ctx_parts_def\<close>)

subsection \<open>The contract of an evaluation domain\<close>

definition eval_body ::
  "nat \<Rightarrow> 'v eval_domain \<Rightarrow> ctx \<Rightarrow> nat \<Rightarrow> node \<Rightarrow> (nat \<times> 'v) list \<Rightarrow> est \<Rightarrow> 'v ev" where
  \<comment> \<open>the match of \<open>eval_node_generic\<close> on the node, between the lookup and the store in the memo\<close>
  "eval_body k D x node_id nd bindings st =
     (case nd of
        NTrue \<Rightarrow> Ok (d_top D x, st)
      | NFalse \<Rightarrow> Ok (d_bottom D x, st)
      | NPredicate name \<Rightarrow> rbind (predicate_bits x name st) (\<lambda>((must, may), st1).
          Ok (d_from_predicate D x must may, st1))
      | NVariable v \<Rightarrow> Ok (d_from_binding D x (map_of bindings v), st)
      | NNot a \<Rightarrow> rbind (eval_node_generic k D x a bindings st) (\<lambda>(v, st1).
          Ok (d_not D x v, st1))
      | NAnd a b \<Rightarrow> rbind (eval_node_generic k D x a bindings st) (\<lambda>(l, st1).
          rbind (eval_node_generic k D x b bindings st1) (\<lambda>(r, st2).
            Ok (d_and D l r, st2)))
      | NOr a b \<Rightarrow> rbind (eval_node_generic k D x a bindings st) (\<lambda>(l, st1).
          rbind (eval_node_generic k D x b bindings st1) (\<lambda>(r, st2).
            Ok (d_or D l r, st2)))
      | NModal kind g a \<Rightarrow> rbind (eval_node_generic k D x a bindings st) (\<lambda>(v, st1).
          d_modal_image D x kind g v node_id st1)
      | NMu v b \<Rightarrow> eval_fixpoint_loop k D x v b Least bindings
          (initial_iterate D x v Least) 0 st
      | NNu v b \<Rightarrow> eval_fixpoint_loop k D x v b Greatest bindings
          (initial_iterate D x v Greatest) 0 st)"

lemma eval_node_unfold:
  "eval_node_generic (Suc k) D x node_id bindings st =
     (let use_memo = (d_memoised D \<and> o_use_memoisation (x_options x) \<and> bindings = [])
      in case (if use_memo then d_memo_get D st node_id else None) of
           Some hit \<Rightarrow> Ok (hit, st)
         | None \<Rightarrow>
             rbind (node_of x node_id) (\<lambda>nd.
               rbind (eval_body k D x node_id nd bindings st)
                 (\<lambda>(result, st1).
                    Ok (result, if use_memo \<and> \<not> is_fixpoint nd then d_memo_store D node_id result st1
                                else st1))))"
  unfolding eval_body_def eval_node_generic.simps(2) by (rule refl)

text \<open>The fuel an evaluation needs over a lattice of height \<open>H\<close>.\<close>

primrec need :: "nat \<Rightarrow> fml \<Rightarrow> nat" where
  "need H FTrue = 1"
| "need H FFalse = 1"
| "need H (FPred p) = 1"
| "need H (FVar v) = 1"
| "need H (FNot t) = Suc (need H t)"
| "need H (FAnd s t) = Suc (max (need H s) (need H t))"
| "need H (FOr s t) = Suc (max (need H s) (need H t))"
| "need H (FModal k g t) = Suc (need H t)"
| "need H (FMu v t) = Suc (Suc (H + need H t))"
| "need H (FNu v t) = Suc (Suc (H + need H t))"

locale sound_domain =
  fixes D :: "'v eval_domain"
    and okv :: "ctx \<Rightarrow> 'v \<Rightarrow> bool"
    and abs :: "'v \<Rightarrow> 'l::complete_lattice"
    and A :: "ctx \<Rightarrow> 'l mu_algebra"
    and ht :: "'l \<Rightarrow> nat"
    and H :: "ctx \<Rightarrow> nat"
  assumes alg_mono: "ctx_ok x \<Longrightarrow> algebra_mono (A x)"
    and top: "ctx_ok x \<Longrightarrow> okv x (d_top D x) \<and> abs (d_top D x) = a_top (A x)"
    and bottom: "ctx_ok x \<Longrightarrow> okv x (d_bottom D x) \<and> abs (d_bottom D x) = bot"
    and predicate: "ctx_ok x \<Longrightarrow> pred_spec x p = (must, may) \<Longrightarrow>
      okv x (d_from_predicate D x must may) \<and> abs (d_from_predicate D x must may) = a_pred (A x) p"
    and binding: "d_from_binding D x (Some v) = v" "d_from_binding D x None = d_bottom D x"
    and neg: "ctx_ok x \<Longrightarrow> okv x v \<Longrightarrow> okv x (d_not D x v) \<and> abs (d_not D x v) = a_not (A x) (abs v)"
    and conj: "okv x v \<Longrightarrow> okv x w \<Longrightarrow> okv x (d_and D v w) \<and> abs (d_and D v w) = inf (abs v) (abs w)"
    and disj: "okv x v \<Longrightarrow> okv x w \<Longrightarrow> okv x (d_or D v w) \<and> abs (d_or D v w) = sup (abs v) (abs w)"
    and modal: "ctx_ok x \<Longrightarrow> caches_ok x st \<Longrightarrow> okv x v \<Longrightarrow>
      \<exists>w st'. d_modal_image D x k g v i st = Ok (w, st') \<and> okv x w
        \<and> abs w = a_modal (A x) k g (abs v) \<and> caches_ok x st' \<and> e_memo st' = e_memo st"
    and same: "okv x v \<Longrightarrow> okv x w \<Longrightarrow> d_fixpoint_eq D v w \<longleftrightarrow> abs v = abs w"
    and height: "okv x v \<Longrightarrow> okv x w \<Longrightarrow> abs v < abs w \<Longrightarrow> ht (abs v) < ht (abs w)"
      "okv x v \<Longrightarrow> ht (abs v) \<le> H x"
    and below_top: "ctx_ok x \<Longrightarrow> okv x v \<Longrightarrow> abs v \<le> a_top (A x)"
    and ranks: "e_memo (d_record_iteration_ranks D y v w n st) = e_memo st"
      "e_guard_cache (d_record_iteration_ranks D y v w n st) = e_guard_cache st"
      "e_expr_cache (d_record_iteration_ranks D y v w n st) = e_expr_cache st"
    and memo_get: "e_memo st = e_memo st' \<Longrightarrow> d_memo_get D st = d_memo_get D st'"
    and memo_store: "d_memoised D \<Longrightarrow>
      d_memo_get D (d_memo_store D i v st) = (d_memo_get D st)(i \<mapsto> v)"
      "e_guard_cache (d_memo_store D i v st) = e_guard_cache st"
      "e_expr_cache (d_memo_store D i v st) = e_expr_cache st"
begin

definition env_of :: "(nat \<times> 'v) list \<Rightarrow> nat \<Rightarrow> 'l" where
  "env_of bnd v = (case map_of bnd v of Some w \<Rightarrow> abs w | None \<Rightarrow> bot)"

definition memo_ok :: "ctx \<Rightarrow> est \<Rightarrow> bool" where
  "memo_ok x st \<longleftrightarrow> (d_memoised D \<longrightarrow> (\<forall>i v k t. d_memo_get D st i = Some v \<longrightarrow>
     tree_of k (x_formula x) i = Some t \<longrightarrow> okv x v \<and> abs v = sem (A x) t (\<lambda>_. bot)))"

definition inv :: "ctx \<Rightarrow> est \<Rightarrow> bool" where
  "inv x st \<longleftrightarrow> caches_ok x st \<and> memo_ok x st"

primrec seeds_ok :: "ctx \<Rightarrow> fml \<Rightarrow> (nat \<Rightarrow> 'l) \<Rightarrow> bool" where
  "seeds_ok x FTrue \<rho> = True"
| "seeds_ok x FFalse \<rho> = True"
| "seeds_ok x (FPred p) \<rho> = True"
| "seeds_ok x (FVar v) \<rho> = True"
| "seeds_ok x (FNot t) \<rho> = seeds_ok x t \<rho>"
| "seeds_ok x (FAnd s t) \<rho> = (seeds_ok x s \<rho> \<and> seeds_ok x t \<rho>)"
| "seeds_ok x (FOr s t) \<rho> = (seeds_ok x s \<rho> \<and> seeds_ok x t \<rho>)"
| "seeds_ok x (FModal k g t) \<rho> = seeds_ok x t \<rho>"
| "seeds_ok x (FMu v t) \<rho> =
     ((\<forall>s. seed_of D x v Least = Some s \<longrightarrow> okv x s \<and> abs s \<le> sem (A x) (FMu v t) \<rho>)
      \<and> (\<forall>y. seeds_ok x t (\<rho>(v := y))))"
| "seeds_ok x (FNu v t) \<rho> =
     ((\<forall>s. seed_of D x v Greatest = Some s \<longrightarrow> okv x s \<and> sem (A x) (FNu v t) \<rho> \<le> abs s)
      \<and> (\<forall>y. seeds_ok x t (\<rho>(v := y))))"

lemma inv_cong:
  "inv x st \<Longrightarrow> e_memo st' = e_memo st \<Longrightarrow> caches_ok x st' \<Longrightarrow> inv x st'"
  using memo_get [of st' st] by (simp add: inv_def memo_ok_def)

lemma inv_ranks: "inv x st \<Longrightarrow> inv x (d_record_iteration_ranks D y v w n st)"
  using inv_cong [of x st "d_record_iteration_ranks D y v w n st"]
    caches_ok_cong [of "d_record_iteration_ranks D y v w n st" st x]
  by (simp add: ranks inv_def)

lemma inv_callback: "inv x st \<Longrightarrow> inv x (fire_callback D x y kind v n st)"
  using inv_cong [of x st "fire_callback D x y kind v n st"]
    caches_ok_cong [of "fire_callback D x y kind v n st" st x]
  by (simp add: fire_callback_def inv_def)

lemma inv_store:
  assumes "inv x st" "okv x v" "tree_of k (x_formula x) i = Some t" "abs v = sem (A x) t (\<lambda>_. bot)"
    "d_memoised D"
  shows "inv x (d_memo_store D i v st)"
proof -
  have "caches_ok x (d_memo_store D i v st)"
    using assms(1) caches_ok_cong [of "d_memo_store D i v st" st x] by (simp add: inv_def memo_store)
  moreover have "okv x w \<and> abs w = sem (A x) u (\<lambda>_. bot)"
    if "d_memo_get D (d_memo_store D i v st) j = Some w" "tree_of k' (x_formula x) j = Some u" for j w k' u
  proof (cases "j = i")
    case True
    then show ?thesis using that assms tree_of_unique [OF assms(3)] by (auto simp: memo_store(1))
  next
    case False
    then show ?thesis using that assms unfolding inv_def memo_ok_def by (simp add: memo_store(1))
  qed
  ultimately show ?thesis unfolding inv_def memo_ok_def by blast
qed

lemma env_of_update: "env_of (AList.update v w bnd) = (env_of bnd)(v := abs w)"
  by (auto simp: env_of_def update_conv fun_eq_iff)

lemma env_of_Nil [simp]: "env_of [] = (\<lambda>_. bot)"
  by (simp add: env_of_def fun_eq_iff)

lemma bindings_update:
  "(\<And>v w. map_of bnd v = Some w \<Longrightarrow> okv x w) \<Longrightarrow> okv x cur \<Longrightarrow>
     map_of (AList.update u cur bnd) v = Some w \<Longrightarrow> okv x w"
  by (auto simp: update_conv split: if_splits)

text \<open>The memo table around the body: a hit is right, a store keeps the invariant.\<close>

lemma eval_node_wrap:
  assumes inv: "inv x st" and t: "tree_of m (x_formula x) i = Some t"
    and nd: "node_of x i = Ok nd"
    and body: "\<exists>v st'. eval_body k D x i nd bnd st = Ok (v, st') \<and> okv x v
      \<and> abs v = sem (A x) t (env_of bnd) \<and> inv x st'"
  shows "\<exists>v st'. eval_node_generic (Suc k) D x i bnd st = Ok (v, st') \<and> okv x v
      \<and> abs v = sem (A x) t (env_of bnd) \<and> inv x st'"
proof -
  let ?use = "d_memoised D \<and> o_use_memoisation (x_options x) \<and> bnd = []"
  show ?thesis
  proof (cases "if ?use then d_memo_get D st i else None")
    case (Some hit)
    then have "?use" "d_memo_get D st i = Some hit" by (auto split: if_splits)
    then show ?thesis using inv t by (auto simp: eval_node_unfold inv_def memo_ok_def)
  next
    case None
    from body obtain v st' where b: "eval_body k D x i nd bnd st = Ok (v, st')" "okv x v"
      "abs v = sem (A x) t (env_of bnd)" "inv x st'" by blast
    have "inv x (if ?use \<and> \<not> is_fixpoint nd then d_memo_store D i v st' else st')"
      using b inv_store [OF b(4) b(2) t] by auto
    then show ?thesis unfolding eval_node_unfold Let_def None by (simp add: nd b)
  qed
qed

lemma loop_correct:
  assumes body: "\<And>cur st fuel. okv x cur \<Longrightarrow> inv x st \<Longrightarrow> nb \<le> fuel \<Longrightarrow>
      \<exists>nxt st'. eval_node_generic fuel D x b (AList.update v cur bnd) st = Ok (nxt, st')
        \<and> okv x nxt \<and> abs nxt = F (abs cur) \<and> inv x st'"
    and I: "\<And>j y. I j y \<Longrightarrow> I (Suc j) (F y)" and R: "F R = R"
    and conv: "\<And>j y. I j y \<Longrightarrow> F y = y \<Longrightarrow> y = R" and fin: "\<And>j y. I j y \<Longrightarrow> N \<le> j \<Longrightarrow> y = R"
  shows "okv x cur \<Longrightarrow> inv x st \<Longrightarrow> I j (abs cur) \<Longrightarrow> Suc (N - j) + nb \<le> fuel \<Longrightarrow>
    \<exists>r st'. eval_fixpoint_loop fuel D x v b kind bnd cur it st = Ok (r, st') \<and> okv x r
      \<and> abs r = R \<and> inv x st'"
proof (induction fuel arbitrary: cur st j it)
  case (Suc fuel)
  have "nb \<le> fuel" using Suc.prems(4) by simp
  from body [OF Suc.prems(1,2) this] obtain nxt st1
    where nxt: "eval_node_generic fuel D x b (AList.update v cur bnd) st = Ok (nxt, st1)"
      "okv x nxt" "abs nxt = F (abs cur)" "inv x st1" by blast
  let ?st2 = "d_record_iteration_ranks D v cur nxt (Suc it) st1"
  have st2: "inv x ?st2" by (rule inv_ranks [OF nxt(4)])
  show ?case
  proof (cases "abs nxt = abs cur")
    case True
    then have "abs cur = R" using conv [OF Suc.prems(3)] nxt(3) by simp
    then show ?thesis
      using True nxt st2 inv_callback [OF st2] Suc.prems(1) by (simp add: same)
  next
    case False
    have "j < N"
    proof (rule ccontr)
      assume "\<not> j < N"
      then have "abs cur = R" using fin [OF Suc.prems(3)] by simp
      then show False using False nxt(3) R by simp
    qed
    then have "Suc (N - Suc j) + nb \<le> fuel" using Suc.prems(4) by simp
    moreover have "I (Suc j) (abs nxt)" using I [OF Suc.prems(3)] by (simp add: nxt(3))
    ultimately show ?thesis
      using Suc.IH [OF nxt(2) st2] False nxt Suc.prems(1) by (simp add: same)
  qed
qed simp

text \<open>The two fixpoints as instances of the loop.\<close>

lemma least_correct:
  assumes x: "ctx_ok x" and mono: "mono F"
    and body: "\<And>cur st fuel. okv x cur \<Longrightarrow> inv x st \<Longrightarrow> nb \<le> fuel \<Longrightarrow>
      \<exists>nxt st'. eval_node_generic fuel D x b (AList.update v cur bnd) st = Ok (nxt, st')
        \<and> okv x nxt \<and> abs nxt = F (abs cur) \<and> inv x st'"
    and seed: "\<And>s. seed_of D x v Least = Some s \<Longrightarrow> okv x s \<and> abs s \<le> lfp F"
    and st: "inv x st" and fuel: "Suc (H x) + nb \<le> fuel"
  shows "\<exists>r st'. eval_fixpoint_loop fuel D x v b Least bnd (initial_iterate D x v Least) 0 st
      = Ok (r, st') \<and> okv x r \<and> abs r = lfp F \<and> inv x st'"
proof -
  let ?S = "abs ` {v. okv x v}"
  have S: "F y \<in> ?S" if "y \<in> ?S" for y
  proof -
    from that obtain cur where cur: "okv x cur" "y = abs cur" by auto
    obtain nxt where "okv x nxt" "abs nxt = F (abs cur)" using body [OF cur(1) st order.refl] by blast
    then show ?thesis using cur(2) by (intro image_eqI [of _ _ nxt]) simp_all
  qed
  have lim: "(F ^^ H x) bot = lfp F"
  proof (rule lfp_iterate [OF mono, of ?S ht])
    show "bot \<in> ?S" using bottom [OF x] by (auto simp: image_iff)
    show "F y \<in> ?S" if "y \<in> ?S" for y by (rule S [OF that])
  qed (use height in auto)
  have init: "okv x (initial_iterate D x v Least) \<and> abs (initial_iterate D x v Least) \<le> lfp F"
    using seed bottom [OF x] by (auto simp: initial_iterate_def split: option.splits)
  have fixp: "F (lfp F) = lfp F" by (rule lfp_unfold [OF mono, symmetric])
  let ?I = "\<lambda>j y. (F ^^ j) bot \<le> y \<and> y \<le> lfp F"
  show ?thesis
  proof (rule loop_correct [where I = ?I and F = F and N = "H x" and j = 0, OF body])
    show "?I (Suc j) (F y)" if "?I j y" for j y
    proof -
      have "F ((F ^^ j) bot) \<le> F y" using that by (intro monoD [OF mono]) simp
      moreover have "F y \<le> F (lfp F)" using that by (intro monoD [OF mono]) simp
      ultimately show ?thesis unfolding fixp by simp
    qed
    show "F (lfp F) = lfp F" by (rule fixp)
    show "y = lfp F" if "?I j y" "F y = y" for j y
      using that by (auto intro: fixpoint_below_lfp_eq)
    show "y = lfp F" if "?I j y" "H x \<le> j" for j y
    proof -
      have "lfp F \<le> (F ^^ j) bot"
        using funpow_mono2 [OF mono that(2), of bot bot] by (simp add: lim)
      then show ?thesis using that(1) by (auto intro: order.antisym)
    qed
  qed (use init st fuel in auto)
qed

lemma greatest_correct:
  assumes x: "ctx_ok x" and mono: "mono F"
    and body: "\<And>cur st fuel. okv x cur \<Longrightarrow> inv x st \<Longrightarrow> nb \<le> fuel \<Longrightarrow>
      \<exists>nxt st'. eval_node_generic fuel D x b (AList.update v cur bnd) st = Ok (nxt, st')
        \<and> okv x nxt \<and> abs nxt = F (abs cur) \<and> inv x st'"
    and seed: "\<And>s. seed_of D x v Greatest = Some s \<Longrightarrow>
      okv x s \<and> gfp (\<lambda>y. inf (a_top (A x)) (F y)) \<le> abs s"
    and st: "inv x st" and fuel: "Suc (H x) + nb \<le> fuel"
  shows "\<exists>r st'. eval_fixpoint_loop fuel D x v b Greatest bnd (initial_iterate D x v Greatest) 0 st
      = Ok (r, st') \<and> okv x r \<and> abs r = gfp (\<lambda>y. inf (a_top (A x)) (F y)) \<and> inv x st'"
proof -
  let ?T = "a_top (A x)" and ?S = "abs ` {v. okv x v}"
  let ?F = "\<lambda>y. inf ?T (F y)"
  have monoF: "mono ?F" using mono by (auto intro!: monoI inf_mono dest: monoD)
  have body': "\<exists>nxt st'. eval_node_generic fuel D x b (AList.update v cur bnd) st = Ok (nxt, st')
        \<and> okv x nxt \<and> abs nxt = ?F (abs cur) \<and> inv x st'"
    if prem: "okv x cur" "inv x st" "nb \<le> fuel" for cur st fuel
  proof -
    obtain nxt st' where n: "eval_node_generic fuel D x b (AList.update v cur bnd) st = Ok (nxt, st')"
      "okv x nxt" "abs nxt = F (abs cur)" "inv x st'" using body [OF prem] by blast
    have "F (abs cur) \<le> ?T" using below_top [OF x n(2)] n(3) by simp
    then show ?thesis using n by (simp add: inf_absorb2)
  qed
  have S: "?F y \<in> ?S" if "y \<in> ?S" for y
  proof -
    from that obtain cur where cur: "okv x cur" "y = abs cur" by auto
    obtain nxt where "okv x nxt" "abs nxt = ?F (abs cur)" using body' [OF cur(1) st order.refl] by blast
    then show ?thesis using cur(2) by (intro image_eqI [of _ _ nxt]) simp_all
  qed
  have top_le: "gfp ?F \<le> ?T" by (rule gfp_least) (erule order.trans, rule inf_le1)
  have fixp: "?F (gfp ?F) = gfp ?F" by (rule gfp_unfold [OF monoF, symmetric])
  have lim: "(?F ^^ H x) ?T = gfp ?F"
  proof (rule gfp_iterate [OF monoF _ top_le, of ?S ht])
    show "?T \<in> ?S" using top [OF x] by (auto simp: image_iff)
    show "?F y \<in> ?S" if "y \<in> ?S" for y by (rule S [OF that])
  qed (use height in auto)
  have init: "okv x (initial_iterate D x v Greatest)
      \<and> gfp ?F \<le> abs (initial_iterate D x v Greatest)"
    using seed top [OF x] top_le by (auto simp: initial_iterate_def split: option.splits)
  let ?I = "\<lambda>j y. y \<le> (?F ^^ j) ?T \<and> gfp ?F \<le> y"
  show ?thesis
  proof (rule loop_correct [where I = ?I and F = ?F and N = "H x" and j = 0, OF body'])
    show "?I (Suc j) (?F y)" if "?I j y" for j y
    proof -
      have "?F y \<le> ?F ((?F ^^ j) ?T)" using that by (intro monoD [OF monoF]) simp
      moreover have "?F (gfp ?F) \<le> ?F y" using that by (intro monoD [OF monoF]) simp
      ultimately show ?thesis unfolding fixp by simp
    qed
    show "?F (gfp ?F) = gfp ?F" by (rule fixp)
    show "y = gfp ?F" if "?I j y" "?F y = y" for j y
      using that by (auto intro: fixpoint_above_gfp_eq)
    show "y = gfp ?F" if "?I j y" "H x \<le> j" for j y
    proof -
      have dec: "(?F ^^ (H x + k)) ?T \<le> gfp ?F" for k
      proof (induction k)
        case (Suc k)
        then have "?F ((?F ^^ (H x + k)) ?T) \<le> ?F (gfp ?F)" by (rule monoD [OF monoF])
        then show ?case unfolding fixp by simp
      qed (simp add: lim)
      have "(?F ^^ j) ?T \<le> gfp ?F" using dec [of "j - H x"] that(2) by simp
      then show ?thesis using that(1) by (auto intro: order.antisym)
    qed
  qed (use init st fuel below_top [OF x] in auto)
qed

text \<open>Total correctness of the generic evaluator.\<close>

lemma eval_node_correct:
  assumes x: "ctx_ok x"
  shows "tree_of m (x_formula x) i = Some t \<Longrightarrow> positive t \<Longrightarrow> seeds_ok x t (env_of bnd) \<Longrightarrow>
    (\<And>v w. map_of bnd v = Some w \<Longrightarrow> okv x w) \<Longrightarrow> inv x st \<Longrightarrow> need (H x) t \<le> fuel \<Longrightarrow>
    \<exists>v st'. eval_node_generic fuel D x i bnd st = Ok (v, st') \<and> okv x v
      \<and> abs v = sem (A x) t (env_of bnd) \<and> inv x st'"
proof (induction t arbitrary: m i bnd st fuel)
  case FTrue
  then obtain k where k: "fuel = Suc k" by (cases fuel) auto
  from FTrue.prems(1) show ?case
  proof (cases rule: tree_of_cases)
    case (NTrue m')
    then have "node_of x i = Ok NTrue" by (simp add: node_of_def)
    then show ?thesis unfolding k
      using top [OF x] FTrue.prems(5) by (intro eval_node_wrap [OF FTrue.prems(5,1)]) (auto simp: eval_body_def)
  qed auto
next
  case FFalse
  then obtain k where k: "fuel = Suc k" by (cases fuel) auto
  from FFalse.prems(1) show ?case
  proof (cases rule: tree_of_cases)
    case (NFalse m')
    then have "node_of x i = Ok NFalse" by (simp add: node_of_def)
    then show ?thesis unfolding k
      using bottom [OF x] FFalse.prems(5)
      by (intro eval_node_wrap [OF FFalse.prems(5,1)]) (auto simp: eval_body_def)
  qed auto
next
  case (FPred p)
  then obtain k where k: "fuel = Suc k" by (cases fuel) auto
  obtain must may where mm: "pred_spec x p = (must, may)" by force
  have "caches_ok x st" using FPred.prems(5) by (simp add: inv_def)
  from predicate_bits_ok(1) [OF x this, of p] obtain st' where
    pb: "predicate_bits x p st = Ok ((must, may), st')" "caches_ok x st'" "e_memo st' = e_memo st"
    unfolding mm by blast
  from FPred.prems(1) show ?case
  proof (cases rule: tree_of_cases)
    case (NPred m' q)
    then have "node_of x i = Ok (NPredicate p)" by (simp add: node_of_def)
    then show ?thesis unfolding k
      using predicate [OF x mm] pb inv_cong [OF FPred.prems(5) pb(3,2)]
      by (intro eval_node_wrap [OF FPred.prems(5,1)]) (auto simp: eval_body_def)
  qed auto
next
  case (FVar v)
  then obtain k where k: "fuel = Suc k" by (cases fuel) auto
  have "okv x (d_from_binding D x (map_of bnd v)) \<and> abs (d_from_binding D x (map_of bnd v)) = env_of bnd v"
    using FVar.prems(4) bottom [OF x] by (cases "map_of bnd v") (auto simp: binding env_of_def)
  moreover from FVar.prems(1) have "node_of x i = Ok (NVariable v)"
    by (cases rule: tree_of_cases) (auto simp: node_of_def)
  ultimately show ?case unfolding k
    using FVar.prems(5) by (intro eval_node_wrap [OF FVar.prems(5,1)]) (auto simp: eval_body_def)
next
  case (FNot t)
  then obtain k where k: "fuel = Suc k" "need (H x) t \<le> k" by (cases fuel) auto
  from FNot.prems(1) show ?case
  proof (cases rule: tree_of_cases)
    case (NNot m' a s)
    then have nd: "node_of x i = Ok (NNot a)" by (simp add: node_of_def)
    obtain v st' where "eval_node_generic k D x a bnd st = Ok (v, st')" "okv x v"
      "abs v = sem (A x) t (env_of bnd)" "inv x st'"
      using FNot.IH [of m' a bnd st k] NNot FNot.prems k(2) by auto
    then show ?thesis unfolding k(1)
      using neg [OF x] by (intro eval_node_wrap [OF FNot.prems(5,1) nd]) (auto simp: eval_body_def)
  qed auto
next
  case (FAnd s t)
  then obtain k where k: "fuel = Suc k" "need (H x) s \<le> k" "need (H x) t \<le> k" by (cases fuel) auto
  from FAnd.prems(1) show ?case
  proof (cases rule: tree_of_cases)
    case (NAnd m' a b s' t')
    then have nd: "node_of x i = Ok (NAnd a b)" by (simp add: node_of_def)
    obtain v st1 where 1: "eval_node_generic k D x a bnd st = Ok (v, st1)" "okv x v"
      "abs v = sem (A x) s (env_of bnd)" "inv x st1"
      using FAnd.IH(1) [of m' a bnd st k] NAnd FAnd.prems k by auto
    obtain w st2 where 2: "eval_node_generic k D x b bnd st1 = Ok (w, st2)" "okv x w"
      "abs w = sem (A x) t (env_of bnd)" "inv x st2"
      using FAnd.IH(2) [of m' b bnd st1 k] NAnd FAnd.prems k 1 by auto
    show ?thesis unfolding k(1)
      using conj [OF 1(2) 2(2)] 1 2
      by (intro eval_node_wrap [OF FAnd.prems(5,1) nd]) (auto simp: eval_body_def)
  qed auto
next
  case (FOr s t)
  then obtain k where k: "fuel = Suc k" "need (H x) s \<le> k" "need (H x) t \<le> k" by (cases fuel) auto
  from FOr.prems(1) show ?case
  proof (cases rule: tree_of_cases)
    case (NOr m' a b s' t')
    then have nd: "node_of x i = Ok (NOr a b)" by (simp add: node_of_def)
    obtain v st1 where 1: "eval_node_generic k D x a bnd st = Ok (v, st1)" "okv x v"
      "abs v = sem (A x) s (env_of bnd)" "inv x st1"
      using FOr.IH(1) [of m' a bnd st k] NOr FOr.prems k by auto
    obtain w st2 where 2: "eval_node_generic k D x b bnd st1 = Ok (w, st2)" "okv x w"
      "abs w = sem (A x) t (env_of bnd)" "inv x st2"
      using FOr.IH(2) [of m' b bnd st1 k] NOr FOr.prems k 1 by auto
    show ?thesis unfolding k(1)
      using disj [OF 1(2) 2(2)] 1 2
      by (intro eval_node_wrap [OF FOr.prems(5,1) nd]) (auto simp: eval_body_def)
  qed auto
next
  case (FModal q g t)
  then obtain k where k: "fuel = Suc k" "need (H x) t \<le> k" by (cases fuel) auto
  from FModal.prems(1) show ?case
  proof (cases rule: tree_of_cases)
    case (NModal m' q' g' a s)
    then have nd: "node_of x i = Ok (NModal q g a)" by (simp add: node_of_def)
    obtain v st1 where 1: "eval_node_generic k D x a bnd st = Ok (v, st1)" "okv x v"
      "abs v = sem (A x) t (env_of bnd)" "inv x st1"
      using FModal.IH [of m' a bnd st k] NModal FModal.prems k(2) by auto
    have "caches_ok x st1" using 1(4) by (simp add: inv_def)
    from modal [OF x this 1(2), of q g i] inv_cong [OF 1(4)] 1 show ?thesis unfolding k(1)
      by (intro eval_node_wrap [OF FModal.prems(5,1) nd]) (auto simp: eval_body_def)
  qed auto
next
  case (FMu v t)
  then obtain k where k: "fuel = Suc k" "Suc (H x) + need (H x) t \<le> k" by (cases fuel) auto
  let ?F = "\<lambda>X. sem (A x) t ((env_of bnd)(v := X))"
  from FMu.prems(1) show ?case
  proof (cases rule: tree_of_cases)
    case (NMu m' v' a s)
    then have nd: "node_of x i = Ok (NMu v a)" by (simp add: node_of_def)
    have mono: "mono ?F" using sem_mono_var [OF alg_mono [OF x]] FMu.prems(2) by auto
    have body: "\<exists>nxt st'. eval_node_generic f D x a (AList.update v cur bnd) st = Ok (nxt, st')
        \<and> okv x nxt \<and> abs nxt = ?F (abs cur) \<and> inv x st'"
      if "okv x cur" "inv x st" "need (H x) t \<le> f" for cur st f
    proof -
      have t: "tree_of m' (x_formula x) a = Some t" "positive t"
        "seeds_ok x t (env_of (AList.update v cur bnd))"
        using NMu FMu.prems by (auto simp: env_of_update simp del: fun_upd_apply)
      from FMu.IH [OF t bindings_update [OF FMu.prems(4) that(1)] that(2,3)] show ?thesis
        by (simp add: env_of_update del: fun_upd_apply)
    qed
    have seed: "okv x s \<and> abs s \<le> lfp ?F" if "seed_of D x v Least = Some s" for s
      using FMu.prems(3) that by simp
    from least_correct [OF x mono body seed FMu.prems(5) k(2)] show ?thesis unfolding k(1)
      by (intro eval_node_wrap [OF FMu.prems(5,1) nd]) (auto simp: eval_body_def)
  qed auto
next
  case (FNu v t)
  then obtain k where k: "fuel = Suc k" "Suc (H x) + need (H x) t \<le> k" by (cases fuel) auto
  let ?F = "\<lambda>X. sem (A x) t ((env_of bnd)(v := X))"
  from FNu.prems(1) show ?case
  proof (cases rule: tree_of_cases)
    case (NNu m' v' a s)
    then have nd: "node_of x i = Ok (NNu v a)" by (simp add: node_of_def)
    have mono: "mono ?F" using sem_mono_var [OF alg_mono [OF x]] FNu.prems(2) by auto
    have body: "\<exists>nxt st'. eval_node_generic f D x a (AList.update v cur bnd) st = Ok (nxt, st')
        \<and> okv x nxt \<and> abs nxt = ?F (abs cur) \<and> inv x st'"
      if "okv x cur" "inv x st" "need (H x) t \<le> f" for cur st f
    proof -
      have t: "tree_of m' (x_formula x) a = Some t" "positive t"
        "seeds_ok x t (env_of (AList.update v cur bnd))"
        using NNu FNu.prems by (auto simp: env_of_update simp del: fun_upd_apply)
      from FNu.IH [OF t bindings_update [OF FNu.prems(4) that(1)] that(2,3)] show ?thesis
        by (simp add: env_of_update del: fun_upd_apply)
    qed
    have seed: "okv x s \<and> gfp (\<lambda>y. inf (a_top (A x)) (?F y)) \<le> abs s"
      if "seed_of D x v Greatest = Some s" for s
      using FNu.prems(3) that by simp
    from greatest_correct [OF x mono body seed FNu.prems(5) k(2)] show ?thesis unfolding k(1)
      by (intro eval_node_wrap [OF FNu.prems(5,1) nd]) (auto simp: eval_body_def)
  qed auto
qed

end

end
