(* ===== verification/Eval_Domains.thy ===== *)
theory Eval_Domains
  imports Eval_Correct
begin

section \<open>The two evaluation domains\<close>

text \<open>
  The algebras behind the two domains and the interpretations of \<open>sound_domain\<close>: \<open>bd\<close> for the
  two-valued evaluator over sets of states, \<open>kd\<close> for the three-valued evaluator over pairs of a
  must set and a may set. The consequences for the entry points are in \<^verbatim>\<open>Eval_Props\<close>.
\<close>

subsection \<open>Algebras\<close>

definition img_bits :: "ctx \<Rightarrow> modal_kind \<Rightarrow> guard \<Rightarrow> modality_filter \<Rightarrow> bitvec \<Rightarrow> bitvec" where
  "img_bits x k g flt T =
     (case g_max_steps g of
        Some bound \<Rightarrow> eval_modal_bounded x k g T bound flt
      | None \<Rightarrow> modal_bits x k g T (ctx_parts x g) flt)"

definition set_bits :: "ctx \<Rightarrow> nat set \<Rightarrow> bitvec" where
  "set_bits x S = bv_of (x_n x) (\<lambda>i. i \<in> S)"

definition alg2 :: "ctx \<Rightarrow> nat set mu_algebra" where
  "alg2 x = \<lparr>a_top = {..<x_n x}, a_pred = (\<lambda>p. bset (fst (pred_spec x p))),
     a_not = (\<lambda>S. {..<x_n x} - S),
     a_modal = (\<lambda>k g S. bset (img_bits x k g FilterAll (set_bits x S)))\<rparr>"

definition must_filter :: "modal_kind \<Rightarrow> modality_filter" where
  "must_filter k = (case k of Diamond \<Rightarrow> FilterMustOnly | Box \<Rightarrow> FilterAll)"

definition may_filter :: "modal_kind \<Rightarrow> modality_filter" where
  "may_filter k = (case k of Diamond \<Rightarrow> FilterAll | Box \<Rightarrow> FilterMustOnly)"

definition player_guard :: "guard \<Rightarrow> bool" where
  "player_guard g \<longleftrightarrow> g_max_steps g = None \<and> (g_control g = CControllable \<or> g_control g = CEnvironment)"

definition player_verdict :: "ctx \<Rightarrow> modal_kind \<Rightarrow> guard \<Rightarrow> nat set \<times> nat set \<Rightarrow> nat \<Rightarrow> trit" where
  "player_verdict x k g P s = modal_trit_core k (g_control g)
     (edge_facts_of x g (ctx_parts x g)
        (tritset_from_parts (set_bits x (fst P)) (set_bits x (snd P))) s)"

definition alg3 :: "ctx \<Rightarrow> (nat set \<times> nat set) mu_algebra" where
  "alg3 x = \<lparr>a_top = ({..<x_n x}, {..<x_n x}),
     a_pred = (\<lambda>p. (bset (fst (pred_spec x p)), bset (snd (pred_spec x p)))),
     a_not = (\<lambda>(must, may). ({..<x_n x} - may, {..<x_n x} - must)),
     a_modal = (\<lambda>k g P.
       if player_guard g
       then ({s. s < x_n x \<and> player_verdict x k g P s = TTrue},
             {s. s < x_n x \<and> player_verdict x k g P s \<noteq> TFalse})
       else (bset (img_bits x k g (must_filter k) (set_bits x (fst P))),
             bset (img_bits x k g (may_filter k) (set_bits x (snd P)))))\<rparr>"

subsection \<open>Monotonicity\<close>

lemma bset_set_bits [simp]: "bset (set_bits x S) = S \<inter> {..<x_n x}"
  by (auto simp: set_bits_def)

lemma set_bits_bset: "length b = x_n x \<Longrightarrow> set_bits x (bset b) = b"
  by (rule bv_eqI [of _ "x_n x"]) (auto simp: set_bits_def dest: bset_less)

lemma length_img_bits [simp]: "length (img_bits x k g flt T) = x_n x"
  by (simp add: img_bits_def eval_modal_bounded_def modal_bits_def split: option.splits)

lemma img_bits_mono:
  assumes "bset T \<subseteq> bset T'"
  shows "bset (img_bits x k g flt T) \<subseteq> bset (img_bits x k g flt T')"
  using modal_exists_mono [OF assms] modal_forall_mono [OF assms]
    modal_exists_bounded_mono [OF assms] modal_forall_bounded_mono [OF assms]
  by (cases k; cases "g_max_steps g") (auto simp: img_bits_def modal_bits_def eval_modal_bounded_def)

lemma alg2_mono: "algebra_mono (alg2 x)"
proof -
  have "bset (img_bits x k g FilterAll (set_bits x S)) \<subseteq> bset (img_bits x k g FilterAll (set_bits x S'))"
    if "S \<subseteq> S'" for k g S S'
    by (rule img_bits_mono) (use that in auto)
  then show ?thesis by (auto simp: algebra_mono_def alg2_def)
qed

text \<open>The per-player rule is monotone in the facts of the edges.\<close>

definition edge_le :: "edge_facts \<Rightarrow> edge_facts \<Rightarrow> bool" where
  "edge_le e e' \<longleftrightarrow> ef_controllable e = ef_controllable e' \<and> ef_is_must e = ef_is_must e'
     \<and> (ef_reaches_must e \<longrightarrow> ef_reaches_must e') \<and> (ef_reaches_may e \<longrightarrow> ef_reaches_may e')"

lemma ef_quantifiers_mono:
  assumes "list_all2 edge_le es es'"
  shows "list_ex ef_controllable es = list_ex ef_controllable es'"
    and "ef_exists es c m d \<longrightarrow> ef_exists es' c m d"
    and "ef_forall es c m d \<longrightarrow> ef_forall es' c m d"
  using assms
  by (induction rule: list_all2_induct)
    (auto simp: ef_exists_def ef_forall_def edge_le_def ef_in_subset_def ef_reaches_def
      split: option.splits)

lemma modal_trit_core_mono:
  assumes "list_all2 edge_le es es'"
  shows "modal_trit_core k c es \<le> modal_trit_core k c es'"
proof -
  note q = ef_quantifiers_mono [OF assms]
  show ?thesis
    using q(1) q(2) [of None True True] q(2) [of None False False] q(3) [of None False True]
      q(3) [of None True False] q(3) [of "Some False" False True] q(2) [of "Some True" True True]
      q(3) [of "Some False" True False] q(2) [of "Some True" False False]
      q(2) [of "Some False" True True] q(3) [of "Some True" False True]
      q(2) [of "Some False" False False] q(3) [of "Some True" True False]
    by (cases c; cases k) (auto simp: modal_trit_core_def Let_def less_eq_trit_def)
qed

lemma player_verdict_mono:
  assumes "P \<le> Q"
  shows "player_verdict x k g P s \<le> player_verdict x k g Q s"
proof -
  have "bset (set_bits x (fst P)) \<subseteq> bset (set_bits x (fst Q))"
    "bset (set_bits x (snd P)) \<subseteq> bset (set_bits x (snd Q))"
    using assms by (auto simp: less_eq_prod_def)
  note m = box_cover_mono [OF this(1)] diamond_cover_mono [OF this(2)]
  show ?thesis
    unfolding player_verdict_def
    by (rule modal_trit_core_mono)
      (auto simp: edge_facts_of_def list_all2_map1 list_all2_map2 edge_le_def tritset_from_parts_def
        intro!: list_all2_refl m)
qed

lemma trit_le_iff:
  "a \<le> b \<longleftrightarrow> (a = TTrue \<longrightarrow> b = TTrue) \<and> (a \<noteq> TFalse \<longrightarrow> b \<noteq> TFalse)" for a b :: trit
  by (cases a; cases b) (auto simp: less_eq_trit_def)

lemma alg3_mono: "algebra_mono (alg3 x)"
proof -
  have m: "bset (img_bits x k g f (set_bits x S)) \<subseteq> bset (img_bits x k g f (set_bits x S'))"
    if "S \<subseteq> S'" for k g f S S'
    by (rule img_bits_mono) (use that in auto)
  have p: "player_verdict x k g P s = TTrue \<Longrightarrow> player_verdict x k g Q s = TTrue"
    "player_verdict x k g P s \<noteq> TFalse \<Longrightarrow> player_verdict x k g Q s \<noteq> TFalse"
    if "P \<le> Q" for P Q k g s
    using player_verdict_mono [OF that, of x k g s] by (auto simp: trit_le_iff)
  have modal: "a_modal (alg3 x) k g P \<le> a_modal (alg3 x) k g Q" if "P \<le> Q" for P Q k g
  proof (cases "player_guard g")
    case True
    then show ?thesis using p [OF that] by (auto simp: alg3_def less_eq_prod_def)
  next
    case False
    then show ?thesis using that m by (auto simp: alg3_def less_eq_prod_def)
  qed
  have "a_not (alg3 x) Q \<le> a_not (alg3 x) P" if "P \<le> Q" for P Q
    using that by (auto simp: alg3_def less_eq_prod_def case_prod_beta)
  with modal show ?thesis by (simp add: algebra_mono_def)
qed

subsection \<open>The two-valued domain\<close>

lemma modal_parts:
  assumes "caches_ok x st"
  obtains st' where "guard_parts_opt x g st = (ctx_parts x g, st')" "caches_ok x st'"
    "e_memo st' = e_memo st"
  using guard_parts_opt_ok [OF assms] by blast

lemma record_witnesses_frame [simp]:
  "e_memo (record_witnesses x k g T i r st) = e_memo st"
  "caches_ok y (record_witnesses x k g T i r st) = caches_ok y st"
  by (simp_all add: record_witnesses_def caches_ok_def)

lemma bool_modal_image:
  assumes "caches_ok x st"
  shows "\<exists>st'. eval_modal_with_target_set x k g T i st = Ok (img_bits x k g FilterAll T, st')
    \<and> caches_ok x st' \<and> e_memo st' = e_memo st"
proof (cases "g_max_steps g")
  case None
  obtain st' where "guard_parts_opt x g st = (ctx_parts x g, st')" "caches_ok x st'"
    "e_memo st' = e_memo st" by (rule modal_parts [OF assms])
  then show ?thesis using None by (simp add: eval_modal_with_target_set_def img_bits_def Let_def)
qed (use assms in \<open>simp add: eval_modal_with_target_set_def img_bits_def\<close>)

interpretation bd: sound_domain bool_dom "\<lambda>x v. length v = x_n x" bset alg2 card x_n
proof (unfold_locales, goal_cases)
  case (2 x)
  then show ?case by (simp add: bool_dom_def alg2_def ctx_ok_oob)
next
  case (4 x p must may)
  then show ?case using predicate_bits_ok(2) [OF 4(1), of "est_new None" p]
    by (simp add: bool_dom_def alg2_def)
next
  case (7 x v)
  then show ?case by (auto simp: bool_dom_def bool_not_def alg2_def ctx_ok_oob mem_bset_iff)
next
  case (10 x st v k g i)
  then show ?case using bool_modal_image [OF 10(2), of k g v i]
    by (auto simp: bool_dom_def alg2_def set_bits_bset)
next
  case (12 x v w)
  then show ?case by (simp add: psubset_card_mono)
next
  case (13 x v)
  then show ?case using card_bset_le [of v] by simp
next
  case (14 x v)
  then show ?case using bset_subset [of v] by (simp add: alg2_def)
qed (auto simp: alg2_mono bool_dom_def bset_and bset_or bv_eq_iff bool_record_iteration_ranks_def
      update_conv fun_eq_iff)

subsection \<open>The three-valued domain\<close>

definition trit_pair :: "trit_set \<Rightarrow> nat set \<times> nat set" where
  "trit_pair v = (bset (must_true v), bset (may_true v))"

definition trit_len :: "ctx \<Rightarrow> trit_set \<Rightarrow> bool" where
  "trit_len x v \<longleftrightarrow> length (must_true v) = x_n x \<and> length (may_true v) = x_n x"

definition pair_height :: "nat set \<times> nat set \<Rightarrow> nat" where
  "pair_height p = card (fst p) + card (snd p)"

lemma modal_bits_from_target_ok:
  assumes "caches_ok x st"
  shows "\<exists>st'. modal_bits_from_target x k g T flt st = Ok (img_bits x k g flt T, st')
    \<and> caches_ok x st' \<and> e_memo st' = e_memo st"
proof (cases "g_max_steps g")
  case None
  obtain st' where "guard_parts_opt x g st = (ctx_parts x g, st')" "caches_ok x st'"
    "e_memo st' = e_memo st" by (rule modal_parts [OF assms])
  then show ?thesis using None by (simp add: modal_bits_from_target_def img_bits_def)
qed (use assms in \<open>simp add: modal_bits_from_target_def img_bits_def\<close>)

lemma kleene_modal_image_ok:
  assumes st: "caches_ok x st" and v: "trit_len x v"
  shows "\<exists>w st'. kleene_modal_image x k g v i st = Ok (w, st') \<and> trit_len x w
    \<and> trit_pair w = a_modal (alg3 x) k g (trit_pair v) \<and> caches_ok x st' \<and> e_memo st' = e_memo st"
proof (cases "player_guard g")
  case True
  obtain st' where parts: "guard_parts_opt x g st = (ctx_parts x g, st')" "caches_ok x st'"
    "e_memo st' = e_memo st" by (rule modal_parts [OF st])
  have eq: "modal_trit_core k (g_control g) (edge_facts_of x g (ctx_parts x g) v s)
      = player_verdict x k g (trit_pair v) s" for s
    using v by (simp add: player_verdict_def trit_pair_def trit_len_def set_bits_bset
        tritset_from_parts_def edge_facts_of_def)
  have ne: "t = TTrue \<or> t = TUnknown \<longleftrightarrow> t \<noteq> TFalse" for t by (cases t) auto
  have "kleene_modal_image x k g v i st = modal_trit_from_target x k g v st"
    using True by (auto simp: kleene_modal_image_def player_guard_def)
  then show ?thesis
    using True parts by (simp add: modal_trit_from_target_def Let_def eq ne trit_len_def trit_pair_def
        tritset_from_parts_def alg3_def)
next
  case False
  obtain st1 where 1: "modal_bits_from_target x k g (must_true v) (must_filter k) st
      = Ok (img_bits x k g (must_filter k) (must_true v), st1)" "caches_ok x st1" "e_memo st1 = e_memo st"
    using modal_bits_from_target_ok [OF st] by blast
  obtain st2 where 2: "modal_bits_from_target x k g (may_true v) (may_filter k) st1
      = Ok (img_bits x k g (may_filter k) (may_true v), st2)" "caches_ok x st2" "e_memo st2 = e_memo st1"
    using modal_bits_from_target_ok [OF 1(2)] by blast
  have "kleene_modal_image x k g v i st = Ok (tritset_from_parts
      (img_bits x k g (must_filter k) (must_true v)) (img_bits x k g (may_filter k) (may_true v)), st2)"
    using False 1 2
    by (cases k) (auto simp: kleene_modal_image_def player_guard_def must_filter_def may_filter_def)
  then show ?thesis
    using False 1 2 v by (auto simp: trit_len_def trit_pair_def tritset_from_parts_def alg3_def set_bits_bset)
qed

lemma pair_height_less:
  assumes "finite (fst q)" "finite (snd q)" "p < q"
  shows "pair_height p < pair_height q"
proof -
  have le: "fst p \<subseteq> fst q" "snd p \<subseteq> snd q" and ne: "fst p \<noteq> fst q \<or> snd p \<noteq> snd q"
    using assms(3) by (auto simp: less_prod_def less_eq_prod_def prod_eq_iff)
  show ?thesis
  proof (cases "fst p = fst q")
    case True
    then have "card (snd p) < card (snd q)" using le ne assms by (intro psubset_card_mono) auto
    then show ?thesis using True by (simp add: pair_height_def)
  next
    case False
    then have "card (fst p) < card (fst q)" using le assms by (intro psubset_card_mono) auto
    moreover have "card (snd p) \<le> card (snd q)" using le assms by (intro card_mono) auto
    ultimately show ?thesis by (simp add: pair_height_def)
  qed
qed

lemma trit_pair_eq: "trit_len x v \<Longrightarrow> trit_len x w \<Longrightarrow> tritset_eq_set v w \<longleftrightarrow> trit_pair v = trit_pair w"
  by (simp add: trit_len_def trit_pair_def tritset_eq_set_def bv_eq_iff)

interpretation kd: sound_domain kleene_dom trit_len trit_pair alg3 pair_height "\<lambda>x. 2 * x_n x"
proof (unfold_locales, goal_cases)
  case (2 x)
  then show ?case
    by (simp add: kleene_dom_def alg3_def ctx_ok_oob trit_len_def trit_pair_def tritset_all_true_def
        flip_bits_def bset_not bset_and)
next
  case (3 x)
  then show ?case by (simp add: kleene_dom_def trit_len_def trit_pair_def tritset_all_false_def bot_prod_def)
next
  case (4 x p must may)
  then show ?case using predicate_bits_ok(2,3) [OF 4(1), of "est_new None" p]
    by (simp add: kleene_dom_def alg3_def ctx_ok_oob trit_len_def trit_pair_def tritset_from_parts_def)
next
  case (7 x v)
  then show ?case
    by (simp add: kleene_dom_def alg3_def trit_len_def trit_pair_def tritset_not_def bset_complement)
next
  case (8 x v w)
  then show ?case
    by (simp add: kleene_dom_def trit_len_def trit_pair_def tritset_and_def bset_and inf_prod_def)
next
  case (9 x v w)
  then show ?case
    by (simp add: kleene_dom_def trit_len_def trit_pair_def tritset_or_def bset_or sup_prod_def)
next
  case (10 x st v k g i)
  then show ?case using kleene_modal_image_ok [OF 10(2,3)] by (simp add: kleene_dom_def)
next
  case (11 x v w)
  then show ?case by (simp add: kleene_dom_def trit_pair_eq)
next
  case (12 x v w)
  then show ?case by (intro pair_height_less) (simp_all add: trit_pair_def)
next
  case (13 x v)
  then show ?case using card_bset_le [of "must_true v"] card_bset_le [of "may_true v"]
    by (simp add: pair_height_def trit_pair_def trit_len_def)
next
  case (14 x v)
  then show ?case using bset_subset [of "must_true v"] bset_subset [of "may_true v"]
    by (simp add: alg3_def trit_pair_def trit_len_def less_eq_prod_def)
qed (simp_all add: alg3_mono kleene_dom_def)

end
