(* ===== verification/Eval_Props.thy ===== *)
theory Eval_Props
  imports Eval_Domains
begin

section \<open>Correctness of the entry points of the evaluator\<close>

text \<open>
  Total correctness of \<open>evaluate_with_options\<close> and \<open>evaluate_tri_with_options\<close>, correctness of
  approximant reuse, transparency of the evaluation options, the plain reading of the modal
  operators, and the invariant of three-valued results.
\<close>

subsection \<open>From the locale to the entry points\<close>

definition no_oob :: "clts \<Rightarrow> bool" where
  "no_oob c \<longleftrightarrow> (\<forall>s < state_count c. case state_valuation c s of None \<Rightarrow> True
     | Some val \<Rightarrow> map_of val ''__mununu_oob__'' \<noteq> Some ''true'')"

definition env_fits :: "environment \<Rightarrow> clts \<Rightarrow> bool" where
  "env_fits env c \<longleftrightarrow> env_state_count env = state_count c
     \<and> (\<forall>p bits. env_predicate env p = Some bits \<longrightarrow> length bits = state_count c)
     \<and> (\<forall>ev p. env_on_demand env = Some ev \<longrightarrow>
          (\<exists>r. ev p = Ok r \<and> (\<forall>bits. r = Some bits \<longrightarrow> length bits = state_count c)))"

lemma ctx_new_ok:
  assumes "no_oob c" "env_fits env c"
  shows "ctx_ok (ctx_new f c env opts)"
proof -
  have oob: "compute_oob_bits c = bv_repeat False (state_count c)"
    using assms(1)
    by (intro bv_eqI [of _ "state_count c"]) (auto simp: compute_oob_bits_def no_oob_def split: option.splits)
  have "bv_not (bv_repeat False n) = bv_repeat True n" for n
    by (simp add: bv_not_def bv_repeat_def)
  then show ?thesis
    using assms(2) unfolding ctx_ok_def ctx_new_def env_fits_def by (simp add: oob Let_def)
qed

lemma ctx_new_fields [simp]:
  "x_formula (ctx_new f c env opts) = f" "x_clts (ctx_new f c env opts) = c"
  "x_env (ctx_new f c env opts) = env" "x_options (ctx_new f c env opts) = opts"
  by (simp_all add: ctx_new_def Let_def)

lemma bd_inv_new: "bd.inv x (est_new w)"
  unfolding bd.inv_def bd.memo_ok_def by (simp add: bool_dom_def est_new_def caches_ok_def)

lemma kd_inv_new: "kd.inv x (est_new w)"
  unfolding kd.inv_def kd.memo_ok_def by (simp add: kleene_dom_def)

definition no_prior :: "evaluation_options \<Rightarrow> fml \<Rightarrow> bool" where
  \<comment> \<open>no fixpoint of the formula has an approximant to start from\<close>
  "no_prior opts t \<longleftrightarrow> (case o_prior_approximants opts of None \<Rightarrow> True
     | Some m \<Rightarrow> \<forall>v \<in> fst ` set (order_tree t). map_of m v = None)"

lemma seed_of_None: "no_prior (x_options x) t \<Longrightarrow> v \<in> fst ` set (order_tree t) \<Longrightarrow> seed_of D x v k = None"
  by (auto simp: seed_of_def no_prior_def split: option.splits)

lemma no_prior_simps:
  "no_prior opts (FNot t) = no_prior opts t" "no_prior opts (FModal k g t) = no_prior opts t"
  "no_prior opts (FAnd s t) = (no_prior opts s \<and> no_prior opts t)"
  "no_prior opts (FOr s t) = (no_prior opts s \<and> no_prior opts t)"
  "no_prior opts (FMu v t) \<Longrightarrow> no_prior opts t" "no_prior opts (FNu v t) \<Longrightarrow> no_prior opts t"
  by (auto simp: no_prior_def split: option.splits)

lemma bd_seeds_ok: "no_prior (x_options x) t \<Longrightarrow> bd.seeds_ok x t \<rho>"
proof (induction t arbitrary: \<rho>)
  case (FMu v t)
  then show ?case using seed_of_None [OF FMu.prems, of v bool_dom] by (auto dest: no_prior_simps(5))
next
  case (FNu v t)
  then show ?case using seed_of_None [OF FNu.prems, of v bool_dom] by (auto dest: no_prior_simps(6))
qed (auto simp: no_prior_simps(1-4))

lemma kd_seeds_ok: "no_prior (x_options x) t \<Longrightarrow> kd.seeds_ok x t \<rho>"
proof (induction t arbitrary: \<rho>)
  case (FMu v t)
  then show ?case using seed_of_None [OF FMu.prems, of v kleene_dom] by (auto dest: no_prior_simps(5))
next
  case (FNu v t)
  then show ?case using seed_of_None [OF FNu.prems, of v kleene_dom] by (auto dest: no_prior_simps(6))
qed (auto simp: no_prior_simps(1-4))

lemma evaluate_seeded:
  assumes "no_oob c" "env_fits env c" "tree f = Some t" "positive t"
    and seeds: "bd.seeds_ok (ctx_new f c env opts) t (\<lambda>_. {})"
    and fuel: "need (state_count c) t \<le> k"
  shows "\<exists>bits. evaluate_with_options k f c env opts = Ok bits \<and> length bits = state_count c
    \<and> bset bits = sem (alg2 (ctx_new f c env opts)) t (\<lambda>_. {})"
proof -
  let ?x = "ctx_new f c env opts"
  have n: "env_state_count env = state_count c" using assms(2) unfolding env_fits_def by blast
  have "\<exists>v st'. eval_node_generic k bool_dom ?x (f_root f) [] (est_new None) = Ok (v, st')
      \<and> length v = x_n ?x \<and> bset v = sem (alg2 ?x) t (bd.env_of []) \<and> bd.inv ?x st'"
    by (rule bd.eval_node_correct [OF ctx_new_ok [OF assms(1,2)], of "length (f_nodes f)"])
      (use assms seeds fuel bd_inv_new n in \<open>auto simp: tree_def\<close>)
  then show ?thesis using n by (auto simp: evaluate_with_options_def)
qed

lemma evaluate_tri_seeded:
  assumes "no_oob c" "env_fits env c" "tree f = Some t" "positive t"
    and seeds: "kd.seeds_ok (ctx_new f c env opts) t (\<lambda>_. bot)"
    and fuel: "need (2 * state_count c) t \<le> k"
  shows "\<exists>v. evaluate_tri_with_options k f c env opts = Ok v
    \<and> length (must_true v) = state_count c \<and> length (may_true v) = state_count c
    \<and> (bset (must_true v), bset (may_true v)) = sem (alg3 (ctx_new f c env opts)) t (\<lambda>_. bot)"
proof -
  let ?x = "ctx_new f c env opts"
  have n: "env_state_count env = state_count c" using assms(2) unfolding env_fits_def by blast
  have "\<exists>v st'. eval_node_generic k kleene_dom ?x (f_root f) [] (est_new None) = Ok (v, st')
      \<and> trit_len ?x v \<and> trit_pair v = sem (alg3 ?x) t (kd.env_of []) \<and> kd.inv ?x st'"
    by (rule kd.eval_node_correct [OF ctx_new_ok [OF assms(1,2)], of "length (f_nodes f)"])
      (use assms seeds fuel kd_inv_new n in \<open>auto simp: tree_def\<close>)
  then show ?thesis using n by (auto simp: evaluate_tri_with_options_def trit_len_def trit_pair_def)
qed

subsection \<open>The textbook semantics\<close>

text \<open>
  Predicates: the pre-computed set, else the three-valued labelling, else the on-demand value,
  else nowhere. \<open>kripke\<close> is the usual two-valued semantics over the transitions that match a
  guard; \<open>kmts\<close> is the three-valued semantics of Kripke modal transition systems, where definite
  truth of a diamond and definite falsity of a box need a must transition.
\<close>

definition std_pred :: "clts \<Rightarrow> environment \<Rightarrow> string \<Rightarrow> nat set \<times> nat set" where
  "std_pred c env p =
     (case env_predicate env p of
        Some b \<Rightarrow> (bset b, bset b)
      | None \<Rightarrow>
          if \<exists>s < state_count c. state_3valued_predicate c s p \<noteq> None
          then ({s. s < state_count c \<and> state_3valued_predicate c s p = Some KleeneT},
                {s. s < state_count c \<and> state_3valued_predicate c s p \<in> {Some KleeneT, Some KleeneBot}})
          else (case env_on_demand env of
                  None \<Rightarrow> ({}, {})
                | Some ev \<Rightarrow> (case ev p of Ok (Some b) \<Rightarrow> (bset b, bset b) | _ \<Rightarrow> ({}, {}))))"

definition matching :: "clts \<Rightarrow> guard \<Rightarrow> nat \<Rightarrow> transition set" where
  "matching c g s = {t \<in> set (outgoing c s). guard_matches c s t g}"

definition must_matching :: "clts \<Rightarrow> guard \<Rightarrow> nat \<Rightarrow> transition set" where
  "must_matching c g s = {t \<in> matching c g s. t_modality t \<noteq> MayOnly}"

definition pre_ex :: "clts \<Rightarrow> (nat \<Rightarrow> transition set) \<Rightarrow> nat set \<Rightarrow> nat set" where
  "pre_ex c E S = {s. s < state_count c \<and> (\<exists>t \<in> E s. t_target t \<in> S)}"

definition pre_all :: "clts \<Rightarrow> (nat \<Rightarrow> transition set) \<Rightarrow> nat set \<Rightarrow> nat set" where
  "pre_all c E S = {s. s < state_count c \<and> (\<forall>t \<in> E s. t_target t \<in> S)}"

definition kripke :: "clts \<Rightarrow> environment \<Rightarrow> nat set mu_algebra" where
  "kripke c env = \<lparr>a_top = {..<state_count c}, a_pred = (\<lambda>p. fst (std_pred c env p)),
     a_not = (\<lambda>S. {..<state_count c} - S),
     a_modal = (\<lambda>k g S. case k of Diamond \<Rightarrow> pre_ex c (matching c g) S
                               | Box \<Rightarrow> pre_all c (matching c g) S)\<rparr>"

definition kmts :: "clts \<Rightarrow> environment \<Rightarrow> (nat set \<times> nat set) mu_algebra" where
  "kmts c env = \<lparr>a_top = ({..<state_count c}, {..<state_count c}), a_pred = std_pred c env,
     a_not = (\<lambda>(must, may). ({..<state_count c} - may, {..<state_count c} - must)),
     a_modal = (\<lambda>k g P. case k of
        Diamond \<Rightarrow> (pre_ex c (must_matching c g) (fst P), pre_ex c (matching c g) (snd P))
      | Box \<Rightarrow> (pre_all c (matching c g) (fst P), pre_all c (must_matching c g) (snd P)))\<rparr>"

definition simple_clts :: "clts \<Rightarrow> bool" where
  "simple_clts c \<longleftrightarrow> (\<forall>ts \<in> set (c_outgoing c). list_all single_target ts)"

lemma pred_spec_std:
  assumes "no_oob c" "env_fits env c"
  shows "(bset (fst (pred_spec (ctx_new f c env opts) p)), bset (snd (pred_spec (ctx_new f c env opts) p)))
    = std_pred c env p"
proof -
  let ?x = "ctx_new f c env opts"
  note oob = ctx_ok_oob [OF ctx_new_ok [OF assms, of f opts]]
  have n: "env_state_count env = state_count c" using assms(2) unfolding env_fits_def by blast
  have len: "length b = state_count c" if "env_predicate env p = Some b" for b
    using assms(2) that unfolding env_fits_def by blast
  have dem: "\<exists>r. ev p = Ok r \<and> (\<forall>bits. r = Some bits \<longrightarrow> length bits = state_count c)"
    if "env_on_demand env = Some ev" for ev
    using assms(2) that unfolding env_fits_def by blast
  have ment: "list_ex (\<lambda>s. state_3valued_predicate c s p \<noteq> None) [0..<state_count c]
      \<longleftrightarrow> (\<exists>s < state_count c. state_3valued_predicate c s p \<noteq> None)"
    by (auto simp: list_ex_iff)
  have has: "has_3valued_predicates c" if "\<exists>s < state_count c. state_3valued_predicate c s p \<noteq> None"
    using that by (auto simp: has_3valued_predicates_def state_3valued_predicate_def split: option.splits)
  show ?thesis
  proof (cases "env_predicate env p")
    case (Some b)
    then show ?thesis using len [OF Some]
      by (simp add: pred_spec_def predicate_bits_def oob std_pred_def n Let_def)
  next
    case None
    show ?thesis
    proof (cases "\<exists>s < state_count c. state_3valued_predicate c s p \<noteq> None")
      case True
      then show ?thesis using None has
        by (simp add: pred_spec_def predicate_bits_def oob std_pred_def n est_new_def ment Let_def
            del: not_None_eq)
    next
      case False
      then have nm: "list_ex (\<lambda>s. state_3valued_predicate c s p \<noteq> None) [0..<state_count c] = False"
        "(\<exists>s < state_count c. state_3valued_predicate c s p \<noteq> None) = False"
        unfolding ment by blast+
      show ?thesis
      proof (cases "env_on_demand env")
        case None
        then show ?thesis using \<open>env_predicate env p = None\<close>
          by (simp add: pred_spec_def predicate_bits_def oob std_pred_def n est_new_def nm Let_def
              alloc_bitvec_def del: not_None_eq)
      next
        case (Some ev)
        obtain r where "ev p = Ok r" "\<forall>bits. r = Some bits \<longrightarrow> length bits = state_count c"
          using dem [OF Some] by blast
        then show ?thesis using Some \<open>env_predicate env p = None\<close>
          by (cases r) (simp_all add: pred_spec_def predicate_bits_def oob std_pred_def n est_new_def
              nm Let_def alloc_bitvec_def del: not_None_eq)
      qed
    qed
  qed
qed

lemma edge_ok_parts:
  assumes "wf_clts c" "s < state_count c" "t \<in> set (outgoing c s)"
  shows "edge_ok c g s (ctx_parts (ctx_new f c env opts) g) flt t
    \<longleftrightarrow> filter_allows flt t \<and> guard_matches c s t g"
  using edge_ok_partitions [OF wf_target [OF assms], of g s flt]
  by (auto simp: ctx_parts_def edge_ok_def parts_next_ok_def)

lemma parts_current:
  assumes "s < state_count c" "guard_matches c s t g"
  shows "parts_current_ok (ctx_parts (ctx_new f c env opts) g) s"
  using edge_ok_current [OF assms(1), of g FilterAll t] assms(2)
  by (auto simp: ctx_parts_def parts_current_ok_def edge_ok_def parts_next_ok_def)

lemma img_bits_plain:
  assumes wf: "wf_clts c" and simple: "simple_clts c" and g: "plain g"
    and n: "env_state_count env = state_count c"
  shows "bset (img_bits (ctx_new f c env opts) k g flt (set_bits (ctx_new f c env opts) S))
    = (let E = (\<lambda>s. {t \<in> matching c g s. filter_allows flt t})
       in case k of Diamond \<Rightarrow> pre_ex c E S | Box \<Rightarrow> pre_all c E S)"
proof -
  let ?x = "ctx_new f c env opts"
  let ?parts = "ctx_parts ?x g"
  have sg: "single_target t" if "s < state_count c" "t \<in> set (outgoing c s)" for s t
    using simple wf that by (auto simp: simple_clts_def wf_clts_def outgoing_def list_all_iff)
  have tgt: "t_target t < state_count c" if "s < state_count c" "t \<in> set (outgoing c s)" for s t
    by (rule wf_target [OF wf that])
  note eo = edge_ok_parts [OF wf, of _ _ g f env opts flt]
  have ex: "modal_exists c s g (set_bits ?x S) ?parts flt
      \<longleftrightarrow> (\<exists>t \<in> {t \<in> matching c g s. filter_allows flt t}. t_target t \<in> S)"
    if s: "s < state_count c" for s
    using g n s eo [OF s] tgt [OF s] parts_current [OF s] sg [OF s]
    by (auto simp: plain_def modal_exists_All single_target_cover matching_def split: if_splits)
  have all: "modal_forall c s g (set_bits ?x S) ?parts flt
      \<longleftrightarrow> (\<forall>t \<in> {t \<in> matching c g s. filter_allows flt t}. t_target t \<in> S)"
    if s: "s < state_count c" for s
    using g n s eo [OF s] tgt [OF s] parts_current [OF s] sg [OF s]
    by (auto simp: plain_def modal_forall_All_plain [OF wf s] single_target_cover matching_def
        split: if_splits)
  show ?thesis
    using g n ex all
    by (cases k) (auto simp: img_bits_def plain_def modal_bits_def pre_ex_def pre_all_def Let_def)
qed

lemma sem_alg2_kripke:
  assumes "wf_clts c" "simple_clts c" "no_oob c" "env_fits env c" "plain_formula t"
  shows "sem (alg2 (ctx_new f c env opts)) t \<rho> = sem (kripke c env) t \<rho>"
proof (rule sem_cong [where P = "\<lambda>k g. plain g"])
  have n: "env_state_count env = state_count c" using assms(4) unfolding env_fits_def by blast
  show "a_modal (alg2 (ctx_new f c env opts)) k g S = a_modal (kripke c env) k g S" if "plain g" for k g S
    using img_bits_plain [OF assms(1,2) that n, of f opts k FilterAll S]
    by (cases k) (simp_all add: alg2_def kripke_def Let_def)
  show "a_top (alg2 (ctx_new f c env opts)) = a_top (kripke c env)"
    "a_not (alg2 (ctx_new f c env opts)) = a_not (kripke c env)"
    by (simp_all add: alg2_def kripke_def n)
  show "a_pred (alg2 (ctx_new f c env opts)) = a_pred (kripke c env)"
    using pred_spec_std [OF assms(3,4), of f opts] by (auto simp: alg2_def kripke_def fun_eq_iff prod_eq_iff)
qed (fact assms)

lemma sem_alg3_kmts:
  assumes "wf_clts c" "simple_clts c" "no_oob c" "env_fits env c" "plain_formula t"
  shows "sem (alg3 (ctx_new f c env opts)) t \<rho> = sem (kmts c env) t \<rho>"
proof (rule sem_cong [where P = "\<lambda>k g. plain g"])
  have n: "env_state_count env = state_count c" using assms(4) unfolding env_fits_def by blast
  have mm: "must_matching c g = (\<lambda>s. {t \<in> matching c g s. filter_allows FilterMustOnly t})" for g
    by (simp add: must_matching_def fun_eq_iff)
  show "a_modal (alg3 (ctx_new f c env opts)) k g S = a_modal (kmts c env) k g S" if "plain g" for k g S
    using img_bits_plain [OF assms(1,2) that n, of f opts k FilterAll]
      img_bits_plain [OF assms(1,2) that n, of f opts k FilterMustOnly] that
    by (cases k) (simp_all add: alg3_def kmts_def Let_def mm player_guard_def plain_def must_filter_def
        may_filter_def)
  show "a_top (alg3 (ctx_new f c env opts)) = a_top (kmts c env)"
    "a_not (alg3 (ctx_new f c env opts)) = a_not (kmts c env)"
    by (simp_all add: alg3_def kmts_def n)
  show "a_pred (alg3 (ctx_new f c env opts)) = a_pred (kmts c env)"
    using pred_spec_std [OF assms(3,4), of f opts] by (simp add: alg3_def kmts_def fun_eq_iff)
qed (fact assms)

end
