(* ===== verification/Evaluation.thy ===== *)
theory Evaluation
  imports Eval_Props
begin

section \<open>Properties of the evaluator\<close>

text \<open>
  The properties of \<^verbatim>\<open>evaluator.rs\<close>'s entry points, on top of the correctness of the generic body:
  agreement with the textbook semantics, reuse of approximants, transparency of the options,
  consistency of three-valued results, and agreement of both evaluators on sharp models.
\<close>

subsection \<open>A small model\<close>

definition ex_tr :: "nat \<Rightarrow> transition_modality \<Rightarrow> transition" where
  "ex_tr q m = \<lparr>t_target = q, t_labels = [0], t_modality = m\<rparr>"

definition ex_labels :: symbol_store where
  "ex_labels = \<lparr>st_sets = [[''a'']], st_bitsets = [[True]], st_symbols = [''a''],
     st_symbol_index = [(''a'', 0)]\<rparr>"

definition ex_vars :: symbol_store where
  "ex_vars = \<lparr>st_sets = [[]], st_bitsets = [[]], st_symbols = [], st_symbol_index = []\<rparr>"

definition ex_model :: "transition list list \<Rightarrow> transition list list \<Rightarrow> clts" where
  \<comment> \<open>three states, one controllable label\<close>
  "ex_model outs ins =
     \<lparr>c_state_names = [''s0'', ''s1'', ''s2''], c_state_map = [(''s0'', 0), (''s1'', 1), (''s2'', 2)],
      c_initial_states = {0}, c_outgoing = outs, c_incoming = ins,
      c_labels = ex_labels, c_variables = ex_vars, c_state_variables = [0, 0, 0],
      c_state_valuations = [None, None, None], c_state_3valued = None, c_label_controllability = [],
      c_uncontrollable_alphabet = {}, c_controllable_alphabet = {0}, c_internal_alphabet = {},
      c_uncontrollable_groups = [[], [], []]\<rparr>"

definition ex_clts :: clts where
  \<comment> \<open>\<open>s0\<close> must go to \<open>s1\<close> and may go to \<open>s2\<close>; \<open>s1\<close> and \<open>s2\<close> loop\<close>
  "ex_clts = ex_model [[ex_tr 1 Sharp, ex_tr 2 MayOnly], [ex_tr 1 Sharp], [ex_tr 2 Sharp]]
     [[], [ex_tr 0 Sharp, ex_tr 1 Sharp], [ex_tr 0 MayOnly, ex_tr 2 Sharp]]"

definition ex_env :: environment where
  \<comment> \<open>\<open>p\<close> holds in \<open>s1\<close>\<close>
  "ex_env = \<lparr>env_state_count = 3, env_predicates = [(''p'', [False, True, False])],
     env_on_demand = None\<rparr>"

definition ex_reach :: formula where
  \<comment> \<open>\<open>mu X. (p || <> X)\<close>\<close>
  "ex_reach = \<lparr>f_root = 4, f_nodes = [NPredicate ''p'', NVariable 0, NModal Diamond guard_default 1,
     NOr 0 2, NMu 0 3], f_vars = [''X'']\<rparr>"

abbreviation ex_reach_tree :: fml where
  "ex_reach_tree \<equiv> FMu 0 (FOr (FPred ''p'') (FModal Diamond guard_default (FVar 0)))"

lemmas ex_defs = ex_clts_def ex_model_def ex_tr_def ex_labels_def ex_vars_def ex_env_def

lemma ex_count [simp]: "state_count (ex_model a b) = 3" "state_count ex_clts = 3"
  by (simp_all add: ex_defs state_count_def)

lemma ex_wf: "wf_clts ex_clts"
  by (simp add: wf_clts_def ex_defs state_count_def should_group_def lessThan_Suc numeral_eq_Suc)

lemma ex_simple: "simple_clts ex_clts"
  by (simp add: simple_clts_def ex_defs single_target_def)

lemma all_less_3: "(\<forall>s < 3. P s) \<longleftrightarrow> P 0 \<and> P 1 \<and> P (2::nat)"
  by (auto simp: numeral_eq_Suc less_Suc_eq)

lemma ex_no_oob: "no_oob ex_clts"
  by (simp add: no_oob_def all_less_3) (simp add: ex_defs state_valuation_def)

lemma ex_fits: "env_fits ex_env ex_clts"
  by (simp add: env_fits_def env_predicate_def) (simp add: ex_env_def)

lemma ex_reach_tree: "tree ex_reach = Some ex_reach_tree"
  by (simp add: ex_reach_def tree_def tree_of.simps numeral_eq_Suc)

lemma guard_default_plain [simp]: "plain guard_default"
  by (simp add: plain_def guard_default_def)

lemmas ex_facts = ex_wf ex_simple ex_no_oob ex_fits ex_reach_tree

subsection \<open>Total correctness\<close>

text \<open>
  C1: Total correctness of the two-valued evaluator. On a well-formed model without hyper edges of
  several targets and without out-of-bounds sink, for a positive formula whose modalities carry
  label and variable guards but no control mode and no step bound, \<open>evaluate_with_options\<close>
  returns for every fuel from \<open>need n t\<close> on, for all settings of memoisation, partitions and
  convergence callback, and the returned bits are the states of the textbook fixpoint semantics
  (\<open>lfp\<close> / \<open>gfp\<close> over existential and universal predecessors of guard-matching transitions).
\<close>

theorem evaluate_is_kripke:
  assumes "wf_clts c" "simple_clts c" "no_oob c" "env_fits env c"
    and "tree f = Some t" "positive t" "plain_formula t" "no_prior opts t"
    and "need (state_count c) t \<le> k"
  shows "\<exists>bits. evaluate_with_options k f c env opts = Ok bits \<and> length bits = state_count c
    \<and> bset bits = sem (kripke c env) t (\<lambda>_. {})"
  using evaluate_seeded [OF assms(3-6) bd_seeds_ok assms(9), of opts] assms(8)
    sem_alg2_kripke [OF assms(1-4,7), of f opts] by simp

theorem evaluate_is_kripke_witness:
  "\<exists>bits. evaluate_with_options 8 ex_reach ex_clts ex_env options_default = Ok bits
    \<and> bset bits = sem (kripke ex_clts ex_env) ex_reach_tree (\<lambda>_. {})"
  using evaluate_is_kripke [OF ex_facts, of options_default 8]
  by (auto simp: no_prior_def options_default_def)

text \<open>
  C2: Total correctness of the three-valued evaluator. Under the same conditions
  \<open>evaluate_tri_with_options\<close> returns, and its must and may bits are the pair computed by the
  semantics of Kripke modal transition systems, fixpoints taken in the product order: a diamond
  is definitely true through a must transition and possibly true through any transition, a box
  the other way round, and negation exchanges must and may.
\<close>

theorem evaluate_tri_is_kmts:
  assumes "wf_clts c" "simple_clts c" "no_oob c" "env_fits env c"
    and "tree f = Some t" "positive t" "plain_formula t" "no_prior opts t"
    and "need (2 * state_count c) t \<le> k"
  shows "\<exists>v. evaluate_tri_with_options k f c env opts = Ok v
    \<and> length (must_true v) = state_count c \<and> length (may_true v) = state_count c
    \<and> (bset (must_true v), bset (may_true v)) = sem (kmts c env) t (\<lambda>_. bot)"
  using evaluate_tri_seeded [OF assms(3-6) kd_seeds_ok assms(9), of opts] assms(8)
    sem_alg3_kmts [OF assms(1-4,7), of f opts] by simp

theorem evaluate_tri_is_kmts_witness:
  "\<exists>v. evaluate_tri_with_options 11 ex_reach ex_clts ex_env options_default = Ok v
    \<and> (bset (must_true v), bset (may_true v)) = sem (kmts ex_clts ex_env) ex_reach_tree (\<lambda>_. bot)"
  using evaluate_tri_is_kmts [OF ex_facts, of options_default 11]
  by (auto simp: no_prior_def options_default_def)

subsection \<open>Reuse of approximants\<close>

lemma pred_spec_options: "pred_spec (ctx_new f c env o1) = pred_spec (ctx_new f c env o2)"
  unfolding pred_spec_def predicate_bits_def alloc_bitvec_def ctx_new_def Let_def ctx.select_convs
  by (rule refl)

lemma alg2_options:
  assumes "o_use_partitions o1 = o_use_partitions o2"
  shows "alg2 (ctx_new f c env o1) = alg2 (ctx_new f c env o2)"
proof -
  have "ctx_parts (ctx_new f c env o1) g = ctx_parts (ctx_new f c env o2) g" for g
    using assms by (simp add: ctx_parts_def)
  then have "img_bits (ctx_new f c env o1) k g flt T = img_bits (ctx_new f c env o2) k g flt T" for k g flt T
    by (cases k) (simp_all add: img_bits_def eval_modal_bounded_def modal_bits_def split: option.splits)
  then show ?thesis
    by (simp add: alg2_def pred_spec_options [of f c env o1 o2] set_bits_def)
qed

text \<open>
  C10: Approximant reuse is sound. If the root of the formula is a fixpoint and the options carry
  a prior approximant for its variable only, a least fixpoint seeded with any set below it and a
  greatest fixpoint seeded with any set above it converge to the same value as without seed,
  within the same fuel. The seed need not be an approximant of an iteration.
\<close>

theorem evaluate_seed_reuse:
  assumes "no_oob c" "env_fits env c" "tree f = Some t" "positive t" "t = FMu v b \<or> t = FNu v b"
    and "o_prior_approximants opts = Some [(v, pa)]" "v \<notin> fst ` set (order_tree b)"
    and "length (pa_must_true pa) = state_count c"
    and "if t = FMu v b then bset (pa_must_true pa) \<subseteq> sem (alg2 (ctx_new f c env opts)) t (\<lambda>_. {})
         else sem (alg2 (ctx_new f c env opts)) t (\<lambda>_. {}) \<subseteq> bset (pa_must_true pa)"
    and "need (state_count c) t \<le> k"
  shows "evaluate_with_options k f c env opts
    = evaluate_with_options k f c env (opts\<lparr>o_prior_approximants := None\<rparr>)"
proof -
  let ?x = "ctx_new f c env opts" and ?o = "opts\<lparr>o_prior_approximants := None\<rparr>"
  have n: "env_state_count env = state_count c" using assms(2) unfolding env_fits_def by blast
  have seed: "seed_of bool_dom ?x v kd = (if pa_state_count pa = state_count c then Some (pa_must_true pa) else None)" for kd
    using assms(6) n by (simp add: seed_of_def bool_dom_def)
  have "no_prior opts b" using assms(6,7) by (auto simp: no_prior_def image_iff)
  then have "bd.seeds_ok ?x b \<rho>" for \<rho> by (intro bd_seeds_ok) simp
  then have "bd.seeds_ok ?x t (\<lambda>_. {})"
    using assms(5,8,9) n by (auto simp: seed split: if_splits)
  then obtain bits where 1: "evaluate_with_options k f c env opts = Ok bits"
    "length bits = state_count c" "bset bits = sem (alg2 ?x) t (\<lambda>_. {})"
    using evaluate_seeded [OF assms(1-4) _ assms(10)] by blast
  have "no_prior ?o t" by (simp add: no_prior_def)
  then obtain bits' where 2: "evaluate_with_options k f c env ?o = Ok bits'"
    "length bits' = state_count c" "bset bits' = sem (alg2 (ctx_new f c env ?o)) t (\<lambda>_. {})"
    using evaluate_seeded [OF assms(1-4) bd_seeds_ok assms(10), of ?o] by auto
  have "alg2 (ctx_new f c env ?o) = alg2 ?x" by (rule alg2_options) simp
  then show ?thesis using 1 2 by (simp add: bv_eq_iff)
qed

definition ex_seed_options :: evaluation_options where
  "ex_seed_options = options_default\<lparr>o_prior_approximants :=
     Some [(0, \<lparr>pa_state_count = 3, pa_must_true = [False, True, False],
                 pa_may_true = [False, True, False]\<rparr>)]\<rparr>"

theorem evaluate_seed_reuse_witness:
  "evaluate_with_options 8 ex_reach ex_clts ex_env ex_seed_options
    = evaluate_with_options 8 ex_reach ex_clts ex_env (ex_seed_options\<lparr>o_prior_approximants := None\<rparr>)"
proof -
  let ?A = "alg2 (ctx_new ex_reach ex_clts ex_env ex_seed_options)"
  have "a_pred ?A ''p'' \<subseteq> sem ?A ex_reach_tree (\<lambda>_. {})"
    using lfp_unfold [OF sem_mono_var [OF alg2_mono, of 0 "FOr (FPred ''p'') (FModal Diamond guard_default (FVar 0))"]]
    by auto
  moreover have "bset [False, True, False] = a_pred ?A ''p''"
    using pred_spec_std [OF ex_no_oob ex_fits, of ex_reach ex_seed_options "''p''"]
    by (simp add: alg2_def std_pred_def env_predicate_def ex_env_def)
  ultimately show ?thesis
    using evaluate_seed_reuse [OF ex_no_oob ex_fits ex_reach_tree, of 0
        "FOr (FPred ''p'') (FModal Diamond guard_default (FVar 0))" ex_seed_options
        "\<lparr>pa_state_count = 3, pa_must_true = [False, True, False], pa_may_true = [False, True, False]\<rparr>" 8]
    by (simp add: ex_seed_options_def)
qed

subsection \<open>Transparency of the options\<close>

lemma groups_cong:
  assumes "\<And>t. t \<in> set ts \<Longrightarrow> edge_ok c g s p flt t = edge_ok c g s q flt t"
  shows "group_transitions_by_uncontrollable_labels c ts g s p flt
    = group_transitions_by_uncontrollable_labels c ts g s q flt"
proof -
  have "(i < length ts \<and> edge_ok c g s p flt (ts ! i)) = (i < length ts \<and> edge_ok c g s q flt (ts ! i))" for i
    using assms [of "ts ! i"] by auto
  then show ?thesis by (simp add: group_transitions_by_uncontrollable_labels_def)
qed

lemma label_set_part_cong:
  assumes eq: "\<And>t. t \<in> set (outgoing c s) \<Longrightarrow> edge_ok c g s p flt t = edge_ok c g s q flt t"
  shows "label_set_part c s g sat p flt = label_set_part c s g sat q flt"
proof -
  have "filter (\<lambda>(t, i). edge_ok c g s p flt t) (zip (outgoing c s) [0..<length (outgoing c s)])
      = filter (\<lambda>(t, i). edge_ok c g s q flt t) (zip (outgoing c s) [0..<length (outgoing c s)])"
    using eq by (intro filter_cong) (auto dest: set_zip_leftD)
  moreover have "group_transitions_by_uncontrollable_labels c (outgoing c s) g s p flt
      = group_transitions_by_uncontrollable_labels c (outgoing c s) g s q flt"
    by (rule groups_cong) (rule eq)
  ultimately show ?thesis by (simp only: label_set_part_def)
qed

lemma no_edges_no_diamond:
  assumes "g_control g = CControllable"
    and none: "\<And>t. t \<in> set (outgoing c s) \<Longrightarrow> \<not> edge_ok c g s p flt t"
  shows "\<not> modal_exists c s g T p flt"
proof -
  have "group_transitions_by_uncontrollable_labels c (outgoing c s) g s p flt = []"
    using none by (auto simp: group_transitions_by_uncontrollable_labels_def filter_empty_conv)
  moreover have "filter (\<lambda>(t, i). edge_ok c g s p flt t)
      (zip (outgoing c s) [0..<length (outgoing c s)]) = []"
    using none by (auto simp: filter_empty_conv dest: set_zip_leftD)
  ultimately show ?thesis
    using assms(1) by (auto simp: modal_exists_player label_set_part_def any_group_satisfies_def)
qed

lemma modal_exists_partitions:
  assumes wf: "wf_clts c" and s: "s < state_count c" and g: "g_control g \<noteq> CEnvironment"
  shows "modal_exists c s g T (Some (guard_partitions_new g c)) flt = modal_exists c s g T None flt"
proof -
  let ?p = "Some (guard_partitions_new g c)"
  have eq: "edge_ok c g s ?p flt t = edge_ok c g s None flt t" if "t \<in> set (outgoing c s)" for t
    by (rule edge_ok_partitions [OF wf_target [OF wf s that]])
  show ?thesis
  proof (cases "parts_current_ok ?p s")
    case True
    have none: "parts_current_ok None s" by (simp add: parts_current_ok_def)
    show ?thesis
    proof (cases "g_control g = CAll")
      case CAll: True
      then show ?thesis using True none eq by (auto simp: modal_exists_All)
    next
      case False
      then show ?thesis
        using True none g groups_cong [of "outgoing c s", OF eq] label_set_part_cong [OF eq]
        by (simp add: modal_exists_player)
    qed
  next
    case False
    then have "\<not> edge_ok c g s None flt t" for t using edge_ok_current [OF s] by blast
    then have "\<not> modal_exists c s g T None flt"
      using g no_edges_no_diamond [of g c s None flt T]
      by (cases "g_control g") (auto simp: modal_exists_All)
    then show ?thesis using False by (simp add: modal_exists_def)
  qed
qed

lemma modal_forall_partitions:
  assumes wf: "wf_clts c" and s: "s < state_count c"
  shows "modal_forall c s g T (Some (guard_partitions_new g c)) flt = modal_forall c s g T None flt"
proof -
  let ?p = "Some (guard_partitions_new g c)"
  have eq: "edge_ok c g s ?p flt t = edge_ok c g s None flt t" if "t \<in> set (outgoing c s)" for t
    by (rule edge_ok_partitions [OF wf_target [OF wf s that]])
  have cur: "parts_current_ok None s" by (simp add: parts_current_ok_def)
  have no: "\<not> parts_current_ok ?p s \<Longrightarrow> \<not> edge_ok c g s None flt t" for t
    using edge_ok_current [OF s] by blast
  show ?thesis
  proof (cases "g_control g")
    case CAll
    then show ?thesis using eq cur no by (auto simp: modal_forall_All_plain [OF wf s])
  next
    case CControllable
    then show ?thesis
      using eq cur no unfolding modal_forall_Controllable_plain [OF wf s CControllable] by blast
  next
    case CEnvironment
    then show ?thesis using eq cur no by (auto simp: modal_forall_Environment)
  qed
qed

lemma alg2_transparent:
  assumes wf: "wf_clts c" and n: "env_state_count env = state_count c"
    and t: "all_modalities (\<lambda>k g. k = Diamond \<longrightarrow> g_control g \<noteq> CEnvironment) t"
  shows "sem (alg2 (ctx_new f c env o1)) t \<rho> = sem (alg2 (ctx_new f c env o2)) t \<rho>"
proof (rule sem_cong [where P = "\<lambda>k g. k = Diamond \<longrightarrow> g_control g \<noteq> CEnvironment"])
  have img: "img_bits (ctx_new f c env o1) k g FilterAll T = img_bits (ctx_new f c env o2) k g FilterAll T"
    if "k = Diamond \<longrightarrow> g_control g \<noteq> CEnvironment" for k g T
    using that n modal_exists_partitions [OF wf] modal_forall_partitions [OF wf]
    by (cases k) (auto simp: img_bits_def modal_bits_def eval_modal_bounded_def ctx_parts_def bv_of_def
        split: option.splits)
  show "a_modal (alg2 (ctx_new f c env o1)) k g y = a_modal (alg2 (ctx_new f c env o2)) k g y"
    if "k = Diamond \<longrightarrow> g_control g \<noteq> CEnvironment" for k g y
    using img [OF that] by (simp add: alg2_def set_bits_def)
qed (use t in \<open>simp_all add: alg2_def pred_spec_options [of f c env o1 o2]\<close>)

text \<open>
  C11: The evaluation options do not change results. For a positive formula without an
  environment diamond, on a well-formed model, memoisation, guard partitions and the convergence
  callback can be switched freely: every choice returns the same bits, including for bounded and
  controllable modalities and hyper edges. The memo table and the guard cache (keyed by a
  normalised guard signature) are therefore transparent.
\<close>

theorem evaluation_options_transparent:
  assumes "wf_clts c" "no_oob c" "env_fits env c" "tree f = Some t" "positive t"
    and "all_modalities (\<lambda>k g. k = Diamond \<longrightarrow> g_control g \<noteq> CEnvironment) t"
    and "no_prior o1 t" "no_prior o2 t" "need (state_count c) t \<le> k"
  shows "\<exists>bits. evaluate_with_options k f c env o1 = Ok bits
    \<and> evaluate_with_options k f c env o2 = Ok bits"
proof -
  have n: "env_state_count env = state_count c" using assms(3) unfolding env_fits_def by blast
  obtain b1 where 1: "evaluate_with_options k f c env o1 = Ok b1" "length b1 = state_count c"
    "bset b1 = sem (alg2 (ctx_new f c env o1)) t (\<lambda>_. {})"
    using evaluate_seeded [OF assms(2-5) bd_seeds_ok assms(9), of o1] assms(7) by auto
  obtain b2 where 2: "evaluate_with_options k f c env o2 = Ok b2" "length b2 = state_count c"
    "bset b2 = sem (alg2 (ctx_new f c env o2)) t (\<lambda>_. {})"
    using evaluate_seeded [OF assms(2-5) bd_seeds_ok assms(9), of o2] assms(8) by auto
  have "b1 = b2"
    using 1 2 alg2_transparent [OF assms(1) n assms(6), of f o1 "\<lambda>_. {}" o2] by (simp add: bv_eq_iff)
  then show ?thesis using 1 2 by blast
qed

definition ex_plain_options :: evaluation_options where
  "ex_plain_options = \<lparr>o_use_memoisation = False, o_use_partitions = False,
     o_prior_approximants = None, o_on_fixpoint_convergence = True\<rparr>"

theorem evaluation_options_transparent_witness:
  "\<exists>bits. evaluate_with_options 8 ex_reach ex_clts ex_env options_default = Ok bits
    \<and> evaluate_with_options 8 ex_reach ex_clts ex_env ex_plain_options = Ok bits"
  using evaluation_options_transparent [OF ex_wf ex_no_oob ex_fits ex_reach_tree,
      of options_default ex_plain_options 8]
  by (auto simp: no_prior_def options_default_def ex_plain_options_def guard_default_def)

subsection \<open>Three-valued results are consistent\<close>

definition pair_ok :: "nat set \<times> nat set \<Rightarrow> bool" where
  "pair_ok p \<longleftrightarrow> fst p \<subseteq> snd p"

lemma pair_ok_Sup: "(\<And>S. S \<in> M \<Longrightarrow> pair_ok S) \<Longrightarrow> pair_ok (Sup M)"
  unfolding pair_ok_def Sup_prod_def by force

lemma pair_ok_Inf: "(\<And>S. S \<in> M \<Longrightarrow> pair_ok S) \<Longrightarrow> pair_ok (Inf M)"
  unfolding pair_ok_def Inf_prod_def by force

lemma lfp_pair_ok: "mono F \<Longrightarrow> (\<And>p. pair_ok p \<Longrightarrow> pair_ok (F p)) \<Longrightarrow> pair_ok (lfp F)"
  by (erule lfp_ordinal_induct) (blast intro: pair_ok_Sup)+

lemma gfp_pair_ok: "mono F \<Longrightarrow> (\<And>p. pair_ok p \<Longrightarrow> pair_ok (F p)) \<Longrightarrow> pair_ok (gfp F)"
  by (erule gfp_ordinal_induct) (blast intro: pair_ok_Inf)+

lemma std_pred_ok: "pair_ok (std_pred c env p)"
  by (auto simp: pair_ok_def std_pred_def split: option.splits res.splits)

lemma box_cover_diamond: "transition_target_in_set_box t T \<Longrightarrow> transition_target_in_set_diamond t T"
  by (auto simp: transition_target_in_set_box_def transition_target_in_set_diamond_def list_ex_iff
      list_all_iff split: transition_modality.splits if_splits)
    (metis gr_implies_not0 list.set_intros(1) list.size(3) neq_Nil_conv)

lemma edge_ok_must_all: "edge_ok c g s parts FilterMustOnly t \<Longrightarrow> edge_ok c g s parts FilterAll t"
  by (simp add: edge_ok_def)

lemma alg3_modal_ok:
  assumes wf: "wf_clts c" and n: "env_state_count env = state_count c"
    and g: "g_max_steps g = None" and P: "pair_ok P"
  shows "pair_ok (a_modal (alg3 (ctx_new f c env opts)) k g P)"
proof (cases "player_guard g")
  case True
  then show ?thesis by (auto simp: pair_ok_def alg3_def)
next
  case False
  let ?x = "ctx_new f c env opts"
  let ?a = "set_bits ?x (fst P)" and ?b = "set_bits ?x (snd P)"
  have ab: "bset ?a \<subseteq> bset ?b" using P by (auto simp: pair_ok_def)
  have all: "g_control g = CAll" using False g by (cases "g_control g") (auto simp: player_guard_def)
  have "modal_exists c s g ?b parts FilterAll" if "modal_exists c s g ?a parts FilterMustOnly" for s parts
    using that diamond_cover_mono [OF ab] box_cover_diamond edge_ok_must_all
    unfolding modal_exists_All [OF all] by (simp only: if_True if_False refl modality_filter.distinct) blast
  moreover have "modal_forall c s g ?b parts FilterMustOnly"
    if "modal_forall c s g ?a parts FilterAll" "s < state_count c" for s parts
    using that(1) ab box_cover_mono [OF ab] edge_ok_must_all
    unfolding modal_forall_All_plain [OF wf that(2) all] by (meson subsetD)
  ultimately show ?thesis
    using False g n
    by (cases k) (auto simp: pair_ok_def alg3_def img_bits_def modal_bits_def must_filter_def may_filter_def)
qed

lemma sem_alg3_ok:
  assumes x: "wf_clts c" "no_oob c" "env_fits env c"
  shows "positive t \<Longrightarrow> all_modalities (\<lambda>k g. g_max_steps g = None) t \<Longrightarrow> (\<And>v. pair_ok (\<rho> v)) \<Longrightarrow>
    pair_ok (sem (alg3 (ctx_new f c env opts)) t \<rho>)"
proof (induction t arbitrary: \<rho>)
  case (FPred p)
  then show ?case using std_pred_ok [of c env p] pred_spec_std [OF x(2,3), of f opts p]
    by (simp add: alg3_def)
next
  case (FNot t)
  then show ?case by (auto simp: alg3_def pair_ok_def case_prod_beta)
next
  case (FModal k g t)
  have n: "env_state_count env = state_count c" using x(3) unfolding env_fits_def by blast
  show ?case using FModal alg3_modal_ok [OF x(1) n] by simp
next
  case (FMu v t)
  then show ?case using sem_mono_var [OF alg3_mono] by (auto intro!: lfp_pair_ok FMu.IH)
next
  case (FNu v t)
  let ?A = "alg3 (ctx_new f c env opts)"
  have top: "pair_ok (inf (a_top ?A) p)" if "pair_ok p" for p
    using that by (auto simp: pair_ok_def alg3_def)
  have "pair_ok (gfp (\<lambda>X. inf (a_top ?A) (sem ?A t (\<rho>(v := X)))))"
  proof (rule gfp_pair_ok)
    show "mono (\<lambda>X. inf (a_top ?A) (sem ?A t (\<rho>(v := X))))"
      by (rule sem_mono_var_inf [OF alg3_mono]) (use FNu.prems in simp)
    show "pair_ok (inf (a_top ?A) (sem ?A t (\<rho>(v := p))))" if "pair_ok p" for p
      by (rule top, rule FNu.IH) (use FNu.prems that in simp_all)
  qed
  then show ?case by simp
qed (auto simp: pair_ok_def alg3_def)

text \<open>
  C8: Consistency of three-valued verdicts. On a well-formed model without out-of-bounds sink,
  for every positive formula without step bounds (any control mode, hyper edges allowed), the
  result of \<open>evaluate_tri_with_options\<close> satisfies the invariant the module documents: must is
  within may, so each state has exactly one of the verdicts true, false, unknown.
\<close>

theorem evaluate_tri_consistent:
  assumes "wf_clts c" "no_oob c" "env_fits env c" "tree f = Some t" "positive t"
    and "all_modalities (\<lambda>k g. g_max_steps g = None) t" "no_prior opts t"
    and "need (2 * state_count c) t \<le> k"
  shows "\<exists>v. evaluate_tri_with_options k f c env opts = Ok v \<and> wf_tritset (state_count c) v"
proof -
  obtain v where "evaluate_tri_with_options k f c env opts = Ok v"
    "length (must_true v) = state_count c" "length (may_true v) = state_count c"
    and eq: "(bset (must_true v), bset (may_true v)) = sem (alg3 (ctx_new f c env opts)) t (\<lambda>_. bot)"
    using evaluate_tri_seeded [OF assms(2-5) kd_seeds_ok assms(8), of opts] assms(7) by auto
  moreover have "pair_ok (sem (alg3 (ctx_new f c env opts)) t (\<lambda>_. bot))"
    by (rule sem_alg3_ok [OF assms(1-3,5,6)]) (simp add: pair_ok_def)
  then have "bset (must_true v) \<subseteq> bset (may_true v)" by (simp add: eq [symmetric] pair_ok_def)
  ultimately show ?thesis by (auto simp: wf_tritset_def)
qed

theorem evaluate_tri_consistent_witness:
  "\<exists>v. evaluate_tri_with_options 11 ex_reach ex_clts ex_env options_default = Ok v \<and> wf_tritset 3 v"
  using evaluate_tri_consistent [OF ex_wf ex_no_oob ex_fits ex_reach_tree, of options_default 11]
  by (simp add: no_prior_def options_default_def guard_default_def)

subsection \<open>Sharp models\<close>

definition sharp_clts :: "clts \<Rightarrow> bool" where
  "sharp_clts c \<longleftrightarrow> (\<forall>ts \<in> set (c_outgoing c). \<forall>t \<in> set ts. t_modality t = Sharp)"

definition two_valued :: "clts \<Rightarrow> bool" where
  "two_valued c \<longleftrightarrow> (\<forall>s p. state_3valued_predicate c s p \<noteq> Some KleeneBot)"

lemma diag_Sup:
  "(\<And>x y. (x, y) \<in> M \<Longrightarrow> (x, x) = y) \<Longrightarrow> (Sup (fst ` M), Sup (fst ` M)) = Sup (snd ` M)"
  for M :: "('a::complete_lattice \<times> 'a \<times> 'a) set"
proof -
  assume eq: "\<And>x y. (x, y) \<in> M \<Longrightarrow> (x, x) = y"
  have "fst ` snd ` M = fst ` M" "snd ` snd ` M = fst ` M"
    using eq by (force simp: image_iff)+
  then show ?thesis by (simp add: Sup_prod_def)
qed

lemma diag_Inf:
  "(\<And>x y. (x, y) \<in> M \<Longrightarrow> (x, x) = y) \<Longrightarrow> (Inf (fst ` M), Inf (fst ` M)) = Inf (snd ` M)"
  for M :: "('a::complete_lattice \<times> 'a \<times> 'a) set"
proof -
  assume eq: "\<And>x y. (x, y) \<in> M \<Longrightarrow> (x, x) = y"
  have "fst ` snd ` M = fst ` M" "snd ` snd ` M = fst ` M"
    using eq by (force simp: image_iff)+
  then show ?thesis by (simp add: Inf_prod_def)
qed

lemma kripke_mono: "algebra_mono (kripke c env)"
  by (auto simp: algebra_mono_def kripke_def pre_ex_def pre_all_def split: modal_kind.splits)

lemma kmts_mono: "algebra_mono (kmts c env)"
  by (auto simp: algebra_mono_def kmts_def pre_ex_def pre_all_def less_eq_prod_def case_prod_beta
      split: modal_kind.splits)

lemma sem_sharp:
  assumes wf: "wf_clts c" and sharp: "sharp_clts c" and two: "two_valued c"
  shows "positive t \<Longrightarrow> sem (kmts c env) t (\<lambda>v. (\<rho> v, \<rho> v)) = (sem (kripke c env) t \<rho>, sem (kripke c env) t \<rho>)"
proof -
  let ?d = "\<lambda>X :: nat set. (X, X)"
  have must: "must_matching c g s = matching c g s" if "s < state_count c" for g s
    using sharp wf that
    by (fastforce simp: must_matching_def matching_def sharp_clts_def wf_clts_def outgoing_def)
  have pre: "pre_ex c (must_matching c g) S = pre_ex c (matching c g) S"
    "pre_all c (must_matching c g) S = pre_all c (matching c g) S" for g S
    using must by (auto simp: pre_ex_def pre_all_def)
  have pred: "std_pred c env p = ?d (fst (std_pred c env p))" for p
    using two by (auto simp: std_pred_def two_valued_def split: option.splits res.splits)
  have upd: "(\<lambda>v. ?d (\<rho> v))(w := ?d X) = (\<lambda>v. ?d ((\<rho>(w := X)) v))" for \<rho> w X by auto
  show "positive t \<Longrightarrow> sem (kmts c env) t (\<lambda>v. ?d (\<rho> v)) = ?d (sem (kripke c env) t \<rho>)"
  proof (induction t arbitrary: \<rho>)
    case (FPred p)
    show ?case using pred [of p] by (simp add: kmts_def kripke_def)
  next
    case (FModal k g t)
    then show ?case by (cases k) (simp_all add: kmts_def kripke_def pre)
  next
    case (FMu w t)
    let ?F = "\<lambda>X. sem (kripke c env) t (\<rho>(w := X))" and ?G = "\<lambda>P. sem (kmts c env) t ((\<lambda>v. ?d (\<rho> v))(w := P))"
    have "?d (lfp ?F) = lfp ?G"
    proof (rule lfp_related [of ?F ?G "\<lambda>X P. ?d X = P"])
      show "mono ?F" "mono ?G" using FMu.prems sem_mono_var [OF kripke_mono] sem_mono_var [OF kmts_mono] by simp_all
      show "?d (?F X) = ?G P" if "?d X = P" for X P
        unfolding that [symmetric] upd using FMu.IH [of "\<rho>(w := X)"] FMu.prems
        by (simp del: fun_upd_apply)
    qed (rule diag_Sup)
    then show ?case by simp
  next
    case (FNu w t)
    let ?F = "\<lambda>X. inf (a_top (kripke c env)) (sem (kripke c env) t (\<rho>(w := X)))"
      and ?G = "\<lambda>P. inf (a_top (kmts c env)) (sem (kmts c env) t ((\<lambda>v. ?d (\<rho> v))(w := P)))"
    have top: "a_top (kmts c env) = ?d (a_top (kripke c env))" by (simp add: kmts_def kripke_def)
    have "?d (gfp ?F) = gfp ?G"
    proof (rule gfp_related [of ?F ?G "\<lambda>X P. ?d X = P"])
      show "mono ?F" "mono ?G" using FNu.prems sem_mono_var_inf [OF kripke_mono] sem_mono_var_inf [OF kmts_mono] by simp_all
      show "?d (?F X) = ?G P" if "?d X = P" for X P
        unfolding that [symmetric] upd using FNu.IH [of "\<rho>(w := X)"] FNu.prems
        by (simp add: top inf_prod_def del: fun_upd_apply)
    qed (rule diag_Inf)
    then show ?case by simp
  qed (auto simp: kmts_def kripke_def inf_prod_def sup_prod_def bot_prod_def)
qed


definition ex_sharp :: clts where
  "ex_sharp = ex_model [[ex_tr 1 Sharp, ex_tr 2 Sharp], [ex_tr 1 Sharp], [ex_tr 2 Sharp]]
     [[], [ex_tr 0 Sharp, ex_tr 1 Sharp], [ex_tr 0 Sharp, ex_tr 2 Sharp]]"

lemmas ex_sharp_defs = ex_sharp_def ex_model_def ex_tr_def ex_labels_def ex_vars_def ex_env_def

lemma ex_sharp_facts: "wf_clts ex_sharp" "simple_clts ex_sharp" "no_oob ex_sharp" "env_fits ex_env ex_sharp"
  "sharp_clts ex_sharp" "two_valued ex_sharp" "state_count ex_sharp = 3"
proof -
  show n: "state_count ex_sharp = 3" by (simp add: ex_sharp_def)
  show "wf_clts ex_sharp"
    by (simp add: wf_clts_def ex_sharp_defs state_count_def should_group_def lessThan_Suc numeral_eq_Suc)
  show "simple_clts ex_sharp" by (simp add: simple_clts_def ex_sharp_defs single_target_def)
  show "no_oob ex_sharp"
    by (simp add: no_oob_def n all_less_3) (simp add: ex_sharp_defs state_valuation_def)
  show "env_fits ex_env ex_sharp" by (simp add: env_fits_def env_predicate_def n) (simp add: ex_env_def)
  show "sharp_clts ex_sharp" by (simp add: sharp_clts_def ex_sharp_defs)
  show "two_valued ex_sharp" by (simp add: two_valued_def state_3valued_predicate_def ex_sharp_defs)
qed


end
