(* ===== verification/Preservation.thy ===== *)
theory Preservation
  imports Evaluation
begin

section \<open>Verdicts carry over along refinements\<close>

text \<open>
  The contract three-valued checking rests on (\<^verbatim>\<open>evaluate_tri\<close>, \<^verbatim>\<open>verdict.rs\<close>): the abstract model
  over-approximates the behaviour of the concrete one by its may transitions and
  under-approximates it by its must transitions; then a definite verdict computed on the abstract
  model is the verdict of the concrete model. \<open>refines\<close> is the refinement preorder of Kripke modal
  transition systems on CLTS models, with the labels and the variables modal guards can observe.
\<close>

definition same_labels :: "clts \<Rightarrow> transition \<Rightarrow> clts \<Rightarrow> transition \<Rightarrow> bool" where
  "same_labels c e a e' \<longleftrightarrow>
     (\<forall>w. list_ex (\<lambda>l. label_has c l w) (t_labels e) = list_ex (\<lambda>l. label_has a l w) (t_labels e'))"

definition pair_related ::
  "(nat \<times> nat) set \<Rightarrow> nat set \<times> nat set \<Rightarrow> nat set \<times> nat set \<Rightarrow> bool" where
  \<comment> \<open>what is definite of the abstract state is so of the concrete one\<close>
  "pair_related R P P' \<longleftrightarrow>
     (\<forall>s s'. (s, s') \<in> R \<longrightarrow> (s' \<in> fst P' \<longrightarrow> s \<in> fst P) \<and> (s \<in> snd P \<longrightarrow> s' \<in> snd P'))"

definition refines ::
  "(nat \<times> nat) set \<Rightarrow> clts \<Rightarrow> environment \<Rightarrow> clts \<Rightarrow> environment \<Rightarrow> bool" where
  "refines R c ec a ea \<longleftrightarrow>
     (\<forall>p. pair_related R (std_pred c ec p) (std_pred a ea p))
     \<and> (\<forall>s s'. (s, s') \<in> R \<longrightarrow> s < state_count c \<and> s' < state_count a
          \<and> (\<forall>v. state_has_var c s v = state_has_var a s' v)
          \<and> (\<forall>e \<in> set (outgoing c s). \<exists>e' \<in> set (outgoing a s').
                same_labels c e a e' \<and> (t_target e, t_target e') \<in> R)
          \<and> (\<forall>e' \<in> set (outgoing a s'). t_modality e' \<noteq> MayOnly \<longrightarrow>
                (\<exists>e \<in> set (outgoing c s). t_modality e \<noteq> MayOnly
                   \<and> same_labels c e a e' \<and> (t_target e, t_target e') \<in> R)))"

lemma refines_guard:
  assumes "refines R c ec a ea" "(s, s') \<in> R" "same_labels c e a e'" "(t_target e, t_target e') \<in> R"
  shows "guard_matches c s e g = guard_matches a s' e' g"
proof -
  have "vars_match c q vg = vars_match a q' vg" if "(q, q') \<in> R" for q q' vg
    using assms(1) that by (fastforce simp: refines_def vars_match_def list_all_iff list_ex_iff)
  then show ?thesis
    using assms(2-4) by (simp add: guard_matches_def guard_matches_labels_and_vars_def same_labels_def)
qed

lemma refines_may:
  assumes "refines R c ec a ea" "(s, s') \<in> R" "e \<in> matching c g s"
  shows "\<exists>e' \<in> matching a g s'. (t_target e, t_target e') \<in> R"
proof -
  obtain e' where "e' \<in> set (outgoing a s')" "same_labels c e a e'" "(t_target e, t_target e') \<in> R"
    using assms unfolding refines_def matching_def by fast
  then show ?thesis using assms(3) refines_guard [OF assms(1,2)] by (auto simp: matching_def)
qed

lemma refines_must:
  assumes "refines R c ec a ea" "(s, s') \<in> R" "e' \<in> must_matching a g s'"
  shows "\<exists>e \<in> must_matching c g s. (t_target e, t_target e') \<in> R"
proof -
  obtain e where "e \<in> set (outgoing c s)" "t_modality e \<noteq> MayOnly" "same_labels c e a e'"
    "(t_target e, t_target e') \<in> R"
    using assms unfolding refines_def matching_def must_matching_def by fast
  then show ?thesis using assms(3) refines_guard [OF assms(1,2)]
    by (auto simp: matching_def must_matching_def)
qed

lemma pair_related_Sup:
  "(\<And>x y. (x, y) \<in> M \<Longrightarrow> pair_related R x y) \<Longrightarrow> pair_related R (Sup (fst ` M)) (Sup (snd ` M))"
  by (simp add: pair_related_def Sup_prod_def) (metis prod.collapse)

lemma pair_related_Inf:
  "(\<And>x y. (x, y) \<in> M \<Longrightarrow> pair_related R x y) \<Longrightarrow> pair_related R (Inf (fst ` M)) (Inf (snd ` M))"
  by (simp add: pair_related_def Inf_prod_def) (metis prod.collapse)

lemma refines_modal:
  assumes R: "refines R c ec a ea" and P: "pair_related R P P'"
  shows "pair_related R (a_modal (kmts c ec) k g P) (a_modal (kmts a ea) k g P')"
  unfolding pair_related_def
proof (clarify, intro conjI impI)
  fix s s' assume st: "(s, s') \<in> R"
  then have lt: "s < state_count c" "s' < state_count a" using R unfolding refines_def by blast+
  have to: "q' \<in> fst P' \<Longrightarrow> q \<in> fst P" and fro: "q \<in> snd P \<Longrightarrow> q' \<in> snd P'" if "(q, q') \<in> R" for q q'
    using P that unfolding pair_related_def by blast+
  show "s \<in> fst (a_modal (kmts c ec) k g P)" if "s' \<in> fst (a_modal (kmts a ea) k g P')"
    using that lt to refines_must [OF R st, of _ g] refines_may [OF R st, of _ g]
    by (cases k) (simp_all add: kmts_def pre_ex_def pre_all_def, (metis (no_types))+)
  show "s' \<in> snd (a_modal (kmts a ea) k g P')" if "s \<in> snd (a_modal (kmts c ec) k g P)"
    using that lt fro refines_must [OF R st, of _ g] refines_may [OF R st, of _ g]
    by (cases k) (simp_all add: kmts_def pre_ex_def pre_all_def, (metis (no_types))+)
qed

lemma sem_refines:
  assumes R: "refines R c ec a ea"
  shows "positive t \<Longrightarrow> (\<And>v. pair_related R (\<rho> v) (\<rho>' v)) \<Longrightarrow>
    pair_related R (sem (kmts c ec) t \<rho>) (sem (kmts a ea) t \<rho>')"
proof (induction t arbitrary: \<rho> \<rho>')
  case (FPred p)
  then show ?case using R by (simp add: kmts_def refines_def)
next
  case (FNot t)
  have "pair_related R (sem (kmts c ec) t \<rho>) (sem (kmts a ea) t \<rho>')" using FNot by simp
  then show ?case using R by (fastforce simp: kmts_def pair_related_def refines_def case_prod_beta)
next
  case (FModal k g t)
  then show ?case using refines_modal [OF R] by simp
next
  case (FMu v t)
  show ?case unfolding sem.simps
  proof (rule lfp_related [where R = "pair_related R"])
    show "mono (\<lambda>X. sem (kmts c ec) t (\<rho>(v := X)))" "mono (\<lambda>X. sem (kmts a ea) t (\<rho>'(v := X)))"
      using FMu.prems sem_mono_var [OF kmts_mono] by simp_all
    show "pair_related R (sem (kmts c ec) t (\<rho>(v := X))) (sem (kmts a ea) t (\<rho>'(v := Y)))"
      if "pair_related R X Y" for X Y
      by (rule FMu.IH) (use FMu.prems that in simp_all)
  qed (rule pair_related_Sup)
next
  case (FNu v t)
  have top: "pair_related R (inf (a_top (kmts c ec)) X) (inf (a_top (kmts a ea)) Y)"
    if "pair_related R X Y" for X Y
    using R that by (fastforce simp: kmts_def pair_related_def refines_def)
  show ?case unfolding sem.simps
  proof (rule gfp_related [where R = "pair_related R"])
    show "mono (\<lambda>X. inf (a_top (kmts c ec)) (sem (kmts c ec) t (\<rho>(v := X))))"
      "mono (\<lambda>X. inf (a_top (kmts a ea)) (sem (kmts a ea) t (\<rho>'(v := X))))"
      using FNu.prems sem_mono_var_inf [OF kmts_mono] by simp_all
    show "pair_related R (inf (a_top (kmts c ec)) (sem (kmts c ec) t (\<rho>(v := X))))
        (inf (a_top (kmts a ea)) (sem (kmts a ea) t (\<rho>'(v := Y))))"
      if "pair_related R X Y" for X Y
      by (rule top, rule FNu.IH) (use FNu.prems that in simp_all)
  qed (rule pair_related_Inf)
qed (use R in \<open>fastforce simp: kmts_def pair_related_def refines_def\<close>)+

lemma bool_result:
  assumes "wf_clts c" "simple_clts c" "no_oob c" "env_fits env c"
    and "tree f = Some t" "positive t" "plain_formula t" "no_prior opts t"
    and "need (state_count c) t \<le> k"
  obtains bits where "evaluate_with_options k f c env opts = Ok bits" "length bits = state_count c"
    "bset bits = sem (kripke c env) t (\<lambda>_. {})"
  using evaluate_seeded [OF assms(3-6) bd_seeds_ok assms(9), of opts] assms(8)
    sem_alg2_kripke [OF assms(1-4,7), of f opts] by auto

lemma tri_result:
  assumes "wf_clts c" "simple_clts c" "no_oob c" "env_fits env c"
    and "tree f = Some t" "positive t" "plain_formula t" "no_prior opts t"
    and "need (2 * state_count c) t \<le> k"
  obtains v where "evaluate_tri_with_options k f c env opts = Ok v"
    "(bset (must_true v), bset (may_true v)) = sem (kmts c env) t (\<lambda>_. bot)"
    "bset (must_true v) \<subseteq> bset (may_true v)"
    "length (must_true v) = state_count c" "length (may_true v) = state_count c"
proof -
  obtain v where len: "length (must_true v) = state_count c" "length (may_true v) = state_count c"
    and v: "evaluate_tri_with_options k f c env opts = Ok v"
    "(bset (must_true v), bset (may_true v)) = sem (alg3 (ctx_new f c env opts)) t (\<lambda>_. bot)"
    using evaluate_tri_seeded [OF assms(3-6) kd_seeds_ok assms(9), of opts] assms(8) by auto
  have "all_modalities (\<lambda>k g. g_max_steps g = None) t"
    using assms(7) by (rule all_modalities_mono) (simp add: plain_def)
  then have "pair_ok (sem (alg3 (ctx_new f c env opts)) t (\<lambda>_. bot))"
    by (intro sem_alg3_ok [OF assms(1,3,4,6)]) (simp_all add: pair_ok_def)
  then have "bset (must_true v) \<subseteq> bset (may_true v)" by (simp add: v(2) [symmetric] pair_ok_def)
  with v len show ?thesis using that sem_alg3_kmts [OF assms(1-4,7), of f opts] by simp
qed

text \<open>The values, the same for all sufficient fuel.\<close>

lemma bool_value:
  assumes "wf_clts c" "simple_clts c" "no_oob c" "env_fits env c"
    and "tree f = Some t" "positive t" "plain_formula t" "no_prior opts t"
  obtains bits where "\<forall>k \<ge> need (state_count c) t. evaluate_with_options k f c env opts = Ok bits"
    "length bits = state_count c" "bset bits = sem (kripke c env) t (\<lambda>_. {})"
proof -
  obtain bits where "evaluate_with_options (need (state_count c) t) f c env opts = Ok bits"
    and 1: "length bits = state_count c" "bset bits = sem (kripke c env) t (\<lambda>_. {})"
    by (rule bool_result [OF assms order.refl])
  have "evaluate_with_options k f c env opts = Ok bits" if k: "need (state_count c) t \<le> k" for k
  proof -
    obtain b where "evaluate_with_options k f c env opts = Ok b" "length b = state_count c"
      "bset b = sem (kripke c env) t (\<lambda>_. {})" by (rule bool_result [OF assms k])
    then show ?thesis using 1 by (simp add: bv_eq_iff)
  qed
  then show ?thesis using that 1 by blast
qed

lemma tri_value:
  assumes "wf_clts c" "simple_clts c" "no_oob c" "env_fits env c"
    and "tree f = Some t" "positive t" "plain_formula t" "no_prior opts t"
  obtains v where "\<forall>k \<ge> need (2 * state_count c) t. evaluate_tri_with_options k f c env opts = Ok v"
    "(bset (must_true v), bset (may_true v)) = sem (kmts c env) t (\<lambda>_. bot)"
    "wf_tritset (state_count c) v"
proof -
  obtain v where "evaluate_tri_with_options (need (2 * state_count c) t) f c env opts = Ok v"
    and 1: "(bset (must_true v), bset (may_true v)) = sem (kmts c env) t (\<lambda>_. bot)"
    "bset (must_true v) \<subseteq> bset (may_true v)"
    "length (must_true v) = state_count c" "length (may_true v) = state_count c"
    by (rule tri_result [OF assms order.refl])
  have "evaluate_tri_with_options k f c env opts = Ok v" if k: "need (2 * state_count c) t \<le> k" for k
  proof -
    obtain w where w: "evaluate_tri_with_options k f c env opts = Ok w"
      "(bset (must_true w), bset (may_true w)) = sem (kmts c env) t (\<lambda>_. bot)"
      "bset (must_true w) \<subseteq> bset (may_true w)"
      "length (must_true w) = state_count c" "length (may_true w) = state_count c"
      by (rule tri_result [OF assms k])
    have "(bset (must_true w), bset (may_true w)) = (bset (must_true v), bset (may_true v))"
      by (simp only: 1(1) w(2))
    then have "must_true w = must_true v" "may_true w = may_true v"
      using 1(3,4) w(4,5) by (simp_all add: bv_eq_iff)
    then show ?thesis using w(1) by (simp add: trit_set.equality)
  qed
  then show ?thesis using that 1 by (auto simp: wf_tritset_def)
qed


definition ex_refinement :: "(nat \<times> nat) set" where
  "ex_refinement = {(0, 0), (1, 1), (2, 2)}"

lemma ex_refines: "refines ex_refinement ex_sharp ex_env ex_clts ex_env"
proof -
  have "std_pred ex_sharp ex_env p = std_pred ex_clts ex_env p" for p
    by (simp add: std_pred_def state_3valued_predicate_def) (simp add: ex_defs ex_sharp_def)
  then have p: "pair_related ex_refinement (std_pred ex_sharp ex_env p) (std_pred ex_clts ex_env p)" for p
    by (auto simp: pair_related_def ex_refinement_def)
  have l: "same_labels ex_sharp (ex_tr q m) ex_clts (ex_tr q' m')" for q m q' m'
    by (simp add: same_labels_def label_has_def) (simp add: ex_defs ex_sharp_def)
  have v: "state_has_var ex_sharp s v = state_has_var ex_clts s v" for s v
    by (simp add: state_has_var_def) (simp add: ex_defs ex_sharp_def)
  have o1: "outgoing ex_sharp 0 = [ex_tr 1 Sharp, ex_tr 2 Sharp]" "outgoing ex_sharp 1 = [ex_tr 1 Sharp]"
    "outgoing ex_sharp (Suc 0) = [ex_tr 1 Sharp]" "outgoing ex_sharp 2 = [ex_tr 2 Sharp]"
    by (simp_all add: outgoing_def ex_sharp_def ex_model_def)
  have o2: "outgoing ex_clts 0 = [ex_tr 1 Sharp, ex_tr 2 MayOnly]" "outgoing ex_clts 1 = [ex_tr 1 Sharp]"
    "outgoing ex_clts (Suc 0) = [ex_tr 1 Sharp]" "outgoing ex_clts 2 = [ex_tr 2 Sharp]"
    by (simp_all add: outgoing_def ex_clts_def ex_model_def)
  have t: "t_target (ex_tr q m) = q" "t_modality (ex_tr q m) = m" for q m by (simp_all add: ex_tr_def)
  show ?thesis
    using ex_sharp_facts(7) unfolding refines_def
    by (intro conjI allI p) (auto simp: ex_refinement_def o1 o2 l t v)
qed


end
