(* ===== verification/Mu_Duality.thy ===== *)
theory Mu_Duality
  imports Mu_Semantics
begin

section \<open>Duality and rewriting of formula trees\<close>

text \<open>
  The tree level of the formula transformations. \<open>dual_algebra\<close> is the interface they rely on: an
  algebra whose negation is an antitone involution below \<open>a_top\<close> that exchanges diamond and box.
  Inside it, the dual of a positive formula (negation pushed to the predicates, fixpoints and
  modalities exchanged) has the negated value, and the local rewrites of the simplifier, up to
  renaming of bound variables, keep the value.
\<close>

subsection \<open>Free variables\<close>

primrec fv :: "fml \<Rightarrow> nat set" where
  "fv FTrue = {}"
| "fv FFalse = {}"
| "fv (FPred p) = {}"
| "fv (FVar v) = {v}"
| "fv (FNot t) = fv t"
| "fv (FAnd s t) = fv s \<union> fv t"
| "fv (FOr s t) = fv s \<union> fv t"
| "fv (FModal k g t) = fv t"
| "fv (FMu v t) = fv t - {v}"
| "fv (FNu v t) = fv t - {v}"

lemma polar_fresh: "v \<notin> fv t \<Longrightarrow> polar p v t"
  by (induction t arbitrary: p) auto

lemma sem_fv: "\<forall>v \<in> fv t. \<rho> v = \<rho>' v \<Longrightarrow> sem A t \<rho> = sem A t \<rho>'"
proof (induction t arbitrary: \<rho> \<rho>')
  case (FMu v t)
  have "sem A t (\<rho>(v := X)) = sem A t (\<rho>'(v := X))" for X
    by (rule FMu.IH) (use FMu.prems in simp)
  then show ?case by simp
next
  case (FNu v t)
  have "sem A t (\<rho>(v := X)) = sem A t (\<rho>'(v := X))" for X
    by (rule FNu.IH) (use FNu.prems in simp)
  then show ?case by simp
next
  case (FAnd s t)
  show ?case using FAnd.IH(1) [of \<rho> \<rho>'] FAnd.IH(2) [of \<rho> \<rho>'] FAnd.prems by (simp add: ball_Un)
next
  case (FOr s t)
  show ?case using FOr.IH(1) [of \<rho> \<rho>'] FOr.IH(2) [of \<rho> \<rho>'] FOr.prems by (simp add: ball_Un)
next
  case (FNot t)
  show ?case using FNot.IH [of \<rho> \<rho>'] FNot.prems by simp
next
  case (FModal k g t)
  show ?case using FModal.IH [of \<rho> \<rho>'] FModal.prems by simp
qed simp_all

abbreviation binders :: "fml \<Rightarrow> nat list" where
  "binders t \<equiv> map fst (order_tree t)"

subsection \<open>Negation normal form of a tree\<close>

definition dual_kind :: "modal_kind \<Rightarrow> modal_kind" where
  "dual_kind k = (case k of Box \<Rightarrow> Diamond | Diamond \<Rightarrow> Box)"

definition dual_control :: "control \<Rightarrow> control" where
  "dual_control c = (case c of CAll \<Rightarrow> CAll | CControllable \<Rightarrow> CEnvironment | CEnvironment \<Rightarrow> CControllable)"

definition dual_guard :: "guard \<Rightarrow> guard" where
  "dual_guard g = g\<lparr>g_control := dual_control (g_control g)\<rparr>"

primrec nnf_tree :: "bool \<Rightarrow> fml \<Rightarrow> fml" where
  "nnf_tree n FTrue = (if n then FFalse else FTrue)"
| "nnf_tree n FFalse = (if n then FTrue else FFalse)"
| "nnf_tree n (FPred p) = (if n then FNot (FPred p) else FPred p)"
| "nnf_tree n (FVar v) = FVar v"
| "nnf_tree n (FNot t) = nnf_tree (\<not> n) t"
| "nnf_tree n (FAnd s t) = (if n then FOr (nnf_tree n s) (nnf_tree n t) else FAnd (nnf_tree n s) (nnf_tree n t))"
| "nnf_tree n (FOr s t) = (if n then FAnd (nnf_tree n s) (nnf_tree n t) else FOr (nnf_tree n s) (nnf_tree n t))"
| "nnf_tree n (FModal k g t) =
     (if n then FModal (dual_kind k) (dual_guard g) (nnf_tree n t) else FModal k g (nnf_tree n t))"
| "nnf_tree n (FMu v t) = (if n then FNu v (nnf_tree n t) else FMu v (nnf_tree n t))"
| "nnf_tree n (FNu v t) = (if n then FMu v (nnf_tree n t) else FNu v (nnf_tree n t))"

text \<open>\<open>is_nnf\<close>: negations stand on predicates only.\<close>

primrec is_nnf :: "fml \<Rightarrow> bool" where
  "is_nnf FTrue = True"
| "is_nnf FFalse = True"
| "is_nnf (FPred p) = True"
| "is_nnf (FVar v) = True"
| "is_nnf (FNot t) = (\<exists>p. t = FPred p)"
| "is_nnf (FAnd s t) = (is_nnf s \<and> is_nnf t)"
| "is_nnf (FOr s t) = (is_nnf s \<and> is_nnf t)"
| "is_nnf (FModal k g t) = is_nnf t"
| "is_nnf (FMu v t) = is_nnf t"
| "is_nnf (FNu v t) = is_nnf t"

lemma nnf_tree_is_nnf: "is_nnf (nnf_tree n t)"
  by (induction t arbitrary: n) auto

lemma is_nnf_polar: "is_nnf t \<Longrightarrow> polar True v t"
  by (induction t) auto

lemma is_nnf_positive: "is_nnf t \<Longrightarrow> positive t"
  by (induction t) (auto intro: is_nnf_polar)

lemma nnf_tree_fv [simp]: "fv (nnf_tree n t) = fv t"
  by (induction t arbitrary: n) auto

lemma nnf_tree_binders [simp]: "binders (nnf_tree n t) = binders t"
  by (induction t arbitrary: n) auto

lemma dual_guard_plain [simp]: "plain g \<Longrightarrow> dual_guard g = g"
  by (simp add: plain_def dual_guard_def dual_control_def)

lemma nnf_tree_plain [simp]: "plain_formula t \<Longrightarrow> plain_formula (nnf_tree n t)"
  by (induction t arbitrary: n) auto

subsection \<open>Rewriting up to renaming\<close>

text \<open>
  \<open>rewr \<sigma> t u\<close>: \<open>u\<close> arises from \<open>t\<close> by renaming variables (free ones by \<open>\<sigma>\<close>, bound ones to
  anything fresh) and by any selection of the local rewrites: negated constants, double negation,
  units and zeros of conjunction and disjunction, idempotence.
\<close>

inductive rewr :: "(nat \<Rightarrow> nat) \<Rightarrow> fml \<Rightarrow> fml \<Rightarrow> bool" where
  rw_True: "rewr \<sigma> FTrue FTrue"
| rw_False: "rewr \<sigma> FFalse FFalse"
| rw_Pred: "rewr \<sigma> (FPred p) (FPred p)"
| rw_Var: "\<sigma> v = w \<Longrightarrow> rewr \<sigma> (FVar v) (FVar w)"
| rw_Not: "rewr \<sigma> t u \<Longrightarrow> rewr \<sigma> (FNot t) (FNot u)"
| rw_And: "rewr \<sigma> s u \<Longrightarrow> rewr \<sigma> t v \<Longrightarrow> rewr \<sigma> (FAnd s t) (FAnd u v)"
| rw_Or: "rewr \<sigma> s u \<Longrightarrow> rewr \<sigma> t v \<Longrightarrow> rewr \<sigma> (FOr s t) (FOr u v)"
| rw_Modal: "rewr \<sigma> t u \<Longrightarrow> rewr \<sigma> (FModal k g t) (FModal k g u)"
| rw_Mu: "rewr (\<sigma>(v := w)) t u \<Longrightarrow> \<forall>y \<in> fv t - {v}. \<sigma> y \<noteq> w \<Longrightarrow> rewr \<sigma> (FMu v t) (FMu w u)"
| rw_Nu: "rewr (\<sigma>(v := w)) t u \<Longrightarrow> \<forall>y \<in> fv t - {v}. \<sigma> y \<noteq> w \<Longrightarrow> rewr \<sigma> (FNu v t) (FNu w u)"
| rw_NotTrue: "rewr \<sigma> (FNot FTrue) FFalse"
| rw_NotFalse: "rewr \<sigma> (FNot FFalse) FTrue"
| rw_NotNot: "rewr \<sigma> t u \<Longrightarrow> rewr \<sigma> (FNot (FNot t)) u"
| rw_And_zero1: "rewr \<sigma> s FFalse \<Longrightarrow> rewr \<sigma> (FAnd s t) FFalse"
| rw_And_zero2: "rewr \<sigma> t FFalse \<Longrightarrow> rewr \<sigma> (FAnd s t) FFalse"
| rw_And_unit1: "rewr \<sigma> s FTrue \<Longrightarrow> rewr \<sigma> t u \<Longrightarrow> rewr \<sigma> (FAnd s t) u"
| rw_And_unit2: "rewr \<sigma> s u \<Longrightarrow> rewr \<sigma> t FTrue \<Longrightarrow> rewr \<sigma> (FAnd s t) u"
| rw_And_same: "rewr \<sigma> s u \<Longrightarrow> rewr \<sigma> t u \<Longrightarrow> rewr \<sigma> (FAnd s t) u"
| rw_Or_zero1: "rewr \<sigma> s FTrue \<Longrightarrow> rewr \<sigma> (FOr s t) FTrue"
| rw_Or_zero2: "rewr \<sigma> t FTrue \<Longrightarrow> rewr \<sigma> (FOr s t) FTrue"
| rw_Or_unit1: "rewr \<sigma> s FFalse \<Longrightarrow> rewr \<sigma> t u \<Longrightarrow> rewr \<sigma> (FOr s t) u"
| rw_Or_unit2: "rewr \<sigma> s u \<Longrightarrow> rewr \<sigma> t FFalse \<Longrightarrow> rewr \<sigma> (FOr s t) u"
| rw_Or_same: "rewr \<sigma> s u \<Longrightarrow> rewr \<sigma> t u \<Longrightarrow> rewr \<sigma> (FOr s t) u"

lemma rewr_polar:
  "rewr \<sigma> t u \<Longrightarrow> \<forall>y \<in> fv t. \<sigma> y = w \<longrightarrow> polar p y t \<Longrightarrow> polar p w u"
proof (induction arbitrary: p rule: rewr.induct)
  case (rw_Mu \<sigma> v x t u)
  show ?case
  proof (cases "x = w")
    case False
    have "\<forall>y \<in> fv t. (\<sigma>(v := x)) y = w \<longrightarrow> polar p y t" using rw_Mu.prems False by auto
    then show ?thesis using rw_Mu.IH by simp
  qed simp
next
  case (rw_Nu \<sigma> v x t u)
  show ?case
  proof (cases "x = w")
    case False
    have "\<forall>y \<in> fv t. (\<sigma>(v := x)) y = w \<longrightarrow> polar p y t" using rw_Nu.prems False by auto
    then show ?thesis using rw_Nu.IH by simp
  qed simp
qed auto

lemma rewr_positive: "rewr \<sigma> t u \<Longrightarrow> positive t \<Longrightarrow> positive u"
proof (induction rule: rewr.induct)
  case (rw_Mu \<sigma> v w t u)
  have "polar True w u" by (rule rewr_polar [OF rw_Mu.hyps(1)]) (use rw_Mu.prems rw_Mu.hyps(2) in auto)
  then show ?case using rw_Mu by simp
next
  case (rw_Nu \<sigma> v w t u)
  have "polar True w u" by (rule rewr_polar [OF rw_Nu.hyps(1)]) (use rw_Nu.prems rw_Nu.hyps(2) in auto)
  then show ?case using rw_Nu by simp
qed auto

lemma rewr_modalities: "rewr \<sigma> t u \<Longrightarrow> all_modalities P t \<Longrightarrow> all_modalities P u"
  by (induction rule: rewr.induct) auto

lemma rewr_cong: "rewr \<sigma> t u \<Longrightarrow> \<forall>y \<in> fv t. \<sigma> y = \<tau> y \<Longrightarrow> rewr \<tau> t u"
proof (induction arbitrary: \<tau> rule: rewr.induct)
  case (rw_Mu \<sigma> v w t u)
  show ?case by (rule rewr.rw_Mu, rule rw_Mu.IH) (use rw_Mu.prems rw_Mu.hyps(2) in auto)
next
  case (rw_Nu \<sigma> v w t u)
  show ?case by (rule rewr.rw_Nu, rule rw_Nu.IH) (use rw_Nu.prems rw_Nu.hyps(2) in auto)
qed (auto intro: rewr.intros)

subsection \<open>Algebras with duality\<close>

locale dual_algebra =
  fixes A :: "('l::complete_lattice) mu_algebra"
  assumes alg_mono: "algebra_mono A"
    and pred_le: "a_pred A p \<le> a_top A"
    and not_le: "a_not A x \<le> a_top A"
    and modal_le: "plain g \<Longrightarrow> a_modal A k g x \<le> a_top A"
    and not_not: "x \<le> a_top A \<Longrightarrow> a_not A (a_not A x) = x"
    and not_bot: "a_not A bot = a_top A"
    and modal_dual: "plain g \<Longrightarrow> x \<le> a_top A \<Longrightarrow>
      a_not A (a_modal A k g x) = a_modal A (dual_kind k) g (a_not A x)"
begin

lemma not_anti: "x \<le> y \<Longrightarrow> a_not A y \<le> a_not A x"
  using alg_mono by (simp add: algebra_mono_def)

lemma not_top: "a_not A (a_top A) = bot"
  using not_not [of bot] by (simp add: not_bot)

lemma not_flip: "x \<le> a_top A \<Longrightarrow> y \<le> a_top A \<Longrightarrow> a_not A x \<le> y \<longleftrightarrow> a_not A y \<le> x"
  using not_anti not_not by metis

lemma not_sup: "x \<le> a_top A \<Longrightarrow> y \<le> a_top A \<Longrightarrow> a_not A (sup x y) = inf (a_not A x) (a_not A y)"
proof (rule antisym)
  assume le: "x \<le> a_top A" "y \<le> a_top A"
  show "a_not A (sup x y) \<le> inf (a_not A x) (a_not A y)" by (simp add: not_anti)
  let ?z = "inf (a_not A x) (a_not A y)"
  have "?z \<le> a_top A" by (simp add: not_le le_infI1)
  moreover have "sup x y \<le> a_not A ?z"
    using le not_anti [of ?z "a_not A x"] not_anti [of ?z "a_not A y"] by (simp add: not_not)
  ultimately show "?z \<le> a_not A (sup x y)" using not_anti [of "sup x y" "a_not A ?z"] by (simp add: not_not)
qed

lemma not_inf:
  assumes "x \<le> a_top A" "y \<le> a_top A"
  shows "a_not A (inf x y) = sup (a_not A x) (a_not A y)"
proof -
  have "inf x y = a_not A (sup (a_not A x) (a_not A y))"
    using assms by (simp add: not_sup not_le not_not)
  then show ?thesis by (simp add: not_not not_le)
qed

lemma lfp_dual:
  assumes F: "mono F" "\<And>x. x \<le> a_top A \<Longrightarrow> F x \<le> a_top A"
    and G: "\<And>x. x \<le> a_top A \<Longrightarrow> G x = a_not A (F (a_not A x))"
  shows "a_not A (lfp F) = gfp (\<lambda>x. inf (a_top A) (G x))"
proof (rule antisym)
  have le: "lfp F \<le> a_top A" by (rule lfp_lowerbound) (rule F(2), simp)
  then have "G (a_not A (lfp F)) = a_not A (lfp F)"
    by (simp add: G not_le not_not lfp_fixpoint [OF F(1)])
  then show "a_not A (lfp F) \<le> gfp (\<lambda>x. inf (a_top A) (G x))"
    by (intro gfp_upperbound) (simp add: not_le)
  show "gfp (\<lambda>x. inf (a_top A) (G x)) \<le> a_not A (lfp F)"
  proof (rule gfp_least)
    fix x assume x: "x \<le> inf (a_top A) (G x)"
    then have "F (a_not A x) \<le> a_not A x"
      using not_anti [of x "a_not A (F (a_not A x))"] G [of x] by (simp add: not_not F(2) not_le)
    then have "lfp F \<le> a_not A x" by (rule lfp_lowerbound)
    then show "x \<le> a_not A (lfp F)" using not_anti [of "lfp F" "a_not A x"] x by (simp add: not_not)
  qed
qed

lemma gfp_dual:
  assumes G: "mono G" "\<And>x. x \<le> a_top A \<Longrightarrow> G x = a_not A (F (a_not A x))"
    and F: "\<And>x. x \<le> a_top A \<Longrightarrow> F x \<le> a_top A"
  shows "a_not A (gfp (\<lambda>x. inf (a_top A) (F x))) = lfp G"
proof -
  have "a_not A (lfp G) = gfp (\<lambda>x. inf (a_top A) (F x))"
    by (rule lfp_dual [OF G(1)]) (simp_all add: G(2) not_le not_not F)
  moreover have "lfp G \<le> a_top A" by (rule lfp_lowerbound) (simp add: G(2) not_le)
  ultimately show ?thesis by (metis not_not)
qed

lemma sem_le: "plain_formula t \<Longrightarrow> (\<And>v. \<rho> v \<le> a_top A) \<Longrightarrow> sem A t \<rho> \<le> a_top A"
proof (induction t arbitrary: \<rho>)
  case (FMu v t)
  have "sem A t (\<rho>(v := a_top A)) \<le> a_top A" by (rule FMu.IH) (use FMu.prems in simp_all)
  then show ?case by (simp add: lfp_lowerbound)
next
  case (FNu v t)
  show ?case by (simp, rule gfp_least) simp
next
  case (FAnd s t)
  then show ?case by (simp add: le_infI1)
qed (simp_all add: pred_le not_le modal_le)

lemma lfp_cong_below:
  assumes "mono F" "mono G" "\<And>x. x \<le> a_top A \<Longrightarrow> F x = G x" "F (a_top A) \<le> a_top A"
  shows "lfp F = lfp G"
proof -
  have F: "lfp F \<le> a_top A" and G: "lfp G \<le> a_top A" using assms by (auto intro: lfp_lowerbound)
  show ?thesis
    using lfp_fixpoint [OF assms(1)] lfp_fixpoint [OF assms(2)] assms(3) [OF F] assms(3) [OF G]
    by (intro antisym lfp_lowerbound) simp_all
qed

lemma gfp_cong_below:
  assumes "\<And>x. x \<le> a_top A \<Longrightarrow> F x = G x"
  shows "gfp (\<lambda>x. inf (a_top A) (F x)) = gfp (\<lambda>x. inf (a_top A) (G x))"
proof -
  have "x \<le> inf (a_top A) (F x) \<longleftrightarrow> x \<le> inf (a_top A) (G x)" for x using assms by auto
  then show ?thesis by (simp only: gfp_def)
qed

text \<open>
  A variable of \<open>nnf_tree n t\<close> stands for the negated value when it occurs negated, that is, when
  \<open>n\<close> differs from the sign \<open>d v\<close> it has at its binder.
\<close>

definition sign_env :: "(nat \<Rightarrow> bool) \<Rightarrow> (nat \<Rightarrow> 'l) \<Rightarrow> nat \<Rightarrow> 'l" where
  "sign_env d \<rho> = (\<lambda>v. if d v then a_not A (\<rho> v) else \<rho> v)"

lemma nnf_binder:
  assumes IH: "\<And>d \<rho>. (\<And>w. polar (d w = n) w t) \<Longrightarrow> (\<And>w. \<rho> w \<le> a_top A) \<Longrightarrow>
      sem A (nnf_tree n t) (sign_env d \<rho>) = (if n then a_not A (sem A t \<rho>) else sem A t \<rho>)"
    and pos: "polar True v t" "\<And>w. v = w \<or> polar (d w = n) w t"
    and le: "\<And>w. \<rho> w \<le> a_top A" "X \<le> a_top A"
  shows "sem A (nnf_tree n t) ((sign_env d \<rho>)(v := X))
    = (if n then a_not A (sem A t (\<rho>(v := a_not A X))) else sem A t (\<rho>(v := X)))"
proof -
  have "(sign_env d \<rho>)(v := X) = sign_env (d(v := n)) (\<rho>(v := if n then a_not A X else X))"
    using le by (auto simp: sign_env_def not_not)
  moreover have "polar ((d(v := n)) w = n) w t" for w
    using pos(1) pos(2) [of w] by (cases "v = w") auto
  ultimately show ?thesis
    using IH [of "d(v := n)" "\<rho>(v := if n then a_not A X else X)"] le
    by (cases n) (simp_all add: not_le)
qed

lemma sem_nnf:
  "positive t \<Longrightarrow> plain_formula t \<Longrightarrow> (\<And>v. polar (d v = n) v t) \<Longrightarrow> (\<And>v. \<rho> v \<le> a_top A) \<Longrightarrow>
   sem A (nnf_tree n t) (sign_env d \<rho>) = (if n then a_not A (sem A t \<rho>) else sem A t \<rho>)"
proof (induction t arbitrary: n d \<rho>)
  case (FVar v)
  then show ?case using FVar.prems(3) [of v] by (auto simp: sign_env_def)
next
  case (FNot t)
  have "sem A (nnf_tree (\<not> n) t) (sign_env d \<rho>) = (if \<not> n then a_not A (sem A t \<rho>) else sem A t \<rho>)"
  proof (rule FNot.IH)
    show "polar (d v = (\<not> n)) v t" for v using FNot.prems(3) [of v] by simp
  qed (use FNot.prems in simp_all)
  then show ?case using FNot.prems sem_le [of t \<rho>] by (auto simp: not_not)
next
  case (FAnd s t)
  then show ?case using FAnd.IH(1) [of d n \<rho>] FAnd.IH(2) [of d n \<rho>] sem_le [of s \<rho>] sem_le [of t \<rho>]
    by (cases n) (simp_all add: not_inf)
next
  case (FOr s t)
  then show ?case using FOr.IH(1) [of d n \<rho>] FOr.IH(2) [of d n \<rho>] sem_le [of s \<rho>] sem_le [of t \<rho>]
    by (cases n) (simp_all add: not_sup)
next
  case (FModal k g t)
  then show ?case using FModal.IH [of d n \<rho>] sem_le [of t \<rho>]
    by (cases n) (simp_all add: modal_dual)
next
  case (FMu v t)
  let ?F = "\<lambda>X. sem A t (\<rho>(v := X))" and ?G = "\<lambda>X. sem A (nnf_tree n t) ((sign_env d \<rho>)(v := X))"
  have F: "mono ?F" using FMu.prems(1) by (intro sem_mono_var [OF alg_mono]) simp
  have le: "?F X \<le> a_top A" if "X \<le> a_top A" for X using FMu.prems that by (intro sem_le) simp_all
  have G: "mono ?G" by (rule sem_mono_var [OF alg_mono is_nnf_polar [OF nnf_tree_is_nnf]])
  have step: "?G X = (if n then a_not A (?F (a_not A X)) else ?F X)" if "X \<le> a_top A" for X
    by (rule nnf_binder) (use FMu that in auto)
  show ?case
  proof (cases n)
    case True
    then show ?thesis using lfp_dual [OF F le, of ?G] step by simp
  next
    case False
    have "lfp ?F = lfp ?G" by (rule lfp_cong_below [OF F G]) (use step False le in \<open>simp_all del: fun_upd_apply\<close>)
    then show ?thesis using False by simp
  qed
next
  case (FNu v t)
  let ?F = "\<lambda>X. sem A t (\<rho>(v := X))" and ?G = "\<lambda>X. sem A (nnf_tree n t) ((sign_env d \<rho>)(v := X))"
  have le: "?F X \<le> a_top A" if "X \<le> a_top A" for X using FNu.prems that by (intro sem_le) simp_all
  have G: "mono ?G" by (rule sem_mono_var [OF alg_mono is_nnf_polar [OF nnf_tree_is_nnf]])
  have step: "?G X = (if n then a_not A (?F (a_not A X)) else ?F X)" if "X \<le> a_top A" for X
    by (rule nnf_binder) (use FNu that in auto)
  show ?case
  proof (cases n)
    case True
    then show ?thesis using gfp_dual [OF G _ le] step by simp
  next
    case False
    then show ?thesis using gfp_cong_below [of ?F ?G] step by simp
  qed
qed (auto simp: not_bot not_top)

lemma sem_nnf_closed:
  assumes "positive t" "plain_formula t" "fv t = {}"
  shows "sem A (nnf_tree n t) (\<lambda>_. bot) = (if n then a_not A (sem A t (\<lambda>_. bot)) else sem A t (\<lambda>_. bot))"
proof -
  have "sem A (nnf_tree n t) (sign_env (\<lambda>_. n) (\<lambda>_. bot))
    = (if n then a_not A (sem A t (\<lambda>_. bot)) else sem A t (\<lambda>_. bot))"
    using assms by (intro sem_nnf polar_fresh) simp_all
  then show ?thesis
    using sem_fv [of "nnf_tree n t" "\<lambda>_. bot" "sign_env (\<lambda>_. n) (\<lambda>_. bot)" A] assms(3) by simp
qed

lemma sem_rewr:
  "rewr \<sigma> t u \<Longrightarrow> positive t \<Longrightarrow> plain_formula t \<Longrightarrow> \<forall>v. \<rho> v \<le> a_top A \<Longrightarrow>
   \<forall>v \<in> fv t. \<rho>' (\<sigma> v) = \<rho> v \<Longrightarrow> sem A u \<rho>' = sem A t \<rho>"
proof (induction arbitrary: \<rho> \<rho>' rule: rewr.induct)
  case (rw_Mu \<sigma> v w t u)
  have pos: "polar True w u" using rewr_positive [OF rewr.rw_Mu [OF rw_Mu.hyps]] rw_Mu.prems(1) by simp
  have body: "sem A u (\<rho>'(w := X)) = sem A t (\<rho>(v := X))" if "X \<le> a_top A" for X
    by (rule rw_Mu.IH) (use rw_Mu.prems rw_Mu.hyps(2) that in auto)
  have "lfp (\<lambda>X. sem A t (\<rho>(v := X))) = lfp (\<lambda>X. sem A u (\<rho>'(w := X)))"
  proof (rule lfp_cong_below)
    show "mono (\<lambda>X. sem A t (\<rho>(v := X)))" "mono (\<lambda>X. sem A u (\<rho>'(w := X)))"
      using rw_Mu.prems(1) pos by (simp_all add: sem_mono_var [OF alg_mono])
    show "sem A t (\<rho>(v := a_top A)) \<le> a_top A" using rw_Mu.prems by (intro sem_le) simp_all
  qed (use body in simp)
  then show ?case by simp
next
  case (rw_Nu \<sigma> v w t u)
  have body: "sem A u (\<rho>'(w := X)) = sem A t (\<rho>(v := X))" if "X \<le> a_top A" for X
    by (rule rw_Nu.IH) (use rw_Nu.prems rw_Nu.hyps(2) that in auto)
  then show ?case
    using gfp_cong_below [of "\<lambda>X. sem A u (\<rho>'(w := X))" "\<lambda>X. sem A t (\<rho>(v := X))"] by simp
next
  case (rw_NotNot \<sigma> t u)
  then show ?case using sem_le [of t \<rho>] rw_NotNot.IH [of \<rho> \<rho>'] by (simp add: not_not)
next
  case (rw_And_unit1 \<sigma> s t u)
  show ?case using sem_le [of t \<rho>] rw_And_unit1.IH(1) [of \<rho> \<rho>'] rw_And_unit1.IH(2) [of \<rho> \<rho>']
      rw_And_unit1.prems by (simp add: ball_Un inf_absorb2)
next
  case (rw_And_unit2 \<sigma> s u t)
  show ?case using sem_le [of s \<rho>] rw_And_unit2.IH(1) [of \<rho> \<rho>'] rw_And_unit2.IH(2) [of \<rho> \<rho>']
      rw_And_unit2.prems by (simp add: ball_Un inf_absorb1)
next
  case (rw_Or_zero1 \<sigma> s t)
  show ?case using sem_le [of t \<rho>] rw_Or_zero1.IH [of \<rho> \<rho>'] rw_Or_zero1.prems
    by (simp add: ball_Un sup_absorb1)
next
  case (rw_Or_zero2 \<sigma> t s)
  show ?case using sem_le [of s \<rho>] rw_Or_zero2.IH [of \<rho> \<rho>'] rw_Or_zero2.prems
    by (simp add: ball_Un sup_absorb2)
next
  case (rw_And_zero1 \<sigma> s t)
  show ?case using rw_And_zero1.IH [of \<rho> \<rho>'] rw_And_zero1.prems
    by (simp add: ball_Un)
next
  case (rw_And_zero2 \<sigma> t s)
  show ?case using rw_And_zero2.IH [of \<rho> \<rho>'] rw_And_zero2.prems
    by (simp add: ball_Un)
next
  case (rw_Or_unit1 \<sigma> s t u)
  show ?case using rw_Or_unit1.IH(1) [of \<rho> \<rho>'] rw_Or_unit1.IH(2) [of \<rho> \<rho>'] rw_Or_unit1.prems
    by (simp add: ball_Un)
next
  case (rw_Or_unit2 \<sigma> s u t)
  show ?case using rw_Or_unit2.IH(1) [of \<rho> \<rho>'] rw_Or_unit2.IH(2) [of \<rho> \<rho>'] rw_Or_unit2.prems
    by (simp add: ball_Un)
next
  case (rw_And_same \<sigma> s u t)
  have "sem A u \<rho>' = sem A s \<rho>" by (rule rw_And_same.IH(1)) (use rw_And_same.prems in simp_all)
  moreover have "sem A u \<rho>' = sem A t \<rho>" by (rule rw_And_same.IH(2)) (use rw_And_same.prems in simp_all)
  ultimately show ?case by simp
next
  case (rw_Or_same \<sigma> s u t)
  have "sem A u \<rho>' = sem A s \<rho>" by (rule rw_Or_same.IH(1)) (use rw_Or_same.prems in simp_all)
  moreover have "sem A u \<rho>' = sem A t \<rho>" by (rule rw_Or_same.IH(2)) (use rw_Or_same.prems in simp_all)
  ultimately show ?case by simp
qed (simp_all add: ball_Un not_bot not_top)

lemma sem_rewr_closed:
  assumes "rewr \<sigma> t u" "positive t" "plain_formula t" "fv t = {}"
  shows "sem A u (\<lambda>_. bot) = sem A t (\<lambda>_. bot)"
  by (rule sem_rewr [OF assms(1-3)]) (simp_all add: assms(4))

end

end
