(* ===== verification/Transforms.thy ===== *)
theory Transforms
  imports Mu_Duality Preservation "HOL-Library.Sublist"
begin

section \<open>Formula transformations\<close>

text \<open>
  Models \<^verbatim>\<open>mu_calculus/nnf.rs\<close>, \<^verbatim>\<open>mu_calculus/invert.rs\<close> and \<^verbatim>\<open>mu_calculus/env_enforce.rs\<close>. Each pass
  walks the source arena and rebuilds it in a fresh \<open>FormulaBuilder\<close>, renaming every bound
  variable through \<open>var_map\<close>, which is never restored when a binder is left. The walks run on
  fuel, as the analyses of \<^verbatim>\<open>Formula\<close> do; \<open>built\<close> states what one recursive call adds to the
  builder, and each pass is proved from the composition lemmas of \<open>built\<close>.
\<close>

subsection \<open>The passes\<close>

type_synonym var_map = "(nat \<times> nat) list"
type_synonym pass_state = "formula_builder \<times> var_map"
type_synonym pass_result = "(unit, nat \<times> pass_state) res"

definition vm_get :: "var_map \<Rightarrow> nat \<Rightarrow> nat" where
  \<comment> \<open>\<open>var_map.get(&var).copied().unwrap_or(var)\<close>\<close>
  "vm_get vm v = (case map_of vm v of Some w \<Rightarrow> w | None \<Rightarrow> v)"

definition emit :: "node \<Rightarrow> pass_state \<Rightarrow> nat \<times> pass_state" where
  "emit nd st = (case push_node nd (fst st) of (i, b) \<Rightarrow> (i, b, snd st))"

definition bind_var :: "formula \<Rightarrow> nat \<Rightarrow> pass_state \<Rightarrow> pass_result" where
  \<comment> \<open>\<open>let new_var = builder.push_var(formula.vars()[var.0].name.clone()); var_map.insert(var, new_var)\<close>\<close>
  "bind_var f v st =
     (if v < length (f_vars f)
      then (case push_var (f_vars f ! v) (fst st) of (w, b) \<Rightarrow> Ok (w, b, AList.update v w (snd st)))
      else Panic)"

fun nnf_node :: "nat \<Rightarrow> formula \<Rightarrow> nat \<Rightarrow> bool \<Rightarrow> pass_state \<Rightarrow> pass_result" where
  "nnf_node 0 f i negate st = OutOfFuel"
| "nnf_node (Suc k) f i negate st = rbind (node_at f i) (\<lambda>nd.
     case nd of
       NTrue \<Rightarrow> Ok (emit (if negate then NFalse else NTrue) st)
     | NFalse \<Rightarrow> Ok (emit (if negate then NTrue else NFalse) st)
     | NPredicate p \<Rightarrow>
         if negate then (case emit (NPredicate p) st of (a, st1) \<Rightarrow> Ok (emit (NNot a) st1))
         else Ok (emit (NPredicate p) st)
     | NNot a \<Rightarrow> nnf_node k f a (\<not> negate) st
     | NAnd a b \<Rightarrow> rbind (nnf_node k f a negate st) (\<lambda>(na, st1).
         rbind (nnf_node k f b negate st1) (\<lambda>(nb, st2).
           Ok (emit (if negate then NOr na nb else NAnd na nb) st2)))
     | NOr a b \<Rightarrow> rbind (nnf_node k f a negate st) (\<lambda>(na, st1).
         rbind (nnf_node k f b negate st1) (\<lambda>(nb, st2).
           Ok (emit (if negate then NAnd na nb else NOr na nb) st2)))
     | NModal kind g a \<Rightarrow> rbind (nnf_node k f a negate st) (\<lambda>(t, st1).
         Ok (emit (if negate then NModal (dual_kind kind) (dual_guard g) t else NModal kind g t) st1))
     | NMu v b \<Rightarrow> rbind (bind_var f v st) (\<lambda>(w, st1).
         rbind (nnf_node k f b negate st1) (\<lambda>(nb, st2).
           Ok (emit (if negate then NNu w nb else NMu w nb) st2)))
     | NNu v b \<Rightarrow> rbind (bind_var f v st) (\<lambda>(w, st1).
         rbind (nnf_node k f b negate st1) (\<lambda>(nb, st2).
           Ok (emit (if negate then NMu w nb else NNu w nb) st2)))
     | NVariable v \<Rightarrow> Ok (emit (NVariable (vm_get (snd st) v)) st))"

definition to_nnf :: "nat \<Rightarrow> formula \<Rightarrow> (unit, formula) res" where
  "to_nnf k f = rbind (nnf_node k f (f_root f) False (formula_builder_default, []))
     (\<lambda>(root, b, vm). Ok (into_formula b root))"

fun invert_node :: "nat \<Rightarrow> formula \<Rightarrow> nat \<Rightarrow> pass_state \<Rightarrow> pass_result" where
  "invert_node 0 f i st = OutOfFuel"
| "invert_node (Suc k) f i st = rbind (node_at f i) (\<lambda>nd.
     case nd of
       NTrue \<Rightarrow> Ok (emit NFalse st)
     | NFalse \<Rightarrow> Ok (emit NTrue st)
     | NPredicate p \<Rightarrow> (case emit (NPredicate p) st of (a, st1) \<Rightarrow> Ok (emit (NNot a) st1))
     | NNot a \<Rightarrow> invert_node k f a st
     | NAnd a b \<Rightarrow> rbind (invert_node k f a st) (\<lambda>(na, st1).
         rbind (invert_node k f b st1) (\<lambda>(nb, st2). Ok (emit (NOr na nb) st2)))
     | NOr a b \<Rightarrow> rbind (invert_node k f a st) (\<lambda>(na, st1).
         rbind (invert_node k f b st1) (\<lambda>(nb, st2). Ok (emit (NAnd na nb) st2)))
     | NModal kind g a \<Rightarrow> rbind (invert_node k f a st) (\<lambda>(t, st1).
         Ok (emit (NModal (dual_kind kind) (dual_guard g) t) st1))
     | NMu v b \<Rightarrow> rbind (bind_var f v st) (\<lambda>(w, st1).
         rbind (invert_node k f b st1) (\<lambda>(nb, st2). Ok (emit (NNu w nb) st2)))
     | NNu v b \<Rightarrow> rbind (bind_var f v st) (\<lambda>(w, st1).
         rbind (invert_node k f b st1) (\<lambda>(nb, st2). Ok (emit (NMu w nb) st2)))
     | NVariable v \<Rightarrow> Ok (emit (NVariable (vm_get (snd st) v)) st))"

definition invert :: "nat \<Rightarrow> formula \<Rightarrow> (unit, formula) res" where
  "invert k f = rbind (invert_node k f (f_root f) (formula_builder_default, []))
     (\<lambda>(root, b, vm). Ok (into_formula b root))"

fun rewrite_node :: "nat \<Rightarrow> formula \<Rightarrow> nat \<Rightarrow> pass_state \<Rightarrow> pass_result" where
  "rewrite_node 0 f i st = OutOfFuel"
| "rewrite_node (Suc k) f i st = rbind (node_at f i) (\<lambda>nd.
     case nd of
       NTrue \<Rightarrow> Ok (emit NTrue st)
     | NFalse \<Rightarrow> Ok (emit NFalse st)
     | NPredicate p \<Rightarrow> Ok (emit (NPredicate p) st)
     | NNot a \<Rightarrow> rbind (rewrite_node k f a st) (\<lambda>(n, st1). Ok (emit (NNot n) st1))
     | NAnd a b \<Rightarrow> rbind (rewrite_node k f a st) (\<lambda>(na, st1).
         rbind (rewrite_node k f b st1) (\<lambda>(nb, st2). Ok (emit (NAnd na nb) st2)))
     | NOr a b \<Rightarrow> rbind (rewrite_node k f a st) (\<lambda>(na, st1).
         rbind (rewrite_node k f b st1) (\<lambda>(nb, st2). Ok (emit (NOr na nb) st2)))
     | NModal kind g a \<Rightarrow> rbind (rewrite_node k f a st) (\<lambda>(t, st1).
         Ok (emit (NModal Diamond g t) st1))
     | NMu v b \<Rightarrow> rbind (bind_var f v st) (\<lambda>(w, st1).
         rbind (rewrite_node k f b st1) (\<lambda>(nb, st2). Ok (emit (NMu w nb) st2)))
     | NNu v b \<Rightarrow> rbind (bind_var f v st) (\<lambda>(w, st1).
         rbind (rewrite_node k f b st1) (\<lambda>(nb, st2). Ok (emit (NNu w nb) st2)))
     | NVariable v \<Rightarrow> Ok (emit (NVariable (vm_get (snd st) v)) st))"

definition env_enforce :: "nat \<Rightarrow> formula \<Rightarrow> (unit, formula) res" where
  "env_enforce k f = rbind (rewrite_node k f (f_root f) (formula_builder_default, []))
     (\<lambda>(root, b, vm). Ok (into_formula b root))"

subsection \<open>What a recursive call adds to the builder\<close>

inductive arena_tree :: "node list \<Rightarrow> nat \<Rightarrow> fml \<Rightarrow> bool" for ns :: "node list" where
  "i < length ns \<Longrightarrow> ns ! i = NTrue \<Longrightarrow> arena_tree ns i FTrue"
| "i < length ns \<Longrightarrow> ns ! i = NFalse \<Longrightarrow> arena_tree ns i FFalse"
| "i < length ns \<Longrightarrow> ns ! i = NPredicate p \<Longrightarrow> arena_tree ns i (FPred p)"
| "i < length ns \<Longrightarrow> ns ! i = NVariable v \<Longrightarrow> arena_tree ns i (FVar v)"
| "i < length ns \<Longrightarrow> ns ! i = NNot a \<Longrightarrow> arena_tree ns a t \<Longrightarrow> arena_tree ns i (FNot t)"
| "i < length ns \<Longrightarrow> ns ! i = NAnd a b \<Longrightarrow> arena_tree ns a s \<Longrightarrow> arena_tree ns b t
     \<Longrightarrow> arena_tree ns i (FAnd s t)"
| "i < length ns \<Longrightarrow> ns ! i = NOr a b \<Longrightarrow> arena_tree ns a s \<Longrightarrow> arena_tree ns b t
     \<Longrightarrow> arena_tree ns i (FOr s t)"
| "i < length ns \<Longrightarrow> ns ! i = NModal k g a \<Longrightarrow> arena_tree ns a t \<Longrightarrow> arena_tree ns i (FModal k g t)"
| "i < length ns \<Longrightarrow> ns ! i = NMu v a \<Longrightarrow> arena_tree ns a t \<Longrightarrow> arena_tree ns i (FMu v t)"
| "i < length ns \<Longrightarrow> ns ! i = NNu v a \<Longrightarrow> arena_tree ns a t \<Longrightarrow> arena_tree ns i (FNu v t)"

lemma arena_tree_less: "arena_tree ns i t \<Longrightarrow> i < length ns"
  by (cases rule: arena_tree.cases)

lemma arena_tree_prefix: "arena_tree ns i t \<Longrightarrow> prefix ns ms \<Longrightarrow> arena_tree ms i t"
  by (induction rule: arena_tree.induct)
    (auto simp: prefix_def nth_append intro: arena_tree.intros)

lemma arena_tree_of: "arena_tree (f_nodes f) i t \<Longrightarrow> tree_of k f i = Some u \<Longrightarrow> u = t"
proof (induction arbitrary: k u rule: arena_tree.induct)
  case (5 i a t)
  from 5(5,1,2) show ?case by (cases rule: tree_of_cases) (auto dest: 5(4))
next
  case (6 i a b s t)
  from 6(7,1,2) show ?case by (cases rule: tree_of_cases) (auto dest: 6(5,6))
next
  case (7 i a b s t)
  from 7(7,1,2) show ?case by (cases rule: tree_of_cases) (auto dest: 7(5,6))
next
  case (8 i k g a t)
  from 8(5,1,2) show ?case by (cases rule: tree_of_cases) (auto dest: 8(4))
next
  case (9 i v a t)
  from 9(5,1,2) show ?case by (cases rule: tree_of_cases) (auto dest: 9(4))
next
  case (10 i v a t)
  from 10(5,1,2) show ?case by (cases rule: tree_of_cases) (auto dest: 10(4))
qed (auto elim: tree_of_cases)

lemma arena_tree_tree:
  assumes "wf_nodes (fb_nodes b)" "arena_tree (fb_nodes b) i t"
  shows "tree (into_formula b i) = Some t"
proof -
  obtain u where "tree (into_formula b i) = Some u"
    using wf_formula_tree [of "into_formula b i"] assms arena_tree_less
    by (auto simp: wf_formula_def into_formula_def)
  then show ?thesis using arena_tree_of [of "into_formula b i" i t] assms(2)
    by (auto simp: tree_def into_formula_def)
qed

lemma wf_nodes_snoc: "wf_nodes ns \<Longrightarrow> \<forall>j \<in> set (children nd). j < length ns \<Longrightarrow> wf_nodes (ns @ [nd])"
  by (auto simp: wf_nodes_def nth_append less_Suc_eq)

definition extends_builder :: "formula_builder \<Rightarrow> formula_builder \<Rightarrow> bool" where
  "extends_builder b b' \<longleftrightarrow>
     prefix (fb_nodes b) (fb_nodes b') \<and> length (fb_vars b) \<le> length (fb_vars b')"

lemma extends_trans [trans]: "extends_builder a b \<Longrightarrow> extends_builder b c \<Longrightarrow> extends_builder a c"
  by (auto simp: extends_builder_def intro: prefix_order.trans)

definition built :: "pass_state \<Rightarrow> fml \<Rightarrow> nat \<times> pass_state \<Rightarrow> bool" where
  "built st t r \<longleftrightarrow>
     (case (st, r) of ((b, vm), (j, b', vm')) \<Rightarrow>
        wf_nodes (fb_nodes b') \<and> extends_builder b b'
        \<and> (\<exists>u. arena_tree (fb_nodes b') j u \<and> rewr (vm_get vm) t u)
        \<and> (\<forall>v. v \<notin> set (binders t) \<longrightarrow> map_of vm' v = map_of vm v))"

definition scoped :: "formula \<Rightarrow> nat set \<Rightarrow> pass_state \<Rightarrow> fml \<Rightarrow> bool" where
  \<comment> \<open>\<open>D\<close>: the variables in scope, all mapped to variables of the new arena\<close>
  "scoped f D st t \<longleftrightarrow>
     wf_nodes (fb_nodes (fst st)) \<and> fv t \<subseteq> D \<and> D \<inter> set (binders t) = {} \<and> distinct (binders t)
     \<and> set (binders t) \<subseteq> {..<length (f_vars f)}
     \<and> (\<forall>v \<in> D. \<exists>w < length (fb_vars (fst st)). map_of (snd st) v = Some w)"

lemma built_emit0:
  assumes "wf_nodes (fb_nodes (fst st))" "children nd = []" "rewr (vm_get (snd st)) t u"
    and "\<And>ns i. i < length ns \<Longrightarrow> ns ! i = nd \<Longrightarrow> arena_tree ns i u"
  shows "built st t (emit nd st)"
proof -
  have "arena_tree (fb_nodes (fst st) @ [nd]) (length (fb_nodes (fst st))) u" by (rule assms(4)) simp_all
  then show ?thesis using assms(1-3) by (cases st)
    (auto simp: built_def emit_def push_node_def extends_builder_def wf_nodes_snoc)
qed

lemma built_emit1:
  assumes "built st t (j, st1)" "set (children nd) = {j}" "binders t' = binders t"
    and "\<And>ns i u. i < length ns \<Longrightarrow> ns ! i = nd \<Longrightarrow> arena_tree ns j u \<Longrightarrow> arena_tree ns i (h u)"
    and "\<And>\<sigma> u. rewr \<sigma> t u \<Longrightarrow> rewr \<sigma> t' (h u)"
  shows "built st t' (emit nd st1)"
proof -
  obtain b vm b1 vm1 where st: "st = (b, vm)" "st1 = (b1, vm1)" by fastforce
  then obtain u where u: "arena_tree (fb_nodes b1) j u" "rewr (vm_get vm) t u"
    using assms(1) by (auto simp: built_def)
  then have "arena_tree (fb_nodes b1 @ [nd]) j u" by (auto intro: arena_tree_prefix)
  then have "arena_tree (fb_nodes b1 @ [nd]) (length (fb_nodes b1)) (h u)" by (auto intro: assms(4))
  moreover have "wf_nodes (fb_nodes b1 @ [nd])"
    using assms(1,2) st arena_tree_less [OF u(1)] by (auto simp: built_def intro: wf_nodes_snoc)
  ultimately show ?thesis
    using assms(1,3) u(2) assms(5) st
    by (auto simp: built_def emit_def push_node_def extends_builder_def intro: prefix_order.trans)
qed

lemma vm_get_eq: "map_of vm' v = map_of vm v \<Longrightarrow> vm_get vm' v = vm_get vm v"
  by (simp add: vm_get_def)

lemma built_emit2:
  assumes "built st s (i, st1)" "built st1 t (j, st2)" "set (children nd) = {i, j}"
    and "set (binders s) \<inter> fv t = {}" "set (binders t') = set (binders s) \<union> set (binders t)"
    and "\<And>ns l u v. l < length ns \<Longrightarrow> ns ! l = nd \<Longrightarrow> arena_tree ns i u \<Longrightarrow> arena_tree ns j v
      \<Longrightarrow> arena_tree ns l (h u v)"
    and "\<And>\<sigma> u v. rewr \<sigma> s u \<Longrightarrow> rewr \<sigma> t v \<Longrightarrow> rewr \<sigma> t' (h u v)"
  shows "built st t' (emit nd st2)"
proof -
  obtain b vm b1 vm1 b2 vm2 where st: "st = (b, vm)" "st1 = (b1, vm1)" "st2 = (b2, vm2)" by fastforce
  obtain u where u: "arena_tree (fb_nodes b1) i u" "rewr (vm_get vm) s u"
    using assms(1) by (auto simp: built_def st)
  obtain v where v: "arena_tree (fb_nodes b2) j v" "rewr (vm_get vm1) t v"
    using assms(2) by (auto simp: built_def st)
  have "rewr (vm_get vm) t v"
  proof (rule rewr_cong [OF v(2)], intro ballI vm_get_eq)
    show "map_of vm1 y = map_of vm y" if "y \<in> fv t" for y
      using assms(1,4) that unfolding built_def st by blast
  qed
  then have rw: "rewr (vm_get vm) t' (h u v)" by (rule assms(7) [OF u(2)])
  have i: "arena_tree (fb_nodes b2) i u"
    using assms(2) u(1) by (auto simp: built_def st extends_builder_def intro: arena_tree_prefix)
  then have "arena_tree (fb_nodes b2 @ [nd]) i u" "arena_tree (fb_nodes b2 @ [nd]) j v"
    using v(1) by (auto intro: arena_tree_prefix)
  then have tree: "arena_tree (fb_nodes b2 @ [nd]) (length (fb_nodes b2)) (h u v)" by (auto intro: assms(6))
  have wf: "wf_nodes (fb_nodes b2 @ [nd])"
    using assms(2,3) arena_tree_less [OF i] arena_tree_less [OF v(1)]
    by (auto simp: built_def st intro: wf_nodes_snoc)
  have "extends_builder b b2" using assms(1,2) by (auto simp: built_def st intro: extends_trans)
  then show ?thesis using assms(1,2,5) rw tree wf
    by (auto simp: built_def st emit_def push_node_def extends_builder_def intro: prefix_order.trans)
qed

lemma built_bind:
  assumes "bind_var f v st = Ok (w, st1)" "built st1 t (j, st2)" "set (children nd) = {j}"
    and "\<forall>y \<in> fv t - {v}. vm_get (snd st) y < length (fb_vars (fst st))" "binders t' = v # binders t"
    and "\<And>ns l u. l < length ns \<Longrightarrow> ns ! l = nd \<Longrightarrow> arena_tree ns j u \<Longrightarrow> arena_tree ns l (h u)"
    and "\<And>\<sigma> u. rewr (\<sigma>(v := w)) t u \<Longrightarrow> \<forall>y \<in> fv t - {v}. \<sigma> y \<noteq> w \<Longrightarrow> rewr \<sigma> t' (h u)"
  shows "built st t' (emit nd st2)"
proof -
  obtain b vm b2 vm2 where st: "st = (b, vm)" "st2 = (b2, vm2)" by fastforce
  define name where "name = f_vars f ! v"
  have st1: "st1 = (b\<lparr>fb_vars := fb_vars b @ [name]\<rparr>, AList.update v w vm)" "w = length (fb_vars b)"
    using assms(1) unfolding bind_var_def st push_var_def name_def
    by (simp_all split: if_split_asm) (elim conjE, simp)
  obtain u where u: "arena_tree (fb_nodes b2) j u" "rewr (vm_get (AList.update v w vm)) t u"
    using assms(2) by (auto simp: built_def st st1)
  have "vm_get (AList.update v w vm) = (vm_get vm)(v := w)" by (auto simp: vm_get_def update_conv)
  then have "rewr (vm_get vm) t' (h u)"
    using u(2) assms(4) by (intro assms(7)) (fastforce simp: st st1)+
  moreover have "arena_tree (fb_nodes b2 @ [nd]) j u" using u(1) by (auto intro: arena_tree_prefix)
  then have "arena_tree (fb_nodes b2 @ [nd]) (length (fb_nodes b2)) (h u)" by (auto intro: assms(6))
  moreover have "wf_nodes (fb_nodes b2 @ [nd])"
    using assms(2,3) arena_tree_less [OF u(1)] by (auto simp: built_def st st1 intro: wf_nodes_snoc)
  ultimately show ?thesis using assms(2,5)
    by (auto simp: built_def st st1 emit_def push_node_def extends_builder_def update_conv
        intro: prefix_order.trans)
qed

lemma scoped_bind:
  assumes "scoped f D st t'" "binders t' = v # binders t" "fv t' = fv t - {v}"
  shows "\<exists>w st1. bind_var f v st = Ok (w, st1) \<and> scoped f (insert v D) st1 t
    \<and> (\<forall>y \<in> fv t - {v}. vm_get (snd st) y < length (fb_vars (fst st)))"
proof -
  obtain b vm where st: "st = (b, vm)" by fastforce
  have "v < length (f_vars f)" using assms by (auto simp: scoped_def)
  moreover have "\<forall>y \<in> fv t - {v}. vm_get vm y < length (fb_vars b)"
    using assms by (fastforce simp: scoped_def st vm_get_def)
  moreover have "scoped f (insert v D) (b\<lparr>fb_vars := fb_vars b @ [f_vars f ! v]\<rparr>,
      AList.update v (length (fb_vars b)) vm) t"
    using assms by (fastforce simp: scoped_def st update_conv)
  ultimately show ?thesis by (simp add: bind_var_def st push_var_def)
qed

lemma scoped_next:
  assumes "scoped f D st t'" "built st s (i, st1)" "set (binders s) \<subseteq> set (binders t')"
    and "set (binders t) \<subseteq> set (binders t')" "fv t \<subseteq> fv t'" "distinct (binders t)"
  shows "scoped f D st1 t"
proof -
  obtain b vm b1 vm1 where st: "st = (b, vm)" "st1 = (b1, vm1)" by (meson surj_pair)
  have b: "wf_nodes (fb_nodes b1)" "length (fb_vars b) \<le> length (fb_vars b1)"
    and vm: "\<And>v. v \<notin> set (binders s) \<Longrightarrow> map_of vm1 v = map_of vm v"
    using assms(2) unfolding built_def extends_builder_def st by blast+
  have in_scope: "\<forall>v \<in> D. \<exists>w < length (fb_vars b). map_of vm v = Some w"
    using assms(1) by (simp add: scoped_def st)
  have "\<exists>w < length (fb_vars b1). map_of vm1 v = Some w" if v: "v \<in> D" for v
  proof -
    have "v \<notin> set (binders s)" using assms(1,3) v unfolding scoped_def by blast
    moreover obtain w where "w < length (fb_vars b)" "map_of vm v = Some w"
      using bspec [OF in_scope v] by blast
    ultimately show ?thesis using vm [of v] b(2) by (intro exI [of _ w]) simp
  qed
  moreover have "fv t \<subseteq> D" "D \<inter> set (binders t) = {}" "set (binders t) \<subseteq> {..<length (f_vars f)}"
    using assms(1,4,5) unfolding scoped_def by blast+
  ultimately show ?thesis using assms(6) b(1) by (simp add: scoped_def st)
qed

text \<open>
  A recursive call that realises the tree function \<open>T\<close>, and the three ways the passes compose
  calls: one child, two children, a binder.
\<close>

definition realises :: "(nat \<Rightarrow> pass_state \<Rightarrow> pass_result) \<Rightarrow> (fml \<Rightarrow> fml) \<Rightarrow> nat \<Rightarrow> formula \<Rightarrow> bool" where
  "realises P T k f \<longleftrightarrow>
     (\<forall>i t D st. tree_of k f i = Some t \<longrightarrow> scoped f D st t \<longrightarrow> (\<exists>r. P i st = Ok r \<and> built st (T t) r))
     \<and> (\<forall>t. binders (T t) = binders t \<and> fv (T t) = fv t)"

lemma realises_call:
  assumes "realises P T k f" "tree_of k f i = Some t" "scoped f D st t"
  obtains x st1 where "P i st = Ok (x, st1)" "built st (T t) (x, st1)"
proof -
  obtain r where "P i st = Ok r" "built st (T t) r" using assms unfolding realises_def by blast
  then show ?thesis using that by (cases r) simp
qed

lemma realises_leaf:
  assumes "scoped f D st t" "children nd = []"
    and "\<And>ns i. i < length ns \<Longrightarrow> ns ! i = nd \<Longrightarrow> arena_tree ns i u" "rewr (vm_get (snd st)) t' u"
  shows "built st t' (emit nd st)"
  using assms built_emit0 [of st nd t' u] by (simp add: scoped_def)

lemma realises_one:
  assumes "realises P T k f" "tree_of k f a = Some s" "scoped f D st t" "fv t = fv s" "binders t = binders s"
    and "\<And>x. set (children (N x)) = {x}" "binders t' = binders s"
    and "\<And>ns x i u. i < length ns \<Longrightarrow> ns ! i = N x \<Longrightarrow> arena_tree ns x u \<Longrightarrow> arena_tree ns i (h u)"
    and "\<And>\<sigma> u. rewr \<sigma> (T s) u \<Longrightarrow> rewr \<sigma> t' (h u)"
  shows "\<exists>r. rbind (P a st) (\<lambda>(x, st1). Ok (emit (N x) st1)) = Ok r \<and> built st t' r"
proof -
  have "scoped f D st s" using assms(3-5) by (simp add: scoped_def)
  then obtain x st1 where x: "P a st = Ok (x, st1)" "built st (T s) (x, st1)"
    by (rule realises_call [OF assms(1,2)])
  have "built st t' (emit (N x) st1)"
    by (rule built_emit1 [OF x(2)]) (use assms(1,6-9) in \<open>auto simp: realises_def\<close>)
  then show ?thesis by (simp add: x)
qed

lemma realises_two:
  assumes P: "realises P T k f" and t: "tree_of k f a = Some s" "tree_of k f b = Some u" "scoped f D st t"
    and fv: "fv t = fv s \<union> fv u" "binders t = binders s @ binders u"
    and N: "\<And>x y. set (children (N x y)) = {x, y}" "binders t' = binders s @ binders u"
    "\<And>ns x y i v w. i < length ns \<Longrightarrow> ns ! i = N x y \<Longrightarrow> arena_tree ns x v \<Longrightarrow> arena_tree ns y w
        \<Longrightarrow> arena_tree ns i (h v w)"
    "\<And>\<sigma> v w. rewr \<sigma> (T s) v \<Longrightarrow> rewr \<sigma> (T u) w \<Longrightarrow> rewr \<sigma> t' (h v w)"
  shows "\<exists>r. rbind (P a st) (\<lambda>(x, st1). rbind (P b st1) (\<lambda>(y, st2). Ok (emit (N x y) st2))) = Ok r
    \<and> built st t' r"
proof -
  have T: "binders (T v) = binders v" "fv (T v) = fv v" for v using P unfolding realises_def by blast+
  have "scoped f D st s" using t(3) fv by (auto simp: scoped_def)
  then obtain x st1 where x: "P a st = Ok (x, st1)" "built st (T s) (x, st1)"
    by (rule realises_call [OF P t(1)])
  have "scoped f D st1 u"
    by (rule scoped_next [OF t(3) x(2)]) (use t(3) fv T in \<open>auto simp: scoped_def\<close>)
  then obtain y st2 where y: "P b st1 = Ok (y, st2)" "built st1 (T u) (y, st2)"
    by (rule realises_call [OF P t(2)])
  have "built st t' (emit (N x y) st2)"
  proof (rule built_emit2 [OF x(2) y(2) N(1) _ _ N(3,4)])
    show "set (binders (T s)) \<inter> fv (T u) = {}" using t(3) fv by (simp only: T) (auto simp: scoped_def)
    show "set (binders t') = set (binders (T s)) \<union> set (binders (T u))" by (simp only: T N(2) set_append)
  qed
  then show ?thesis by (simp add: x y)
qed

lemma realises_bind:
  assumes P: "realises P T k f" and t: "tree_of k f a = Some s" "scoped f D st t"
    and fv: "fv t = fv s - {v}" "binders t = v # binders s"
    and N: "\<And>x w. set (children (N w x)) = {x}" "binders t' = v # binders s"
    "\<And>ns x i w u. i < length ns \<Longrightarrow> ns ! i = N w x \<Longrightarrow> arena_tree ns x u \<Longrightarrow> arena_tree ns i (h w u)"
    "\<And>\<sigma> u w. rewr (\<sigma>(v := w)) (T s) u \<Longrightarrow> \<forall>y \<in> fv s - {v}. \<sigma> y \<noteq> w \<Longrightarrow> rewr \<sigma> t' (h w u)"
  shows "\<exists>r. rbind (bind_var f v st) (\<lambda>(w, st1). rbind (P a st1) (\<lambda>(x, st2). Ok (emit (N w x) st2))) = Ok r
    \<and> built st t' r"
proof -
  have T: "binders (T u) = binders u" "fv (T u) = fv u" for u using P unfolding realises_def by blast+
  obtain w st1 where w: "bind_var f v st = Ok (w, st1)" "scoped f (insert v D) st1 s"
    "\<forall>y \<in> fv s - {v}. vm_get (snd st) y < length (fb_vars (fst st))"
    using scoped_bind [OF t(2) fv(2,1)] by blast
  obtain x st2 where x: "P a st1 = Ok (x, st2)" "built st1 (T s) (x, st2)"
    by (rule realises_call [OF P t(1) w(2)])
  have "built st t' (emit (N w x) st2)"
    by (rule built_bind [where h = "h w", OF w(1) x(2) N(1) _ _ N(3)]) (use w(3) N(2,4) in \<open>simp_all add: T\<close>)
  then show ?thesis by (simp add: w x)
qed

lemmas realises_intros = rewr.intros arena_tree.intros

lemma rewr_nnf_binder:
  assumes "rewr (\<sigma>(v := w)) (nnf_tree n s) u" "\<forall>y \<in> fv s - {v}. \<sigma> y \<noteq> w"
  shows "rewr \<sigma> (FMu v (nnf_tree n s)) (FMu w u)" "rewr \<sigma> (FNu v (nnf_tree n s)) (FNu w u)"
  using assms by (auto intro!: rewr.rw_Mu rewr.rw_Nu)

lemma nnf_realises: "realises (\<lambda>i. nnf_node k f i n) (nnf_tree n) k f"
proof (induction k arbitrary: n)
  case (Suc k)
  have "\<exists>r. nnf_node (Suc k) f i n st = Ok r \<and> built st (nnf_tree n t) r"
    if t: "tree_of (Suc k) f i = Some t" and sc: "scoped f D st t" for i t D st
    using t
  proof (cases rule: tree_of_cases)
    case (NPred m p)
    have 1: "built st (FPred p) (emit (NPredicate p) st)"
      by (rule realises_leaf [OF sc]) (auto intro: realises_intros)
    obtain a st1 where e: "emit (NPredicate p) st = (a, st1)" by (meson surj_pair)
    have "built st (FNot (FPred p)) (emit (NNot a) st1)"
      by (rule built_emit1 [where h = FNot, OF 1 [unfolded e]]) (auto intro: realises_intros)
    then show ?thesis using NPred 1 e by (cases n) simp_all
  next
    case (NNot m a s)
    have s: "tree_of k f a = Some s" "scoped f D st s" using sc NNot by (simp_all add: scoped_def)
    obtain x st1 where "nnf_node k f a (\<not> n) st = Ok (x, st1)" "built st (nnf_tree (\<not> n) s) (x, st1)"
      by (rule realises_call [OF Suc.IH s])
    then show ?thesis using NNot by simp
  next
    case (NAnd m a b s u)
    have "\<exists>r. rbind (nnf_node k f a n st) (\<lambda>(x, st1). rbind (nnf_node k f b n st1) (\<lambda>(y, st2).
          Ok (emit (if n then NOr x y else NAnd x y) st2))) = Ok r \<and> built st (nnf_tree n t) r"
      by (rule realises_two [OF Suc.IH _ _ sc, where s = s and u = u and h = "if n then FOr else FAnd"])
        (use NAnd in \<open>auto intro: realises_intros split: if_splits\<close>)
    then show ?thesis using NAnd by simp
  next
    case (NOr m a b s u)
    have "\<exists>r. rbind (nnf_node k f a n st) (\<lambda>(x, st1). rbind (nnf_node k f b n st1) (\<lambda>(y, st2).
          Ok (emit (if n then NAnd x y else NOr x y) st2))) = Ok r \<and> built st (nnf_tree n t) r"
      by (rule realises_two [OF Suc.IH _ _ sc, where s = s and u = u and h = "if n then FAnd else FOr"])
        (use NOr in \<open>auto intro: realises_intros split: if_splits\<close>)
    then show ?thesis using NOr by simp
  next
    case (NModal m q g a s)
    have "\<exists>r. rbind (nnf_node k f a n st) (\<lambda>(x, st1). Ok (emit (if n then NModal (dual_kind q) (dual_guard g) x
          else NModal q g x) st1)) = Ok r \<and> built st (nnf_tree n t) r"
      by (rule realises_one [OF Suc.IH _ sc, where s = s and h = "if n then FModal (dual_kind q) (dual_guard g) else FModal q g"])
        (use NModal in \<open>auto intro: realises_intros split: if_splits\<close>)
    then show ?thesis using NModal by simp
  next
    case (NMu m v a s)
    have "\<exists>r. rbind (bind_var f v st) (\<lambda>(w, st1). rbind (nnf_node k f a n st1) (\<lambda>(x, st2).
          Ok (emit (if n then NNu w x else NMu w x) st2))) = Ok r \<and> built st (nnf_tree n t) r"
      by (rule realises_bind [OF Suc.IH _ sc, where s = s and h = "if n then FNu else FMu"])
        (use NMu in \<open>auto intro: realises_intros rewr_nnf_binder split: if_splits\<close>)
    then show ?thesis using NMu by simp
  next
    case (NNu m v a s)
    have "\<exists>r. rbind (bind_var f v st) (\<lambda>(w, st1). rbind (nnf_node k f a n st1) (\<lambda>(x, st2).
          Ok (emit (if n then NMu w x else NNu w x) st2))) = Ok r \<and> built st (nnf_tree n t) r"
      by (rule realises_bind [OF Suc.IH _ sc, where s = s and h = "if n then FMu else FNu"])
        (use NNu in \<open>auto intro: realises_intros rewr_nnf_binder split: if_splits\<close>)
    then show ?thesis using NNu by simp
  qed (auto intro: realises_leaf [OF sc] realises_intros)
  then show ?case by (auto simp: realises_def)
qed (simp add: realises_def)

subsection \<open>Running a pass\<close>

definition well_bound :: "formula \<Rightarrow> fml \<Rightarrow> bool" where
  \<comment> \<open>closed, every binder with a variable of its own: what the parser produces\<close>
  "well_bound f t \<longleftrightarrow>
     fv t = {} \<and> distinct (binders t) \<and> set (binders t) \<subseteq> {..<length (f_vars f)}"

lemma realises_run:
  assumes "realises P T (length (f_nodes f)) f" "tree f = Some t" "well_bound f t"
  obtains root b vm u where "P (f_root f) (formula_builder_default, []) = Ok (root, b, vm)"
    "tree (into_formula b root) = Some u" "rewr (vm_get []) (T t) u"
proof -
  have "scoped f {} (formula_builder_default, []) t"
    using assms(3) by (simp add: scoped_def well_bound_def formula_builder_default_def wf_nodes_def)
  from realises_call [OF assms(1) assms(2) [unfolded tree_def] this]
  obtain root st where r: "P (f_root f) (formula_builder_default, []) = Ok (root, st)"
    "built (formula_builder_default, []) (T t) (root, st)" by blast
  obtain b vm where st: "st = (b, vm)" by fastforce
  show ?thesis using r that unfolding st built_def by (auto dest: arena_tree_tree)
qed

inductive_cases rewr_PredE: "rewr \<sigma> (FPred p) u"

lemma rewr_is_nnf: "rewr \<sigma> t u \<Longrightarrow> is_nnf t \<Longrightarrow> is_nnf u"
  by (induction rule: rewr.induct) (auto elim: rewr_PredE)

subsection \<open>The evaluation algebras have duals\<close>

lemma pre_dual:
  "{..<state_count c} - pre_ex c E S = pre_all c E ({..<state_count c} - S)"
  "{..<state_count c} - pre_all c E S = pre_ex c E ({..<state_count c} - S)"
  if "\<And>s e. s < state_count c \<Longrightarrow> e \<in> E s \<Longrightarrow> t_target e < state_count c"
  using that by (auto simp: pre_ex_def pre_all_def)

lemma matching_target: "wf_clts c \<Longrightarrow> s < state_count c \<Longrightarrow> e \<in> matching c g s \<Longrightarrow> t_target e < state_count c"
  using wf_target by (simp add: matching_def)

lemma must_matching_target:
  "wf_clts c \<Longrightarrow> s < state_count c \<Longrightarrow> e \<in> must_matching c g s \<Longrightarrow> t_target e < state_count c"
  by (auto simp: must_matching_def intro: matching_target)

lemma std_pred_le:
  assumes "env_fits env c"
  shows "fst (std_pred c env p) \<subseteq> {..<state_count c}" "snd (std_pred c env p) \<subseteq> {..<state_count c}"
proof -
  have 1: "bset b \<subseteq> {..<state_count c}" if "env_predicate env p = Some b" for b
    using assms that bset_subset [of b] unfolding env_fits_def by fastforce
  have 2: "bset b \<subseteq> {..<state_count c}" if "env_on_demand env = Some ev" "ev p = Ok (Some b)" for ev b
  proof -
    have "length b = state_count c"
      using assms that unfolding env_fits_def by (metis res.inject(1))
    then show ?thesis using bset_subset [of b] by simp
  qed
  show "fst (std_pred c env p) \<subseteq> {..<state_count c}" "snd (std_pred c env p) \<subseteq> {..<state_count c}"
    using 1 2 by (auto simp: std_pred_def split: option.splits res.splits)
qed

lemma kripke_dual:
  assumes wf: "wf_clts c" and fits: "env_fits env c"
  shows "dual_algebra (kripke c env)"
proof
  show "algebra_mono (kripke c env)" by (rule kripke_mono)
  note pre = pre_dual [of c "matching c g" for g, OF matching_target [OF wf]]
  show "a_pred (kripke c env) p \<le> a_top (kripke c env)" for p
    using std_pred_le(1) [OF fits] by (simp add: kripke_def)
  show "a_not (kripke c env) (a_modal (kripke c env) k g x) = a_modal (kripke c env) (dual_kind k) g (a_not (kripke c env) x)"
    for k g x by (cases k) (simp_all add: kripke_def dual_kind_def pre)
qed (auto simp: kripke_def pre_ex_def pre_all_def split: modal_kind.splits)

lemma kmts_dual:
  assumes wf: "wf_clts c" and fits: "env_fits env c"
  shows "dual_algebra (kmts c env)"
proof
  show "algebra_mono (kmts c env)" by (rule kmts_mono)
  note may = pre_dual [of c "matching c g" for g, OF matching_target [OF wf]]
  note must = pre_dual [of c "must_matching c g" for g, OF must_matching_target [OF wf]]
  show "a_pred (kmts c env) p \<le> a_top (kmts c env)" for p
    using std_pred_le [OF fits] by (simp add: kmts_def less_eq_prod_def)
  show "a_not (kmts c env) (a_modal (kmts c env) k g x) = a_modal (kmts c env) (dual_kind k) g (a_not (kmts c env) x)"
    for k g x by (cases k) (simp_all add: kmts_def dual_kind_def may must case_prod_beta)
qed (auto simp: kmts_def pre_ex_def pre_all_def less_eq_prod_def bot_prod_def split: modal_kind.splits)

text \<open>
  The laws need a well-formed model; outside of it the algebra is cut to the trivial one, so that
  the interpretations have no side conditions.
\<close>

definition guarded :: "bool \<Rightarrow> ('l::complete_lattice) mu_algebra \<Rightarrow> 'l mu_algebra" where
  "guarded ok A = (if ok then A
     else \<lparr>a_top = bot, a_pred = (\<lambda>_. bot), a_not = (\<lambda>_. bot), a_modal = (\<lambda>_ _ _. bot)\<rparr>)"

lemma guarded_dual: "(ok \<Longrightarrow> dual_algebra A) \<Longrightarrow> dual_algebra (guarded ok A)"
proof (cases ok)
  case False
  then show ?thesis by unfold_locales (auto simp: guarded_def algebra_mono_def bot_unique)
qed (simp add: guarded_def)

interpretation kr: dual_algebra "guarded (wf_clts c \<and> env_fits env c) (kripke c env)" for c env
  by (rule guarded_dual) (simp add: kripke_dual)

interpretation km: dual_algebra "guarded (wf_clts c \<and> env_fits env c) (kmts c env)" for c env
  by (rule guarded_dual) (simp add: kmts_dual)

lemma sem_pass:
  assumes c: "wf_clts c" "env_fits env c"
    and t: "positive t" "plain_formula t" "fv t = {}" and u: "rewr \<sigma> (nnf_tree n t) u"
  shows "sem (kripke c env) u (\<lambda>_. {}) = (if n then {..<state_count c} - sem (kripke c env) t (\<lambda>_. {})
      else sem (kripke c env) t (\<lambda>_. {}))"
    and "sem (kmts c env) u (\<lambda>_. bot) = (if n then a_not (kmts c env) (sem (kmts c env) t (\<lambda>_. bot))
      else sem (kmts c env) t (\<lambda>_. bot))"
proof -
  have nnf: "positive (nnf_tree n t)" "plain_formula (nnf_tree n t)" "fv (nnf_tree n t) = {}"
    using t by (simp_all add: is_nnf_positive nnf_tree_is_nnf)
  have g: "guarded (wf_clts c \<and> env_fits env c) A = A" for A :: "('l::complete_lattice) mu_algebra"
    using c by (simp add: guarded_def)
  show "sem (kmts c env) u (\<lambda>_. bot) = (if n then a_not (kmts c env) (sem (kmts c env) t (\<lambda>_. bot))
      else sem (kmts c env) t (\<lambda>_. bot))"
    using km.sem_rewr_closed [OF u nnf, of c env] km.sem_nnf_closed [OF t, of c env n] by (simp add: g)
  show "sem (kripke c env) u (\<lambda>_. {}) = (if n then {..<state_count c} - sem (kripke c env) t (\<lambda>_. {})
      else sem (kripke c env) t (\<lambda>_. {}))"
    using kr.sem_rewr_closed [OF u nnf, of c env] kr.sem_nnf_closed [OF t, of c env n]
    by (simp add: g kripke_def)
qed

lemma same_values:
  assumes "wf_clts c" "simple_clts c" "no_oob c" "env_fits env c" "o_prior_approximants opts = None"
    and t: "tree f = Some t" "positive t" "plain_formula t" and u: "tree g = Some u" "positive u" "plain_formula u"
    and eq: "sem (kripke c env) u (\<lambda>_. {}) = sem (kripke c env) t (\<lambda>_. {})"
      "sem (kmts c env) u (\<lambda>_. bot) = sem (kmts c env) t (\<lambda>_. bot)"
  shows "\<exists>bits v. (\<forall>k \<ge> need (state_count c) t. evaluate_with_options k f c env opts = Ok bits)
    \<and> (\<forall>k \<ge> need (state_count c) u. evaluate_with_options k g c env opts = Ok bits)
    \<and> (\<forall>k \<ge> need (2 * state_count c) t. evaluate_tri_with_options k f c env opts = Ok v)
    \<and> (\<forall>k \<ge> need (2 * state_count c) u. evaluate_tri_with_options k g c env opts = Ok v)"
proof -
  have prior: "no_prior opts x" for x by (simp add: no_prior_def assms(5))
  obtain x where x: "\<forall>k \<ge> need (state_count c) t. evaluate_with_options k f c env opts = Ok x"
    "length x = state_count c" "bset x = sem (kripke c env) t (\<lambda>_. {})"
    by (rule bool_value [OF assms(1-4) t prior])
  obtain y where y: "\<forall>k \<ge> need (state_count c) u. evaluate_with_options k g c env opts = Ok y"
    "length y = state_count c" "bset y = sem (kripke c env) u (\<lambda>_. {})"
    by (rule bool_value [OF assms(1-4) u prior])
  obtain v where v: "\<forall>k \<ge> need (2 * state_count c) t. evaluate_tri_with_options k f c env opts = Ok v"
    "(bset (must_true v), bset (may_true v)) = sem (kmts c env) t (\<lambda>_. bot)" "wf_tritset (state_count c) v"
    by (rule tri_value [OF assms(1-4) t prior])
  obtain w where w: "\<forall>k \<ge> need (2 * state_count c) u. evaluate_tri_with_options k g c env opts = Ok w"
    "(bset (must_true w), bset (may_true w)) = sem (kmts c env) u (\<lambda>_. bot)" "wf_tritset (state_count c) w"
    by (rule tri_value [OF assms(1-4) u prior])
  have "x = y" using x(2,3) y(2,3) eq(1) by (simp add: bv_eq_iff)
  moreover have "v = w"
    by (rule tritset_eqI [OF v(3) w(3)])
      (use trans [OF v(2) trans [OF eq(2) [symmetric] w(2) [symmetric]]] in \<open>simp add: verdict_at_def\<close>)
  ultimately show ?thesis using x(1) y(1) v(1) w(1) by blast
qed



subsection \<open>Inversion\<close>

primrec not_free :: "fml \<Rightarrow> bool" where
  "not_free FTrue = True"
| "not_free FFalse = True"
| "not_free (FPred p) = True"
| "not_free (FVar v) = True"
| "not_free (FNot t) = False"
| "not_free (FAnd s t) = (not_free s \<and> not_free t)"
| "not_free (FOr s t) = (not_free s \<and> not_free t)"
| "not_free (FModal k g t) = not_free t"
| "not_free (FMu v t) = not_free t"
| "not_free (FNu v t) = not_free t"

lemma not_free_is_nnf: "not_free t \<Longrightarrow> is_nnf t"
  by (induction t) auto

lemma invert_node_nnf:
  "tree_of k f i = Some t \<Longrightarrow> not_free t \<Longrightarrow> invert_node k f i st = nnf_node k f i True st"
proof (induction k arbitrary: i t st)
  case (Suc k)
  from Suc.prems show ?case
    by (cases rule: tree_of_cases) (auto simp: Suc.IH intro!: arg_cong2 [where f = rbind])
qed simp



definition not_p :: formula where
  \<comment> \<open>\<open>!p\<close>\<close>
  "not_p = \<lparr>f_root = 1, f_nodes = [NPredicate ''p'', NNot 0], f_vars = []\<rparr>"


subsection \<open>Environment enforcement\<close>

primrec enforce_tree :: "fml \<Rightarrow> fml" where
  "enforce_tree FTrue = FTrue"
| "enforce_tree FFalse = FFalse"
| "enforce_tree (FPred p) = FPred p"
| "enforce_tree (FVar v) = FVar v"
| "enforce_tree (FNot t) = FNot (enforce_tree t)"
| "enforce_tree (FAnd s t) = FAnd (enforce_tree s) (enforce_tree t)"
| "enforce_tree (FOr s t) = FOr (enforce_tree s) (enforce_tree t)"
| "enforce_tree (FModal k g t) = FModal Diamond g (enforce_tree t)"
| "enforce_tree (FMu v t) = FMu v (enforce_tree t)"
| "enforce_tree (FNu v t) = FNu v (enforce_tree t)"

lemma enforce_tree_polar [simp]: "polar p v (enforce_tree t) = polar p v t"
  by (induction t arbitrary: p) auto

lemma enforce_tree_simps [simp]:
  "binders (enforce_tree t) = binders t" "fv (enforce_tree t) = fv t" "positive (enforce_tree t) = positive t"
  "plain_formula (enforce_tree t) = plain_formula t" "all_modalities (\<lambda>k g. k = Diamond) (enforce_tree t)"
  by (induction t) auto

lemma enforce_realises: "realises (rewrite_node k f) enforce_tree k f"
proof (induction k)
  case (Suc k)
  have "\<exists>r. rewrite_node (Suc k) f i st = Ok r \<and> built st (enforce_tree t) r"
    if t: "tree_of (Suc k) f i = Some t" and sc: "scoped f D st t" for i t D st
    using t
  proof (cases rule: tree_of_cases)
    case (NNot m a s)
    have "\<exists>r. rbind (rewrite_node k f a st) (\<lambda>(x, st1). Ok (emit (NNot x) st1)) = Ok r
        \<and> built st (enforce_tree t) r"
      by (rule realises_one [OF Suc.IH _ sc, where s = s and h = "FNot"])
        (use NNot in \<open>auto intro: realises_intros\<close>)
    then show ?thesis using NNot by simp
  next
    case (NModal m q g a s)
    have "\<exists>r. rbind (rewrite_node k f a st) (\<lambda>(x, st1). Ok (emit (NModal Diamond g x) st1)) = Ok r
        \<and> built st (enforce_tree t) r"
      by (rule realises_one [OF Suc.IH _ sc, where s = s and h = "FModal Diamond g"])
        (use NModal in \<open>auto intro: realises_intros\<close>)
    then show ?thesis using NModal by simp
  next
    case (NAnd m a b s u)
    have "\<exists>r. rbind (rewrite_node k f a st) (\<lambda>(x, st1). rbind (rewrite_node k f b st1) (\<lambda>(y, st2).
          Ok (emit (NAnd x y) st2))) = Ok r \<and> built st (enforce_tree t) r"
      by (rule realises_two [OF Suc.IH _ _ sc, where s = s and u = u and h = FAnd])
        (use NAnd in \<open>auto intro: realises_intros\<close>)
    then show ?thesis using NAnd by simp
  next
    case (NOr m a b s u)
    have "\<exists>r. rbind (rewrite_node k f a st) (\<lambda>(x, st1). rbind (rewrite_node k f b st1) (\<lambda>(y, st2).
          Ok (emit (NOr x y) st2))) = Ok r \<and> built st (enforce_tree t) r"
      by (rule realises_two [OF Suc.IH _ _ sc, where s = s and u = u and h = FOr])
        (use NOr in \<open>auto intro: realises_intros\<close>)
    then show ?thesis using NOr by simp
  next
    case (NMu m v a s)
    have "\<exists>r. rbind (bind_var f v st) (\<lambda>(w, st1). rbind (rewrite_node k f a st1) (\<lambda>(x, st2).
          Ok (emit (NMu w x) st2))) = Ok r \<and> built st (enforce_tree t) r"
      by (rule realises_bind [OF Suc.IH _ sc, where s = s and h = FMu])
        (use NMu in \<open>auto intro: realises_intros intro!: rewr.rw_Mu rewr.rw_Nu\<close>)
    then show ?thesis using NMu by simp
  next
    case (NNu m v a s)
    have "\<exists>r. rbind (bind_var f v st) (\<lambda>(w, st1). rbind (rewrite_node k f a st1) (\<lambda>(x, st2).
          Ok (emit (NNu w x) st2))) = Ok r \<and> built st (enforce_tree t) r"
      by (rule realises_bind [OF Suc.IH _ sc, where s = s and h = FNu])
        (use NNu in \<open>auto intro: realises_intros intro!: rewr.rw_Mu rewr.rw_Nu\<close>)
    then show ?thesis using NNu by simp
  qed (auto intro: realises_leaf [OF sc] realises_intros)
  then show ?case by (auto simp: realises_def)
qed (simp add: realises_def)

lemma sem_enforce:
  assumes "is_nnf t" "all_modalities (\<lambda>k g. \<forall>s < state_count c. matching c g s \<noteq> {}) t" "\<forall>v. \<rho> v \<subseteq> \<rho>' v"
  shows "sem (kripke c env) t \<rho> \<subseteq> sem (kripke c env) (enforce_tree t) \<rho>'"
  using assms
proof (induction t arbitrary: \<rho> \<rho>')
  case (FModal k g t)
  then have "sem (kripke c env) t \<rho> \<subseteq> sem (kripke c env) (enforce_tree t) \<rho>'" by simp
  then show ?case using FModal.prems(2)
    by (cases k) (auto simp: kripke_def pre_ex_def pre_all_def, blast+)
next
  case (FMu v t)
  then show ?case by (auto intro!: lfp_mono del: subsetI)
next
  case (FNu v t)
  then show ?case by (auto intro!: gfp_mono Int_mono del: subsetI)
qed (auto, blast+)


definition ex_safe :: formula where
  \<comment> \<open>\<open>nu X. (p && [] X)\<close>\<close>
  "ex_safe = \<lparr>f_root = 4, f_nodes = [NPredicate ''p'', NVariable 0, NModal Box guard_default 1,
     NAnd 0 2, NNu 0 3], f_vars = [''X'']\<rparr>"


end
