(* ===== verification/Simplify.thy ===== *)
theory Simplify
  imports Transforms
begin

section \<open>The simplifier\<close>

text \<open>
  Models \<^verbatim>\<open>mu_calculus/simplify.rs\<close>: the \<open>Simplifier\<close> with its builder, the cache of already
  simplified nodes, the variable map (restored when a binder is left, unlike in the passes of
  \<^verbatim>\<open>Transforms\<close>) and the shared nodes for the constants. The cache is keyed by the node only; it is
  sound because a node is simplified under one renaming of the variables in scope. The invariant
  \<open>simp_inv\<close> says so: \<open>D\<close> are the variables in scope and \<open>L\<close> those whose binder was left.
\<close>

subsection \<open>The pass\<close>

record simplifier =
  sp_builder :: formula_builder
  sp_cache :: "(nat \<times> nat) list"
  sp_vm :: var_map
  sp_true :: "nat option"
  sp_false :: "nat option"

definition simplifier_new :: simplifier where
  "simplifier_new = \<lparr>sp_builder = formula_builder_default, sp_cache = [], sp_vm = [],
     sp_true = None, sp_false = None\<rparr>"

type_synonym simp_result = "(unit, nat \<times> simplifier) res"

definition sp_push :: "node \<Rightarrow> simplifier \<Rightarrow> nat \<times> simplifier" where
  "sp_push nd st = (case push_node nd (sp_builder st) of (i, b) \<Rightarrow> (i, st\<lparr>sp_builder := b\<rparr>))"

definition true_node :: "simplifier \<Rightarrow> nat \<times> simplifier" where
  "true_node st = (case sp_true st of
      Some i \<Rightarrow> (i, st)
    | None \<Rightarrow> (case sp_push NTrue st of (i, st1) \<Rightarrow> (i, st1\<lparr>sp_true := Some i\<rparr>)))"

definition false_node :: "simplifier \<Rightarrow> nat \<times> simplifier" where
  "false_node st = (case sp_false st of
      Some i \<Rightarrow> (i, st)
    | None \<Rightarrow> (case sp_push NFalse st of (i, st1) \<Rightarrow> (i, st1\<lparr>sp_false := Some i\<rparr>)))"

definition sp_node_is :: "node \<Rightarrow> simplifier \<Rightarrow> nat \<Rightarrow> (unit, bool) res" where
  \<comment> \<open>\<open>matches!(self.builder.node(id), ..)\<close>\<close>
  "sp_node_is nd st i =
     (if i < length (fb_nodes (sp_builder st)) then Ok (fb_nodes (sp_builder st) ! i = nd) else Panic)"

definition simplify_and :: "nat \<Rightarrow> nat \<Rightarrow> simplifier \<Rightarrow> simp_result" where
  \<comment> \<open>after both operands are simplified\<close>
  "simplify_and l r st =
     rbind (sp_node_is NFalse st l) (\<lambda>fl. rbind (if fl then Ok True else sp_node_is NFalse st r) (\<lambda>f.
       if f then Ok (false_node st)
       else rbind (sp_node_is NTrue st l) (\<lambda>tl. if tl then Ok (r, st)
         else rbind (sp_node_is NTrue st r) (\<lambda>tr. if tr then Ok (l, st)
           else if l = r then Ok (l, st) else Ok (sp_push (NAnd l r) st)))))"

definition simplify_or :: "nat \<Rightarrow> nat \<Rightarrow> simplifier \<Rightarrow> simp_result" where
  "simplify_or l r st =
     rbind (sp_node_is NTrue st l) (\<lambda>tl. rbind (if tl then Ok True else sp_node_is NTrue st r) (\<lambda>t.
       if t then Ok (true_node st)
       else rbind (sp_node_is NFalse st l) (\<lambda>fl. if fl then Ok (r, st)
         else rbind (sp_node_is NFalse st r) (\<lambda>fr. if fr then Ok (l, st)
           else if l = r then Ok (l, st) else Ok (sp_push (NOr l r) st)))))"

definition sp_variable :: "formula \<Rightarrow> nat \<Rightarrow> simplifier \<Rightarrow> simp_result" where
  "sp_variable f v st = (case map_of (sp_vm st) v of
      Some w \<Rightarrow> Ok (sp_push (NVariable w) st)
    | None \<Rightarrow>
        if v < length (f_vars f)
        then (case push_var (f_vars f ! v) (sp_builder st) of (w, b) \<Rightarrow>
          Ok (sp_push (NVariable w) (st\<lparr>sp_builder := b, sp_vm := AList.update v w (sp_vm st)\<rparr>)))
        else Panic)"

definition sp_enter :: "formula \<Rightarrow> nat \<Rightarrow> simplifier \<Rightarrow> simp_result" where
  \<comment> \<open>the part of \<open>simplify_fixpoint\<close> before the body\<close>
  "sp_enter f v st =
     (if v < length (f_vars f)
      then (case push_var (f_vars f ! v) (sp_builder st) of (w, b) \<Rightarrow>
        Ok (w, st\<lparr>sp_builder := b, sp_vm := AList.update v w (sp_vm st)\<rparr>))
      else Panic)"

definition sp_leave :: "nat \<Rightarrow> nat option \<Rightarrow> simplifier \<Rightarrow> simplifier" where
  "sp_leave v previous st = (case previous of
      Some p \<Rightarrow> st\<lparr>sp_vm := AList.update v p (sp_vm st)\<rparr>
    | None \<Rightarrow> st\<lparr>sp_vm := AList.delete v (sp_vm st)\<rparr>)"

fun simplify_node :: "nat \<Rightarrow> formula \<Rightarrow> nat \<Rightarrow> simplifier \<Rightarrow> simp_result" where
  "simplify_node 0 f i st = OutOfFuel"
| "simplify_node (Suc k) f i st =
     (case map_of (sp_cache st) i of
        Some cached \<Rightarrow> Ok (cached, st)
      | None \<Rightarrow> rbind (node_at f i) (\<lambda>nd. rbind (case nd of
            NTrue \<Rightarrow> Ok (true_node st)
          | NFalse \<Rightarrow> Ok (false_node st)
          | NPredicate p \<Rightarrow> Ok (sp_push (NPredicate p) st)
          | NVariable v \<Rightarrow> sp_variable f v st
          | NNot a \<Rightarrow> rbind (node_at f a) (\<lambda>inner. case inner of
                NTrue \<Rightarrow> Ok (false_node st)
              | NFalse \<Rightarrow> Ok (true_node st)
              | NNot b \<Rightarrow> simplify_node k f b st
              | _ \<Rightarrow> rbind (simplify_node k f a st) (\<lambda>(x, st1). Ok (sp_push (NNot x) st1)))
          | NAnd a b \<Rightarrow> rbind (simplify_node k f a st) (\<lambda>(l, st1).
              rbind (simplify_node k f b st1) (\<lambda>(r, st2). simplify_and l r st2))
          | NOr a b \<Rightarrow> rbind (simplify_node k f a st) (\<lambda>(l, st1).
              rbind (simplify_node k f b st1) (\<lambda>(r, st2). simplify_or l r st2))
          | NModal kind g a \<Rightarrow> rbind (simplify_node k f a st) (\<lambda>(x, st1).
              Ok (sp_push (NModal kind g x) st1))
          | NMu v b \<Rightarrow> rbind (sp_enter f v st) (\<lambda>(w, st1).
              rbind (simplify_node k f b st1) (\<lambda>(x, st2).
                Ok (sp_push (NMu w x) (sp_leave v (map_of (sp_vm st) v) st2))))
          | NNu v b \<Rightarrow> rbind (sp_enter f v st) (\<lambda>(w, st1).
              rbind (simplify_node k f b st1) (\<lambda>(x, st2).
                Ok (sp_push (NNu w x) (sp_leave v (map_of (sp_vm st) v) st2)))))
          (\<lambda>(simplified, st1).
             Ok (simplified, st1\<lparr>sp_cache := AList.update i simplified (sp_cache st1)\<rparr>))))"

definition simplify :: "nat \<Rightarrow> formula \<Rightarrow> (unit, formula) res" where
  "simplify k f = rbind (simplify_node k f (f_root f) simplifier_new)
     (\<lambda>(root, st). Ok (into_formula (sp_builder st) root))"

subsection \<open>The invariant\<close>

definition const_ok :: "node \<Rightarrow> nat option \<Rightarrow> node list \<Rightarrow> bool" where
  "const_ok nd slot ns \<longleftrightarrow> (\<forall>i. slot = Some i \<longrightarrow> i < length ns \<and> ns ! i = nd)"

definition cache_ok :: "formula \<Rightarrow> nat set \<Rightarrow> nat set \<Rightarrow> simplifier \<Rightarrow> bool" where
  "cache_ok f D L st \<longleftrightarrow> (\<forall>i j m t. map_of (sp_cache st) i = Some j \<longrightarrow> tree_of m f i = Some t \<longrightarrow>
     fv t \<subseteq> D \<union> L \<and> (fv t \<subseteq> D \<longrightarrow>
       (\<exists>u. arena_tree (fb_nodes (sp_builder st)) j u \<and> rewr (vm_get (sp_vm st)) t u)))"

definition simp_inv :: "formula \<Rightarrow> nat set \<Rightarrow> nat set \<Rightarrow> simplifier \<Rightarrow> bool" where
  "simp_inv f D L st \<longleftrightarrow>
     wf_nodes (fb_nodes (sp_builder st))
     \<and> const_ok NTrue (sp_true st) (fb_nodes (sp_builder st))
     \<and> const_ok NFalse (sp_false st) (fb_nodes (sp_builder st))
     \<and> (\<forall>v \<in> D. \<exists>w < length (fb_vars (sp_builder st)). map_of (sp_vm st) v = Some w)
     \<and> cache_ok f D L st"

definition simplified ::
  "formula \<Rightarrow> nat set \<Rightarrow> nat set \<Rightarrow> simplifier \<Rightarrow> fml \<Rightarrow> nat \<times> simplifier \<Rightarrow> bool" where
  "simplified f D L st t r \<longleftrightarrow>
     (case r of (j, st') \<Rightarrow>
        simp_inv f D L st' \<and> extends_builder (sp_builder st) (sp_builder st')
        \<and> map_of (sp_vm st') = map_of (sp_vm st)
        \<and> (\<exists>u. arena_tree (fb_nodes (sp_builder st')) j u \<and> rewr (vm_get (sp_vm st)) t u))"

lemma const_ok_prefix: "const_ok nd slot ns \<Longrightarrow> prefix ns ms \<Longrightarrow> const_ok nd slot ms"
  by (auto simp: const_ok_def prefix_def nth_append)

lemma vm_get_cong: "map_of vm = map_of vm' \<Longrightarrow> vm_get vm = vm_get vm'"
  by (simp add: vm_get_def fun_eq_iff)

lemma cache_ok_mono:
  assumes "cache_ok f D L st" "prefix (fb_nodes (sp_builder st)) (fb_nodes (sp_builder st'))"
    and "sp_cache st' = sp_cache st" "\<And>v. v \<in> D \<Longrightarrow> map_of (sp_vm st') v = map_of (sp_vm st) v" "L \<subseteq> L'"
  shows "cache_ok f D L' st'"
  unfolding cache_ok_def
proof (intro allI impI)
  fix i j m t
  assume c: "map_of (sp_cache st') i = Some j" and t: "tree_of m f i = Some t"
  then have 1: "fv t \<subseteq> D \<union> L" "fv t \<subseteq> D \<longrightarrow>
      (\<exists>u. arena_tree (fb_nodes (sp_builder st)) j u \<and> rewr (vm_get (sp_vm st)) t u)"
    using assms(1,3) unfolding cache_ok_def by metis+
  have "rewr (vm_get (sp_vm st')) t u" if "fv t \<subseteq> D" "rewr (vm_get (sp_vm st)) t u" for u
    by (rule rewr_cong [OF that(2)]) (use that(1) assms(4) in \<open>auto intro: vm_get_eq [symmetric]\<close>)
  then show "fv t \<subseteq> D \<union> L' \<and> (fv t \<subseteq> D \<longrightarrow>
      (\<exists>u. arena_tree (fb_nodes (sp_builder st')) j u \<and> rewr (vm_get (sp_vm st')) t u))"
    using 1 assms(2,5) arena_tree_prefix by blast
qed

lemma simplified_push:
  assumes "simp_inv f D L st" "\<forall>j \<in> set (children nd). j < length (fb_nodes (sp_builder st))"
    and "arena_tree (fb_nodes (sp_builder st) @ [nd]) (length (fb_nodes (sp_builder st))) u"
    and "rewr (vm_get (sp_vm st)) t u"
  shows "simplified f D L st t (sp_push nd st)"
proof -
  let ?st = "st\<lparr>sp_builder := sp_builder st\<lparr>fb_nodes := fb_nodes (sp_builder st) @ [nd]\<rparr>\<rparr>"
  have "cache_ok f D L ?st"
    by (rule cache_ok_mono [of f D L st]) (use assms(1) in \<open>simp_all add: simp_inv_def\<close>)
  moreover have "const_ok x s (fb_nodes (sp_builder st) @ [nd])"
    if "const_ok x s (fb_nodes (sp_builder st))" for x s
    using that by (rule const_ok_prefix) simp
  ultimately have "simp_inv f D L ?st" using assms(1,2) by (auto simp: simp_inv_def wf_nodes_snoc)
  then show ?thesis
    unfolding simplified_def sp_push_def push_node_def extends_builder_def
    using assms(3,4) by (simp, blast)
qed

lemma simplified_trans:
  assumes "simplified f D L st s (i, st1)" "simplified f D L' st1 t r"
  shows "simplified f D L' st t r"
proof -
  obtain j st2 where r: "r = (j, st2)" by (cases r)
  have 1: "extends_builder (sp_builder st) (sp_builder st1)" "map_of (sp_vm st1) = map_of (sp_vm st)"
    using assms(1) by (auto simp: simplified_def)
  have "vm_get (sp_vm st1) = vm_get (sp_vm st)" by (rule vm_get_cong) (rule 1(2))
  then show ?thesis
    using assms(2) extends_trans [OF 1(1), of "sp_builder st2"] 1(2) by (simp add: simplified_def r)
qed

lemma simp_inv_const:
  assumes "simp_inv f D L st" "i < length (fb_nodes (sp_builder st))"
  shows "fb_nodes (sp_builder st) ! i = NTrue \<Longrightarrow> simp_inv f D L (st\<lparr>sp_true := Some i\<rparr>)"
    and "fb_nodes (sp_builder st) ! i = NFalse \<Longrightarrow> simp_inv f D L (st\<lparr>sp_false := Some i\<rparr>)"
  using assms by (simp_all add: simp_inv_def const_ok_def cache_ok_def)

lemma simplified_true:
  assumes "simp_inv f D L st" "rewr (vm_get (sp_vm st)) t FTrue"
  shows "simplified f D L st t (true_node st)"
proof (cases "sp_true st")
  case None
  let ?i = "length (fb_nodes (sp_builder st))"
  obtain st1 where st1: "sp_push NTrue st = (?i, st1)"
    "fb_nodes (sp_builder st1) = fb_nodes (sp_builder st) @ [NTrue]"
    by (simp add: sp_push_def push_node_def)
  have "simplified f D L st t (?i, st1)"
    unfolding st1(1) [symmetric] by (rule simplified_push [OF assms(1)]) (auto intro: arena_tree.intros assms(2))
  then have "simplified f D L st t (?i, st1\<lparr>sp_true := Some ?i\<rparr>)"
    using simp_inv_const [of f D L st1 ?i] by (simp add: simplified_def st1(2))
  then show ?thesis using None by (simp add: true_node_def st1(1))
next
  case (Some i)
  then have "arena_tree (fb_nodes (sp_builder st)) i FTrue"
    using assms(1) by (auto simp: simp_inv_def const_ok_def intro: arena_tree.intros)
  then show ?thesis using Some assms by (auto simp: true_node_def simplified_def extends_builder_def)
qed

lemma simplified_false:
  assumes "simp_inv f D L st" "rewr (vm_get (sp_vm st)) t FFalse"
  shows "simplified f D L st t (false_node st)"
proof (cases "sp_false st")
  case None
  let ?i = "length (fb_nodes (sp_builder st))"
  obtain st1 where st1: "sp_push NFalse st = (?i, st1)"
    "fb_nodes (sp_builder st1) = fb_nodes (sp_builder st) @ [NFalse]"
    by (simp add: sp_push_def push_node_def)
  have "simplified f D L st t (?i, st1)"
    unfolding st1(1) [symmetric] by (rule simplified_push [OF assms(1)]) (auto intro: arena_tree.intros assms(2))
  then have "simplified f D L st t (?i, st1\<lparr>sp_false := Some ?i\<rparr>)"
    using simp_inv_const [of f D L st1 ?i] by (simp add: simplified_def st1(2))
  then show ?thesis using None by (simp add: false_node_def st1(1))
next
  case (Some i)
  then have "arena_tree (fb_nodes (sp_builder st)) i FFalse"
    using assms(1) by (auto simp: simp_inv_def const_ok_def intro: arena_tree.intros)
  then show ?thesis using Some assms by (auto simp: false_node_def simplified_def extends_builder_def)
qed

inductive_cases arena_treeE: "arena_tree ns i t"

lemma arena_tree_const:
  "arena_tree ns i u \<Longrightarrow> ns ! i = NTrue \<Longrightarrow> u = FTrue" "arena_tree ns i u \<Longrightarrow> ns ! i = NFalse \<Longrightarrow> u = FFalse"
  by (erule arena_treeE; simp)+

lemma arena_tree_snoc: "arena_tree ns i t \<Longrightarrow> arena_tree (ns @ [nd]) i t"
  by (erule arena_tree_prefix) simp

lemma simp_inv_unique:
  assumes "simp_inv f D L st" "arena_tree (fb_nodes (sp_builder st)) i t" "arena_tree (fb_nodes (sp_builder st)) i u"
  shows "u = t"
  using assms arena_tree_tree [of "sp_builder st" i] unfolding simp_inv_def by (metis option.inject)

lemma simplify_and_ok:
  assumes inv: "simp_inv f D L st" and ns: "arena_tree (fb_nodes (sp_builder st)) l u"
    "arena_tree (fb_nodes (sp_builder st)) r v"
    and rw: "rewr (vm_get (sp_vm st)) s u" "rewr (vm_get (sp_vm st)) t v"
  shows "\<exists>x. simplify_and l r st = Ok x \<and> simplified f D L st (FAnd s t) x"
proof -
  let ?ns = "fb_nodes (sp_builder st)"
  have lt: "l < length ?ns" "r < length ?ns" using ns by (auto dest: arena_tree_less)
  have keep: "simplified f D L st (FAnd s t) (j, st)"
    if "arena_tree ?ns j w" "rewr (vm_get (sp_vm st)) (FAnd s t) w" for j w
    using inv that by (auto simp: simplified_def extends_builder_def)
  have "simplified f D L st (FAnd s t) (sp_push (NAnd l r) st)"
    by (rule simplified_push [OF inv, of _ "FAnd u v"])
      (use lt ns rw in \<open>auto intro: arena_tree.intros rewr.intros arena_tree_snoc\<close>)
  moreover have "simplified f D L st (FAnd s t) (false_node st)" if "?ns ! l = NFalse \<or> ?ns ! r = NFalse"
    using that ns rw arena_tree_const by (intro simplified_false [OF inv]) (metis rewr.rw_And_zero1 rewr.rw_And_zero2)
  moreover have "simplified f D L st (FAnd s t) (r, st)" if "?ns ! l = NTrue"
    using that ns rw arena_tree_const by (intro keep [OF ns(2)]) (metis rewr.rw_And_unit1)
  moreover have "simplified f D L st (FAnd s t) (l, st)" if "?ns ! r = NTrue"
    using that ns rw arena_tree_const by (intro keep [OF ns(1)]) (metis rewr.rw_And_unit2)
  moreover have "simplified f D L st (FAnd s t) (l, st)" if "l = r"
    using that ns rw simp_inv_unique [OF inv] by (intro keep [OF ns(1)]) (metis rewr.rw_And_same)
  ultimately show ?thesis using lt by (auto simp: simplify_and_def sp_node_is_def simp del: split_paired_Ex)
qed

lemma simplify_or_ok:
  assumes inv: "simp_inv f D L st" and ns: "arena_tree (fb_nodes (sp_builder st)) l u"
    "arena_tree (fb_nodes (sp_builder st)) r v"
    and rw: "rewr (vm_get (sp_vm st)) s u" "rewr (vm_get (sp_vm st)) t v"
  shows "\<exists>x. simplify_or l r st = Ok x \<and> simplified f D L st (FOr s t) x"
proof -
  let ?ns = "fb_nodes (sp_builder st)"
  have lt: "l < length ?ns" "r < length ?ns" using ns by (auto dest: arena_tree_less)
  have keep: "simplified f D L st (FOr s t) (j, st)"
    if "arena_tree ?ns j w" "rewr (vm_get (sp_vm st)) (FOr s t) w" for j w
    using inv that by (auto simp: simplified_def extends_builder_def)
  have "simplified f D L st (FOr s t) (sp_push (NOr l r) st)"
    by (rule simplified_push [OF inv, of _ "FOr u v"])
      (use lt ns rw in \<open>auto intro: arena_tree.intros rewr.intros arena_tree_snoc\<close>)
  moreover have "simplified f D L st (FOr s t) (true_node st)" if "?ns ! l = NTrue \<or> ?ns ! r = NTrue"
    using that ns rw arena_tree_const by (intro simplified_true [OF inv]) (metis rewr.rw_Or_zero1 rewr.rw_Or_zero2)
  moreover have "simplified f D L st (FOr s t) (r, st)" if "?ns ! l = NFalse"
    using that ns rw arena_tree_const by (intro keep [OF ns(2)]) (metis rewr.rw_Or_unit1)
  moreover have "simplified f D L st (FOr s t) (l, st)" if "?ns ! r = NFalse"
    using that ns rw arena_tree_const by (intro keep [OF ns(1)]) (metis rewr.rw_Or_unit2)
  moreover have "simplified f D L st (FOr s t) (l, st)" if "l = r"
    using that ns rw simp_inv_unique [OF inv] by (intro keep [OF ns(1)]) (metis rewr.rw_Or_same)
  ultimately show ?thesis using lt by (auto simp: simplify_or_def sp_node_is_def simp del: split_paired_Ex)
qed

lemma simplified_cache:
  assumes "simplified f D L st t (j, st1)" "tree_of m f i = Some t" "fv t \<subseteq> D"
  shows "simplified f D L st t (j, st1\<lparr>sp_cache := AList.update i j (sp_cache st1)\<rparr>)"
proof -
  let ?st = "st1\<lparr>sp_cache := AList.update i j (sp_cache st1)\<rparr>"
  have inv: "simp_inv f D L st1" and vm: "map_of (sp_vm st1) = map_of (sp_vm st)"
    and u: "\<exists>u. arena_tree (fb_nodes (sp_builder st1)) j u \<and> rewr (vm_get (sp_vm st)) t u"
    using assms(1) by (auto simp: simplified_def)
  have "cache_ok f D L ?st"
    unfolding cache_ok_def
  proof (intro allI impI)
    fix i' j' n s
    assume c: "map_of (sp_cache ?st) i' = Some j'" and s: "tree_of n f i' = Some s"
    show "fv s \<subseteq> D \<union> L \<and> (fv s \<subseteq> D \<longrightarrow>
       (\<exists>u. arena_tree (fb_nodes (sp_builder ?st)) j' u \<and> rewr (vm_get (sp_vm ?st)) s u))"
    proof (cases "i' = i")
      case True
      then have "s = t" "j' = j" using c s tree_of_unique [OF assms(2)] by (auto simp: update_conv)
      then show ?thesis using assms(3) u vm_get_cong [OF vm] by auto
    next
      case False
      then have "map_of (sp_cache st1) i' = Some j'" using c by (simp add: update_conv)
      then show ?thesis using inv s unfolding simp_inv_def cache_ok_def by simp
    qed
  qed
  then show ?thesis using assms(1) inv by (simp add: simplified_def simp_inv_def)
qed

lemma cache_ok_enter:
  assumes "cache_ok f D L st" "v \<notin> D \<union> L" "sp_cache st1 = sp_cache st"
    and "fb_nodes (sp_builder st1) = fb_nodes (sp_builder st)"
    and "map_of (sp_vm st1) = (map_of (sp_vm st))(v \<mapsto> w)"
  shows "cache_ok f (insert v D) L st1"
  unfolding cache_ok_def
proof (intro allI impI)
  fix i j m t
  assume c: "map_of (sp_cache st1) i = Some j" and t: "tree_of m f i = Some t"
  then have 1: "fv t \<subseteq> D \<union> L" "fv t \<subseteq> D \<longrightarrow>
      (\<exists>u. arena_tree (fb_nodes (sp_builder st)) j u \<and> rewr (vm_get (sp_vm st)) t u)"
    using assms(1,3) unfolding cache_ok_def by metis+
  have "\<exists>u. arena_tree (fb_nodes (sp_builder st1)) j u \<and> rewr (vm_get (sp_vm st1)) t u"
    if "fv t \<subseteq> insert v D"
  proof -
    have "fv t \<subseteq> D" using that 1(1) assms(2) by auto
    moreover from this have "\<forall>y \<in> fv t. vm_get (sp_vm st) y = vm_get (sp_vm st1) y"
      using assms(2,5) by (auto simp: vm_get_def)
    ultimately show ?thesis using 1(2) rewr_cong assms(4) by metis
  qed
  then show "fv t \<subseteq> insert v D \<union> L \<and> (fv t \<subseteq> insert v D \<longrightarrow>
      (\<exists>u. arena_tree (fb_nodes (sp_builder st1)) j u \<and> rewr (vm_get (sp_vm st1)) t u))"
    using 1(1) by blast
qed

lemma simp_enter:
  assumes inv: "simp_inv f D L st" and v: "v \<notin> D \<union> L" "v < length (f_vars f)"
  obtains st1 where "sp_enter f v st = Ok (length (fb_vars (sp_builder st)), st1)"
    "simp_inv f (insert v D) L st1" "extends_builder (sp_builder st) (sp_builder st1)"
    "map_of (sp_vm st1) = (map_of (sp_vm st))(v \<mapsto> length (fb_vars (sp_builder st)))"
proof -
  let ?w = "length (fb_vars (sp_builder st))"
  let ?st = "st\<lparr>sp_builder := sp_builder st\<lparr>fb_vars := fb_vars (sp_builder st) @ [f_vars f ! v]\<rparr>,
      sp_vm := AList.update v ?w (sp_vm st)\<rparr>"
  have "cache_ok f (insert v D) L ?st"
    using inv v(1) by (intro cache_ok_enter [of f D L st v _ ?w]) (simp_all add: simp_inv_def update_conv')
  then have "simp_inv f (insert v D) L ?st"
    using inv v(1) by (auto simp: simp_inv_def update_conv less_Suc_eq)
  then show ?thesis
    using that [of ?st] v(2) by (simp add: sp_enter_def push_var_def extends_builder_def update_conv')
qed

lemma simp_leave:
  assumes inv: "simp_inv f (insert v D) L st2" and vm: "map_of (sp_vm st2) = (map_of vm0)(v \<mapsto> w)"
    and D: "v \<notin> D"
  shows "simp_inv f D (insert v L) (sp_leave v (map_of vm0 v) st2)"
    and "map_of (sp_vm (sp_leave v (map_of vm0 v) st2)) = map_of vm0"
    and "sp_builder (sp_leave v (map_of vm0 v) st2) = sp_builder st2"
proof -
  let ?st = "sp_leave v (map_of vm0 v) st2"
  show vm': "map_of (sp_vm ?st) = map_of vm0"
    using vm by (auto simp: sp_leave_def update_conv delete_conv fun_eq_iff split: option.splits)
  show b: "sp_builder ?st = sp_builder st2" by (simp add: sp_leave_def split: option.splits)
  have c: "sp_cache ?st = sp_cache st2" "sp_true ?st = sp_true st2" "sp_false ?st = sp_false st2"
    by (simp_all add: sp_leave_def split: option.splits)
  have eq: "map_of (sp_vm ?st) y = map_of (sp_vm st2) y" if "y \<in> D" for y
    using that D vm vm' by auto
  have "cache_ok f D (insert v L) ?st"
    unfolding cache_ok_def
  proof (intro allI impI)
    fix i j m t
    assume ij: "map_of (sp_cache ?st) i = Some j" and t: "tree_of m f i = Some t"
    have 1: "fv t \<subseteq> insert v D \<union> L" "fv t \<subseteq> insert v D \<longrightarrow>
        (\<exists>u. arena_tree (fb_nodes (sp_builder st2)) j u \<and> rewr (vm_get (sp_vm st2)) t u)"
      using inv ij t c unfolding simp_inv_def cache_ok_def by metis+
    have "\<exists>u. arena_tree (fb_nodes (sp_builder st2)) j u \<and> rewr (vm_get (sp_vm ?st)) t u" if "fv t \<subseteq> D"
    proof -
      have "\<forall>y \<in> fv t. vm_get (sp_vm st2) y = vm_get (sp_vm ?st) y"
        using that eq by (auto intro: vm_get_eq [symmetric])
      then show ?thesis using 1(2) that rewr_cong by (meson subset_insertI2)
    qed
    then show "fv t \<subseteq> D \<union> insert v L \<and> (fv t \<subseteq> D \<longrightarrow>
        (\<exists>u. arena_tree (fb_nodes (sp_builder ?st)) j u \<and> rewr (vm_get (sp_vm ?st)) t u))"
      using 1(1) b by auto
  qed
  then show "simp_inv f D (insert v L) ?st" using inv eq by (auto simp: simp_inv_def b c)
qed

definition simp_scope :: "formula \<Rightarrow> nat set \<Rightarrow> nat set \<Rightarrow> fml \<Rightarrow> bool" where
  "simp_scope f D L t \<longleftrightarrow> fv t \<subseteq> D \<and> set (binders t) \<inter> (D \<union> L) = {} \<and> distinct (binders t)
     \<and> set (binders t) \<subseteq> {..<length (f_vars f)}"

lemma simplified_fix:
  assumes inv: "simp_inv f D L st" and sc: "simp_scope f D L t'"
    and t': "fv t' = fv t - {v}" "binders t' = v # binders t"
    and sub: "\<And>st1. simp_inv f (insert v D) L st1 \<Longrightarrow>
      \<exists>x st2. P st1 = Ok (x, st2) \<and> simplified f (insert v D) (L \<union> set (binders t)) st1 t (x, st2)"
    and N: "\<And>x w. children (N w x) = [x]"
    "\<And>ns x i w u. i < length ns \<Longrightarrow> ns ! i = N w x \<Longrightarrow> arena_tree ns x u \<Longrightarrow> arena_tree ns i (h w u)"
    "\<And>\<sigma> u w. rewr (\<sigma>(v := w)) t u \<Longrightarrow> \<forall>y \<in> fv t - {v}. \<sigma> y \<noteq> w \<Longrightarrow> rewr \<sigma> t' (h w u)"
  shows "\<exists>r. rbind (sp_enter f v st) (\<lambda>(w, st1). rbind (P st1) (\<lambda>(x, st2).
      Ok (sp_push (N w x) (sp_leave v (map_of (sp_vm st) v) st2)))) = Ok r
    \<and> simplified f D (L \<union> set (binders t')) st t' r"
proof -
  let ?w = "length (fb_vars (sp_builder st))"
  have v: "v \<notin> D \<union> L" "v < length (f_vars f)" using sc t' by (auto simp: simp_scope_def)
  obtain st1 where st1: "sp_enter f v st = Ok (?w, st1)" "simp_inv f (insert v D) L st1"
    "extends_builder (sp_builder st) (sp_builder st1)" "map_of (sp_vm st1) = (map_of (sp_vm st))(v \<mapsto> ?w)"
    by (rule simp_enter [OF inv v])
  obtain x st2 where x: "P st1 = Ok (x, st2)" "simplified f (insert v D) (L \<union> set (binders t)) st1 t (x, st2)"
    using sub [OF st1(2)] by blast
  obtain u where u: "arena_tree (fb_nodes (sp_builder st2)) x u" "rewr (vm_get (sp_vm st1)) t u"
    and inv2: "simp_inv f (insert v D) (L \<union> set (binders t)) st2"
    and ext: "extends_builder (sp_builder st1) (sp_builder st2)"
    and vm2: "map_of (sp_vm st2) = (map_of (sp_vm st))(v \<mapsto> ?w)"
    using x(2) st1(4) by (auto simp: simplified_def)
  have "v \<notin> D" using v(1) by simp
  note st3 = simp_leave [OF inv2 vm2 this]
  let ?st = "sp_leave v (map_of (sp_vm st) v) st2"
  have "vm_get (sp_vm st1) = (vm_get (sp_vm st))(v := ?w)" using st1(4) by (auto simp: vm_get_def)
  moreover have "\<forall>y \<in> fv t - {v}. vm_get (sp_vm st) y \<noteq> ?w"
    using inv sc t'(1) by (fastforce simp: simp_inv_def simp_scope_def vm_get_def)
  ultimately have rw: "rewr (vm_get (sp_vm st)) t' (h ?w u)" using u(2) N(3) by metis
  have "simplified f D (L \<union> set (binders t')) ?st t' (sp_push (N ?w x) ?st)"
  proof (rule simplified_push)
    show "simp_inv f D (L \<union> set (binders t')) ?st" using st3(1) t'(2) by (simp add: insert_commute)
    show "\<forall>j \<in> set (children (N ?w x)). j < length (fb_nodes (sp_builder ?st))"
      using arena_tree_less [OF u(1)] by (simp add: N(1) st3(3))
    show "arena_tree (fb_nodes (sp_builder ?st) @ [N ?w x]) (length (fb_nodes (sp_builder ?st))) (h ?w u)"
      using arena_tree_snoc [OF u(1)] by (auto intro: N(2) simp: st3(3))
    show "rewr (vm_get (sp_vm ?st)) t' (h ?w u)" using rw vm_get_cong [OF st3(2)] by simp
  qed
  then have "simplified f D (L \<union> set (binders t')) st t' (sp_push (N ?w x) ?st)"
    using st3(2,3) extends_trans [OF st1(3) ext] vm_get_cong [OF st3(2)]
    by (auto simp: simplified_def intro: extends_trans)
  then show ?thesis using st1(1) x(1) by simp
qed

lemma simplified_mono:
  assumes "simplified f D L st t r" "L \<subseteq> L'"
  shows "simplified f D L' st t r"
proof -
  obtain j st1 where r: "r = (j, st1)" by (cases r)
  have "cache_ok f D L' st1"
    by (rule cache_ok_mono [of f D L st1 st1]) (use assms in \<open>simp_all add: simplified_def simp_inv_def r\<close>)
  then show ?thesis using assms(1) unfolding simplified_def simp_inv_def r prod.case by blast
qed

lemma simplified_un:
  assumes x: "simplified f D L st s (x, st1)" and N: "children (N x) = [x]"
    "\<And>ns i u. i < length ns \<Longrightarrow> ns ! i = N x \<Longrightarrow> arena_tree ns x u \<Longrightarrow> arena_tree ns i (h u)"
    "\<And>\<sigma> u. rewr \<sigma> s u \<Longrightarrow> rewr \<sigma> t (h u)"
  shows "simplified f D L st t (sp_push (N x) st1)"
proof (rule simplified_trans [OF x])
  obtain u where u: "arena_tree (fb_nodes (sp_builder st1)) x u" "rewr (vm_get (sp_vm st)) s u"
    and inv: "simp_inv f D L st1" and vm: "map_of (sp_vm st1) = map_of (sp_vm st)"
    using x by (auto simp: simplified_def)
  show "simplified f D L st1 t (sp_push (N x) st1)"
    by (rule simplified_push [OF inv, of _ "h u"])
      (use arena_tree_less [OF u(1)] arena_tree_snoc [OF u(1)] N u(2) vm_get_cong [OF vm] in auto)
qed

lemma simplified_bin:
  assumes sc: "simp_scope f D L t'" and inv: "simp_inv f D L st"
    and t': "fv t' = fv s \<union> fv t" "binders t' = binders s @ binders t"
    and P: "\<And>L st. simp_inv f D L st \<Longrightarrow> simp_scope f D L s \<Longrightarrow>
        \<exists>x st1. P st = Ok (x, st1) \<and> simplified f D (L \<union> set (binders s)) st s (x, st1)"
    and Q: "\<And>L st. simp_inv f D L st \<Longrightarrow> simp_scope f D L t \<Longrightarrow>
        \<exists>x st1. Q st = Ok (x, st1) \<and> simplified f D (L \<union> set (binders t)) st t (x, st1)"
    and N: "\<And>f D L st l r u v. simp_inv f D L st \<Longrightarrow> arena_tree (fb_nodes (sp_builder st)) l u \<Longrightarrow>
        arena_tree (fb_nodes (sp_builder st)) r v \<Longrightarrow> rewr (vm_get (sp_vm st)) s u \<Longrightarrow>
        rewr (vm_get (sp_vm st)) t v \<Longrightarrow> \<exists>x. N l r st = Ok x \<and> simplified f D L st t' x"
  shows "\<exists>r. rbind (P st) (\<lambda>(l, st1). rbind (Q st1) (\<lambda>(r, st2). N l r st2)) = Ok r
    \<and> simplified f D (L \<union> set (binders t')) st t' r"
proof -
  have "simp_scope f D L s" using sc t' by (auto simp: simp_scope_def)
  then obtain l st1 where l: "P st = Ok (l, st1)" "simplified f D (L \<union> set (binders s)) st s (l, st1)"
    using P [OF inv] by blast
  have inv1: "simp_inv f D (L \<union> set (binders s)) st1" using l(2) by (simp add: simplified_def)
  have "simp_scope f D (L \<union> set (binders s)) t" using sc t' by (auto simp: simp_scope_def)
  then obtain r st2 where "Q st1 = Ok (r, st2)"
    "simplified f D (L \<union> set (binders s) \<union> set (binders t)) st1 t (r, st2)"
    using Q [OF inv1] by blast
  then have r: "Q st1 = Ok (r, st2)" "simplified f D (L \<union> set (binders t')) st1 t (r, st2)"
    by (simp_all add: t' Un_assoc)
  obtain u where u: "arena_tree (fb_nodes (sp_builder st1)) l u" "rewr (vm_get (sp_vm st)) s u"
    and vm1: "map_of (sp_vm st1) = map_of (sp_vm st)" using l(2) by (auto simp: simplified_def)
  obtain v where v: "arena_tree (fb_nodes (sp_builder st2)) r v" "rewr (vm_get (sp_vm st1)) t v"
    and inv2: "simp_inv f D (L \<union> set (binders t')) st2" and vm2: "map_of (sp_vm st2) = map_of (sp_vm st1)"
    and ext: "extends_builder (sp_builder st1) (sp_builder st2)"
    using r(2) by (auto simp: simplified_def)
  have "arena_tree (fb_nodes (sp_builder st2)) l u"
    using u(1) ext by (auto simp: extends_builder_def intro: arena_tree_prefix)
  then obtain x where x: "N l r st2 = Ok x" "simplified f D (L \<union> set (binders t')) st2 t' x"
    using N [OF inv2 _ v(1)] u(2) v(2) vm_get_cong [OF vm1] vm_get_cong [OF vm2] by metis
  have "simplified f D (L \<union> set (binders t')) st t' x"
    by (rule simplified_trans [OF l(2)], rule simplified_trans [OF r(2)], rule x(2))
  then show ?thesis using l(1) r(1) x(1) by simp
qed

lemma simplify_node_ok:
  "tree_of k f i = Some t \<Longrightarrow> simp_inv f D L st \<Longrightarrow> simp_scope f D L t \<Longrightarrow>
   \<exists>x st1. simplify_node k f i st = Ok (x, st1) \<and> simplified f D (L \<union> set (binders t)) st t (x, st1)"
proof (induction k arbitrary: i t D L st)
  case (Suc k)
  note inv = Suc.prems(2) and sc = Suc.prems(3)
  let ?L = "L \<union> set (binders t)"
  have fvt: "fv t \<subseteq> D" using sc by (simp add: simp_scope_def)
  show ?case
  proof (cases "map_of (sp_cache st) i")
    case (Some j)
    then have "\<exists>u. arena_tree (fb_nodes (sp_builder st)) j u \<and> rewr (vm_get (sp_vm st)) t u"
      using inv Suc.prems(1) fvt unfolding simp_inv_def cache_ok_def by blast
    then have "simplified f D L st t (j, st)" using inv by (simp add: simplified_def extends_builder_def)
    then show ?thesis using Some simplified_mono [of f D L st t _ ?L] by simp
  next
    case None
    let ?fin = "\<lambda>m. rbind m (\<lambda>(x, st1). Ok (x, st1\<lparr>sp_cache := AList.update i x (sp_cache st1)\<rparr>))"
    have fin: "\<exists>x st1. ?fin m = Ok (x, st1) \<and> simplified f D ?L st t (x, st1)"
      if m: "\<exists>r. m = Ok r \<and> simplified f D ?L st t r" for m
    proof -
      obtain x st1 where "m = Ok (x, st1)" "simplified f D ?L st t (x, st1)"
        using m by (metis surj_pair)
      then show ?thesis using simplified_cache [OF _ Suc.prems(1) fvt] by simp
    qed
    have leaf: "\<exists>x st1. ?fin (Ok r) = Ok (x, st1) \<and> simplified f D ?L st t (x, st1)"
      if "simplified f D L st t r" for r
      using simplified_mono [OF that, of ?L] by (intro fin) blast
    from Suc.prems(1) show ?thesis
    proof (cases rule: tree_of_cases)
      case NTrue
      then show ?thesis using None leaf [OF simplified_true [OF inv]] by (simp add: rewr.intros)
    next
      case NFalse
      then show ?thesis using None leaf [OF simplified_false [OF inv]] by (simp add: rewr.intros)
    next
      case (NPred m p)
      have "simplified f D L st t (sp_push (NPredicate p) st)"
        by (rule simplified_push [OF inv]) (use NPred in \<open>auto intro: arena_tree.intros rewr.intros\<close>)
      from leaf [OF this] show ?thesis using None NPred by simp
    next
      case (NVar m v)
      obtain w where w: "map_of (sp_vm st) v = Some w" using inv fvt NVar by (auto simp: simp_inv_def)
      have "simplified f D L st t (sp_push (NVariable w) st)"
        by (rule simplified_push [OF inv])
          (use NVar w in \<open>auto simp: vm_get_def intro: arena_tree.intros rewr.intros\<close>)
      from leaf [OF this] show ?thesis using None NVar w by (simp add: sp_variable_def)
    next
      case (NAnd m a b s u)
      have "\<exists>r. rbind (simplify_node k f a st) (\<lambda>(l, st1). rbind (simplify_node k f b st1)
          (\<lambda>(r, st2). simplify_and l r st2)) = Ok r \<and> simplified f D ?L st t r"
        by (rule simplified_bin [OF sc inv, where s = s and t = u])
          (use NAnd Suc.IH simplify_and_ok in \<open>auto simp del: split_paired_Ex\<close>)
      from fin [OF this] show ?thesis using None NAnd by simp
    next
      case (NOr m a b s u)
      have "\<exists>r. rbind (simplify_node k f a st) (\<lambda>(l, st1). rbind (simplify_node k f b st1)
          (\<lambda>(r, st2). simplify_or l r st2)) = Ok r \<and> simplified f D ?L st t r"
        by (rule simplified_bin [OF sc inv, where s = s and t = u])
          (use NOr Suc.IH simplify_or_ok in \<open>auto simp del: split_paired_Ex\<close>)
      from fin [OF this] show ?thesis using None NOr by simp
    next
      case (NModal m q g a s)
      have "simp_scope f D L s" using sc NModal by (simp add: simp_scope_def)
      then obtain x st1 where x: "simplify_node k f a st = Ok (x, st1)" "simplified f D ?L st s (x, st1)"
        using Suc.IH [of a s D L st] inv NModal by auto
      have "simplified f D ?L st t (sp_push (NModal q g x) st1)"
        by (rule simplified_un [OF x(2), where h = "FModal q g"])
          (use NModal in \<open>auto intro: arena_tree.intros rewr.intros\<close>)
      then show ?thesis using fin [of "Ok (sp_push (NModal q g x) st1)"] None NModal x(1) by simp
    next
      case (NMu m v a s)
      then have "simp_scope f (insert v D) L s" using sc by (auto simp: simp_scope_def)
      note sub = Suc.IH [OF _ _ this]
      have "\<exists>r. rbind (sp_enter f v st) (\<lambda>(w, st1). rbind (simplify_node k f a st1) (\<lambda>(x, st2).
          Ok (sp_push (NMu w x) (sp_leave v (map_of (sp_vm st) v) st2)))) = Ok r \<and> simplified f D ?L st t r"
        by (rule simplified_fix [OF inv sc, where h = FMu])
          (use NMu sub in \<open>auto simp del: split_paired_Ex intro: arena_tree.intros rewr.rw_Mu\<close>)
      from fin [OF this] show ?thesis using None NMu by simp
    next
      case (NNu m v a s)
      then have "simp_scope f (insert v D) L s" using sc by (auto simp: simp_scope_def)
      note sub = Suc.IH [OF _ _ this]
      have "\<exists>r. rbind (sp_enter f v st) (\<lambda>(w, st1). rbind (simplify_node k f a st1) (\<lambda>(x, st2).
          Ok (sp_push (NNu w x) (sp_leave v (map_of (sp_vm st) v) st2)))) = Ok r \<and> simplified f D ?L st t r"
        by (rule simplified_fix [OF inv sc, where h = FNu])
          (use NNu sub in \<open>auto simp del: split_paired_Ex intro: arena_tree.intros rewr.rw_Nu\<close>)
      from fin [OF this] show ?thesis using None NNu by simp
    next
      case (NNot m a s)
      have scs: "simp_scope f D L s" using sc NNot by (simp add: simp_scope_def)
      obtain x st1 where x: "simplify_node k f a st = Ok (x, st1)" "simplified f D ?L st s (x, st1)"
        using Suc.IH [OF _ inv scs, of a] NNot by auto
      have push: "simplified f D ?L st t (sp_push (NNot x) st1)"
        by (rule simplified_un [OF x(2), where h = FNot])
          (use NNot in \<open>auto intro: arena_tree.intros rewr.intros\<close>)
      have other: ?thesis if "node_at f a = Ok nd" "nd \<noteq> NTrue" "nd \<noteq> NFalse" "\<forall>b. nd \<noteq> NNot b" for nd
        using that fin [of "Ok (sp_push (NNot x) st1)"] push None NNot x(1) by (cases nd) simp_all
      from NNot(6) show ?thesis
      proof (cases rule: tree_of_cases)
        case NTrue
        then show ?thesis using None NNot leaf [OF simplified_false [OF inv]] by (simp add: rewr.intros)
      next
        case NFalse
        then show ?thesis using None NNot leaf [OF simplified_true [OF inv]] by (simp add: rewr.intros)
      next
        case (NNot m' b u)
        have "simp_scope f D L u" using scs NNot by (simp add: simp_scope_def)
        moreover have "tree_of k f b = Some u" using NNot \<open>Suc k = Suc m\<close> tree_of_mono [of m' f b u k] by simp
        ultimately obtain y st2 where y: "simplify_node k f b st = Ok (y, st2)" "simplified f D ?L st u (y, st2)"
          using Suc.IH [OF _ inv, of b u] NNot \<open>t = FNot s\<close> by auto
        then have "simplified f D ?L st t (y, st2)" using NNot \<open>t = FNot s\<close>
          by (auto simp: simplified_def intro: rewr.intros)
        then show ?thesis using fin [of "Ok (y, st2)"] None NNot \<open>node_at f i = Ok (node.NNot a)\<close> y(1) by simp
      qed (erule other; simp)+
    qed
  qed
qed simp

subsection \<open>The simplifier preserves the meaning\<close>

lemma simplify_run:
  assumes "tree f = Some t" "well_bound f t"
  obtains g u where "simplify (length (f_nodes f)) f = Ok g" "tree g = Some u" "rewr (vm_get []) t u"
proof -
  have "simp_inv f {} {} simplifier_new"
    by (simp add: simp_inv_def simplifier_new_def formula_builder_default_def wf_nodes_def const_ok_def cache_ok_def)
  moreover have "simp_scope f {} {} t" using assms(2) by (simp add: simp_scope_def well_bound_def)
  ultimately obtain x st where x: "simplify_node (length (f_nodes f)) f (f_root f) simplifier_new = Ok (x, st)"
    "simplified f {} (set (binders t)) simplifier_new t (x, st)"
    using simplify_node_ok [OF assms(1) [unfolded tree_def], of "{}" "{}" simplifier_new] by auto
  then obtain u where u: "arena_tree (fb_nodes (sp_builder st)) x u" "rewr (vm_get []) t u"
    "wf_nodes (fb_nodes (sp_builder st))"
    by (auto simp: simplified_def simp_inv_def simplifier_new_def)
  have "tree (into_formula (sp_builder st) x) = Some u" by (rule arena_tree_tree [OF u(3,1)])
  then show ?thesis using that x(1) u(2) by (simp add: simplify_def)
qed

text \<open>
  C19: The simplifier preserves the meaning. For every closed positive formula whose binders are
  distinct, shared sub-formulas allowed, \<open>simplify\<close> terminates without an out-of-range access, and
  both evaluators return on the simplified formula exactly what they return on the original. The
  node cache, keyed by the source node alone, never returns a node simplified under another
  renaming of its variables.
\<close>

theorem simplify_equivalent:
  assumes "wf_clts c" "simple_clts c" "no_oob c" "env_fits env c"
    and "tree f = Some t" "well_bound f t" "positive t" "plain_formula t" "o_prior_approximants opts = None"
  shows "\<exists>g u bits v. simplify (length (f_nodes f)) f = Ok g \<and> tree g = Some u
    \<and> (\<forall>k \<ge> need (state_count c) t. evaluate_with_options k f c env opts = Ok bits)
    \<and> (\<forall>k \<ge> need (state_count c) u. evaluate_with_options k g c env opts = Ok bits)
    \<and> (\<forall>k \<ge> need (2 * state_count c) t. evaluate_tri_with_options k f c env opts = Ok v)
    \<and> (\<forall>k \<ge> need (2 * state_count c) u. evaluate_tri_with_options k g c env opts = Ok v)"
proof -
  obtain g u where g: "simplify (length (f_nodes f)) f = Ok g" "tree g = Some u" "rewr (vm_get []) t u"
    by (rule simplify_run [OF assms(5,6)])
  have u: "positive u" "plain_formula u" "fv t = {}"
    using g(3) assms(6-8) rewr_positive rewr_modalities by (metis well_bound_def)+
  have ok: "guarded (wf_clts c \<and> env_fits env c) A = A" for A :: "('l::complete_lattice) mu_algebra"
    using assms(1,4) by (simp add: guarded_def)
  have eq: "sem (kripke c env) u (\<lambda>_. {}) = sem (kripke c env) t (\<lambda>_. {})"
    "sem (kmts c env) u (\<lambda>_. bot) = sem (kmts c env) t (\<lambda>_. bot)"
    using kr.sem_rewr_closed [OF g(3) assms(7,8) u(3), of c env]
      km.sem_rewr_closed [OF g(3) assms(7,8) u(3), of c env] by (simp_all add: ok)
  show ?thesis using same_values [OF assms(1-4,9,5,7,8) g(2) u(1,2) eq] g(1,2) by blast
qed

definition ex_redundant :: formula where
  \<comment> \<open>\<open>!!(p && true) || (p && true)\<close>, with a shared node\<close>
  "ex_redundant = \<lparr>f_root = 5, f_nodes = [NPredicate ''p'', NTrue, NAnd 0 1, NNot 2, NNot 3, NOr 4 2],
     f_vars = []\<rparr>"

theorem simplify_equivalent_witness:
  "simplify 6 ex_redundant = Ok \<lparr>f_root = 0, f_nodes = [NPredicate ''p'', NTrue], f_vars = []\<rparr>
   \<and> (\<exists>g u bits v. simplify 6 ex_redundant = Ok g \<and> tree g = Some u
    \<and> (\<forall>k \<ge> 5. evaluate_with_options k ex_redundant ex_clts ex_env options_default = Ok bits)
    \<and> (\<forall>k \<ge> need 3 u. evaluate_with_options k g ex_clts ex_env options_default = Ok bits)
    \<and> (\<forall>k \<ge> 5. evaluate_tri_with_options k ex_redundant ex_clts ex_env options_default = Ok v)
    \<and> (\<forall>k \<ge> need 6 u. evaluate_tri_with_options k g ex_clts ex_env options_default = Ok v))"
proof
  show "simplify 6 ex_redundant = Ok \<lparr>f_root = 0, f_nodes = [NPredicate ''p'', NTrue], f_vars = []\<rparr>"
    by code_simp
  let ?a = "FAnd (FPred ''p'') FTrue"
  have t: "tree ex_redundant = Some (FOr (FNot (FNot ?a)) ?a)"
    by (simp add: ex_redundant_def tree_def tree_of.simps numeral_eq_Suc)
  have l: "length (f_nodes ex_redundant) = 6" "well_bound ex_redundant (FOr (FNot (FNot ?a)) ?a)"
    by (simp_all add: well_bound_def ex_redundant_def)
  have p: "o_prior_approximants options_default = None" by (simp add: options_default_def)
  show "\<exists>g u bits v. simplify 6 ex_redundant = Ok g \<and> tree g = Some u
    \<and> (\<forall>k \<ge> 5. evaluate_with_options k ex_redundant ex_clts ex_env options_default = Ok bits)
    \<and> (\<forall>k \<ge> need 3 u. evaluate_with_options k g ex_clts ex_env options_default = Ok bits)
    \<and> (\<forall>k \<ge> 5. evaluate_tri_with_options k ex_redundant ex_clts ex_env options_default = Ok v)
    \<and> (\<forall>k \<ge> need 6 u. evaluate_tri_with_options k g ex_clts ex_env options_default = Ok v)"
    using simplify_equivalent [OF ex_wf ex_simple ex_no_oob ex_fits t l(2) _ _ p, unfolded l] by (simp add: eval_nat_numeral)
qed

end
