(* ===== verification/Parity_Game.thy ===== *)
theory Parity_Game
  imports Transforms
begin

section \<open>Parity games\<close>

text \<open>
  Models \<^verbatim>\<open>mu_calculus/parity_game.rs\<close>: the game built from a formula and a CLTS, and the recursive
  solver. A \<open>HashSet\<close> of initial states is iterated in an order the code does not fix, so the
  order is an argument (\<open>inits\<close>). The expansion loop runs on fuel, one unit per popped position;
  the attractor loop is a terminating function, the recursion of the solver runs on fuel and
  \<^verbatim>\<open>Zielonka\<close> shows that the number of positions suffices.
\<close>

subsection \<open>Data\<close>

record position =
  p_state :: nat
  p_node :: nat

datatype player = Eve | Adam

record parity_game =
  pg_positions :: "position list"
  pg_position_idx :: "(position \<times> nat) list"
  pg_owners :: "player list"
  pg_priorities :: "nat list"
  pg_edges :: "nat list list"
  pg_terminal_eve_wins :: "bool list"
  pg_terminals :: "nat set"
  pg_formula :: formula

definition pg_len :: "parity_game \<Rightarrow> nat" where
  "pg_len G = length (pg_positions G)"

record parity_solution =
  ps_winner :: "player list"
  ps_eve_strategy :: "nat option list"

subsection \<open>Construction\<close>

definition assign_var_priorities :: "(nat \<times> bool) list \<Rightarrow> (nat \<times> nat) list" where
  \<comment> \<open>from the fixpoint nesting order of the formula\<close>
  "assign_var_priorities nesting =
     fold (\<lambda>(level, v, is_mu) m.
         let base = length nesting - level;
             priority = (if is_mu then if even base then base + 1 else base
                         else if even base then base else base + 1)
         in AList.update v priority m)
       (zip [0..<length nesting] nesting) []"

fun collect_var_bodies ::
  "nat \<Rightarrow> formula \<Rightarrow> nat \<Rightarrow> (nat \<times> nat) list \<Rightarrow> (unit, (nat \<times> nat) list) res" where
  "collect_var_bodies 0 f i out = OutOfFuel"
| "collect_var_bodies (Suc k) f i out = rbind (node_at f i) (\<lambda>nd.
     case nd of
       NMu v b \<Rightarrow> collect_var_bodies k f b (AList.update v b out)
     | NNu v b \<Rightarrow> collect_var_bodies k f b (AList.update v b out)
     | NAnd l r \<Rightarrow> rbind (collect_var_bodies k f l out) (collect_var_bodies k f r)
     | NOr l r \<Rightarrow> rbind (collect_var_bodies k f l out) (collect_var_bodies k f r)
     | NNot a \<Rightarrow> collect_var_bodies k f a out
     | NModal q g t \<Rightarrow> collect_var_bodies k f t out
     | _ \<Rightarrow> Ok out)"

definition intern_position ::
  "formula \<Rightarrow> (nat \<times> nat) list \<Rightarrow> position \<Rightarrow> parity_game \<Rightarrow> (unit, nat \<times> parity_game) res" where
  "intern_position f var_priority pos G =
     (case map_of (pg_position_idx G) pos of
        Some idx \<Rightarrow> Ok (idx, G)
      | None \<Rightarrow> rbind (node_at f (p_node pos)) (\<lambda>nd.
          let idx = length (pg_positions G);
              priority = (case nd of
                  NMu v b \<Rightarrow> (case map_of var_priority v of Some p \<Rightarrow> p | None \<Rightarrow> 1)
                | NNu v b \<Rightarrow> (case map_of var_priority v of Some p \<Rightarrow> p | None \<Rightarrow> 0)
                | _ \<Rightarrow> 0)
          in Ok (idx, G\<lparr>pg_positions := pg_positions G @ [pos],
               pg_position_idx := AList.update pos idx (pg_position_idx G),
               pg_owners := pg_owners G @ [Eve],
               pg_priorities := pg_priorities G @ [priority],
               pg_edges := pg_edges G @ [[]],
               pg_terminal_eve_wins := pg_terminal_eve_wins G @ [False]\<rparr>)))"

definition push_edge :: "nat \<Rightarrow> nat \<Rightarrow> parity_game \<Rightarrow> parity_game" where
  "push_edge src target_idx G =
     (if target_idx \<in> set (pg_edges G ! src) then G
      else G\<lparr>pg_edges := (pg_edges G)[src := pg_edges G ! src @ [target_idx]]\<rparr>)"

definition set_terminal :: "nat \<Rightarrow> bool \<Rightarrow> parity_game \<Rightarrow> parity_game" where
  "set_terminal idx eve_wins G =
     (push_edge idx idx (G\<lparr>pg_terminals := insert idx (pg_terminals G),
        pg_terminal_eve_wins := (pg_terminal_eve_wins G)[idx := eve_wins],
        pg_priorities := (pg_priorities G)[idx := if eve_wins then 0 else 1]\<rparr>))
       \<lparr>pg_owners := (pg_owners G)[idx := Eve]\<rparr>"

definition set_owner :: "nat \<Rightarrow> player \<Rightarrow> parity_game \<Rightarrow> parity_game" where
  "set_owner idx p G = G\<lparr>pg_owners := (pg_owners G)[idx := p]\<rparr>"

type_synonym build_state = "parity_game \<times> position list"

definition add_edge ::
  "formula \<Rightarrow> (nat \<times> nat) list \<Rightarrow> nat \<Rightarrow> position \<Rightarrow> build_state \<Rightarrow> (unit, build_state) res" where
  \<comment> \<open>the queue is a stack: \<open>push\<close> adds at the head, where \<open>pop\<close> takes\<close>
  "add_edge f var_priority src target st =
     (case st of (G, queue) \<Rightarrow>
        rbind (case map_of (pg_position_idx G) target of
            Some idx \<Rightarrow> Ok (idx, G, queue)
          | None \<Rightarrow> rbind (intern_position f var_priority target G) (\<lambda>(idx, G1).
              Ok (idx, G1, target # queue)))
          (\<lambda>(idx, G1, queue1). Ok (push_edge src idx G1, queue1)))"

fun add_edges ::
  "formula \<Rightarrow> (nat \<times> nat) list \<Rightarrow> nat \<Rightarrow> position list \<Rightarrow> build_state \<Rightarrow> (unit, build_state) res" where
  "add_edges f vp src [] st = Ok st"
| "add_edges f vp src (t # ts) st = rbind (add_edge f vp src t st) (add_edges f vp src ts)"

definition modal_owner :: "modal_kind \<Rightarrow> player" where
  "modal_owner k = (case k of Diamond \<Rightarrow> Eve | Box \<Rightarrow> Adam)"

definition transition_matches_guard :: "transition \<Rightarrow> guard \<Rightarrow> clts \<Rightarrow> nat \<Rightarrow> bool" where
  "transition_matches_guard t g c source \<longleftrightarrow>
     (case g_control g of
        CAll \<Rightarrow> True
      | CControllable \<Rightarrow> is_controllable c t
      | CEnvironment \<Rightarrow> \<not> is_controllable c t)
     \<and> guard_matches_labels_and_vars source t g c"

definition env_holds :: "environment \<Rightarrow> string \<Rightarrow> nat \<Rightarrow> bool" where
  "env_holds env name s = (case env_predicate env name of Some bits \<Rightarrow> bit_is_set bits s | None \<Rightarrow> False)"

definition expand_modal ::
  "formula \<Rightarrow> clts \<Rightarrow> (nat \<times> nat) list \<Rightarrow> position \<Rightarrow> nat \<Rightarrow> modal_kind \<Rightarrow> guard \<Rightarrow> nat \<Rightarrow> build_state
     \<Rightarrow> (unit, build_state) res" where
  "expand_modal f c vp pos idx kind g target st =
     (case st of (G, queue) \<Rightarrow>
        let next = (\<lambda>t. \<lparr>p_state = t_target t, p_node = target\<rparr>)
        in if g_control g = CControllable
           then
             (let matching = filter (\<lambda>t. guard_matches_labels_and_vars (p_state pos) t g c)
                    (outgoing c (p_state pos));
                  env_targets = map next (filter (\<lambda>t. \<not> is_controllable c t) matching);
                  ctrl_targets = map next (filter (is_controllable c) matching)
              in if env_targets = [] \<and> ctrl_targets = [] then Ok (set_terminal idx True G, queue)
                 else if ctrl_targets = [] then
                   add_edges f vp idx env_targets (set_owner idx Adam G, queue)
                 else if env_targets = [] then
                   add_edges f vp idx ctrl_targets (set_owner idx Eve G, queue)
                 else add_edges f vp idx (env_targets @ ctrl_targets) (set_owner idx Adam G, queue))
           else
             rbind (add_edges f vp idx
                 (map next (filter (\<lambda>t. transition_matches_guard t g c (p_state pos))
                    (outgoing c (p_state pos))))
                 (set_owner idx (modal_owner kind) G, queue))
               (\<lambda>(G1, queue1). Ok (if pg_edges G1 ! idx = [] then set_terminal idx (kind = Box) G1 else G1,
                  queue1)))"

definition expand_position ::
  "formula \<Rightarrow> clts \<Rightarrow> environment \<Rightarrow> (nat \<times> nat) list \<Rightarrow> (nat \<times> nat) list \<Rightarrow> position \<Rightarrow> nat
     \<Rightarrow> build_state \<Rightarrow> (unit, build_state) res" where
  "expand_position f c env vp var_body pos idx st =
     (case st of (G, queue) \<Rightarrow>
        let s = p_state pos
        in rbind (node_at f (p_node pos)) (\<lambda>nd.
          case nd of
            NTrue \<Rightarrow> Ok (set_terminal idx True G, queue)
          | NFalse \<Rightarrow> Ok (set_terminal idx False G, queue)
          | NPredicate name \<Rightarrow> Ok (set_terminal idx (env_holds env name s) G, queue)
          | NNot a \<Rightarrow> rbind (node_at f a) (\<lambda>inner. case inner of
                NTrue \<Rightarrow> Ok (set_terminal idx False G, queue)
              | NFalse \<Rightarrow> Ok (set_terminal idx True G, queue)
              | NPredicate name \<Rightarrow> Ok (set_terminal idx (\<not> env_holds env name s) G, queue)
              | _ \<Rightarrow> Panic)
          | NAnd l r \<Rightarrow> add_edges f vp idx [\<lparr>p_state = s, p_node = l\<rparr>, \<lparr>p_state = s, p_node = r\<rparr>]
              (set_owner idx Adam G, queue)
          | NOr l r \<Rightarrow> add_edges f vp idx [\<lparr>p_state = s, p_node = l\<rparr>, \<lparr>p_state = s, p_node = r\<rparr>]
              (set_owner idx Eve G, queue)
          | NModal kind g target \<Rightarrow> expand_modal f c vp pos idx kind g target (G, queue)
          | NMu v body \<Rightarrow> add_edges f vp idx [\<lparr>p_state = s, p_node = body\<rparr>] (set_owner idx Eve G, queue)
          | NNu v body \<Rightarrow> add_edges f vp idx [\<lparr>p_state = s, p_node = body\<rparr>] (set_owner idx Eve G, queue)
          | NVariable v \<Rightarrow> (case map_of var_body v of
                None \<Rightarrow> Panic
              | Some body \<Rightarrow> add_edges f vp idx [\<lparr>p_state = s, p_node = body\<rparr>]
                  (set_owner idx Eve G, queue))))"

fun expand_loop ::
  "nat \<Rightarrow> formula \<Rightarrow> clts \<Rightarrow> environment \<Rightarrow> (nat \<times> nat) list \<Rightarrow> (nat \<times> nat) list \<Rightarrow> build_state
     \<Rightarrow> (unit, parity_game) res" where
  "expand_loop k f c env vp vb (G, []) = Ok G"
| "expand_loop 0 f c env vp vb (G, pos # queue) = OutOfFuel"
| "expand_loop (Suc k) f c env vp vb (G, pos # queue) =
     (case map_of (pg_position_idx G) pos of
        None \<Rightarrow> Panic
      | Some idx \<Rightarrow>
          if pg_edges G ! idx \<noteq> [] \<or> idx \<in> pg_terminals G
          then expand_loop k f c env vp vb (G, queue)
          else rbind (expand_position f c env vp vb pos idx (G, queue)) (expand_loop k f c env vp vb))"

fun intern_initials ::
  "formula \<Rightarrow> (nat \<times> nat) list \<Rightarrow> nat list \<Rightarrow> build_state \<Rightarrow> (unit, build_state) res" where
  "intern_initials f vp [] st = Ok st"
| "intern_initials f vp (s # ss) (G, queue) =
     (let pos = \<lparr>p_state = s, p_node = f_root f\<rparr>
      in rbind (intern_position f vp pos G) (\<lambda>(idx, G1). intern_initials f vp ss (G1, pos # queue)))"

definition empty_game :: "formula \<Rightarrow> parity_game" where
  "empty_game f = \<lparr>pg_positions = [], pg_position_idx = [], pg_owners = [], pg_priorities = [],
     pg_edges = [], pg_terminal_eve_wins = [], pg_terminals = {}, pg_formula = f\<rparr>"

definition build_parity_game ::
  "nat \<Rightarrow> nat list \<Rightarrow> formula \<Rightarrow> clts \<Rightarrow> environment \<Rightarrow> (unit, parity_game) res" where
  "build_parity_game k inits formula c env =
     rbind (to_nnf k formula) (\<lambda>f.
     rbind (fixpoint_nesting_order k f) (\<lambda>nesting.
       let vp = assign_var_priorities nesting
       in rbind (collect_var_bodies k f (f_root f) []) (\<lambda>vb.
          rbind (intern_initials f vp inits (empty_game f, []))
            (expand_loop k f c env vp vb))))"

subsection \<open>Solver\<close>

definition owner_is :: "parity_game \<Rightarrow> player \<Rightarrow> nat \<Rightarrow> bool" where
  "owner_is G p i \<longleftrightarrow> pg_owners G ! i = p"

definition succs_in :: "parity_game \<Rightarrow> bitvec \<Rightarrow> nat \<Rightarrow> nat list" where
  "succs_in G universe i = filter (bit_is_set universe) (pg_edges G ! i)"

definition attractor_round :: "parity_game \<Rightarrow> bitvec \<Rightarrow> player \<Rightarrow> bitvec \<Rightarrow> bitvec" where
  \<comment> \<open>one run of the loop body, from the snapshot\<close>
  "attractor_round G universe player snapshot =
     bv_of (length snapshot) (\<lambda>i.
       bit_is_set snapshot i \<or>
       (bit_is_set universe i \<and>
        (if owner_is G player i then list_ex (bit_is_set snapshot) (succs_in G universe i)
         else succs_in G universe i \<noteq> [] \<and> list_all (bit_is_set snapshot) (succs_in G universe i))))"

lemma attractor_round_grows:
  "bset a \<subseteq> bset (attractor_round G U p a)" "length (attractor_round G U p a) = length a"
  using bset_subset [of a] by (auto simp: attractor_round_def)

function attractor_loop :: "parity_game \<Rightarrow> bitvec \<Rightarrow> player \<Rightarrow> bitvec \<Rightarrow> bitvec" where
  "attractor_loop G universe player attr =
     (let attr' = attractor_round G universe player attr
      in if attr' = attr then attr else attractor_loop G universe player attr')"
  by pat_completeness auto

termination attractor_loop
proof (relation "measure (\<lambda>(G, U, p, a). length a - card (bset a))")
  fix G U p a and a' :: bitvec
  assume a': "a' = attractor_round G U p a" "a' \<noteq> a"
  have "bset a \<subseteq> bset a'" "length a' = length a" using attractor_round_grows [where a = a and G = G and U = U and p = p] a' by auto
  moreover have "bset a' \<noteq> bset a" using bv_eq_iff [of a' a] a'(2) calculation by blast
  moreover have "finite (bset a')" by (rule finite_subset [OF bset_subset]) simp
  ultimately have "card (bset a) < card (bset a')" by (metis psubsetI psubset_card_mono)
  moreover have "card (bset a') \<le> length a'" by (rule card_bset_le)
  ultimately show "((G, U, p, a'), (G, U, p, a)) \<in> measure (\<lambda>(G, U, p, a). length a - card (bset a))"
    using \<open>length a' = length a\<close> by simp
qed simp

definition compute_attractor :: "parity_game \<Rightarrow> bitvec \<Rightarrow> bitvec \<Rightarrow> player \<Rightarrow> bitvec" where
  "compute_attractor G universe target player =
     attractor_loop G universe player (bv_of (pg_len G) (\<lambda>i. bit_is_set target i \<and> bit_is_set universe i))"

definition max_prio_scan :: "parity_game \<Rightarrow> bitvec \<Rightarrow> nat \<times> bitvec" where
  "max_prio_scan G universe =
     fold (\<lambda>i (max_prio, S).
         if \<not> bit_is_set universe i then (max_prio, S)
         else if pg_priorities G ! i > max_prio
         then (pg_priorities G ! i, (bv_repeat False (pg_len G))[i := True])
         else if pg_priorities G ! i = max_prio then (max_prio, S[i := True])
         else (max_prio, S))
       [0..<pg_len G] (0, bv_repeat False (pg_len G))"

definition opponent :: "player \<Rightarrow> player" where
  "opponent p = (case p of Eve \<Rightarrow> Adam | Adam \<Rightarrow> Eve)"

definition prio_player :: "nat \<Rightarrow> player" where
  "prio_player d = (if even d then Eve else Adam)"

definition bv_any :: "bitvec \<Rightarrow> bool" where
  "bv_any b = list_ex (\<lambda>x. x) b"

definition bv_minus :: "nat \<Rightarrow> bitvec \<Rightarrow> bitvec \<Rightarrow> bitvec" where
  "bv_minus n a b = bv_of n (\<lambda>i. bit_is_set a i \<and> \<not> bit_is_set b i)"

fun solve_subgame :: "nat \<Rightarrow> parity_game \<Rightarrow> bitvec \<Rightarrow> (unit, player option list) res" where
  "solve_subgame 0 G universe = OutOfFuel"
| "solve_subgame (Suc k) G universe =
     (let n = pg_len G
      in if \<not> bv_any universe then Ok (replicate n None)
         else case max_prio_scan G universe of (max_prio, max_prio_set) \<Rightarrow>
           (let player = prio_player max_prio;
                attr_self = compute_attractor G universe max_prio_set player
            in rbind (solve_subgame k G (bv_minus n universe attr_self)) (\<lambda>sub_result.
                 let opp_wins = bv_of n (\<lambda>i. sub_result ! i = Some (opponent player))
                 in if \<not> bv_any opp_wins
                    then Ok (map (\<lambda>i. if bit_is_set universe i then Some player else None) [0..<n])
                    else
                      (let attr_opp = compute_attractor G universe opp_wins (opponent player)
                       in rbind (solve_subgame k G (bv_minus n universe attr_opp)) (\<lambda>sub_result2.
                            Ok (map (\<lambda>i. if bit_is_set attr_opp i then Some (opponent player)
                                         else sub_result2 ! i) [0..<n]))))))"

definition eve_strategy_for_region :: "parity_game \<Rightarrow> bitvec \<Rightarrow> nat option list" where
  "eve_strategy_for_region G eve_winning =
     map (\<lambda>i. if bit_is_set eve_winning i \<and> owner_is G Eve i
              then List.find (bit_is_set eve_winning) (pg_edges G ! i) else None) [0..<pg_len G]"

definition solve :: "nat \<Rightarrow> parity_game \<Rightarrow> (unit, parity_solution) res" where
  \<comment> \<open>indexing \<open>universe\<close> by a successor out of range panics\<close>
  "solve k G =
     (let n = pg_len G
      in if \<not> list_all (list_all (\<lambda>s. s < n)) (pg_edges G) then Panic
         else rbind (solve_subgame k G (bv_repeat True n)) (\<lambda>active.
           let winner = map (\<lambda>i. case active ! i of
                 Some p \<Rightarrow> p
               | None \<Rightarrow> if i \<in> pg_terminals G \<and> pg_terminal_eve_wins G ! i then Eve else Adam) [0..<n]
           in Ok \<lparr>ps_winner = winner,
                  ps_eve_strategy = eve_strategy_for_region G (bv_of n (\<lambda>i. winner ! i = Eve))\<rparr>))"

end
