(* ===== verification/Zielonka.thy ===== *)
theory Zielonka
  imports Parity_Game "HOL-Library.Infinite_Set"
begin

section \<open>Correctness of the parity game solver\<close>

text \<open>
  The solver of \<^verbatim>\<open>parity_game.rs\<close> computes the winning regions of both players. The argument is
  stated over an arena with an attractor operation whose laws are the interface \<open>attractors\<close>; the
  interpretation \<open>pg\<close> discharges them for \<open>compute_attractor\<close>. A region is won by a player if the
  opponent cannot leave it and a positional strategy inside it wins all plays.
\<close>

subsection \<open>Arenas\<close>

locale arena =
  fixes own :: "nat \<Rightarrow> player" and E :: "nat \<Rightarrow> nat set" and pr :: "nat \<Rightarrow> nat"
begin

definition subgame :: "nat set \<Rightarrow> bool" where
  "subgame U \<longleftrightarrow> (\<forall>i \<in> U. E i \<inter> U \<noteq> {})"

definition play_in :: "nat set \<Rightarrow> player \<Rightarrow> (nat \<Rightarrow> nat) \<Rightarrow> (nat \<Rightarrow> nat) \<Rightarrow> bool" where
  "play_in W p \<sigma> \<pi> \<longleftrightarrow>
     (\<forall>k. \<pi> k \<in> W \<and> \<pi> (Suc k) \<in> E (\<pi> k) \<and> (own (\<pi> k) = p \<longrightarrow> \<pi> (Suc k) = \<sigma> (\<pi> k)))"

definition parity_win :: "player \<Rightarrow> (nat \<Rightarrow> nat) \<Rightarrow> bool" where
  \<comment> \<open>the greatest priority that occurs infinitely often belongs to the player\<close>
  "parity_win p \<pi> \<longleftrightarrow>
     (\<exists>d. prio_player d = p \<and> (\<forall>m. \<exists>k \<ge> m. pr (\<pi> k) = d) \<and> (\<exists>m. \<forall>k \<ge> m. pr (\<pi> k) \<le> d))"

definition wins :: "player \<Rightarrow> nat set \<Rightarrow> nat set \<Rightarrow> bool" where
  "wins p U W \<longleftrightarrow> W \<subseteq> U \<and> (\<exists>\<sigma>.
     (\<forall>i \<in> W. own i = p \<longrightarrow> \<sigma> i \<in> E i \<inter> W)
     \<and> (\<forall>i \<in> W. own i \<noteq> p \<longrightarrow> E i \<inter> U \<subseteq> W)
     \<and> (\<forall>\<pi>. play_in W p \<sigma> \<pi> \<longrightarrow> parity_win p \<pi>))"

lemma wins_empty: "wins p U {}"
  by (auto simp: wins_def play_in_def)

lemma play_in_shift: "play_in W p \<sigma> \<pi> \<Longrightarrow> play_in W p \<sigma> (\<lambda>k. \<pi> (k + m))"
  by (simp add: play_in_def)

lemma parity_win_shift: "parity_win p (\<lambda>k. \<pi> (k + m)) \<Longrightarrow> parity_win p \<pi>"
proof -
  assume "parity_win p (\<lambda>k. \<pi> (k + m))"
  then obtain d where d: "prio_player d = p" "\<And>x. \<exists>k \<ge> x. pr (\<pi> (k + m)) = d"
    "\<exists>x. \<forall>k \<ge> x. pr (\<pi> (k + m)) \<le> d" by (auto simp: parity_win_def)
  have "\<exists>k \<ge> x. pr (\<pi> k) = d" for x
    using d(2) [of x] by (metis le_add1 le_trans)
  moreover obtain x where "\<forall>k \<ge> x. pr (\<pi> (k + m)) \<le> d" using d(3) by blast
  then have "pr (\<pi> k) \<le> d" if "x + m \<le> k" for k
    using that by (metis add.commute le_add_diff_inverse2 add_le_imp_le_diff add_leD2)
  ultimately show ?thesis using d(1) by (auto simp: parity_win_def)
qed

lemma play_in_subset:
  assumes "play_in W p \<sigma> \<pi>" "\<And>k. \<pi> k \<in> X" "\<And>i. i \<in> X \<Longrightarrow> \<sigma> i = \<tau> i"
  shows "play_in X p \<tau> \<pi>"
  using assms by (simp add: play_in_def)

lemma play_stays:
  assumes "play_in W p \<sigma> \<pi>" "\<pi> m \<in> X"
    and "\<And>i. i \<in> X \<Longrightarrow> own i = p \<Longrightarrow> \<sigma> i \<in> X" "\<And>i. i \<in> X \<Longrightarrow> own i \<noteq> p \<Longrightarrow> E i \<inter> W \<subseteq> X"
  shows "\<pi> (k + m) \<in> X"
proof (induction k)
  case (Suc k)
  have "\<pi> (Suc (k + m)) \<in> E (\<pi> (k + m)) \<inter> W" "own (\<pi> (k + m)) = p \<longrightarrow> \<pi> (Suc (k + m)) = \<sigma> (\<pi> (k + m))"
    using assms(1) unfolding play_in_def by blast+
  then show ?case using assms(3,4) [OF Suc] by (cases "own (\<pi> (k + m)) = p") auto
qed (simp add: assms(2))

end

locale attractors = arena +
  fixes V :: "nat set" and attr :: "player \<Rightarrow> nat set \<Rightarrow> nat set \<Rightarrow> nat set"
  assumes attr_bounds: "U \<subseteq> V \<Longrightarrow> N \<subseteq> U \<Longrightarrow> N \<subseteq> attr p U N \<and> attr p U N \<subseteq> U"
    and attr_own: "U \<subseteq> V \<Longrightarrow> i \<in> U \<Longrightarrow> own i = p \<Longrightarrow> E i \<inter> attr p U N \<noteq> {} \<Longrightarrow> i \<in> attr p U N"
    and attr_other: "U \<subseteq> V \<Longrightarrow> i \<in> U \<Longrightarrow> own i \<noteq> p \<Longrightarrow> E i \<inter> U \<noteq> {} \<Longrightarrow> E i \<inter> U \<subseteq> attr p U N \<Longrightarrow>
        i \<in> attr p U N"
    and attr_rank: "U \<subseteq> V \<Longrightarrow> N \<subseteq> U \<Longrightarrow> \<exists>(rank :: nat \<Rightarrow> nat) \<sigma>. \<forall>i \<in> attr p U N - N.
        (own i = p \<longrightarrow> \<sigma> i \<in> E i \<inter> attr p U N \<and> rank (\<sigma> i) < rank i)
        \<and> (own i \<noteq> p \<longrightarrow> (\<forall>j \<in> E i \<inter> U. j \<in> attr p U N \<and> rank j < rank i))"
begin

lemma complement_subgame:
  assumes "U \<subseteq> V" "subgame U"
  shows "subgame (U - attr p U N)"
  unfolding subgame_def
proof
  fix i assume i: "i \<in> U - attr p U N"
  then have "E i \<inter> U \<noteq> {}" using assms(2) by (simp add: subgame_def)
  then show "E i \<inter> (U - attr p U N) \<noteq> {}"
    using attr_own [OF assms(1), of i p N] attr_other [OF assms(1), of i p N] i by (cases "own i = p") blast+
qed

lemma complement_trap: "U \<subseteq> V \<Longrightarrow> i \<in> U - attr p U N \<Longrightarrow> own i = p \<Longrightarrow> E i \<inter> U \<subseteq> U - attr p U N"
  using attr_own by blast

text \<open>Following an attractor strategy, a play inside the attractor reaches the target.\<close>

lemma attractor_reaches:
  assumes rank: "\<forall>i \<in> A - N. (own i = p \<longrightarrow> rank (\<sigma> i) < (rank i :: nat))
      \<and> (own i \<noteq> p \<longrightarrow> (\<forall>j \<in> E i \<inter> U. j \<in> A \<and> rank j < rank i))"
    and stay: "\<forall>i \<in> A - N. own i = p \<longrightarrow> \<sigma> i \<in> A"
    and \<pi>: "\<forall>k. \<pi> k \<in> U \<and> \<pi> (Suc k) \<in> E (\<pi> k) \<and> (own (\<pi> k) = p \<longrightarrow> \<pi> k \<in> A - N \<longrightarrow> \<pi> (Suc k) = \<sigma> (\<pi> k))"
  shows "\<pi> m \<in> A \<Longrightarrow> \<exists>k \<ge> m. \<pi> k \<in> N"
proof (induction "rank (\<pi> m)" arbitrary: m rule: less_induct)
  case less
  show ?case
  proof (cases "\<pi> m \<in> N")
    case False
    then have AN: "\<pi> m \<in> A - N" using less.prems by simp
    have "\<pi> (Suc m) \<in> A \<and> rank (\<pi> (Suc m)) < rank (\<pi> m)"
      using AN rank stay \<pi> by (cases "own (\<pi> m) = p") (metis IntI)+
    then obtain k where "k \<ge> Suc m" "\<pi> k \<in> N" using less.hyps [of "Suc m"] by blast
    then show ?thesis by (meson Suc_leD)
  qed blast
qed

lemma wins_all:
  assumes U: "U \<subseteq> V" "subgame U" and d: "prio_player d = p" "\<forall>i \<in> U. pr i \<le> d" "N = {i \<in> U. pr i = d}"
    and W: "wins p (U - attr p U N) (U - attr p U N)"
  shows "wins p U U"
proof -
  let ?A = "attr p U N"
  have NU: "N \<subseteq> U" using d(3) by blast
  note A = attr_bounds [OF U(1) NU, of p]
  obtain rank \<tau> where r: "\<forall>i \<in> ?A - N. (own i = p \<longrightarrow> \<tau> i \<in> E i \<inter> ?A \<and> (rank :: nat \<Rightarrow> nat) (\<tau> i) < rank i)
      \<and> (own i \<noteq> p \<longrightarrow> (\<forall>j \<in> E i \<inter> U. j \<in> ?A \<and> rank j < rank i))"
    using attr_rank [OF U(1) NU, of p] by blast
  obtain \<sigma> where s: "\<forall>i \<in> U - ?A. own i = p \<longrightarrow> \<sigma> i \<in> E i \<inter> (U - ?A)"
    "\<forall>\<pi>. play_in (U - ?A) p \<sigma> \<pi> \<longrightarrow> parity_win p \<pi>" using W by (auto simp: wins_def)
  have "\<forall>i \<in> U. \<exists>j. j \<in> E i \<inter> U" using U(2) by (auto simp: subgame_def)
  then obtain \<nu> where \<nu>: "\<forall>i \<in> U. \<nu> i \<in> E i \<inter> U" using bchoice [of U "\<lambda>i j. j \<in> E i \<inter> U"] by blast
  define \<rho> where "\<rho> i = (if i \<in> N then \<nu> i else if i \<in> ?A then \<tau> i else \<sigma> i)" for i
  have move: "\<rho> i \<in> E i \<inter> U" if "i \<in> U" "own i = p" for i
  proof (cases "i \<in> ?A")
    case True
    then show ?thesis using \<nu> r that A NU by (cases "i \<in> N") (auto simp: \<rho>_def)
  next
    case False
    then show ?thesis using s(1) that A by (auto simp: \<rho>_def)
  qed
  have "parity_win p \<pi>" if \<pi>: "play_in U p \<rho> \<pi>" for \<pi>
  proof (cases "\<forall>m. \<exists>k \<ge> m. \<pi> k \<in> ?A")
    case True
    have visit: "\<exists>k \<ge> m. \<pi> k \<in> N" if "\<pi> m \<in> ?A" for m
      by (rule attractor_reaches [of ?A N p rank \<tau> U \<pi>]) (use r \<pi> that in \<open>auto simp: play_in_def \<rho>_def\<close>)
    have "\<exists>k \<ge> m. pr (\<pi> k) = d" for m
    proof -
      obtain k where "k \<ge> m" "\<pi> k \<in> ?A" using True by blast
      then obtain l where "l \<ge> k" "\<pi> l \<in> N" using visit by blast
      then show ?thesis using \<open>k \<ge> m\<close> d(3) by (auto intro!: exI [of _ l])
    qed
    moreover have "\<forall>k \<ge> 0. pr (\<pi> k) \<le> d" using d(2) \<pi> by (simp add: play_in_def)
    ultimately show ?thesis using d(1) unfolding parity_win_def by blast
  next
    case False
    then obtain m where m: "\<And>k. \<pi> (k + m) \<notin> ?A" by (meson le_add2)
    have "play_in (U - ?A) p \<sigma> (\<lambda>k. \<pi> (k + m))"
    proof (rule play_in_subset [OF play_in_shift [OF \<pi>]])
      show "\<pi> (k + m) \<in> U - ?A" for k using m \<pi> by (simp add: play_in_def)
      show "\<rho> i = \<sigma> i" if "i \<in> U - ?A" for i using that A by (auto simp: \<rho>_def)
    qed
    then show ?thesis using s(2) parity_win_shift by blast
  qed
  then show ?thesis unfolding wins_def using move by blast
qed

lemma wins_attractor:
  assumes U: "U \<subseteq> V" "subgame U" and U': "U' \<subseteq> U" "\<And>i. i \<in> U' \<Longrightarrow> own i \<noteq> p \<Longrightarrow> E i \<inter> U \<subseteq> U'"
    and W: "wins p U' W"
  shows "wins p U (attr p U W)"
proof -
  let ?A = "attr p U W"
  obtain \<sigma> where W': "W \<subseteq> U'" and s: "\<forall>i \<in> W. own i = p \<longrightarrow> \<sigma> i \<in> E i \<inter> W"
    "\<forall>i \<in> W. own i \<noteq> p \<longrightarrow> E i \<inter> U' \<subseteq> W" "\<forall>\<pi>. play_in W p \<sigma> \<pi> \<longrightarrow> parity_win p \<pi>"
    using W by (auto simp: wins_def)
  have WU: "W \<subseteq> U" using W' U'(1) by blast
  note A = attr_bounds [OF U(1) WU, of p]
  obtain rank \<tau> where r: "\<forall>i \<in> ?A - W. (own i = p \<longrightarrow> \<tau> i \<in> E i \<inter> ?A \<and> (rank :: nat \<Rightarrow> nat) (\<tau> i) < rank i)
      \<and> (own i \<noteq> p \<longrightarrow> (\<forall>j \<in> E i \<inter> U. j \<in> ?A \<and> rank j < rank i))"
    using attr_rank [OF U(1) WU, of p] by blast
  define \<rho> where "\<rho> i = (if i \<in> W then \<sigma> i else \<tau> i)" for i
  have W_closed: "E i \<inter> U \<subseteq> W" if "i \<in> W" "own i \<noteq> p" for i
    using s(2) that U'(2) [of i] W' by blast
  have own: "\<rho> i \<in> E i \<inter> ?A" if "i \<in> ?A" "own i = p" for i
    using that s(1) r A by (cases "i \<in> W") (auto simp: \<rho>_def)
  have other: "E i \<inter> U \<subseteq> ?A" if "i \<in> ?A" "own i \<noteq> p" for i
    using that W_closed [of i] r A by (cases "i \<in> W") blast+
  have "parity_win p \<pi>" if \<pi>: "play_in ?A p \<rho> \<pi>" for \<pi>
  proof -
    have "\<exists>k \<ge> 0. \<pi> k \<in> W"
      by (rule attractor_reaches [of ?A W p rank \<tau> U \<pi>]) (use r \<pi> A in \<open>auto simp: play_in_def \<rho>_def\<close>)
    then obtain m where m: "\<pi> m \<in> W" by blast
    have "\<pi> (k + m) \<in> W" for k
    proof (rule play_stays [OF \<pi> m])
      show "E i \<inter> ?A \<subseteq> W" if "i \<in> W" "own i \<noteq> p" for i using W_closed [OF that] A by blast
    qed (use s(1) in \<open>auto simp: \<rho>_def\<close>)
    then have "play_in W p \<sigma> (\<lambda>k. \<pi> (k + m))"
      by (intro play_in_subset [OF play_in_shift [OF \<pi>]]) (auto simp: \<rho>_def)
    then show ?thesis using s(3) parity_win_shift by blast
  qed
  then show ?thesis unfolding wins_def using A own other by blast
qed

lemma wins_union:
  assumes B: "wins p U B" and W: "wins p (U - B) W"
  shows "wins p U (B \<union> W)"
proof -
  obtain \<sigma> where BU: "B \<subseteq> U" and s: "\<forall>i \<in> B. own i = p \<longrightarrow> \<sigma> i \<in> E i \<inter> B"
    "\<forall>i \<in> B. own i \<noteq> p \<longrightarrow> E i \<inter> U \<subseteq> B" "\<forall>\<pi>. play_in B p \<sigma> \<pi> \<longrightarrow> parity_win p \<pi>"
    using B by (auto simp: wins_def)
  obtain \<tau> where WU: "W \<subseteq> U - B" and t: "\<forall>i \<in> W. own i = p \<longrightarrow> \<tau> i \<in> E i \<inter> W"
    "\<forall>i \<in> W. own i \<noteq> p \<longrightarrow> E i \<inter> (U - B) \<subseteq> W" "\<forall>\<pi>. play_in W p \<tau> \<pi> \<longrightarrow> parity_win p \<pi>"
    using W by (auto simp: wins_def)
  define \<rho> where "\<rho> i = (if i \<in> B then \<sigma> i else \<tau> i)" for i
  have "parity_win p \<pi>" if \<pi>: "play_in (B \<union> W) p \<rho> \<pi>" for \<pi>
  proof (cases "\<exists>m. \<pi> m \<in> B")
    case True
    then obtain m where m: "\<pi> m \<in> B" by blast
    have "\<pi> (k + m) \<in> B" for k
    proof (rule play_stays [OF \<pi> m])
      show "E i \<inter> (B \<union> W) \<subseteq> B" if "i \<in> B" "own i \<noteq> p" for i using s(2) that BU WU by blast
    qed (use s(1) in \<open>auto simp: \<rho>_def\<close>)
    then have "play_in B p \<sigma> (\<lambda>k. \<pi> (k + m))"
      by (intro play_in_subset [OF play_in_shift [OF \<pi>]]) (auto simp: \<rho>_def)
    then show ?thesis using s(3) parity_win_shift by blast
  next
    case False
    then have "play_in W p \<tau> \<pi>"
      using \<pi> WU by (intro play_in_subset [OF \<pi>]) (auto simp: \<rho>_def play_in_def)
    then show ?thesis using t(3) by blast
  qed
  moreover have "\<rho> i \<in> E i \<inter> (B \<union> W)" if "i \<in> B \<union> W" "own i = p" for i
    using that s(1) t(1) WU by (cases "i \<in> B") (auto simp: \<rho>_def)
  moreover have "E i \<inter> U \<subseteq> B \<union> W" if "i \<in> B \<union> W" "own i \<noteq> p" for i
    using that s(2) t(2) by blast
  ultimately show ?thesis unfolding wins_def using BU WU by blast
qed

lemma wins_trap:
  assumes "wins p U' W" "U' \<subseteq> U" "\<And>i. i \<in> U' \<Longrightarrow> own i \<noteq> p \<Longrightarrow> E i \<inter> U \<subseteq> U'"
  shows "wins p U W"
proof -
  obtain \<sigma> where W: "W \<subseteq> U'" and s: "\<forall>i \<in> W. own i = p \<longrightarrow> \<sigma> i \<in> E i \<inter> W"
    "\<forall>i \<in> W. own i \<noteq> p \<longrightarrow> E i \<inter> U' \<subseteq> W" "\<forall>\<pi>. play_in W p \<sigma> \<pi> \<longrightarrow> parity_win p \<pi>"
    using assms(1) by (auto simp: wins_def)
  have "E i \<inter> U \<subseteq> W" if "i \<in> W" "own i \<noteq> p" for i using s(2) assms(3) [of i] W that by blast
  then show ?thesis unfolding wins_def using W assms(2) s(1,3) by blast
qed

end

subsection \<open>The attractor of the code\<close>

declare attractor_loop.simps [simp del]

lemma attractor_loop_iterates:
  "\<exists>m. attractor_loop G U p a = (attractor_round G U p ^^ m) a
    \<and> attractor_round G U p ((attractor_round G U p ^^ m) a) = (attractor_round G U p ^^ m) a"
proof (induction G U p a rule: attractor_loop.induct)
  case (1 G U p a)
  show ?case
  proof (cases "attractor_round G U p a = a")
    case True
    then show ?thesis by (intro exI [of _ 0]) (simp add: attractor_loop.simps)
  next
    case False
    then obtain m where "attractor_loop G U p (attractor_round G U p a)
        = (attractor_round G U p ^^ m) (attractor_round G U p a)"
      "attractor_round G U p ((attractor_round G U p ^^ m) (attractor_round G U p a))
        = (attractor_round G U p ^^ m) (attractor_round G U p a)"
      using 1 [OF refl] by blast
    then show ?thesis using False
      by (intro exI [of _ "Suc m"]) (simp add: attractor_loop.simps funpow_swap1)
  qed
qed

lemma mem_attractor_round:
  assumes "bset U \<subseteq> {..<length a}"
  shows "i \<in> bset (attractor_round G U p a) \<longleftrightarrow> i \<in> bset a \<or>
    (i \<in> bset U \<and> (if pg_owners G ! i = p then set (pg_edges G ! i) \<inter> bset U \<inter> bset a \<noteq> {}
      else set (pg_edges G ! i) \<inter> bset U \<noteq> {} \<and> set (pg_edges G ! i) \<inter> bset U \<subseteq> bset a))"
  using assms bset_subset [of a]
  by (auto simp: attractor_round_def owner_is_def succs_in_def list_ex_iff list_all_iff filter_empty_conv)

definition attractor_stage :: "parity_game \<Rightarrow> bitvec \<Rightarrow> player \<Rightarrow> bitvec \<Rightarrow> nat \<Rightarrow> nat set" where
  "attractor_stage G U p a m = bset ((attractor_round G U p ^^ m) a)"

lemma stage_length: "length ((attractor_round G U p ^^ m) a) = length a"
  by (induction m) (simp_all add: attractor_round_grows)

lemma mem_stage_Suc:
  assumes "bset U \<subseteq> {..<length a}"
  shows "i \<in> attractor_stage G U p a (Suc m) \<longleftrightarrow> i \<in> attractor_stage G U p a m \<or>
    (i \<in> bset U \<and> (if pg_owners G ! i = p then set (pg_edges G ! i) \<inter> bset U \<inter> attractor_stage G U p a m \<noteq> {}
      else set (pg_edges G ! i) \<inter> bset U \<noteq> {} \<and> set (pg_edges G ! i) \<inter> bset U \<subseteq> attractor_stage G U p a m))"
  using mem_attractor_round [of U "(attractor_round G U p ^^ m) a"] assms
  by (simp add: attractor_stage_def stage_length)

lemma stage_mono: "m \<le> k \<Longrightarrow> attractor_stage G U p a m \<subseteq> attractor_stage G U p a k"
  by (rule lift_Suc_mono_le) (simp_all add: attractor_stage_def attractor_round_grows(1))

lemma stage_bounds:
  assumes "bset U \<subseteq> {..<length a}" "bset a \<subseteq> bset U"
  shows "attractor_stage G U p a m \<subseteq> bset U"
proof (induction m)
  case (Suc m)
  then show ?case by (auto simp: mem_stage_Suc [OF assms(1)])
qed (simp add: attractor_stage_def assms(2))

text \<open>The stage at which a position enters the attractor decreases along the attractor strategy.\<close>

lemma stage_rank:
  assumes U: "bset U \<subseteq> {..<length a}" and i: "i \<in> attractor_stage G U p a k" "i \<notin> bset a"
  obtains m where "(LEAST l. i \<in> attractor_stage G U p a l) = Suc m" "i \<in> bset U"
    "if pg_owners G ! i = p then set (pg_edges G ! i) \<inter> bset U \<inter> attractor_stage G U p a m \<noteq> {}
     else set (pg_edges G ! i) \<inter> bset U \<subseteq> attractor_stage G U p a m"
proof -
  let ?l = "LEAST l. i \<in> attractor_stage G U p a l"
  have in_l: "i \<in> attractor_stage G U p a ?l" using i(1) by (rule LeastI)
  have "?l \<noteq> 0"
  proof
    assume "?l = 0"
    then show False using in_l i(2) by (simp add: attractor_stage_def)
  qed
  then obtain m where m: "?l = Suc m" using not0_implies_Suc by blast
  then have "i \<notin> attractor_stage G U p a m" 
    using not_less_Least [of m "\<lambda>l. i \<in> attractor_stage G U p a l"] by auto
  then show ?thesis using in_l [unfolded m] that [OF m] mem_stage_Suc [OF U, of i G p m] by (auto split: if_splits)
qed

lemma stage_Least: "j \<in> attractor_stage G U p a m \<Longrightarrow> (LEAST l. j \<in> attractor_stage G U p a l) \<le> m"
  by (rule Least_le)

definition pg_attr :: "parity_game \<Rightarrow> player \<Rightarrow> nat set \<Rightarrow> nat set \<Rightarrow> nat set" where
  "pg_attr G p U N = bset (compute_attractor G (bv_of (pg_len G) (\<lambda>i. i \<in> U)) (bv_of (pg_len G) (\<lambda>i. i \<in> N)) p)"

lemma pg_attr_stage:
  assumes "U \<subseteq> {..<pg_len G}"
  obtains b a k where "bset b = U" "bset a = N \<inter> U" "bset b \<subseteq> {..<length a}"
    "pg_attr G p U N = attractor_stage G b p a k"
    "attractor_stage G b p a (Suc k) = attractor_stage G b p a k"
proof -
  let ?b = "bv_of (pg_len G) (\<lambda>i. i \<in> U)"
  let ?a = "bv_of (pg_len G) (\<lambda>i. bit_is_set (bv_of (pg_len G) (\<lambda>i. i \<in> N)) i \<and> bit_is_set ?b i)"
  obtain k where k: "attractor_loop G ?b p ?a = (attractor_round G ?b p ^^ k) ?a"
    "attractor_round G ?b p ((attractor_round G ?b p ^^ k) ?a) = (attractor_round G ?b p ^^ k) ?a"
    using attractor_loop_iterates [of G ?b p ?a] by blast
  show ?thesis
  proof (rule that [of ?b ?a k])
    show "bset ?b = U" "bset ?a = N \<inter> U" "bset ?b \<subseteq> {..<length ?a}" using assms by auto
    show "pg_attr G p U N = attractor_stage G ?b p ?a k"
      using k(1) by (simp add: pg_attr_def compute_attractor_def attractor_stage_def)
    show "attractor_stage G ?b p ?a (Suc k) = attractor_stage G ?b p ?a k"
      using k(2) by (simp add: attractor_stage_def)
  qed
qed

interpretation pg: attractors "\<lambda>i. pg_owners G ! i" "\<lambda>i. set (pg_edges G ! i)" "\<lambda>i. pg_priorities G ! i"
  "{..<pg_len G}" "pg_attr G" for G
proof
  fix U N :: "nat set" and p
  assume U: "U \<subseteq> {..<pg_len G}"
  obtain b a k where s: "bset b = U" "bset a = N \<inter> U" "bset b \<subseteq> {..<length a}"
    "pg_attr G p U N = attractor_stage G b p a k" "attractor_stage G b p a (Suc k) = attractor_stage G b p a k"
    by (rule pg_attr_stage [OF U, where p = p and N = N])
  have ab: "bset a \<subseteq> bset b" using s(1,2) by simp
  have le: "attractor_stage G b p a k \<subseteq> U" using stage_bounds [OF s(3) ab, of G p k] s(1) by simp
  show "N \<subseteq> pg_attr G p U N \<and> pg_attr G p U N \<subseteq> U" if "N \<subseteq> U"
    using stage_mono [of 0 k G b p a] s(2,4) le that by (auto simp: attractor_stage_def)
  note Suc = mem_stage_Suc [OF s(3), of _ G p k, unfolded s(5)]
  show "i \<in> pg_attr G p U N" if "i \<in> U" "pg_owners G ! i = p" "set (pg_edges G ! i) \<inter> pg_attr G p U N \<noteq> {}" for i
    using that le Suc [of i] s(1,4) by auto
  show "i \<in> pg_attr G p U N" if "i \<in> U" "pg_owners G ! i \<noteq> p" "set (pg_edges G ! i) \<inter> U \<noteq> {}"
    "set (pg_edges G ! i) \<inter> U \<subseteq> pg_attr G p U N" for i
    using that Suc [of i] s(1,4) by auto
  show "\<exists>(rank :: nat \<Rightarrow> nat) \<sigma>. \<forall>i \<in> pg_attr G p U N - N.
      (pg_owners G ! i = p \<longrightarrow> \<sigma> i \<in> set (pg_edges G ! i) \<inter> pg_attr G p U N \<and> rank (\<sigma> i) < rank i)
      \<and> (pg_owners G ! i \<noteq> p \<longrightarrow> (\<forall>j \<in> set (pg_edges G ! i) \<inter> U. j \<in> pg_attr G p U N \<and> rank j < rank i))"
    if N: "N \<subseteq> U"
  proof -
    define rank where "rank i = (LEAST l. i \<in> attractor_stage G b p a l)" for i
    have "\<exists>j. (pg_owners G ! i = p \<longrightarrow> j \<in> set (pg_edges G ! i) \<inter> pg_attr G p U N \<and> rank j < rank i)
      \<and> (pg_owners G ! i \<noteq> p \<longrightarrow> (\<forall>j \<in> set (pg_edges G ! i) \<inter> U. j \<in> pg_attr G p U N \<and> rank j < rank i))"
      if i: "i \<in> pg_attr G p U N - N" for i
    proof -
      have ia: "i \<in> attractor_stage G b p a k" "i \<notin> bset a" using i s(2,4) N by auto
      from stage_rank [OF s(3) ia] obtain m where m: "rank i = Suc m"
        "if pg_owners G ! i = p then set (pg_edges G ! i) \<inter> bset b \<inter> attractor_stage G b p a m \<noteq> {}
         else set (pg_edges G ! i) \<inter> bset b \<subseteq> attractor_stage G b p a m" unfolding rank_def by metis
      have "m \<le> k" using m(1) stage_Least [OF ia(1)] unfolding rank_def by simp
      then have "j \<in> pg_attr G p U N \<and> rank j < rank i" if "j \<in> attractor_stage G b p a m" for j
        using that stage_mono [of m k G b p a] stage_Least [OF that] m(1) s(4) unfolding rank_def by auto
      then show ?thesis using m(2) s(1) by (cases "pg_owners G ! i = p") auto
    qed
    then obtain \<sigma> where "\<forall>i \<in> pg_attr G p U N - N.
      (pg_owners G ! i = p \<longrightarrow> \<sigma> i \<in> set (pg_edges G ! i) \<inter> pg_attr G p U N \<and> rank (\<sigma> i) < rank i)
      \<and> (pg_owners G ! i \<noteq> p \<longrightarrow> (\<forall>j \<in> set (pg_edges G ! i) \<inter> U. j \<in> pg_attr G p U N \<and> rank j < rank i))"
      by metis
    then show ?thesis by blast
  qed
qed

subsection \<open>The solver\<close>

lemma max_prio_scan_spec:
  assumes "length (pg_priorities G) = pg_len G" "max_prio_scan G U = (d, S)"
  shows "bset S = {i \<in> bset U. i < pg_len G \<and> pg_priorities G ! i = d}
    \<and> (\<forall>i \<in> bset U. i < pg_len G \<longrightarrow> pg_priorities G ! i \<le> d) \<and> length S = pg_len G
    \<and> (d \<noteq> 0 \<longrightarrow> bset S \<noteq> {})"
proof -
  let ?n = "pg_len G" and ?p = "\<lambda>i. pg_priorities G ! i"
  let ?f = "\<lambda>i (d, S). if \<not> bit_is_set U i then (d, S)
       else if ?p i > d then (?p i, (bv_repeat False ?n)[i := True])
       else if ?p i = d then (d, S[i := True]) else (d, S)"
  have upd: "bset (T[i := True]) = insert i (bset T)" if "i < length T" for T i
    using that by (auto simp: mem_bset_iff nth_list_update split: if_splits)
  have "case fold ?f [0..<k] (0, bv_repeat False ?n) of (d, S) \<Rightarrow>
      bset S = {i \<in> bset U. i < k \<and> ?p i = d} \<and> (\<forall>i \<in> bset U. i < k \<longrightarrow> ?p i \<le> d) \<and> length S = ?n
      \<and> (d \<noteq> 0 \<longrightarrow> bset S \<noteq> {})" if "k \<le> ?n" for k
    using that
  proof (induction k)
    case (Suc k)
    obtain d S where dS: "fold ?f [0..<k] (0, bv_repeat False ?n) = (d, S)" by fastforce
    have IH: "bset S = {i \<in> bset U. i < k \<and> ?p i = d}" "\<forall>i \<in> bset U. i < k \<longrightarrow> ?p i \<le> d"
      "length S = ?n" "d \<noteq> 0 \<longrightarrow> bset S \<noteq> {}" using Suc dS by auto
    have k: "k < ?n" using Suc.prems by simp
    have "?f k (d, S) = fold ?f [0..<Suc k] (0, bv_repeat False ?n)" using dS by simp
    moreover have "case ?f k (d, S) of (d, S) \<Rightarrow>
      bset S = {i \<in> bset U. i < Suc k \<and> ?p i = d} \<and> (\<forall>i \<in> bset U. i < Suc k \<longrightarrow> ?p i \<le> d) \<and> length S = ?n
      \<and> (d \<noteq> 0 \<longrightarrow> bset S \<noteq> {})"
      using IH k upd [of k S] upd [of k "bv_repeat False ?n"] by (auto simp: less_Suc_eq)
    ultimately show ?case by simp
  qed (auto simp: bv_repeat_def mem_bset_iff)
  from this [of ?n, OF order_refl, folded max_prio_scan_def]
  show "bset S = {i \<in> bset U. i < ?n \<and> ?p i = d}
    \<and> (\<forall>i \<in> bset U. i < ?n \<longrightarrow> ?p i \<le> d) \<and> length S = ?n \<and> (d \<noteq> 0 \<longrightarrow> bset S \<noteq> {})"
    unfolding assms(2) prod.case .
qed

lemma max_prio_scan_nonempty:
  assumes "length (pg_priorities G) = pg_len G" "bset U \<subseteq> {..<pg_len G}" "bset U \<noteq> {}"
    "max_prio_scan G U = (d, S)"
  shows "bset S = {i \<in> bset U. pg_priorities G ! i = d}" "\<forall>i \<in> bset U. pg_priorities G ! i \<le> d" "bset S \<noteq> {}"
proof -
  note s = max_prio_scan_spec [OF assms(1,4)]
  show 1: "bset S = {i \<in> bset U. pg_priorities G ! i = d}" "\<forall>i \<in> bset U. pg_priorities G ! i \<le> d"
    using s assms(2) by auto
  show "bset S \<noteq> {}" using s 1 assms(3) by (cases "d = 0") auto
qed

lemma bv_any_iff: "bv_any b \<longleftrightarrow> bset b \<noteq> {}"
proof -
  have "bv_any b \<longleftrightarrow> True \<in> set b" by (induction b) (auto simp: bv_any_def)
  then show ?thesis by (auto simp: mem_bset_iff in_set_conv_nth)
qed

lemma compute_attractor_eq:
  assumes "length U = pg_len G" "length N = pg_len G"
  shows "bset (compute_attractor G U N p) = pg_attr G p (bset U) (bset N)"
proof -
  have "bv_of (pg_len G) (\<lambda>i. i \<in> bset b) = b" if "length b = pg_len G" for b
    using that by (intro bv_eqI [of _ "pg_len G"]) auto
  then show ?thesis using assms by (simp add: pg_attr_def)
qed

definition wf_game :: "parity_game \<Rightarrow> bool" where
  "wf_game G \<longleftrightarrow> length (pg_owners G) = pg_len G \<and> length (pg_priorities G) = pg_len G
     \<and> length (pg_edges G) = pg_len G
     \<and> (\<forall>i < pg_len G. pg_edges G ! i \<noteq> [] \<and> set (pg_edges G ! i) \<subseteq> {..<pg_len G})"

definition region :: "player option list \<Rightarrow> player \<Rightarrow> nat set" where
  "region r p = {i. i < length r \<and> r ! i = Some p}"

lemma opponent_neq [simp]: "opponent p \<noteq> p" "p \<noteq> opponent p" "opponent (opponent p) = p"
  by (cases p; simp add: opponent_def)+

lemma player_cases: "q = p \<or> q = opponent p"
  by (cases p; cases q; simp add: opponent_def)

lemma both_players:
  assumes "region r p \<union> region r (opponent p) = U" "wn p (region r p)" "wn (opponent p) (region r (opponent p))"
  shows "region r q \<union> region r (opponent q) = U" "wn q (region r q)"
  using assms player_cases [of q p] by auto

definition solved :: "parity_game \<Rightarrow> bitvec \<Rightarrow> player option list \<Rightarrow> bool" where
  "solved G U r \<longleftrightarrow> length r = pg_len G \<and> (\<forall>p. region r p \<union> region r (opponent p) = bset U)
     \<and> (\<forall>p. pg.wins G p (bset U) (region r p))"

lemma bset_minus [simp]: "length a = n \<Longrightarrow> bset (bv_minus n a b) = bset a - bset b" "length (bv_minus n a b) = n"
  using bset_subset [of a] by (auto simp: bv_minus_def)

lemma region_bits: "length r = n \<Longrightarrow> bset (bv_of n (\<lambda>i. r ! i = Some p)) = region r p"
  by (auto simp: region_def)

lemma region_disjoint: "region r p \<inter> region r (opponent p) = {}"
  using opponent_neq(1) [of p] by (auto simp: region_def)

lemma solve_all:
  assumes G: "length (pg_priorities G) = pg_len G" "length U = pg_len G" "pg.subgame G (bset U)"
    and d: "max_prio_scan G U = (d, S)" "bset U \<noteq> {}"
    and r: "solved G (bv_minus (pg_len G) U (compute_attractor G U S (prio_player d))) r"
      "region r (opponent (prio_player d)) = {}"
  shows "solved G U (map (\<lambda>i. if bit_is_set U i then Some (prio_player d) else None) [0..<pg_len G])"
proof -
  let ?p = "prio_player d" and ?r = "map (\<lambda>i. if bit_is_set U i then Some (prio_player d) else None) [0..<pg_len G]"
  have U: "bset U \<subseteq> {..<pg_len G}" using bset_subset [of U] G(2) by simp
  note S = max_prio_scan_nonempty [OF G(1) U d(2,1)] and lS = max_prio_scan_spec [OF G(1) d(1)]
  have A: "bset (compute_attractor G U S ?p) = pg_attr G ?p (bset U) (bset S)"
    using G(2) lS by (intro compute_attractor_eq) auto
  have "pg.wins G ?p (bset U - pg_attr G ?p (bset U) (bset S)) (bset U - pg_attr G ?p (bset U) (bset S))"
    using r G(2) A unfolding solved_def by (metis bset_minus(1) sup_bot.right_neutral)
  then have "pg.wins G ?p (bset U) (bset U)"
    by (rule pg.wins_all [OF U G(3) refl S(2) S(1)])
  moreover have "region ?r ?p = bset U" "region ?r (opponent ?p) = {}"
    using U opponent_neq(1) [of ?p] by (auto simp: region_def split: if_splits)
  ultimately have "region ?r q \<union> region ?r (opponent q) = bset U \<and> pg.wins G q (bset U) (region ?r q)" for q
    using player_cases [of q ?p] pg.wins_empty by auto
  then show ?thesis by (simp add: solved_def)
qed

lemma solve_split:
  assumes G: "length U = pg_len G" "pg.subgame G (bset U)" "length N = pg_len G"
    and r1: "solved G (bv_minus (pg_len G) U (compute_attractor G U N p)) r1"
    and r2: "solved G (bv_minus (pg_len G) U (compute_attractor G U
        (bv_of (pg_len G) (\<lambda>i. r1 ! i = Some (opponent p))) (opponent p))) r2"
  shows "solved G U (map (\<lambda>i. if bit_is_set (compute_attractor G U
        (bv_of (pg_len G) (\<lambda>i. r1 ! i = Some (opponent p))) (opponent p)) i
      then Some (opponent p) else r2 ! i) [0..<pg_len G])"
proof -
  let ?o = "opponent p" and ?U = "bset U"
  let ?A = "pg_attr G p ?U (bset N)" and ?W = "region r1 ?o"
  let ?B = "pg_attr G ?o ?U ?W"
  have U: "?U \<subseteq> {..<pg_len G}" using bset_subset [of U] G(1) by simp
  have l1: "length r1 = pg_len G" and l2: "length r2 = pg_len G" using r1 r2 by (simp_all add: solved_def)
  have A: "bset (compute_attractor G U N p) = ?A" by (rule compute_attractor_eq [OF G(1,3)])
  have B: "bset (compute_attractor G U (bv_of (pg_len G) (\<lambda>i. r1 ! i = Some ?o)) ?o) = ?B"
    using compute_attractor_eq [OF G(1), of "bv_of (pg_len G) (\<lambda>i. r1 ! i = Some ?o)" ?o]
    unfolding region_bits [OF l1] by simp
  have w1: "pg.wins G ?o (?U - ?A) ?W" using r1 G(1) A by (simp add: solved_def)
  have "pg.wins G ?o ?U ?B"
  proof (rule pg.wins_attractor [OF U G(2) _ _ w1])
    show "set (pg_edges G ! i) \<inter> ?U \<subseteq> ?U - ?A" if "i \<in> ?U - ?A" "pg_owners G ! i \<noteq> ?o" for i
      by (rule pg.complement_trap [OF U that(1)]) (use that(2) player_cases in metis)
  qed simp
  moreover have w2: "pg.wins G q (?U - ?B) (region r2 q)" for q using r2 G(1) B by (simp add: solved_def)
  ultimately have wo: "pg.wins G ?o ?U (?B \<union> region r2 ?o)" by (intro pg.wins_union)
  have wp: "pg.wins G p ?U (region r2 p)"
  proof (rule pg.wins_trap [OF w2])
    show "set (pg_edges G ! i) \<inter> ?U \<subseteq> ?U - ?B" if "i \<in> ?U - ?B" "pg_owners G ! i \<noteq> p" for i
      by (rule pg.complement_trap [OF U that(1)]) (use that(2) player_cases in metis)
  qed simp
  have r2U: "region r2 q \<union> region r2 (opponent q) = ?U - ?B" for q using r2 G(1) B by (simp add: solved_def)
  have WU: "?W \<subseteq> ?U" using w1 by (auto simp: pg.wins_def)
  have BU: "?B \<subseteq> ?U" using pg.attr_bounds [OF U WU] by blast
  let ?r = "map (\<lambda>i. if bit_is_set (compute_attractor G U
        (bv_of (pg_len G) (\<lambda>i. r1 ! i = Some ?o)) ?o) i then Some ?o else r2 ! i) [0..<pg_len G]"
  have ro: "region ?r ?o = ?B \<union> region r2 ?o" using BU U l2 by (auto simp: region_def B)
  have "region r2 p \<inter> ?B = {}" using r2U [of p] by blast
  then have rp: "region ?r p = region r2 p" using l2 by (auto simp: region_def B split: if_splits)
  have "region ?r p \<union> region ?r ?o = ?U" using r2U [of p] BU ro rp by blast
  moreover have "pg.wins G p ?U (region ?r p)" "pg.wins G ?o ?U (region ?r ?o)"
    using wo wp unfolding ro rp by blast+
  ultimately have "region ?r q \<union> region ?r (opponent q) = ?U" "pg.wins G q ?U (region ?r q)" for q
    by (rule both_players)+
  then show ?thesis unfolding solved_def by simp
qed

lemma solve_subgame_correct:
  assumes G: "length (pg_priorities G) = pg_len G"
  shows "length U = pg_len G \<Longrightarrow> pg.subgame G (bset U) \<Longrightarrow> card (bset U) < k \<Longrightarrow>
    \<exists>r. solve_subgame k G U = Ok r \<and> solved G U r"
proof (induction k arbitrary: U)
  case (Suc k)
  let ?n = "pg_len G"
  have U: "bset U \<subseteq> {..<?n}" using bset_subset [of U] Suc.prems(1) by simp
  show ?case
  proof (cases "bset U = {}")
    case True
    have none: "region (replicate ?n None) p = {}" for p by (auto simp: region_def)
    then have "solved G U (replicate ?n None)" using True by (simp add: solved_def pg.wins_empty)
    then show ?thesis using True by (simp add: bv_any_iff)
  next
    case False
    obtain d S where d: "max_prio_scan G U = (d, S)" by fastforce
    note S = max_prio_scan_nonempty [OF G U False d] and lS = max_prio_scan_spec [OF G d]
    let ?p = "prio_player d" and ?a = "compute_attractor G U S (prio_player d)"
    have smaller: "card (bset (bv_minus ?n U (compute_attractor G U N q))) < k"
      "pg.subgame G (bset (bv_minus ?n U (compute_attractor G U N q)))"
      if N: "length N = ?n" "bset N \<noteq> {}" "bset N \<subseteq> bset U" for N q
    proof -
      have A: "bset (compute_attractor G U N q) = pg_attr G q (bset U) (bset N)"
        by (rule compute_attractor_eq [OF Suc.prems(1) N(1)])
      have "bset N \<subseteq> pg_attr G q (bset U) (bset N)" using pg.attr_bounds [OF U N(3)] by blast
      then have "bset U - pg_attr G q (bset U) (bset N) \<subset> bset U" using N(2,3) by blast
      then have "card (bset U - pg_attr G q (bset U) (bset N)) < card (bset U)" by (rule psubset_card_mono [rotated]) simp
      then show "card (bset (bv_minus ?n U (compute_attractor G U N q))) < k"
        using Suc.prems(1,3) A by simp
      show "pg.subgame G (bset (bv_minus ?n U (compute_attractor G U N q)))"
        using pg.complement_subgame [OF U Suc.prems(2)] Suc.prems(1) A by simp
    qed
    have SU: "bset S \<subseteq> bset U" using S(1) by blast
    obtain r1 where r1: "solve_subgame k G (bv_minus ?n U ?a) = Ok r1" "solved G (bv_minus ?n U ?a) r1"
      using Suc.IH [OF bset_minus(2)] smaller [OF _ S(3) SU] lS by blast
    let ?o = "bv_of ?n (\<lambda>i. r1 ! i = Some (opponent ?p))"
    have "length r1 = ?n" using r1(2) by (simp add: solved_def)
    then have o: "bset ?o = region r1 (opponent ?p)" by (rule region_bits)
    show ?thesis
    proof (cases "bset ?o = {}")
      case True
      then have "solved G U (map (\<lambda>i. if bit_is_set U i then Some ?p else None) [0..<?n])"
        unfolding o by (rule solve_all [OF G Suc.prems(1,2) d False r1(2)])
      then show ?thesis using False d r1(1) True by (simp add: bv_any_iff Let_def)
    next
      case nonempty: False
      have oU: "bset ?o \<subseteq> bset U"
        using r1(2) o Suc.prems(1) unfolding solved_def by (metis Diff_subset Un_upper2 bset_minus(1) subset_trans)
      let ?b = "compute_attractor G U ?o (opponent ?p)"
      obtain r2 where r2: "solve_subgame k G (bv_minus ?n U ?b) = Ok r2" "solved G (bv_minus ?n U ?b) r2"
        using Suc.IH [OF bset_minus(2)] smaller [OF _ nonempty oU] by fastforce
      show ?thesis
        using solve_split [OF Suc.prems(1,2) _ r1(2) r2(2)] lS False nonempty d r1(1) r2(1)
        by (auto simp: bv_any_iff Let_def)
    qed
  qed
qed simp

subsection \<open>What the solution means\<close>

definition play :: "parity_game \<Rightarrow> player \<Rightarrow> (nat \<Rightarrow> nat) \<Rightarrow> (nat \<Rightarrow> nat) \<Rightarrow> bool" where
  \<comment> \<open>an infinite play in which the player follows the positional strategy\<close>
  "play G p \<sigma> \<pi> \<longleftrightarrow> (\<forall>k. \<pi> (Suc k) \<in> set (pg_edges G ! \<pi> k)
     \<and> (pg_owners G ! \<pi> k = p \<longrightarrow> \<pi> (Suc k) = \<sigma> (\<pi> k)))"

definition max_parity :: "parity_game \<Rightarrow> (nat \<Rightarrow> nat) \<Rightarrow> player \<Rightarrow> bool" where
  "max_parity G \<pi> p \<longleftrightarrow> (\<exists>d. prio_player d = p \<and> (\<forall>m. \<exists>k \<ge> m. pg_priorities G ! \<pi> k = d)
     \<and> (\<exists>m. \<forall>k \<ge> m. pg_priorities G ! \<pi> k \<le> d))"

definition wins_from :: "parity_game \<Rightarrow> player \<Rightarrow> (nat \<Rightarrow> nat) \<Rightarrow> nat \<Rightarrow> bool" where
  "wins_from G p \<sigma> i \<longleftrightarrow> (pg_owners G ! i = p \<longrightarrow> \<sigma> i \<in> set (pg_edges G ! i))
     \<and> (\<forall>\<pi>. \<pi> 0 = i \<longrightarrow> play G p \<sigma> \<pi> \<longrightarrow> max_parity G \<pi> p)"

lemma wins_play:
  assumes "wf_game G" "pg.wins G p {..<pg_len G} W"
  shows "\<exists>\<sigma>. \<forall>i \<in> W. wins_from G p \<sigma> i"
proof -
  obtain \<sigma> where W: "W \<subseteq> {..<pg_len G}" and s: "\<forall>i \<in> W. pg_owners G ! i = p \<longrightarrow> \<sigma> i \<in> set (pg_edges G ! i) \<inter> W"
    "\<forall>i \<in> W. pg_owners G ! i \<noteq> p \<longrightarrow> set (pg_edges G ! i) \<inter> {..<pg_len G} \<subseteq> W"
    "\<forall>\<pi>. pg.play_in G W p \<sigma> \<pi> \<longrightarrow> pg.parity_win G p \<pi>" using assms(2) unfolding pg.wins_def by blast
  have "max_parity G \<pi> p" if i: "\<pi> 0 \<in> W" and \<pi>: "play G p \<sigma> \<pi>" for \<pi>
  proof -
    have "\<pi> k \<in> W" for k
    proof (induction k)
      case (Suc k)
      have "set (pg_edges G ! \<pi> k) \<subseteq> {..<pg_len G}" using assms(1) Suc W by (auto simp: wf_game_def)
      then show ?case using \<pi> s(1,2) Suc unfolding play_def by (cases "pg_owners G ! \<pi> k = p") (metis IntD2 IntI subsetD)+
    qed (rule i)
    then have "pg.play_in G W p \<sigma> \<pi>" using \<pi> by (simp add: pg.play_in_def play_def)
    then show ?thesis using s(3) by (auto simp: pg.parity_win_def max_parity_def)
  qed
  then show ?thesis using s(1) by (auto simp: wins_from_def intro!: exI [of _ \<sigma>])
qed

lemma solve_result:
  assumes G: "wf_game G" and k: "pg_len G < k"
  obtains r sol where "solve k G = Ok sol" "solved G (bv_repeat True (pg_len G)) r"
    "length (ps_winner sol) = pg_len G" "\<And>i. i < pg_len G \<Longrightarrow> r ! i = Some (ps_winner sol ! i)"
    "ps_eve_strategy sol = eve_strategy_for_region G (bv_of (pg_len G) (\<lambda>i. ps_winner sol ! i = Eve))"
proof -
  let ?n = "pg_len G" and ?U = "bv_repeat True (pg_len G)"
  have U: "bset ?U = {..<?n}" "length ?U = ?n" by (auto simp: mem_bset_iff bv_repeat_def)
  have "set (pg_edges G ! i) \<inter> {..<?n} \<noteq> {}" if "i < ?n" for i
  proof -
    have "pg_edges G ! i \<noteq> []" "set (pg_edges G ! i) \<subseteq> {..<?n}" using G that by (auto simp: wf_game_def)
    then show ?thesis by (metis inf.absorb1 set_empty)
  qed
  then have sub: "pg.subgame G (bset ?U)" by (simp add: pg.subgame_def U)
  obtain r where r: "solve_subgame k G ?U = Ok r" "solved G ?U r"
    using solve_subgame_correct [OF _ U(2) sub, of k] G k U(1) by (auto simp: wf_game_def)
  have range: "list_all (list_all (\<lambda>s. s < ?n)) (pg_edges G)"
    using G by (fastforce simp: wf_game_def list_all_iff in_set_conv_nth)
  have some: "r ! i \<noteq> None" if "i < ?n" for i
  proof -
    have "i \<in> region r Eve \<union> region r (opponent Eve)" using r(2) that U(1) by (simp add: solved_def)
    then show ?thesis by (auto simp: region_def)
  qed
  show ?thesis
    by (rule that [OF _ r(2)]) (use r(1) range in \<open>auto simp: solve_def Let_def split: option.splits dest: some\<close>)
qed

text \<open>
  C20: on every well-formed game the solver of \<^verbatim>\<open>parity_game.rs\<close> returns, with recursion depth bounded
  by the number of positions plus one, and each player has one positional strategy that wins all
  plays from all positions the solution gives to that player.
\<close>

theorem solve_correct:
  assumes "wf_game G" "pg_len G < k"
  shows "\<exists>sol. solve k G = Ok sol \<and> length (ps_winner sol) = pg_len G
    \<and> (\<forall>p. \<exists>\<sigma>. \<forall>i < pg_len G. ps_winner sol ! i = p \<longrightarrow> wins_from G p \<sigma> i)"
proof -
  obtain r sol where s: "solve k G = Ok sol" "solved G (bv_repeat True (pg_len G)) r"
    "length (ps_winner sol) = pg_len G" "\<And>i. i < pg_len G \<Longrightarrow> r ! i = Some (ps_winner sol ! i)"
    using solve_result [OF assms] by metis
  have U: "bset (bv_repeat True (pg_len G)) = {..<pg_len G}" by (auto simp: mem_bset_iff bv_repeat_def)
  have "\<exists>\<sigma>. \<forall>i < pg_len G. ps_winner sol ! i = p \<longrightarrow> wins_from G p \<sigma> i" for p
  proof -
    have "pg.wins G p {..<pg_len G} (region r p)" using s(2) by (simp add: solved_def U)
    then obtain \<sigma> where "\<forall>i \<in> region r p. wins_from G p \<sigma> i" using wins_play [OF assms(1)] by blast
    then show ?thesis using s(2,4) by (auto simp: region_def solved_def)
  qed
  then show ?thesis using s(1,3) by blast
qed

text \<open>
  C21: the strategy the solver returns assigns a move to every position Eve owns and wins, along an
  edge and to a position Eve wins, and to no other position.
\<close>

theorem eve_strategy_stays:
  assumes "wf_game G" "pg_len G < k"
  shows "\<exists>sol. solve k G = Ok sol \<and> (\<forall>i < pg_len G.
      if ps_winner sol ! i = Eve \<and> pg_owners G ! i = Eve
      then \<exists>j. ps_eve_strategy sol ! i = Some j \<and> j \<in> set (pg_edges G ! i) \<and> ps_winner sol ! j = Eve
      else ps_eve_strategy sol ! i = None)"
proof -
  obtain r sol where s: "solve k G = Ok sol" "solved G (bv_repeat True (pg_len G)) r"
    "length (ps_winner sol) = pg_len G" "\<And>i. i < pg_len G \<Longrightarrow> r ! i = Some (ps_winner sol ! i)"
    "ps_eve_strategy sol = eve_strategy_for_region G (bv_of (pg_len G) (\<lambda>i. ps_winner sol ! i = Eve))"
    using solve_result [OF assms] by metis
  have lr: "length r = pg_len G" using s(2) by (simp add: solved_def)
  have move: "\<exists>j \<in> set (pg_edges G ! i). j < pg_len G \<and> ps_winner sol ! j = Eve"
    if i: "i < pg_len G" "ps_winner sol ! i = Eve" "pg_owners G ! i = Eve" for i
  proof -
    have "i \<in> region r Eve" using i s(4) lr by (simp add: region_def)
    then obtain j where "j \<in> set (pg_edges G ! i)" "j \<in> region r Eve"
      using s(2) i(3) unfolding solved_def pg.wins_def by blast
    then show ?thesis using s(4) lr by (auto simp: region_def)
  qed
  show ?thesis
  proof (intro exI conjI allI impI)
    fix i assume i: "i < pg_len G"
    let ?w = "bv_of (pg_len G) (\<lambda>i. ps_winner sol ! i = Eve)"
    show "if ps_winner sol ! i = Eve \<and> pg_owners G ! i = Eve
      then \<exists>j. ps_eve_strategy sol ! i = Some j \<and> j \<in> set (pg_edges G ! i) \<and> ps_winner sol ! j = Eve
      else ps_eve_strategy sol ! i = None"
    proof (cases "ps_winner sol ! i = Eve \<and> pg_owners G ! i = Eve")
      case True
      then obtain j where "List.find (bit_is_set ?w) (pg_edges G ! i) = Some j"
        using move [OF i] by (cases "List.find (bit_is_set ?w) (pg_edges G ! i)") (auto simp: find_None_iff)
      then show ?thesis using True i
        by (auto simp: s(5) eve_strategy_for_region_def owner_is_def find_Some_iff)
    qed (use i in \<open>auto simp: s(5) eve_strategy_for_region_def owner_is_def\<close>)
  qed (rule s(1))
qed

subsection \<open>Examples\<close>

definition escape_game :: parity_game where
  \<comment> \<open>Eve can stay at position 0, priority 1, or leave to position 1, priority 0\<close>
  "escape_game = \<lparr>pg_positions = [\<lparr>p_state = 0, p_node = 0\<rparr>, \<lparr>p_state = 1, p_node = 0\<rparr>],
     pg_position_idx = [(\<lparr>p_state = 0, p_node = 0\<rparr>, 0), (\<lparr>p_state = 1, p_node = 0\<rparr>, 1)],
     pg_owners = [Eve, Adam], pg_priorities = [1, 0], pg_edges = [[0, 1], [1]],
     pg_terminal_eve_wins = [False, False], pg_terminals = {},
     pg_formula = \<lparr>f_root = 0, f_nodes = [], f_vars = []\<rparr>\<rparr>"

lemma escape_game_wf: "wf_game escape_game" "pg_len escape_game < 3"
  by (auto simp: wf_game_def escape_game_def pg_len_def less_Suc_eq)

theorem solve_correct_witness:
  "\<exists>sol. solve 3 escape_game = Ok sol \<and> length (ps_winner sol) = pg_len escape_game
    \<and> (\<forall>p. \<exists>\<sigma>. \<forall>i < pg_len escape_game. ps_winner sol ! i = p \<longrightarrow> wins_from escape_game p \<sigma> i)"
  by (rule solve_correct [OF escape_game_wf])

theorem eve_strategy_stays_witness:
  "\<exists>sol. solve 3 escape_game = Ok sol \<and> (\<forall>i < pg_len escape_game.
      if ps_winner sol ! i = Eve \<and> pg_owners escape_game ! i = Eve
      then \<exists>j. ps_eve_strategy sol ! i = Some j \<and> j \<in> set (pg_edges escape_game ! i) \<and> ps_winner sol ! j = Eve
      else ps_eve_strategy sol ! i = None)"
  by (rule eve_strategy_stays [OF escape_game_wf])

lemma escape_game_solution:
  "solve 3 escape_game = Ok \<lparr>ps_winner = [Eve, Eve], ps_eve_strategy = [Some 0, None]\<rparr>"
  by code_simp

text \<open>
  C34: the returned strategy need not be winning. In a game Eve wins everywhere it keeps Eve on a loop
  of odd priority: the play that follows it from position 0 is won by Adam, not by Eve.
\<close>

theorem eve_strategy_not_winning:
  "\<exists>sol. solve 3 escape_game = Ok sol \<and> ps_winner sol ! 0 = Eve
     \<and> (\<exists>\<pi>. \<pi> 0 = 0 \<and> play escape_game Eve (\<lambda>i. the (ps_eve_strategy sol ! i)) \<pi>
          \<and> max_parity escape_game \<pi> Adam \<and> \<not> max_parity escape_game \<pi> Eve)"
proof (intro exI conjI)
  show "solve 3 escape_game = Ok \<lparr>ps_winner = [Eve, Eve], ps_eve_strategy = [Some 0, None]\<rparr>"
    by (rule escape_game_solution)
  show "max_parity escape_game (\<lambda>_. 0) Adam" "\<not> max_parity escape_game (\<lambda>_. 0) Eve"
    by (auto simp: max_parity_def escape_game_def prio_player_def)
qed (auto simp: play_def escape_game_def)

end
