(* ===== verification/Game_Build.thy ===== *)
theory Game_Build
  imports Zielonka
begin

section \<open>The constructed game\<close>

text \<open>
  The games of \<open>build_parity_game\<close> are well formed: the components of the game have one entry per
  position, every edge leads to a position and every position has a successor. The invariant of the
  construction allows positions without successors only while they wait in the queue.
\<close>

definition game_inv :: "parity_game \<Rightarrow> position set \<Rightarrow> bool" where
  "game_inv G Q \<longleftrightarrow> length (pg_owners G) = pg_len G \<and> length (pg_priorities G) = pg_len G
     \<and> length (pg_edges G) = pg_len G \<and> distinct (pg_positions G)
     \<and> (\<forall>pos i. map_of (pg_position_idx G) pos = Some i \<longrightarrow> i < pg_len G \<and> pg_positions G ! i = pos)
     \<and> set (pg_positions G) \<subseteq> dom (map_of (pg_position_idx G))
     \<and> (\<forall>i < pg_len G. set (pg_edges G ! i) \<subseteq> {..<pg_len G})
     \<and> pg_terminals G \<subseteq> {..<pg_len G}
     \<and> (\<forall>i < pg_len G. pg_edges G ! i = [] \<longrightarrow> pg_positions G ! i \<in> Q \<and> i \<notin> pg_terminals G)"

definition grows :: "parity_game \<Rightarrow> parity_game \<Rightarrow> bool" where
  "grows G G' \<longleftrightarrow> pg_len G \<le> pg_len G' \<and> (\<forall>i < pg_len G. pg_positions G' ! i = pg_positions G ! i
     \<and> (pg_edges G ! i \<noteq> [] \<longrightarrow> pg_edges G' ! i \<noteq> []))"

lemma grows_refl [simp]: "grows G G"
  by (simp add: grows_def)

lemma grows_trans: "grows G H \<Longrightarrow> grows H K \<Longrightarrow> grows G K"
  by (simp add: grows_def)

lemma intern_position_inv:
  assumes "game_inv G Q" "intern_position f vp pos G = Ok (idx, G')"
  shows "game_inv G' (insert pos Q)" "grows G G'" "idx < pg_len G'" "pg_positions G' ! idx = pos"
proof -
  have "game_inv G' (insert pos Q) \<and> grows G G' \<and> idx < pg_len G' \<and> pg_positions G' ! idx = pos"
  proof (cases "map_of (pg_position_idx G) pos")
    case (Some i)
    then show ?thesis using assms by (auto simp: intern_position_def game_inv_def)
  next
    case None
    then have new: "pos \<notin> set (pg_positions G)" using assms(1) by (auto simp: game_inv_def)
    show ?thesis using assms None new
      by (auto simp: intern_position_def game_inv_def grows_def pg_len_def Let_def rbind_eq_Ok nth_append less_Suc_eq
          update_conv' split: if_splits) (metis lessThan_iff subsetD)
  qed
  then show "game_inv G' (insert pos Q)" "grows G G'" "idx < pg_len G'" "pg_positions G' ! idx = pos" by auto
qed

lemma push_edge_inv:
  assumes "game_inv G Q" "src < pg_len G" "t < pg_len G"
  shows "game_inv (push_edge src t G) Q" "grows G (push_edge src t G)" "pg_edges (push_edge src t G) ! src \<noteq> []"
  using assms
  by (auto simp: push_edge_def game_inv_def grows_def pg_len_def nth_list_update split: if_splits)

lemma set_owner_inv: "game_inv G Q \<Longrightarrow> game_inv (set_owner idx p G) Q" "grows G (set_owner idx p G)"
  "pg_len (set_owner idx p G) = pg_len G" "pg_positions (set_owner idx p G) = pg_positions G"
  by (auto simp: set_owner_def game_inv_def grows_def pg_len_def)

lemma set_terminal_inv:
  assumes "game_inv G Q" "idx < pg_len G"
  shows "game_inv (set_terminal idx w G) Q" "grows G (set_terminal idx w G)" "pg_edges (set_terminal idx w G) ! idx \<noteq> []"
  using assms
  by (auto simp: set_terminal_def push_edge_def game_inv_def grows_def pg_len_def nth_list_update split: if_splits)

lemma add_edge_inv:
  assumes "game_inv G (insert p (set queue))" "src < pg_len G" "add_edge f vp src t (G, queue) = Ok (G', queue')"
  shows "game_inv G' (insert p (set queue')) \<and> grows G G' \<and> pg_edges G' ! src \<noteq> []"
proof (cases "map_of (pg_position_idx G) t")
  case (Some i)
  then have "i < pg_len G" using assms(1) by (auto simp: game_inv_def)
  then show ?thesis using assms Some push_edge_inv [OF assms(1,2)] by (auto simp: add_edge_def)
next
  case None
  then obtain i G1 where i: "intern_position f vp t G = Ok (i, G1)" "G' = push_edge src i G1" "queue' = t # queue"
    using assms(3) by (auto simp: add_edge_def rbind_eq_Ok split: res.splits)
  note int = intern_position_inv [OF assms(1) i(1)]
  have "src < pg_len G1" using int(2) assms(2) by (simp add: grows_def)
  note psh = push_edge_inv [OF int(1) this int(3)]
  show ?thesis using psh int(2) i(2,3) grows_trans by (auto simp: insert_commute)
qed

lemma add_edges_inv:
  "game_inv G (insert p (set queue)) \<Longrightarrow> src < pg_len G \<Longrightarrow> add_edges f vp src ts (G, queue) = Ok (G', queue') \<Longrightarrow>
    game_inv G' (insert p (set queue')) \<and> grows G G' \<and> (ts \<noteq> [] \<longrightarrow> pg_edges G' ! src \<noteq> [])"
proof (induction ts arbitrary: G queue)
  case (Cons t ts)
  obtain G1 q1 where 1: "add_edge f vp src t (G, queue) = Ok (G1, q1)" "add_edges f vp src ts (G1, q1) = Ok (G', queue')"
    using Cons.prems(3) by (auto simp: rbind_eq_Ok split: res.splits)
  note step = add_edge_inv [OF Cons.prems(1,2) 1(1)]
  have src: "src < pg_len G1" using step Cons.prems(2) by (simp add: grows_def)
  have "game_inv G' (insert p (set queue')) \<and> grows G1 G'" using Cons.IH [OF _ src 1(2)] step by blast
  then show ?case using step src grows_trans by (auto simp: grows_def)
qed simp

text \<open>After the expansion of a position it has a successor.\<close>

lemma set_owner_add_edges:
  assumes "game_inv G (insert p (set queue))" "idx < pg_len G"
    "add_edges f vp idx ts (set_owner idx q G, queue) = Ok (G', queue')"
  shows "game_inv G' (insert p (set queue')) \<and> grows G G' \<and> (ts \<noteq> [] \<longrightarrow> pg_edges G' ! idx \<noteq> [])"
  using add_edges_inv [OF set_owner_inv(1) _ assms(3), OF assms(1)] assms(2)
    grows_trans [OF set_owner_inv(2), of idx q G G'] by (simp add: set_owner_inv(3))

definition expanded :: "parity_game \<Rightarrow> position \<Rightarrow> nat \<Rightarrow> build_state \<Rightarrow> bool" where
  "expanded G p idx st \<longleftrightarrow> (case st of (G', queue') \<Rightarrow>
     game_inv G' (insert p (set queue')) \<and> grows G G' \<and> pg_edges G' ! idx \<noteq> [])"

lemma expanded_terminal:
  "game_inv G (insert p (set queue)) \<Longrightarrow> idx < pg_len G \<Longrightarrow> expanded G p idx (set_terminal idx w G, queue)"
  using set_terminal_inv by (simp add: expanded_def)

lemma expanded_edges:
  "game_inv G (insert p (set queue)) \<Longrightarrow> idx < pg_len G \<Longrightarrow>
    add_edges f vp idx ts (set_owner idx q G, queue) = Ok st \<Longrightarrow> ts \<noteq> [] \<longrightarrow> expanded G p idx st"
  using set_owner_add_edges by (cases st) (simp add: expanded_def)

lemma expand_modal_expanded:
  assumes "game_inv G (insert p (set queue))" "idx < pg_len G" "expand_modal f c vp pos idx kind g t (G, queue) = Ok st"
  shows "expanded G p idx st"
proof (cases "g_control g = CControllable")
  case True
  then show ?thesis
    using assms(3) expanded_terminal [OF assms(1,2)]
    by (auto simp: expand_modal_def Let_def split: if_splits dest!: expanded_edges [OF assms(1,2)])
next
  case False
  let ?ts = "map (\<lambda>x. \<lparr>p_state = t_target x, p_node = t\<rparr>)
      (filter (\<lambda>x. transition_matches_guard x g c (p_state pos)) (outgoing c (p_state pos)))"
  obtain G1 q1 where 1: "add_edges f vp idx ?ts (set_owner idx (modal_owner kind) G, queue) = Ok (G1, q1)"
    "st = (if pg_edges G1 ! idx = [] then set_terminal idx (kind = Box) G1 else G1, q1)"
    using assms(3) False by (auto simp: expand_modal_def Let_def rbind_eq_Ok split: res.splits)
  note e = set_owner_add_edges [OF assms(1,2) 1(1)]
  have "idx < pg_len G1" using e assms(2) by (simp add: grows_def)
  then show ?thesis using 1(2) e set_terminal_inv [of G1 _ idx "kind = Box"] grows_trans
    by (auto simp: expanded_def)
qed

lemma expand_position_expanded:
  assumes "game_inv G (insert p (set queue))" "idx < pg_len G"
    "expand_position f c env vp vb pos idx (G, queue) = Ok st"
  shows "expanded G p idx st"
proof -
  note rules = expanded_terminal [OF assms(1,2)] expand_modal_expanded [OF assms(1,2)]
    expanded_edges [OF assms(1,2)]
  obtain nd where nd: "node_at f (p_node pos) = Ok nd"
    using assms(3) by (auto simp: expand_position_def Let_def elim: rbind_OkE)
  note e = assms(3) [unfolded expand_position_def Let_def prod.case nd rbind.simps]
  show ?thesis
  proof (cases nd)
    case (NNot a)
    then obtain inner where "node_at f a = Ok inner" using e by (auto elim: rbind_OkE)
    then show ?thesis using e NNot rules(1) by (cases inner) auto
  next
    case (NVariable v)
    then show ?thesis using e by (auto simp del: add_edges.simps split: option.splits dest!: rules(3))
  qed (use e rules(1,2) in \<open>auto simp del: add_edges.simps dest!: rules(3)\<close>)
qed

lemma game_inv_drop:
  assumes "game_inv G (insert (pg_positions G ! idx) Q)" "idx < pg_len G" "pg_edges G ! idx \<noteq> []"
  shows "game_inv G Q"
proof -
  have "i = idx" if "i < pg_len G" "pg_positions G ! i = pg_positions G ! idx" for i
    using that assms(1,2) by (simp add: game_inv_def pg_len_def nth_eq_iff_index_eq)
  then have "\<forall>i < pg_len G. pg_edges G ! i = [] \<longrightarrow> pg_positions G ! i \<in> Q \<and> i \<notin> pg_terminals G"
    using assms unfolding game_inv_def by (metis insertE)
  then show ?thesis using assms(1) by (simp add: game_inv_def)
qed

lemma expand_loop_wf:
  "game_inv G (set queue) \<Longrightarrow> expand_loop k f c env vp vb (G, queue) = Ok G' \<Longrightarrow> game_inv G' {}"
proof (induction k arbitrary: G queue)
  case (Suc k)
  show ?case
  proof (cases queue)
    case (Cons pos q)
    then obtain idx where idx: "map_of (pg_position_idx G) pos = Some idx" using Suc.prems(2) by (auto split: option.splits)
    then have i: "idx < pg_len G" "pg_positions G ! idx = pos" using Suc.prems(1) by (auto simp: game_inv_def)
    show ?thesis
    proof (cases "pg_edges G ! idx \<noteq> [] \<or> idx \<in> pg_terminals G")
      case True
      then have "pg_edges G ! idx \<noteq> []" using Suc.prems(1) i(1) by (auto simp: game_inv_def)
      then have "game_inv G (set q)" using game_inv_drop [of G idx "set q"] Suc.prems(1) i Cons by simp
      then show ?thesis using Suc.IH Suc.prems(2) Cons idx True by auto
    next
      case False
      then obtain G1 q1 where e: "expand_position f c env vp vb pos idx (G, q) = Ok (G1, q1)"
        "expand_loop k f c env vp vb (G1, q1) = Ok G'"
        using Suc.prems(2) Cons idx by (auto simp: rbind_eq_Ok split: res.splits if_splits)
      have "expanded G pos idx (G1, q1)"
        by (rule expand_position_expanded [OF _ i(1) e(1)]) (use Suc.prems(1) Cons in simp)
      then have "game_inv G1 (set q1)" using game_inv_drop [of G1 idx "set q1"] i by (auto simp: expanded_def grows_def)
      then show ?thesis using Suc.IH e(2) by blast
    qed
  qed (use Suc.prems in auto)
next
  case 0
  then show ?case by (cases queue) auto
qed

lemma intern_initials_wf:
  "game_inv G (set queue) \<Longrightarrow> intern_initials f vp ss (G, queue) = Ok (G', queue') \<Longrightarrow> game_inv G' (set queue')"
proof (induction ss arbitrary: G queue)
  case (Cons s ss)
  let ?pos = "\<lparr>p_state = s, p_node = f_root f\<rparr>"
  obtain idx G1 where 1: "intern_position f vp ?pos G = Ok (idx, G1)"
    "intern_initials f vp ss (G1, ?pos # queue) = Ok (G', queue')"
    using Cons.prems(2) by (auto simp: Let_def elim: rbind_OkE)
  show ?case using Cons.IH [OF _ 1(2)] intern_position_inv(1) [OF Cons.prems(1) 1(1)] by simp
qed simp

lemma build_game_inv: "build_parity_game k inits f c env = Ok G \<Longrightarrow> game_inv G {}"
proof -
  assume "build_parity_game k inits f c env = Ok G"
  then obtain g vp vb st where b: "intern_initials g vp inits (empty_game g, []) = Ok st"
    "expand_loop k g c env vp vb st = Ok G"
    unfolding build_parity_game_def Let_def rbind_eq_Ok by blast
  obtain G0 q where st: "st = (G0, q)" by (cases st)
  have "game_inv (empty_game g) (set [])" by (simp add: game_inv_def empty_game_def pg_len_def)
  then show ?thesis using expand_loop_wf [OF intern_initials_wf [OF _ b(1) [unfolded st]] b(2) [unfolded st]] by blast
qed


subsection \<open>Priorities\<close>

lemma map_of_fold_update:
  "distinct (map key xs) \<Longrightarrow> x \<in> set xs \<Longrightarrow>
    map_of (fold (\<lambda>x. AList.update (key x) (val x)) xs m) (key x) = Some (val x)"
proof (induction xs rule: rev_induct)
  case (snoc y ys)
  then show ?case by (cases "x = y") (auto simp: update_conv' image_iff)
qed simp

definition fixpoint_priority :: "nat \<Rightarrow> bool \<Rightarrow> nat" where
  \<comment> \<open>the least number of the right parity that is not below the height of the fixpoint\<close>
  "fixpoint_priority height is_mu = (LEAST p. height \<le> p \<and> odd p = is_mu)"

lemma fixpoint_priority_eq:
  "fixpoint_priority h is_mu = (if is_mu then if even h then h + 1 else h else if even h then h else h + 1)"
proof -
  have "Suc h \<le> y" if "h \<le> y" "odd h \<noteq> odd y" for y using that by (metis le_eq_less_or_eq Suc_leI)
  then show ?thesis unfolding fixpoint_priority_def by (intro Least_equality) auto
qed

lemma assign_var_priorities_nth:
  assumes "distinct (map fst nesting)" "i < length nesting" "nesting ! i = (v, is_mu)"
  shows "map_of (assign_var_priorities nesting) v = Some (fixpoint_priority (length nesting - i) is_mu)"
proof -
  let ?xs = "zip [0..<length nesting] nesting" and ?h = "\<lambda>x. length nesting - fst x"
  have "assign_var_priorities nesting
      = fold (\<lambda>x. AList.update (fst (snd x)) (fixpoint_priority (?h x) (snd (snd x)))) ?xs []"
    by (simp add: assign_var_priorities_def fixpoint_priority_eq Let_def case_prod_beta')
  moreover have "map (\<lambda>x. fst (snd x)) ?xs = map fst nesting"
    by (rule nth_equalityI) simp_all
  moreover have "(i, v, is_mu) \<in> set ?xs" using assms(2,3) by (force simp: set_zip intro!: exI [of _ i])
  ultimately show ?thesis
    using map_of_fold_update [of "\<lambda>x. fst (snd x)" ?xs "(i, v, is_mu)"
        "\<lambda>x. fixpoint_priority (?h x) (snd (snd x))" "[]"] assms(1) by simp
qed

text \<open>
  C23: the priorities of the fixpoint variables. A least fixpoint has an odd priority and a greatest
  one an even one, no priority exceeds the number of fixpoints by more than one, and a fixpoint that
  precedes another in the nesting order has a priority at least as high, and a higher one when the
  kinds differ.
\<close>

theorem assign_var_priorities_ordered:
  assumes "distinct (map fst nesting)" "i < j" "j < length nesting"
  shows "\<exists>p q. map_of (assign_var_priorities nesting) (fst (nesting ! i)) = Some p
    \<and> map_of (assign_var_priorities nesting) (fst (nesting ! j)) = Some q
    \<and> (odd p \<longleftrightarrow> snd (nesting ! i)) \<and> (odd q \<longleftrightarrow> snd (nesting ! j))
    \<and> q \<le> p \<and> (snd (nesting ! i) \<noteq> snd (nesting ! j) \<longrightarrow> q < p) \<and> p \<le> length nesting + 1"
proof -
  let ?p = "\<lambda>k. fixpoint_priority (length nesting - k) (snd (nesting ! k))"
  have eq: "map_of (assign_var_priorities nesting) (fst (nesting ! k)) = Some (?p k)" if "k < length nesting" for k
    using assign_var_priorities_nth [OF assms(1) that, of "fst (nesting ! k)" "snd (nesting ! k)"] by simp
  have le: "Suc (length nesting - j) \<le> length nesting - i" using assms(2,3) by simp
  have odd: "odd (?p k) \<longleftrightarrow> snd (nesting ! k)" for k by (simp add: fixpoint_priority_eq)
  have "?p j \<le> Suc (length nesting - j)" "length nesting - i \<le> ?p i" "?p i \<le> Suc (length nesting - i)"
    by (simp_all add: fixpoint_priority_eq)
  then have "?p j \<le> ?p i" "?p i \<le> length nesting + 1" using le by simp_all
  moreover have "?p j < ?p i" if "snd (nesting ! i) \<noteq> snd (nesting ! j)"
    using odd that calculation(1) by (metis le_neq_implies_less)
  ultimately show ?thesis using eq [of i] eq [of j] odd [of i] odd [of j] assms(2,3)
    by (intro exI [of _ "?p i"] exI [of _ "?p j"]) simp
qed

theorem assign_var_priorities_ordered_witness:
  "\<exists>p q. map_of (assign_var_priorities [(0, True), (1, False)]) 0 = Some p
    \<and> map_of (assign_var_priorities [(0, True), (1, False)]) 1 = Some q \<and> odd p \<and> even q \<and> q < p"
  using assign_var_priorities_ordered [of "[(0, True), (1, False)]" 0 1] by auto

subsection \<open>Examples\<close>

definition mu_loop :: formula where
  \<comment> \<open>\<open>mu X. <> X\<close>, false in every state\<close>
  "mu_loop = \<lparr>f_root = 2, f_nodes = [NVariable 0, NModal Diamond guard_default 0, NMu 0 1], f_vars = [''X'']\<rparr>"

definition mu_loop_game :: parity_game where
  \<comment> \<open>its game from state 1, whose only transition is a self-loop\<close>
  "mu_loop_game = \<lparr>pg_positions = [\<lparr>p_state = 1, p_node = 2\<rparr>, \<lparr>p_state = 1, p_node = 1\<rparr>, \<lparr>p_state = 1, p_node = 0\<rparr>],
     pg_position_idx = [(\<lparr>p_state = 1, p_node = 2\<rparr>, 0), (\<lparr>p_state = 1, p_node = 1\<rparr>, 1), (\<lparr>p_state = 1, p_node = 0\<rparr>, 2)],
     pg_owners = [Eve, Eve, Eve], pg_priorities = [1, 0, 0], pg_edges = [[1], [2], [1]],
     pg_terminal_eve_wins = [False, False, False], pg_terminals = {}, pg_formula = mu_loop\<rparr>"

lemma mu_loop_built: "build_parity_game 4 [1] mu_loop ex_sharp ex_env = Ok mu_loop_game"
  by code_simp



end
