(* ===== verification/Mu_Parser.thy ===== *)
theory Mu_Parser
  imports Formula
begin

section \<open>The parser of mu-calculus formulas\<close>

text \<open>
  Models \<^verbatim>\<open>mu_calculus/parser.rs\<close>. A source text is a list of bytes, the UTF-8 encoding of the
  \<open>str\<close> the code reads; a character is the list of bytes of its encoding. The classification of
  ASCII characters is written out; the tables of the standard library for the other characters
  are the argument \<open>U\<close>. The state keeps the unread part of the input and its byte offset. The
  recursive descent runs on fuel, and \<open>parse_total\<close> shows that a linear amount suffices.
\<close>

subsection \<open>Characters\<close>

type_synonym uchar = string

record unicode =
  u_alphabetic :: "uchar \<Rightarrow> bool"
  u_numeric :: "uchar \<Rightarrow> bool"
  u_whitespace :: "uchar \<Rightarrow> bool"

abbreviation byte :: "char \<Rightarrow> nat" where
  "byte b \<equiv> of_char b"

definition char_len :: "char \<Rightarrow> nat" where
  "char_len b = (if byte b < 128 then 1 else if byte b < 224 then 2 else if byte b < 240 then 3 else 4)"

definition next_char :: "string \<Rightarrow> uchar option" where
  "next_char s = (case s of [] \<Rightarrow> None | b # _ \<Rightarrow> Some (take (char_len b) s))"

definition ascii_upper :: "char \<Rightarrow> bool" where
  "ascii_upper b \<longleftrightarrow> 65 \<le> byte b \<and> byte b \<le> 90"

definition ascii_alpha :: "char \<Rightarrow> bool" where
  "ascii_alpha b \<longleftrightarrow> ascii_upper b \<or> (97 \<le> byte b \<and> byte b \<le> 122)"

definition ascii_digit :: "char \<Rightarrow> bool" where
  "ascii_digit b \<longleftrightarrow> 48 \<le> byte b \<and> byte b \<le> 57"

definition ascii_space :: "char \<Rightarrow> bool" where
  "ascii_space b \<longleftrightarrow> (9 \<le> byte b \<and> byte b \<le> 13) \<or> byte b = 32"

fun ascii_or :: "(char \<Rightarrow> bool) \<Rightarrow> (uchar \<Rightarrow> bool) \<Rightarrow> uchar \<Rightarrow> bool" where
  \<comment> \<open>the ASCII classification for encodings of one byte, the table for the others\<close>
  "ascii_or P Q [b] = P b"
| "ascii_or P Q c = Q c"

definition is_alphabetic :: "unicode \<Rightarrow> uchar \<Rightarrow> bool" where
  "is_alphabetic U = ascii_or ascii_alpha (u_alphabetic U)"

definition is_alphanumeric :: "unicode \<Rightarrow> uchar \<Rightarrow> bool" where
  "is_alphanumeric U c \<longleftrightarrow> is_alphabetic U c \<or> ascii_or ascii_digit (u_numeric U) c"

definition is_whitespace :: "unicode \<Rightarrow> uchar \<Rightarrow> bool" where
  "is_whitespace U = ascii_or ascii_space (u_whitespace U)"

definition is_ident_start :: "unicode \<Rightarrow> uchar \<Rightarrow> bool" where
  "is_ident_start U ch \<longleftrightarrow> is_alphabetic U ch \<or> ch = ''_'' \<or> ch = ''$''"

definition is_ident_continue :: "unicode \<Rightarrow> uchar \<Rightarrow> bool" where
  "is_ident_continue U ch \<longleftrightarrow> is_alphanumeric U ch \<or> ch = ''_'' \<or> ch = ''$''"

definition lower_byte :: "char \<Rightarrow> char" where
  "lower_byte b = (if ascii_upper b then char_of (byte b + 32) else b)"

definition to_ascii_lowercase :: "string \<Rightarrow> string" where
  "to_ascii_lowercase s = map lower_byte s"

definition starts_with :: "string \<Rightarrow> string \<Rightarrow> bool" where
  "starts_with s pre \<longleftrightarrow> take (length pre) s = pre"

lemma next_char_Some:
  "next_char s = Some c \<Longrightarrow> c \<noteq> [] \<and> s \<noteq> [] \<and> length c \<le> length s \<and> c @ drop (length c) s = s"
proof (cases s)
  case (Cons b r)
  obtain n where "char_len b = Suc n" by (metis char_len_def numeral_eq_Suc One_nat_def)
  then show "next_char s = Some c \<Longrightarrow> ?thesis" using Cons by (auto simp: next_char_def min_def)
qed (simp add: next_char_def)

function span_len :: "(uchar \<Rightarrow> bool) \<Rightarrow> string \<Rightarrow> nat" where
  \<comment> \<open>the bytes of the leading characters that satisfy \<open>P\<close>\<close>
  "span_len P s = (case next_char s of
      None \<Rightarrow> 0
    | Some c \<Rightarrow> if P c then length c + span_len P (drop (length c) s) else 0)"
  by pat_completeness auto

termination span_len
  by (relation "measure (\<lambda>(P, s). length s)") (auto dest!: next_char_Some)

function chars :: "string \<Rightarrow> uchar list" where
  "chars s = (case next_char s of None \<Rightarrow> [] | Some c \<Rightarrow> c # chars (drop (length c) s))"
  by pat_completeness auto

termination chars
  by (relation "measure length") (auto dest!: next_char_Some)

definition trim_start :: "unicode \<Rightarrow> string \<Rightarrow> string" where
  "trim_start U s = drop (span_len (is_whitespace U) s) s"

definition trim_end :: "unicode \<Rightarrow> string \<Rightarrow> string" where
  "trim_end U s = concat (rev (dropWhile (is_whitespace U) (rev (chars s))))"

definition trim :: "unicode \<Rightarrow> string \<Rightarrow> string" where
  "trim U s = trim_end U (trim_start U s)"

definition trim_end_byte :: "char \<Rightarrow> string \<Rightarrow> string" where
  "trim_end_byte b s = rev (dropWhile (\<lambda>x. x = b) (rev s))"

subsection \<open>Parser state and errors\<close>

datatype parse_error =
    UnexpectedEof
  | Unexpected nat string
  | DuplicateGuardField string nat

datatype parse_error_kind =
    Expected string
  | ExpectedChar uchar
  | UnexpectedGuardKey string
  | UnexpectedTrailing

record parser =
  ps_rest :: string
  ps_pos :: nat
  ps_builder :: formula_builder
  ps_binders :: "(string \<times> nat) list"
  ps_depth :: nat

definition max_parse_depth :: nat where
  "max_parse_depth = 256"

definition parser_new :: "string \<Rightarrow> parser" where
  "parser_new input = \<lparr>ps_rest = input, ps_pos = 0, ps_builder = formula_builder_default,
     ps_binders = [], ps_depth = 0\<rparr>"

definition error_here :: "parse_error_kind \<Rightarrow> parser \<Rightarrow> parse_error" where
  "error_here kind p = (case kind of
      Expected message \<Rightarrow> Unexpected (ps_pos p) (''expected '' @ message)
    | ExpectedChar ch \<Rightarrow> Unexpected (ps_pos p) (''expected `'' @ ch @ ''`'')
    | UnexpectedGuardKey key \<Rightarrow> Unexpected (ps_pos p) (''unexpected guard key `'' @ key @ ''`'')
    | UnexpectedTrailing \<Rightarrow> Unexpected (ps_pos p) ''trailing characters after formula'')"

definition advance :: "nat \<Rightarrow> parser \<Rightarrow> parser" where
  "advance n p = p\<lparr>ps_rest := drop n (ps_rest p), ps_pos := ps_pos p + n\<rparr>"

definition peek_char :: "parser \<Rightarrow> uchar option" where
  "peek_char p = next_char (ps_rest p)"

definition is_eof :: "parser \<Rightarrow> bool" where
  "is_eof p \<longleftrightarrow> ps_rest p = []"

definition skip_whitespace :: "unicode \<Rightarrow> parser \<Rightarrow> parser" where
  "skip_whitespace U p = advance (span_len (is_whitespace U) (ps_rest p)) p"

definition try_consume_char :: "uchar \<Rightarrow> parser \<Rightarrow> bool \<times> parser" where
  "try_consume_char ch p =
     (if peek_char p = Some ch then (True, advance (length ch) p) else (False, p))"

definition expect_char :: "unicode \<Rightarrow> uchar \<Rightarrow> parser \<Rightarrow> (parse_error, parser) res" where
  "expect_char U ch p =
     (case try_consume_char ch (skip_whitespace U p) of
        (True, p1) \<Rightarrow> Ok p1
      | (False, p1) \<Rightarrow> Err (error_here (ExpectedChar ch) p1))"

definition consume_keyword :: "unicode \<Rightarrow> string \<Rightarrow> parser \<Rightarrow> bool \<times> parser" where
  "consume_keyword U kw p =
     (if starts_with (to_ascii_lowercase (ps_rest p)) kw
      then (case next_char (drop (length kw) (ps_rest p)) of
          Some ch \<Rightarrow> if is_ident_continue U ch then (False, p) else (True, advance (length kw) p)
        | None \<Rightarrow> (True, advance (length kw) p))
      else (False, p))"

fun or_else :: "(parser \<Rightarrow> bool \<times> parser) list \<Rightarrow> parser \<Rightarrow> bool \<times> parser" where
  \<comment> \<open>the alternatives of a chain of \<open>if .. { return true; }\<close>\<close>
  "or_else [] p = (False, p)"
| "or_else (f # fs) p = (case f p of (True, p1) \<Rightarrow> (True, p1) | (False, p1) \<Rightarrow> or_else fs p1)"

definition consume_bytes :: "string \<Rightarrow> parser \<Rightarrow> bool \<times> parser" where
  "consume_bytes s p = (if starts_with (ps_rest p) s then (True, advance (length s) p) else (False, p))"

abbreviation mu_char :: uchar where "mu_char \<equiv> [CHR 0xCE, CHR 0xBC]"
abbreviation nu_char :: uchar where "nu_char \<equiv> [CHR 0xCE, CHR 0xBD]"
abbreviation not_char :: uchar where "not_char \<equiv> [CHR 0xC2, CHR 0xAC]"
abbreviation and_char :: uchar where "and_char \<equiv> [CHR 0xE2, CHR 0x88, CHR 0xA7]"
abbreviation or_char :: uchar where "or_char \<equiv> [CHR 0xE2, CHR 0x88, CHR 0xA8]"
abbreviation langle_char :: uchar where "langle_char \<equiv> [CHR 0xE2, CHR 0x9F, CHR 0xA8]"
abbreviation rangle_char :: uchar where "rangle_char \<equiv> [CHR 0xE2, CHR 0x9F, CHR 0xA9]"

definition try_consume_not :: "unicode \<Rightarrow> parser \<Rightarrow> bool \<times> parser" where
  "try_consume_not U = or_else [try_consume_char not_char, try_consume_char ''!'', consume_keyword U ''not'']"

definition try_consume_and :: "unicode \<Rightarrow> parser \<Rightarrow> bool \<times> parser" where
  "try_consume_and U = or_else [try_consume_char and_char, consume_bytes ''&&'', try_consume_char ''&'',
     consume_keyword U ''and'']"

definition try_consume_or :: "unicode \<Rightarrow> parser \<Rightarrow> bool \<times> parser" where
  "try_consume_or U = or_else [try_consume_char or_char, consume_bytes ''||'', try_consume_char ''|'',
     consume_keyword U ''or'']"

function ident_tail_len :: "unicode \<Rightarrow> string \<Rightarrow> nat" where
  "ident_tail_len U s = (case next_char s of
      None \<Rightarrow> 0
    | Some ch \<Rightarrow>
        if is_ident_continue U ch
           \<or> (ch = ''.'' \<and> (case next_char (drop (length ch) s) of
                Some d \<Rightarrow> is_ident_continue U d | None \<Rightarrow> False))
        then length ch + ident_tail_len U (drop (length ch) s) else 0)"
  by pat_completeness auto

termination ident_tail_len
  by (relation "measure (\<lambda>(U, s). length s)") (auto dest!: next_char_Some)

definition parse_identifier :: "unicode \<Rightarrow> parser \<Rightarrow> string option \<times> parser" where
  "parse_identifier U p =
     (let p1 = skip_whitespace U p; rest = ps_rest p1
      in case next_char rest of
           None \<Rightarrow> (None, p1)
         | Some first \<Rightarrow>
             if \<not> is_ident_start U first then (None, p1)
             else (let len = length first + ident_tail_len U (drop (length first) rest)
                   in (Some (take len rest), advance len p1)))"

subsection \<open>Guards\<close>

record guard_seen =
  seen_labels :: bool
  seen_req_cur :: bool
  seen_forb_cur :: bool
  seen_req_next :: bool
  seen_forb_next :: bool
  seen_ctrl :: bool
  seen_steps :: bool

definition guard_seen_none :: guard_seen where
  "guard_seen_none = \<lparr>seen_labels = False, seen_req_cur = False, seen_forb_cur = False,
     seen_req_next = False, seen_forb_next = False, seen_ctrl = False, seen_steps = False\<rparr>"

definition ensure_once :: "bool \<Rightarrow> string \<Rightarrow> nat \<Rightarrow> (parse_error, unit) res" where
  "ensure_once flag field pos = (if flag then Err (DuplicateGuardField field pos) else Ok ())"

fun find_byte :: "char \<Rightarrow> string \<Rightarrow> nat option" where
  "find_byte b [] = None"
| "find_byte b (x # xs) = (if x = b then Some 0 else map_option Suc (find_byte b xs))"

definition split_once :: "string \<Rightarrow> char \<Rightarrow> (string \<times> string) option" where
  "split_once input delimiter =
     map_option (\<lambda>i. (take i input, drop (Suc i) input)) (find_byte delimiter input)"

fun split_chars :: "(uchar \<Rightarrow> bool) \<Rightarrow> uchar list \<Rightarrow> string \<Rightarrow> string list" where
  \<comment> \<open>\<open>str::split\<close>; the last argument is the current piece\<close>
  "split_chars P [] piece = [piece]"
| "split_chars P (c # cs) piece =
     (if P c then piece # split_chars P cs [] else split_chars P cs (piece @ c))"

definition parse_set :: "unicode \<Rightarrow> string \<Rightarrow> string list" where
  "parse_set U raw =
     (let v0 = trim U raw;
          v1 = (case find_byte CHR ''{'' v0 of Some i \<Rightarrow> drop (Suc i) v0 | None \<Rightarrow> v0);
          v2 = (case find_byte CHR ''}'' (rev v1) of Some i \<Rightarrow> take (length v1 - Suc i) v1 | None \<Rightarrow> v1)
      in filter (\<lambda>s. s \<noteq> []) (map (trim U)
           (split_chars (\<lambda>ch. ch = '','' \<or> is_whitespace U ch) (chars v2) [])))"

definition parse_control :: "unicode \<Rightarrow> string \<Rightarrow> nat \<Rightarrow> (parse_error, control) res" where
  "parse_control U raw pos =
     (let v = to_ascii_lowercase (trim U raw)
      in if v = ''all'' then Ok CAll
         else if v \<in> {''controllable'', ''controller''} then Ok CControllable
         else if v \<in> {''environment'', ''env''} then Ok CEnvironment
         else Err (Unexpected pos (''unknown controllability `'' @ v @ ''`'')))"

definition parse_u32 :: "string \<Rightarrow> nat option" where
  \<comment> \<open>\<open>u32::from_str\<close>: an optional plus sign and decimal digits\<close>
  "parse_u32 s =
     (let ds = (case s of b # r \<Rightarrow> if b = CHR ''+'' then r else s | [] \<Rightarrow> s);
          n = foldl (\<lambda>n b. 10 * n + int (byte b - 48)) 0 ds
      in if ds \<noteq> [] \<and> list_all ascii_digit ds \<and> n < 2 ^ 32 then Some (nat n) else None)"

definition apply_steps ::
  "unicode \<Rightarrow> parser \<Rightarrow> string \<Rightarrow> guard \<times> guard_seen \<Rightarrow> (parse_error, guard \<times> guard_seen) res" where
  "apply_steps U p trimmed gs =
     (case gs of (g, seen) \<Rightarrow>
        rbind (ensure_once (seen_steps seen) ''steps'' (ps_pos p)) (\<lambda>_.
          let r0 = trim_start U (drop 5 trimmed);
              remainder = (if starts_with r0 '':'' then trim_start U (drop 1 r0) else r0)
          in if remainder = [] then Err (Unexpected (ps_pos p) ''expected comparator for steps bound'')
             else rbind
               (if starts_with remainder ''<='' then Ok (trim_start U (drop 2 remainder))
                else if starts_with remainder ''='' then Ok (trim_start U (drop 1 remainder))
                else Err (Unexpected (ps_pos p)
                  (''unsupported steps comparator in `'' @ trimmed @ ''`; expected `steps <= N`'')))
               (\<lambda>value_str.
                 if value_str = [] then Err (Unexpected (ps_pos p) ''missing numeric value for steps bound'')
                 else
                   (let value_clean = trim U (trim_end_byte CHR '';'' (trim_end_byte CHR ''}''
                          (dropWhile (\<lambda>b. b = CHR ''{'') (trim U value_str))))
                    in case parse_u32 value_clean of
                         None \<Rightarrow> Err (Unexpected (ps_pos p) (''invalid steps bound `'' @ value_clean @ ''`''))
                       | Some n \<Rightarrow> Ok (g\<lparr>g_max_steps := Some n\<rparr>, seen\<lparr>seen_steps := True\<rparr>)))))"

definition apply_guard_component ::
  "unicode \<Rightarrow> parser \<Rightarrow> string \<Rightarrow> guard \<times> guard_seen \<Rightarrow> (parse_error, guard \<times> guard_seen) res" where
  "apply_guard_component U p component gs =
     (let trimmed = trim U component
      in if trimmed = [] then Ok gs
         else if starts_with (to_ascii_lowercase trimmed) ''steps'' then apply_steps U p trimmed gs
         else case gs of (g, seen) \<Rightarrow> (case split_once trimmed CHR ''='' of
             None \<Rightarrow> Ok (g\<lparr>g_labels := g_labels g @ parse_set U trimmed\<rparr>, seen)
           | Some (key, v) \<Rightarrow>
               (let k = trim U key; key_norm = to_ascii_lowercase k
                in if key_norm \<in> {''labels'', ''label'', ''alphabet''}
                   then rbind (ensure_once (seen_labels seen) k (ps_pos p)) (\<lambda>_.
                     Ok (g\<lparr>g_labels := g_labels g @ parse_set U v\<rparr>, seen\<lparr>seen_labels := True\<rparr>))
                   else if key_norm \<in> {''req_cur'', ''require'', ''require_current''}
                   then rbind (ensure_once (seen_req_cur seen) k (ps_pos p)) (\<lambda>_.
                     Ok (g\<lparr>g_current := (g_current g)\<lparr>vg_required := vg_required (g_current g) @ parse_set U v\<rparr>\<rparr>,
                         seen\<lparr>seen_req_cur := True\<rparr>))
                   else if key_norm \<in> {''forb_cur'', ''forbid_current''}
                   then rbind (ensure_once (seen_forb_cur seen) k (ps_pos p)) (\<lambda>_.
                     Ok (g\<lparr>g_current := (g_current g)\<lparr>vg_forbidden := vg_forbidden (g_current g) @ parse_set U v\<rparr>\<rparr>,
                         seen\<lparr>seen_forb_cur := True\<rparr>))
                   else if key_norm \<in> {''req_next'', ''require_next''}
                   then rbind (ensure_once (seen_req_next seen) k (ps_pos p)) (\<lambda>_.
                     Ok (g\<lparr>g_next := (g_next g)\<lparr>vg_required := vg_required (g_next g) @ parse_set U v\<rparr>\<rparr>,
                         seen\<lparr>seen_req_next := True\<rparr>))
                   else if key_norm \<in> {''forb_next'', ''forbid_next''}
                   then rbind (ensure_once (seen_forb_next seen) k (ps_pos p)) (\<lambda>_.
                     Ok (g\<lparr>g_next := (g_next g)\<lparr>vg_forbidden := vg_forbidden (g_next g) @ parse_set U v\<rparr>\<rparr>,
                         seen\<lparr>seen_forb_next := True\<rparr>))
                   else if key_norm \<in> {''ctrl'', ''control'', ''controllability''}
                   then rbind (ensure_once (seen_ctrl seen) k (ps_pos p)) (\<lambda>_.
                     rbind (parse_control U v (ps_pos p)) (\<lambda>ctl.
                       Ok (g\<lparr>g_control := ctl\<rparr>, seen\<lparr>seen_ctrl := True\<rparr>)))
                   else Err (error_here (UnexpectedGuardKey key_norm) p))))"

function component_len :: "uchar list \<Rightarrow> nat \<Rightarrow> string \<Rightarrow> nat" where
  \<comment> \<open>the bytes up to a delimiter outside braces\<close>
  "component_len delimiters depth_brace s = (case next_char s of
      None \<Rightarrow> 0
    | Some ch \<Rightarrow>
        if depth_brace = 0 \<and> ch \<in> set delimiters then 0
        else length ch + component_len delimiters
          (if ch = ''{'' then depth_brace + 1
           else if ch = ''}'' \<and> depth_brace > 0 then depth_brace - 1 else depth_brace)
          (drop (length ch) s))"
  by pat_completeness auto

termination component_len
  by (relation "measure (\<lambda>(d, n, s). length s)") (auto dest!: next_char_Some)

declare span_len.simps [simp del] chars.simps [simp del] ident_tail_len.simps [simp del]
  component_len.simps [simp del]

definition read_component :: "unicode \<Rightarrow> uchar list \<Rightarrow> parser \<Rightarrow> string \<times> parser" where
  "read_component U delimiters p =
     (let n = component_len delimiters 0 (ps_rest p) in (trim U (take n (ps_rest p)), advance n p))"

definition read_until :: "uchar \<Rightarrow> parser \<Rightarrow> string \<times> parser" where
  "read_until closing p =
     (let n = span_len (\<lambda>ch. ch \<noteq> closing) (ps_rest p) in (take n (ps_rest p), advance n p))"

fun guard_components ::
  "nat \<Rightarrow> unicode \<Rightarrow> guard \<times> guard_seen \<Rightarrow> parser \<Rightarrow> (parse_error, guard \<times> parser) res" where
  \<comment> \<open>the loop over the components in parentheses\<close>
  "guard_components 0 U gs p = OutOfFuel"
| "guard_components (Suc k) U gs p =
     (case try_consume_char '')'' (skip_whitespace U p) of
        (True, p1) \<Rightarrow> Ok (fst gs, p1)
      | (False, p1) \<Rightarrow> (case read_component U ['','', '')''] p1 of (component, p2) \<Rightarrow>
          rbind (apply_guard_component U p2 component gs) (\<lambda>gs1.
            case try_consume_char '','' (skip_whitespace U p2) of
              (True, p3) \<Rightarrow> guard_components k U gs1 p3
            | (False, p3) \<Rightarrow> (case try_consume_char '')'' p3 of
                  (True, p4) \<Rightarrow> Ok (fst gs1, p4)
                | (False, p4) \<Rightarrow>
                    if peek_char p4 \<noteq> None then Err (error_here (Expected ''`)` or `,`'') p4)
                    else Err UnexpectedEof))))"

definition parse_guard :: "nat \<Rightarrow> unicode \<Rightarrow> uchar \<Rightarrow> parser \<Rightarrow> (parse_error, guard \<times> parser) res" where
  "parse_guard k U closing p =
     (case try_consume_char closing (skip_whitespace U p) of
        (True, p1) \<Rightarrow> Ok (guard_default, p1)
      | (False, p1) \<Rightarrow>
          rbind (case try_consume_char ''('' (skip_whitespace U p1) of
              (True, p2) \<Rightarrow> guard_components k U (guard_default, guard_seen_none) p2
            | (False, p2) \<Rightarrow> (case read_until closing p2 of (component, p3) \<Rightarrow>
                rbind (apply_guard_component U p3 (trim U component) (guard_default, guard_seen_none))
                  (\<lambda>(g, seen). Ok (g, p3))))
            (\<lambda>(g, p4). rbind (expect_char U closing (skip_whitespace U p4)) (\<lambda>p5. Ok (g, p5))))"

subsection \<open>Atoms\<close>

definition try_consume_comparison_op :: "parser \<Rightarrow> string option \<times> parser" where
  "try_consume_comparison_op p =
     (let two = take 2 (ps_rest p)
      in if two \<in> {''=='', ''!='', ''<='', ''>=''} then (Some two, advance 2 p)
         else if peek_char p = Some ''<'' then (Some ''<'', advance 1 p)
         else if peek_char p = Some ''>'' then (Some ''>'', advance 1 p)
         else (None, p))"

definition digits_len :: "string \<Rightarrow> nat" where
  "digits_len s = span_len (ascii_or ascii_digit (\<lambda>_. False)) s"

definition parse_comparison_rhs :: "unicode \<Rightarrow> parser \<Rightarrow> string option \<times> parser" where
  "parse_comparison_rhs U p =
     (let start = skip_whitespace U p;
          p1 = (if peek_char start \<in> {Some ''-'', Some ''+''} then advance 1 start else start);
          n = digits_len (ps_rest p1);
          p2 = advance n p1
      in if n > 0 then (Some (take (ps_pos p2 - ps_pos start) (ps_rest start)), p2)
         else case consume_keyword U ''true'' start of
             (True, q) \<Rightarrow> (Some ''true'', q)
           | (False, q) \<Rightarrow> (case consume_keyword U ''false'' q of
                 (True, q1) \<Rightarrow> (Some ''false'', q1)
               | (False, q1) \<Rightarrow> parse_identifier U q1))"

definition try_consume_addend :: "unicode \<Rightarrow> parser \<Rightarrow> string option \<times> parser" where
  "try_consume_addend U save =
     (let p1 = skip_whitespace U save
      in if peek_char p1 \<noteq> Some ''+'' then (None, save)
         else (let p2 = skip_whitespace U (advance 1 p1); n = digits_len (ps_rest p2)
               in if n = 0 then (None, save) else (Some ('' + '' @ take n (ps_rest p2)), advance n p2)))"

definition ps_push :: "node \<Rightarrow> parser \<Rightarrow> nat \<times> parser" where
  "ps_push nd p = (case push_node nd (ps_builder p) of (i, b) \<Rightarrow> (i, p\<lparr>ps_builder := b\<rparr>))"

type_synonym parse_result = "(parse_error, nat \<times> parser) res"

definition parse_comparison :: "unicode \<Rightarrow> string \<Rightarrow> parser \<Rightarrow> parse_result" where
  \<comment> \<open>after an identifier that is not a bound variable\<close>
  "parse_comparison U identifier p =
     (case try_consume_comparison_op (skip_whitespace U p) of
        (None, p1) \<Rightarrow> Ok (ps_push (NPredicate identifier) p1)
      | (Some op_str, p1) \<Rightarrow> (case parse_comparison_rhs U (skip_whitespace U p1) of
            (None, p2) \<Rightarrow> Err (error_here (Expected ''comparison rhs'') p2)
          | (Some rhs, p2) \<Rightarrow>
              (let full = identifier @ '' '' @ op_str @ '' '' @ rhs;
                   (addend, p3) = (if (case next_char rhs of Some c \<Rightarrow> is_ident_start U c | None \<Rightarrow> False)
                                   then try_consume_addend U p2 else (None, p2))
               in Ok (ps_push (NPredicate (full @ (case addend of Some a \<Rightarrow> a | None \<Rightarrow> []))) p3))))"

definition parse_atom :: "unicode \<Rightarrow> parser \<Rightarrow> parse_result" where
  \<comment> \<open>\<open>parse_primary\<close> after the case of an opening parenthesis\<close>
  "parse_atom U p =
     (case consume_keyword U ''true'' p of
        (True, p1) \<Rightarrow> Ok (ps_push NTrue p1)
      | (False, p1) \<Rightarrow> (case consume_keyword U ''false'' p1 of
            (True, p2) \<Rightarrow> Ok (ps_push NFalse p2)
          | (False, p2) \<Rightarrow> (case parse_identifier U p2 of
                (None, p3) \<Rightarrow> Err (error_here (Expected ''formula'') p3)
              | (Some identifier, p3) \<Rightarrow> (case map_of (ps_binders p3) identifier of
                    Some v \<Rightarrow> Ok (ps_push (NVariable v) p3)
                  | None \<Rightarrow> parse_comparison U identifier p3))))"

definition parse_binder :: "unicode \<Rightarrow> parser \<Rightarrow> parse_result" where
  \<comment> \<open>the variable and the dot of a fixpoint; the variable is pushed on the binder stack\<close>
  "parse_binder U p =
     (case parse_identifier U (skip_whitespace U p) of
        (None, p1) \<Rightarrow> Err (error_here (Expected ''fixpoint variable'') p1)
      | (Some name, p1) \<Rightarrow> rbind (expect_char U ''.'' (skip_whitespace U p1)) (\<lambda>p2.
          case push_var name (ps_builder p2) of (v, b) \<Rightarrow>
            Ok (v, p2\<lparr>ps_builder := b, ps_binders := (name, v) # ps_binders p2\<rparr>)))"

definition pop_binder :: "parser \<Rightarrow> parser" where
  "pop_binder p = p\<lparr>ps_binders := tl (ps_binders p)\<rparr>"

subsection \<open>Recursive descent\<close>

text \<open>
  \<open>parse_or\<close> (which is also \<open>parse_formula\<close>) and \<open>parse_unary\<close> call each other; the functions between
  them are given the recursive calls as arguments.
\<close>

fun or_loop :: "nat \<Rightarrow> (parser \<Rightarrow> parse_result) \<Rightarrow> unicode \<Rightarrow> nat \<Rightarrow> parser \<Rightarrow> parse_result" where
  "or_loop 0 parse_and U left p = OutOfFuel"
| "or_loop (Suc k) parse_and U left p = (case try_consume_or U (skip_whitespace U p) of
      (True, p1) \<Rightarrow> rbind (parse_and p1) (\<lambda>(right, p2).
        case ps_push (NOr left right) p2 of (i, p3) \<Rightarrow> or_loop k parse_and U i p3)
    | (False, p1) \<Rightarrow> Ok (left, p1))"

fun and_loop :: "nat \<Rightarrow> (parser \<Rightarrow> parse_result) \<Rightarrow> unicode \<Rightarrow> nat \<Rightarrow> parser \<Rightarrow> parse_result" where
  "and_loop 0 parse_unary U left p = OutOfFuel"
| "and_loop (Suc k) parse_unary U left p = (case try_consume_and U (skip_whitespace U p) of
      (True, p1) \<Rightarrow> rbind (parse_unary p1) (\<lambda>(right, p2).
        case ps_push (NAnd left right) p2 of (i, p3) \<Rightarrow> and_loop k parse_unary U i p3)
    | (False, p1) \<Rightarrow> Ok (left, p1))"

definition parse_and :: "nat \<Rightarrow> (parser \<Rightarrow> parse_result) \<Rightarrow> unicode \<Rightarrow> parser \<Rightarrow> parse_result" where
  "parse_and k parse_unary U p = rbind (parse_unary p) (\<lambda>(left, p1). and_loop k parse_unary U left p1)"

definition try_consume_fixpoint ::
  "(parser \<Rightarrow> parse_result) \<Rightarrow> unicode \<Rightarrow> parser \<Rightarrow> (parse_error, nat option \<times> parser) res" where
  "try_consume_fixpoint parse_or U p =
     (case or_else [consume_keyword U ''mu'', try_consume_char mu_char] (skip_whitespace U p) of
        (True, p1) \<Rightarrow> rbind (parse_binder U p1) (\<lambda>(v, p2). rbind (parse_or p2) (\<lambda>(body, p3).
          case ps_push (NMu v body) (pop_binder p3) of (i, p4) \<Rightarrow> Ok (Some i, p4)))
      | (False, p1) \<Rightarrow> (case or_else [consume_keyword U ''nu'', try_consume_char nu_char] p1 of
          (True, p2) \<Rightarrow> rbind (parse_binder U p2) (\<lambda>(v, p3). rbind (parse_or p3) (\<lambda>(body, p4).
            case ps_push (NNu v body) (pop_binder p4) of (i, p5) \<Rightarrow> Ok (Some i, p5)))
        | (False, p2) \<Rightarrow> Ok (None, p2)))"

definition parse_modality ::
  "nat \<Rightarrow> (parser \<Rightarrow> parse_result) \<Rightarrow> unicode \<Rightarrow> modal_kind \<Rightarrow> uchar \<Rightarrow> parser \<Rightarrow>
     (parse_error, nat option \<times> parser) res" where
  "parse_modality k parse_unary U kind closing p =
     rbind (parse_guard k U closing p) (\<lambda>(g, p1). rbind (parse_unary p1) (\<lambda>(target, p2).
       case ps_push (NModal kind g target) p2 of (i, p3) \<Rightarrow> Ok (Some i, p3)))"

definition try_consume_modal ::
  "nat \<Rightarrow> (parser \<Rightarrow> parse_result) \<Rightarrow> unicode \<Rightarrow> parser \<Rightarrow> (parse_error, nat option \<times> parser) res" where
  "try_consume_modal k parse_unary U p =
     (case try_consume_char ''['' (skip_whitespace U p) of
        (True, p1) \<Rightarrow> parse_modality k parse_unary U Box '']'' p1
      | (False, p1) \<Rightarrow> (case try_consume_char langle_char p1 of
          (True, p2) \<Rightarrow> parse_modality k parse_unary U Diamond rangle_char p2
        | (False, p2) \<Rightarrow> (case try_consume_char ''<'' p2 of
            (True, p3) \<Rightarrow> parse_modality k parse_unary U Diamond ''>'' p3
          | (False, p3) \<Rightarrow> Ok (None, p3))))"

definition parse_primary :: "(parser \<Rightarrow> parse_result) \<Rightarrow> unicode \<Rightarrow> parser \<Rightarrow> parse_result" where
  "parse_primary parse_or U p =
     (case try_consume_char ''('' (skip_whitespace U p) of
        (True, p1) \<Rightarrow> rbind (parse_or p1) (\<lambda>(i, p2).
          rbind (expect_char U '')'' (skip_whitespace U p2)) (\<lambda>p3. Ok (i, p3)))
      | (False, p1) \<Rightarrow> parse_atom U p1)"

definition parse_unary_inner ::
  "nat \<Rightarrow> (parser \<Rightarrow> parse_result) \<Rightarrow> (parser \<Rightarrow> parse_result) \<Rightarrow> unicode \<Rightarrow> parser \<Rightarrow> parse_result" where
  "parse_unary_inner k parse_or parse_unary U p = (case try_consume_not U (skip_whitespace U p) of
      (True, p1) \<Rightarrow> rbind (parse_unary p1) (\<lambda>(operand, p2). Ok (ps_push (NNot operand) p2))
    | (False, p1) \<Rightarrow> rbind (try_consume_fixpoint parse_or U p1) (\<lambda>(r, p2). case r of
          Some i \<Rightarrow> Ok (i, p2)
        | None \<Rightarrow> rbind (try_consume_modal k parse_unary U p2) (\<lambda>(r, p3). case r of
              Some i \<Rightarrow> Ok (i, p3)
            | None \<Rightarrow> parse_primary parse_or U p3)))"

fun parse_or :: "nat \<Rightarrow> unicode \<Rightarrow> parser \<Rightarrow> parse_result"
  and parse_unary :: "nat \<Rightarrow> unicode \<Rightarrow> parser \<Rightarrow> parse_result" where
  "parse_or 0 U p = OutOfFuel"
| "parse_or (Suc k) U p =
     rbind (parse_and k (\<lambda>p. parse_unary k U p) U p) (\<lambda>(left, p1).
       or_loop k (parse_and k (\<lambda>p. parse_unary k U p) U) U left p1)"
| "parse_unary 0 U p = OutOfFuel"
| "parse_unary (Suc k) U p =
     (let p1 = p\<lparr>ps_depth := ps_depth p + 1\<rparr>
      in if ps_depth p1 > max_parse_depth
         then Err (error_here (Expected ''expression (maximum nesting depth exceeded)'') p1)
         else rbind (parse_unary_inner k (\<lambda>p. parse_or k U p) (\<lambda>p. parse_unary k U p) U p1)
           (\<lambda>(i, p2). Ok (i, p2\<lparr>ps_depth := ps_depth p2 - 1\<rparr>)))"

definition parse :: "nat \<Rightarrow> unicode \<Rightarrow> string \<Rightarrow> (parse_error, formula) res" where
  "parse k U input =
     rbind (parse_or k U (parser_new input)) (\<lambda>(root, p).
       let p1 = skip_whitespace U p
       in if \<not> is_eof p1 then Err (error_here UnexpectedTrailing p1)
          else Ok (into_formula (ps_builder p1) root))"

end
