(* ===== verification/Ltl.thy ===== *)
theory Ltl
  imports Mu_Parser
begin

section \<open>LTL and its translations to the mu-calculus\<close>

text \<open>
  Models \<^verbatim>\<open>ltl/ast.rs\<close>, the some-path translation of \<^verbatim>\<open>ltl/translator.rs\<close> (which builds an arena), the
  every-path translation of \<^verbatim>\<open>ltl/universal.rs\<close> (which prints a text and parses it) and the encoder of
  fair paths of \<^verbatim>\<open>verify/fairness.rs\<close> (which prints a text). Texts are UTF-8 bytes, as in the parser.
\<close>

subsection \<open>Syntax\<close>

datatype ltl =
    LTrue | LFalse | LPredicate string
  | LNot ltl | LAnd ltl ltl | LOr ltl ltl | LImplies ltl ltl
  | LNext ltl | LAlways ltl | LEventually ltl
  | LUntil ltl ltl | LWeakUntil ltl ltl | LRelease ltl ltl
  | LRecurrence ltl | LStabilization ltl | LResponse ltl ltl

datatype translation_error =
    Translation string
  | TranslationNoParse string parse_error
    \<comment> \<open>the message names the text and the error of the parser\<close>

function show_nat :: "nat \<Rightarrow> string" where
  \<comment> \<open>decimal formatting of a \<open>usize\<close>\<close>
  "show_nat n = (if n < 10 then [char_of (48 + n)] else show_nat (n div 10) @ [char_of (48 + n mod 10)])"
  by pat_completeness auto

termination show_nat
  by (relation "measure id") auto

declare show_nat.simps [simp del]

subsection \<open>The some-path translation\<close>

record translator =
  tr_builder :: formula_builder
  tr_counter :: nat

definition translator_new :: translator where
  "translator_new = \<lparr>tr_builder = formula_builder_default, tr_counter = 0\<rparr>"

type_synonym translated = "(translation_error, nat \<times> translator) res"

definition tr_push :: "node \<Rightarrow> translator \<Rightarrow> nat \<times> translator" where
  "tr_push nd s = (case push_node nd (tr_builder s) of (i, b) \<Rightarrow> (i, s\<lparr>tr_builder := b\<rparr>))"

definition box_modal :: "nat \<Rightarrow> translator \<Rightarrow> nat \<times> translator" where
  "box_modal target = tr_push (NModal Box guard_default target)"

definition diamond_modal :: "nat \<Rightarrow> translator \<Rightarrow> nat \<times> translator" where
  "diamond_modal target = tr_push (NModal Diamond guard_default target)"

definition new_fixpoint_var :: "string \<Rightarrow> translator \<Rightarrow> nat \<times> translator" where
  "new_fixpoint_var prefix s =
     (case push_var (prefix @ show_nat (tr_counter s)) (tr_builder s) of
        (v, b) \<Rightarrow> (v, s\<lparr>tr_builder := b, tr_counter := tr_counter s + 1\<rparr>))"

definition nu_box :: "string \<Rightarrow> nat \<Rightarrow> translator \<Rightarrow> nat \<times> translator" where
  \<comment> \<open>\<open>\<nu> V. (inner \<and> [] V)\<close>\<close>
  "nu_box prefix inner_id s =
     (let (var_id, s1) = new_fixpoint_var prefix s;
          (var_node, s2) = tr_push (NVariable var_id) s1;
          (box_var, s3) = box_modal var_node s2;
          (and_node, s4) = tr_push (NAnd inner_id box_var) s3
      in tr_push (NNu var_id and_node) s4)"

definition mu_diamond :: "string \<Rightarrow> nat \<Rightarrow> translator \<Rightarrow> nat \<times> translator" where
  \<comment> \<open>\<open>\<mu> V. (inner \<or> <> V)\<close>\<close>
  "mu_diamond prefix inner_id s =
     (let (var_id, s1) = new_fixpoint_var prefix s;
          (var_node, s2) = tr_push (NVariable var_id) s1;
          (dia_var, s3) = diamond_modal var_node s2;
          (or_node, s4) = tr_push (NOr inner_id dia_var) s3
      in tr_push (NMu var_id or_node) s4)"

definition translate_always :: "(translator \<Rightarrow> translated) \<Rightarrow> translator \<Rightarrow> translated" where
  "translate_always inner s = rbind (inner s) (\<lambda>(inner_id, s1). Ok (nu_box ''X'' inner_id s1))"

definition translate_eventually_internal :: "nat \<Rightarrow> translator \<Rightarrow> translated" where
  "translate_eventually_internal inner_id s = Ok (mu_diamond ''X'' inner_id s)"

definition translate_eventually :: "(translator \<Rightarrow> translated) \<Rightarrow> translator \<Rightarrow> translated" where
  "translate_eventually inner s = rbind (inner s) (\<lambda>(inner_id, s1). translate_eventually_internal inner_id s1)"

definition translate_until_internal :: "nat \<Rightarrow> nat \<Rightarrow> translator \<Rightarrow> translated" where
  "translate_until_internal left_id right_id s =
     (let (var_id, s1) = new_fixpoint_var ''X'' s;
          (var_node, s2) = tr_push (NVariable var_id) s1;
          (dia_var, s3) = diamond_modal var_node s2;
          (and_left, s4) = tr_push (NAnd left_id dia_var) s3;
          (or_node, s5) = tr_push (NOr right_id and_left) s4
      in Ok (tr_push (NMu var_id or_node) s5))"

definition translate_until ::
  "(translator \<Rightarrow> translated) \<Rightarrow> (translator \<Rightarrow> translated) \<Rightarrow> translator \<Rightarrow> translated" where
  "translate_until left right s = rbind (left s) (\<lambda>(left_id, s1). rbind (right s1) (\<lambda>(right_id, s2).
     translate_until_internal left_id right_id s2))"

primrec translate_formula :: "ltl \<Rightarrow> translator \<Rightarrow> translated" where
  "translate_formula LTrue = (\<lambda>s. Ok (tr_push NTrue s))"
| "translate_formula LFalse = (\<lambda>s. Ok (tr_push NFalse s))"
| "translate_formula (LPredicate name) = (\<lambda>s. Ok (tr_push (NPredicate name) s))"
| "translate_formula (LNot inner) = (\<lambda>s. rbind (translate_formula inner s) (\<lambda>(inner_id, s1).
     Ok (tr_push (NNot inner_id) s1)))"
| "translate_formula (LAnd left right) = (\<lambda>s. rbind (translate_formula left s) (\<lambda>(left_id, s1).
     rbind (translate_formula right s1) (\<lambda>(right_id, s2). Ok (tr_push (NAnd left_id right_id) s2))))"
| "translate_formula (LOr left right) = (\<lambda>s. rbind (translate_formula left s) (\<lambda>(left_id, s1).
     rbind (translate_formula right s1) (\<lambda>(right_id, s2). Ok (tr_push (NOr left_id right_id) s2))))"
| "translate_formula (LImplies left right) = (\<lambda>s. rbind (translate_formula left s) (\<lambda>(left_id, s1).
     rbind (translate_formula right s1) (\<lambda>(right_id, s2).
       case tr_push (NNot left_id) s2 of (not_left, s3) \<Rightarrow> Ok (tr_push (NOr not_left right_id) s3))))"
| "translate_formula (LNext inner) = (\<lambda>s. rbind (translate_formula inner s) (\<lambda>(inner_id, s1).
     Ok (box_modal inner_id s1)))"
| "translate_formula (LAlways inner) = translate_always (translate_formula inner)"
| "translate_formula (LEventually inner) = translate_eventually (translate_formula inner)"
| "translate_formula (LUntil left right) = translate_until (translate_formula left) (translate_formula right)"
| "translate_formula (LWeakUntil left right) = (\<lambda>s.
     rbind (translate_until (translate_formula left) (translate_formula right) s) (\<lambda>(until_id, s1).
       rbind (translate_always (translate_formula left) s1) (\<lambda>(always_left_id, s2).
         Ok (tr_push (NOr until_id always_left_id) s2))))"
| "translate_formula (LRelease left right) = (\<lambda>s. rbind (translate_formula left s) (\<lambda>(left_id, s1).
     rbind (translate_formula right s1) (\<lambda>(right_id, s2).
       let (not_left, s3) = tr_push (NNot left_id) s2;
           (not_right, s4) = tr_push (NNot right_id) s3
       in rbind (translate_until_internal not_left not_right s4) (\<lambda>(until_id, s5).
            Ok (tr_push (NNot until_id) s5)))))"
| "translate_formula (LRecurrence inner) = (\<lambda>s.
     rbind (translate_eventually (translate_formula inner) s) (\<lambda>(eventually_id, s1).
       Ok (nu_box ''Y'' eventually_id s1)))"
| "translate_formula (LStabilization inner) = (\<lambda>s.
     rbind (translate_always (translate_formula inner) s) (\<lambda>(always_id, s1).
       Ok (mu_diamond ''Y'' always_id s1)))"
| "translate_formula (LResponse trigger response) = (\<lambda>s.
     rbind (translate_formula trigger s) (\<lambda>(trigger_id, s1).
       rbind (translate_formula response s1) (\<lambda>(response_id, s2).
         case tr_push (NNot trigger_id) s2 of (not_trigger, s3) \<Rightarrow>
           rbind (translate_eventually_internal response_id s3) (\<lambda>(eventually_response, s4).
             case tr_push (NOr not_trigger eventually_response) s4 of (or_node, s5) \<Rightarrow>
               Ok (nu_box ''X'' or_node s5)))))"

definition translate_existential :: "ltl \<Rightarrow> (translation_error, formula) res" where
  \<comment> \<open>the warning on deep alternation goes to the standard error stream and is left out\<close>
  "translate_existential f = rbind (translate_formula f translator_new) (\<lambda>(root, s).
     Ok (into_formula (tr_builder s) root))"

subsection \<open>Fair paths\<close>

datatype assumption =
    AState string | AEdge string | AEdges "string list" | AWeak string | AWeakEdges "string list"

fun join :: "string \<Rightarrow> string list \<Rightarrow> string" where
  "join sep [] = []"
| "join sep [x] = x"
| "join sep (x # y # xs) = x @ sep @ join sep (y # xs)"

definition labelled :: "string \<Rightarrow> string \<Rightarrow> string" where
  \<comment> \<open>\<open>< labels = {{ {ls} }} > {z}\<close>\<close>
  "labelled ls z = ''< labels = { '' @ ls @ '' } > '' @ z"

definition constraint :: "nat \<Rightarrow> assumption \<Rightarrow> string \<Rightarrow> string \<Rightarrow> string" where
  "constraint k a z q =
     (let y = ''Y'' @ show_nat k;
          weak = (\<lambda>ls. ''(mu '' @ y @ ''. ('' @ labelled ls z @ '' || < > ('' @ z @ '' && !('' @ labelled ls ''true'' @ '')) || < > (('' @ q @ '') && '' @ y @ '')))'')
      in case a of
           AState atom \<Rightarrow>
             if q = ''true''
             then ''< > (mu '' @ y @ ''. ((('' @ z @ '') && ('' @ atom @ '')) || < > '' @ y @ ''))''
             else ''< > (mu '' @ y @ ''. ((('' @ z @ '') && ('' @ atom @ '')) || (('' @ q @ '') && < > '' @ y @ '')))''
         | AEdge label \<Rightarrow> ''(mu '' @ y @ ''. ('' @ labelled label z @ '' || < > (('' @ q @ '') && '' @ y @ '')))''
         | AEdges labels \<Rightarrow>
             ''(mu '' @ y @ ''. ('' @ join '' || '' (map (\<lambda>l. labelled l z) labels) @ '' || < > (('' @ q @ '') && '' @ y @ '')))''
         | AWeak label \<Rightarrow> weak label
         | AWeakEdges labels \<Rightarrow> weak (join '', '' labels))"

definition fair_eg :: "string \<Rightarrow> assumption list \<Rightarrow> string" where
  "fair_eg q assumptions =
     (let z = ''Z''
      in if assumptions = [] then ''(nu '' @ z @ ''. (('' @ q @ '') && < > '' @ z @ ''))''
         else ''(nu '' @ z @ ''. (('' @ q @ '') && ''
           @ join '' && '' (map (\<lambda>(k, a). constraint k a z q) (enumerate 0 assumptions)) @ ''))'')"

definition fair_af :: "string \<Rightarrow> assumption list \<Rightarrow> string" where
  "fair_af p assumptions = ''!'' @ fair_eg (''!('' @ p @ '')'') assumptions"

definition fair_response :: "string \<Rightarrow> string \<Rightarrow> assumption list \<Rightarrow> string" where
  "fair_response a b assumptions = ''(nu W. ((!('' @ a @ '') || '' @ fair_af b assumptions @ '') && [] W))''"

definition fair_always_eventually :: "string \<Rightarrow> assumption list \<Rightarrow> string" where
  "fair_always_eventually p assumptions = ''(nu W. ('' @ fair_af p assumptions @ '' && [] W))''"

definition fair_path_exists :: "assumption list \<Rightarrow> string" where
  "fair_path_exists assumptions = fair_eg ''true'' assumptions"

subsection \<open>The every-path translation\<close>

primrec weight :: "ltl \<Rightarrow> nat" where
  "weight LTrue = 1"
| "weight LFalse = 1"
| "weight (LPredicate p) = 1"
| "weight (LNot a) = 1 + weight a"
| "weight (LAnd a b) = 1 + weight a + weight b"
| "weight (LOr a b) = 1 + weight a + weight b"
| "weight (LImplies a b) = 3 + weight a + weight b"
| "weight (LNext a) = 1 + weight a"
| "weight (LAlways a) = 1 + weight a"
| "weight (LEventually a) = 1 + weight a"
| "weight (LUntil a b) = 1 + weight a + weight b"
| "weight (LWeakUntil a b) = 1 + weight a + weight b"
| "weight (LRelease a b) = 3 + weight a + 2 * weight b"
| "weight (LRecurrence a) = 3 + weight a"
| "weight (LStabilization a) = 3 + weight a"
| "weight (LResponse a b) = 6 + weight a + weight b"

function nnf :: "ltl \<Rightarrow> bool \<Rightarrow> ltl" where
  "nnf LTrue neg = (if neg then LFalse else LTrue)"
| "nnf LFalse neg = (if neg then LTrue else LFalse)"
| "nnf (LPredicate p) neg = (if neg then LNot (LPredicate p) else LPredicate p)"
| "nnf (LNot a) neg = nnf a (\<not> neg)"
| "nnf (LAnd x y) neg = (if \<not> neg then LAnd (nnf x False) (nnf y False) else LOr (nnf x True) (nnf y True))"
| "nnf (LOr x y) neg = (if \<not> neg then LOr (nnf x False) (nnf y False) else LAnd (nnf x True) (nnf y True))"
| "nnf (LImplies x y) neg = nnf (LOr (LNot x) y) neg"
| "nnf (LNext a) neg = LNext (nnf a neg)"
| "nnf (LAlways a) neg = (if \<not> neg then LAlways (nnf a False) else LEventually (nnf a True))"
| "nnf (LEventually a) neg = (if \<not> neg then LEventually (nnf a False) else LAlways (nnf a True))"
| "nnf (LUntil l r) neg =
     (if \<not> neg then LUntil (nnf l False) (nnf r False)
      else LWeakUntil (nnf r True) (LAnd (nnf l True) (nnf r True)))"
| "nnf (LWeakUntil l r) neg =
     (if \<not> neg then LWeakUntil (nnf l False) (nnf r False)
      else LUntil (nnf r True) (LAnd (nnf l True) (nnf r True)))"
| "nnf (LRelease l r) neg = nnf (LWeakUntil r (LAnd l r)) neg"
| "nnf (LRecurrence a) neg = nnf (LAlways (LEventually a)) neg"
| "nnf (LStabilization a) neg = nnf (LEventually (LAlways a)) neg"
| "nnf (LResponse t r) neg = nnf (LAlways (LImplies t (LEventually r))) neg"
  by pat_completeness auto

termination nnf
  by (relation "measure (\<lambda>(f, neg). weight f)") simp_all

primrec is_propositional :: "ltl \<Rightarrow> bool" where
  "is_propositional LTrue = True"
| "is_propositional LFalse = True"
| "is_propositional (LPredicate p) = True"
| "is_propositional (LNot a) = is_propositional a"
| "is_propositional (LAnd x y) = (is_propositional x \<and> is_propositional y)"
| "is_propositional (LOr x y) = (is_propositional x \<and> is_propositional y)"
| "is_propositional (LImplies x y) = (is_propositional x \<and> is_propositional y)"
| "is_propositional (LNext a) = False"
| "is_propositional (LAlways a) = False"
| "is_propositional (LEventually a) = False"
| "is_propositional (LUntil l r) = False"
| "is_propositional (LWeakUntil l r) = False"
| "is_propositional (LRelease l r) = False"
| "is_propositional (LRecurrence a) = False"
| "is_propositional (LStabilization a) = False"
| "is_propositional (LResponse t r) = False"

fun prop_text :: "ltl \<Rightarrow> (translation_error, string) res" where
  \<comment> \<open>\<open>unreachable!\<close> is a panic\<close>
  "prop_text LTrue = Ok ''true''"
| "prop_text LFalse = Ok ''false''"
| "prop_text (LPredicate p) = Ok (if CHR '' '' \<in> set p then ''('' @ p @ '')'' else p)"
| "prop_text (LNot a) = rbind (prop_text a) (\<lambda>s. Ok (''(!('' @ s @ ''))''))"
| "prop_text (LAnd x y) = rbind (prop_text x) (\<lambda>s. rbind (prop_text y) (\<lambda>t. Ok (''('' @ s @ '' && '' @ t @ '')'')))"
| "prop_text (LOr x y) = rbind (prop_text x) (\<lambda>s. rbind (prop_text y) (\<lambda>t. Ok (''('' @ s @ '' || '' @ t @ '')'')))"
| "prop_text (LImplies x y) = rbind (prop_text x) (\<lambda>s. rbind (prop_text y) (\<lambda>t. Ok (''((!('' @ s @ '')) || '' @ t @ '')'')))"
| "prop_text f = Panic"

primrec show_ltl :: "ltl \<Rightarrow> string" where
  "show_ltl LTrue = ''true''"
| "show_ltl LFalse = ''false''"
| "show_ltl (LPredicate p) = p"
| "show_ltl (LNot a) = ''!'' @ show_ltl a"
| "show_ltl (LAnd x y) = ''('' @ show_ltl x @ '' && '' @ show_ltl y @ '')''"
| "show_ltl (LOr x y) = ''('' @ show_ltl x @ '' || '' @ show_ltl y @ '')''"
| "show_ltl (LImplies x y) = ''('' @ show_ltl x @ '' -> '' @ show_ltl y @ '')''"
| "show_ltl (LNext a) = ''X '' @ show_ltl a"
| "show_ltl (LAlways a) = ''G '' @ show_ltl a"
| "show_ltl (LEventually a) = ''F '' @ show_ltl a"
| "show_ltl (LUntil l r) = ''('' @ show_ltl l @ '' U '' @ show_ltl r @ '')''"
| "show_ltl (LWeakUntil l r) = ''('' @ show_ltl l @ '' W '' @ show_ltl r @ '')''"
| "show_ltl (LRelease l r) = ''('' @ show_ltl l @ '' R '' @ show_ltl r @ '')''"
| "show_ltl (LRecurrence a) = ''G F '' @ show_ltl a"
| "show_ltl (LStabilization a) = ''F G '' @ show_ltl a"
| "show_ltl (LResponse t r) = ''G ('' @ show_ltl t @ '' -> F '' @ show_ltl r @ '')''"

definition outside :: "ltl \<Rightarrow> string \<Rightarrow> translation_error" where
  "outside f why = Translation (''`'' @ show_ltl f @ ''` is outside the LTL fragment mununu checks over every path ('' @ why
     @ ''). Write it in '' @ mu_char @ ''-calculus, use `body = eltl '' @ [CHR 0xE2, CHR 0x80, CHR 0xA6]
     @ '';` for the some-path reading, or state it as a GR(1) objective.'')"

abbreviation fresh_var :: "string \<Rightarrow> nat \<Rightarrow> string" where
  "fresh_var p fresh \<equiv> p @ show_nat (fresh + 1)"

definition unless_propositional ::
  "ltl \<Rightarrow> nat \<Rightarrow> (translation_error, string \<times> nat) res \<Rightarrow> (translation_error, string \<times> nat) res" where
  \<comment> \<open>the early return of \<open>universal\<close>\<close>
  "unless_propositional f fresh r = (if is_propositional f then rbind (prop_text f) (\<lambda>s. Ok (s, fresh)) else r)"

definition weak_until_text :: "string \<Rightarrow> string \<Rightarrow> string \<Rightarrow> string" where
  "weak_until_text x p q = ''(nu '' @ x @ ''. (('' @ q @ '' || '' @ p @ '') && ('' @ q @ '' || ([] '' @ x @ ''))))''"

primrec universal :: "ltl \<Rightarrow> nat \<Rightarrow> assumption list \<Rightarrow> (translation_error, string \<times> nat) res" where
  "universal LTrue = (\<lambda>fresh fairness. unless_propositional LTrue fresh (Err (outside LTrue ''not in negation normal form'')))"
| "universal LFalse = (\<lambda>fresh fairness. unless_propositional LFalse fresh (Err (outside LFalse ''not in negation normal form'')))"
| "universal (LPredicate p) = (\<lambda>fresh fairness.
     unless_propositional (LPredicate p) fresh (Err (outside (LPredicate p) ''not in negation normal form'')))"
| "universal (LNot a) = (\<lambda>fresh fairness.
     unless_propositional (LNot a) fresh (Err (outside (LNot a) ''not in negation normal form'')))"
| "universal (LAnd x y) = (\<lambda>fresh fairness. unless_propositional (LAnd x y) fresh
     (rbind (universal x fresh fairness) (\<lambda>(s, fresh1). rbind (universal y fresh1 fairness) (\<lambda>(t, fresh2).
        Ok (''('' @ s @ '' && '' @ t @ '')'', fresh2)))))"
| "universal (LOr x y) = (\<lambda>fresh fairness. unless_propositional (LOr x y) fresh
     (if is_propositional x
      then rbind (prop_text x) (\<lambda>s. rbind (universal y fresh fairness) (\<lambda>(t, fresh1). Ok (''('' @ s @ '' || '' @ t @ '')'', fresh1)))
      else if is_propositional y
      then rbind (universal x fresh fairness) (\<lambda>(s, fresh1). rbind (prop_text y) (\<lambda>t. Ok (''('' @ s @ '' || '' @ t @ '')'', fresh1)))
      else Err (outside (LOr x y) ''a disjunction of two temporal formulas holds path by path, not state by state'')))"
| "universal (LImplies x y) = (\<lambda>fresh fairness.
     unless_propositional (LImplies x y) fresh (Err (outside (LImplies x y) ''not in negation normal form'')))"
| "universal (LNext a) = (\<lambda>fresh fairness. unless_propositional (LNext a) fresh
     (rbind (universal a fresh fairness) (\<lambda>(s, fresh1). Ok (''([] '' @ s @ '')'', fresh1))))"
| "universal (LAlways a) = (\<lambda>fresh fairness. unless_propositional (LAlways a) fresh
     (let x = fresh_var ''G'' fresh
      in rbind (universal a (fresh + 1) fairness) (\<lambda>(s, fresh1).
           Ok (''(nu '' @ x @ ''. ('' @ s @ '' && [] '' @ x @ ''))'', fresh1))))"
| "universal (LEventually a) = (\<lambda>fresh fairness. unless_propositional (LEventually a) fresh
     (if is_propositional a \<and> fairness \<noteq> [] then rbind (prop_text a) (\<lambda>s. Ok (fair_af s fairness, fresh))
      else if is_propositional a
      then (let x = fresh_var ''F'' fresh
            in rbind (prop_text a) (\<lambda>s. Ok (''(mu '' @ x @ ''. ('' @ s @ '' || (([] '' @ x @ '') && (<> true))))'', fresh + 1)))
      else Err (outside (LEventually a) ''`F` applies to a propositional formula here'')))"
| "universal (LUntil l r) = (\<lambda>fresh fairness. unless_propositional (LUntil l r) fresh
     (if is_propositional l \<and> is_propositional r \<and> fairness \<noteq> []
      then (let x = fresh_var ''W'' fresh
            in rbind (prop_text r) (\<lambda>q. rbind (prop_text l) (\<lambda>p.
                 Ok (''('' @ weak_until_text x p q @ '' && '' @ fair_af q fairness @ '')'', fresh + 1))))
      else if is_propositional l \<and> is_propositional r
      then (let x = fresh_var ''U'' fresh
            in rbind (prop_text r) (\<lambda>q. rbind (prop_text l) (\<lambda>p.
                 Ok (''(mu '' @ x @ ''. ('' @ q @ '' || ('' @ p @ '' && (([] '' @ x @ '') && (<> true)))))'', fresh + 1))))
      else Err (outside (LUntil l r) ''`U` and `W` apply to propositional formulas here'')))"
| "universal (LWeakUntil l r) = (\<lambda>fresh fairness. unless_propositional (LWeakUntil l r) fresh
     (if is_propositional l \<and> is_propositional r
      then (let x = fresh_var ''W'' fresh
            in rbind (prop_text r) (\<lambda>q. rbind (prop_text l) (\<lambda>p. Ok (weak_until_text x p q, fresh + 1))))
      else Err (outside (LWeakUntil l r) ''`U` and `W` apply to propositional formulas here'')))"
| "universal (LRelease l r) = (\<lambda>fresh fairness.
     unless_propositional (LRelease l r) fresh (Err (outside (LRelease l r) ''not in negation normal form'')))"
| "universal (LRecurrence a) = (\<lambda>fresh fairness.
     unless_propositional (LRecurrence a) fresh (Err (outside (LRecurrence a) ''not in negation normal form'')))"
| "universal (LStabilization a) = (\<lambda>fresh fairness.
     unless_propositional (LStabilization a) fresh (Err (outside (LStabilization a) ''not in negation normal form'')))"
| "universal (LResponse t r) = (\<lambda>fresh fairness.
     unless_propositional (LResponse t r) fresh (Err (outside (LResponse t r) ''not in negation normal form'')))"

fun map_err :: "('e \<Rightarrow> 'd) \<Rightarrow> ('e, 'a) res \<Rightarrow> ('d, 'a) res" where
  "map_err h (Ok x) = Ok x"
| "map_err h (Err e) = Err (h e)"
| "map_err h Panic = Panic"
| "map_err h OutOfFuel = OutOfFuel"

definition translate_universal_fair ::
  "nat \<Rightarrow> unicode \<Rightarrow> ltl \<Rightarrow> assumption list \<Rightarrow> (translation_error, formula) res" where
  "translate_universal_fair k U f fairness =
     rbind (universal (nnf f False) 0 fairness) (\<lambda>(s, fresh). map_err (TranslationNoParse s) (parse k U s))"

definition translate_universal :: "nat \<Rightarrow> unicode \<Rightarrow> ltl \<Rightarrow> (translation_error, formula) res" where
  "translate_universal k U f = translate_universal_fair k U f []"

definition translate_universal_text :: "nat \<Rightarrow> unicode \<Rightarrow> ltl \<Rightarrow> (translation_error, string) res" where
  "translate_universal_text k U f =
     rbind (universal (nnf f False) 0 []) (\<lambda>(s, fresh).
       rbind (map_err (TranslationNoParse s) (parse k U s)) (\<lambda>_. Ok s))"

definition translate :: "nat \<Rightarrow> unicode \<Rightarrow> ltl \<Rightarrow> (translation_error, formula) res" where
  "translate k U f = translate_universal k U f"

end
