(* ===== verification/Ltl_Paths.thy ===== *)
theory Ltl_Paths
  imports Ltl
begin

section \<open>LTL over infinite paths\<close>

text \<open>
  The specification of the LTL translations: satisfaction of a formula on an infinite path, the states
  all of whose paths satisfy a formula, and the fixpoints that characterise them for the operators of
  the translated fragment. A graph is a relation \<open>R\<close> on a set of states \<open>S\<close>. No code.
\<close>

definition suffix :: "nat \<Rightarrow> (nat \<Rightarrow> 's) \<Rightarrow> nat \<Rightarrow> 's" where
  "suffix i \<pi> = (\<lambda>n. \<pi> (i + n))"

lemma suffix_simps [simp]: "suffix 0 \<pi> = \<pi>" "suffix i (suffix j \<pi>) = suffix (j + i) \<pi>" "suffix i \<pi> n = \<pi> (i + n)"
  by (simp_all add: suffix_def ac_simps)

primrec lsat :: "(string \<Rightarrow> 's set) \<Rightarrow> ltl \<Rightarrow> (nat \<Rightarrow> 's) \<Rightarrow> bool" where
  "lsat P LTrue \<pi> = True"
| "lsat P LFalse \<pi> = False"
| "lsat P (LPredicate p) \<pi> = (\<pi> 0 \<in> P p)"
| "lsat P (LNot a) \<pi> = (\<not> lsat P a \<pi>)"
| "lsat P (LAnd a b) \<pi> = (lsat P a \<pi> \<and> lsat P b \<pi>)"
| "lsat P (LOr a b) \<pi> = (lsat P a \<pi> \<or> lsat P b \<pi>)"
| "lsat P (LImplies a b) \<pi> = (lsat P a \<pi> \<longrightarrow> lsat P b \<pi>)"
| "lsat P (LNext a) \<pi> = lsat P a (suffix 1 \<pi>)"
| "lsat P (LAlways a) \<pi> = (\<forall>i. lsat P a (suffix i \<pi>))"
| "lsat P (LEventually a) \<pi> = (\<exists>i. lsat P a (suffix i \<pi>))"
| "lsat P (LUntil a b) \<pi> = (\<exists>i. lsat P b (suffix i \<pi>) \<and> (\<forall>j<i. lsat P a (suffix j \<pi>)))"
| "lsat P (LWeakUntil a b) \<pi> = ((\<exists>i. lsat P b (suffix i \<pi>) \<and> (\<forall>j<i. lsat P a (suffix j \<pi>))) \<or> (\<forall>i. lsat P a (suffix i \<pi>)))"
| "lsat P (LRelease a b) \<pi> = (\<forall>i. lsat P b (suffix i \<pi>) \<or> (\<exists>j<i. lsat P a (suffix j \<pi>)))"
| "lsat P (LRecurrence a) \<pi> = (\<forall>i. \<exists>j\<ge>i. lsat P a (suffix j \<pi>))"
| "lsat P (LStabilization a) \<pi> = (\<exists>i. \<forall>j\<ge>i. lsat P a (suffix j \<pi>))"
| "lsat P (LResponse a b) \<pi> = (\<forall>i. lsat P a (suffix i \<pi>) \<longrightarrow> (\<exists>j\<ge>i. lsat P b (suffix j \<pi>)))"

subsection \<open>Negation normal form\<close>

lemma weak_until_iff:
  \<comment> \<open>either the left side never fails or the right side holds by then\<close>
  "((\<exists>i. b i \<and> (\<forall>j<i. a j)) \<or> (\<forall>i. a i)) \<longleftrightarrow> (\<forall>i. a i \<or> (\<exists>j\<le>i. b j))" for a b :: "nat \<Rightarrow> bool"
proof
  assume "(\<exists>i. b i \<and> (\<forall>j<i. a j)) \<or> (\<forall>i. a i)"
  then show "\<forall>i. a i \<or> (\<exists>j\<le>i. b j)" by (meson not_le)
next
  assume R: "\<forall>i. a i \<or> (\<exists>j\<le>i. b j)"
  show "(\<exists>i. b i \<and> (\<forall>j<i. a j)) \<or> (\<forall>i. a i)"
  proof (rule disjCI)
    assume "\<not> (\<forall>i. a i)"
    then have "\<exists>j. b j" using R by blast
    then have "b (LEAST j. b j)" by (rule LeastI_ex)
    moreover have "a j" if "j < (LEAST j. b j)" for j using R that not_less_Least [of _ b] by (meson le_less_trans)
    ultimately show "\<exists>i. b i \<and> (\<forall>j<i. a j)" by blast
  qed
qed

lemma not_until:
  "(\<not> (\<exists>i. b i \<and> (\<forall>j<i. a j))) \<longleftrightarrow> (\<forall>i. \<not> b i \<or> (\<exists>j\<le>i. \<not> a j \<and> \<not> b j))" for a b :: "nat \<Rightarrow> bool"
proof
  assume L: "\<not> (\<exists>i. b i \<and> (\<forall>j<i. a j))"
  show "\<forall>i. \<not> b i \<or> (\<exists>j\<le>i. \<not> a j \<and> \<not> b j)"
  proof (intro allI disjCI)
    fix i assume "\<not> (\<exists>j\<le>i. \<not> a j \<and> \<not> b j)"
    then have ab: "a j \<or> b j" if "j \<le> i" for j using that by blast
    have "j \<le> i \<Longrightarrow> \<not> b j" for j
    proof (induction j rule: less_induct)
      case (less j)
      then have "\<forall>l<j. a l" using ab by (meson less_imp_le_nat order_trans)
      then show ?case using L by blast
    qed
    then show "\<not> b i" by simp
  qed
next
  assume "\<forall>i. \<not> b i \<or> (\<exists>j\<le>i. \<not> a j \<and> \<not> b j)"
  then show "\<not> (\<exists>i. b i \<and> (\<forall>j<i. a j))" by (metis le_neq_implies_less)
qed

lemma not_weak_until:
  "(\<not> (\<forall>i. a i \<or> (\<exists>j\<le>i. b j))) \<longleftrightarrow> (\<exists>i. (\<not> a i \<and> \<not> b i) \<and> (\<forall>j<i. \<not> b j))" for a b :: "nat \<Rightarrow> bool"
  by (metis less_imp_le_nat order.refl le_neq_implies_less)

lemma release_iff:
  "(\<forall>i. b i \<or> (\<exists>j<i. a j)) \<longleftrightarrow> (\<forall>i. b i \<or> (\<exists>j\<le>i. a j \<and> b j))" for a b :: "nat \<Rightarrow> bool"
proof
  assume L: "\<forall>i. b i \<or> (\<exists>j<i. a j)"
  show "\<forall>i. b i \<or> (\<exists>j\<le>i. a j \<and> b j)"
  proof (intro allI disjCI)
    fix i assume none: "\<not> (\<exists>j\<le>i. a j \<and> b j)"
    have "j \<le> i \<Longrightarrow> b j" for j
    proof (induction j rule: less_induct)
      case (less j)
      then have "\<forall>l<j. \<not> a l" using none by (meson less_imp_le_nat order_trans)
      then show ?case using L by blast
    qed
    then show "b i" by simp
  qed
qed (metis le_neq_implies_less)

lemma ex_shift: "(\<exists>j. Q (i + j)) \<longleftrightarrow> (\<exists>j\<ge>i. Q j)" "(\<forall>j. Q (i + j)) \<longleftrightarrow> (\<forall>j\<ge>i. Q j)" for i :: nat
  by (metis le_Suc_ex le_add1)+

theorem nnf_lsat: "lsat P (nnf f neg) \<pi> \<longleftrightarrow> (lsat P f \<pi> \<noteq> neg)"
proof (induction f neg arbitrary: \<pi> rule: nnf.induct)
  case (11 l r neg)
  let ?l = "\<lambda>i. lsat P l (suffix i \<pi>)" and ?r = "\<lambda>i. lsat P r (suffix i \<pi>)"
  show ?case
  proof (cases neg)
    case True
    then show ?thesis
      using 11 not_until [of ?r ?l] weak_until_iff [of "\<lambda>i. \<not> ?l i \<and> \<not> ?r i" "\<lambda>i. \<not> ?r i"] by simp
  next
    case False
    then show ?thesis using 11 by simp
  qed
next
  case (12 l r neg)
  show ?case
  proof (cases neg)
    case True
    then show ?thesis
      using 12 not_weak_until [of "\<lambda>i. lsat P l (suffix i \<pi>)" "\<lambda>i. lsat P r (suffix i \<pi>)"] by (simp add: weak_until_iff)
  next
    case False
    then show ?thesis using 12 by simp
  qed
next
  case (13 l r neg)
  let ?l = "\<lambda>i. lsat P l (suffix i \<pi>)" and ?r = "\<lambda>i. lsat P r (suffix i \<pi>)"
  show ?case using 13 weak_until_iff [of "\<lambda>i. ?l i \<and> ?r i" ?r] release_iff [of ?r ?l] by simp
next
  case (14 a neg)
  then show ?case by (simp add: ex_shift [of "\<lambda>j. lsat P a (suffix j \<pi>)"])
next
  case (15 a neg)
  then show ?case by (simp add: ex_shift [of "\<lambda>j. lsat P a (suffix j \<pi>)"])
next
  case (16 t r neg)
  then show ?case by (simp add: ex_shift [of "\<lambda>j. lsat P r (suffix j \<pi>)"])
qed auto

subsection \<open>Every path\<close>

definition path :: "('s \<Rightarrow> 's \<Rightarrow> bool) \<Rightarrow> (nat \<Rightarrow> 's) \<Rightarrow> bool" where
  "path R \<pi> \<longleftrightarrow> (\<forall>i. R (\<pi> i) (\<pi> (Suc i)))"

definition all_paths :: "('s \<Rightarrow> 's \<Rightarrow> bool) \<Rightarrow> 's set \<Rightarrow> (string \<Rightarrow> 's set) \<Rightarrow> ltl \<Rightarrow> 's set" where
  "all_paths R S P f = {s \<in> S. \<forall>\<pi>. path R \<pi> \<longrightarrow> \<pi> 0 = s \<longrightarrow> lsat P f \<pi>}"

definition graph_on :: "'s set \<Rightarrow> ('s \<Rightarrow> 's \<Rightarrow> bool) \<Rightarrow> bool" where
  \<comment> \<open>total on \<open>S\<close> and never leaving \<open>S\<close>\<close>
  "graph_on S R \<longleftrightarrow> (\<forall>s \<in> S. \<exists>t. R s t) \<and> (\<forall>s \<in> S. \<forall>t. R s t \<longrightarrow> t \<in> S)"

definition box :: "'s set \<Rightarrow> ('s \<Rightarrow> 's \<Rightarrow> bool) \<Rightarrow> 's set \<Rightarrow> 's set" where
  "box S R X = {s \<in> S. \<forall>t. R s t \<longrightarrow> t \<in> X}"

definition dia :: "'s set \<Rightarrow> ('s \<Rightarrow> 's \<Rightarrow> bool) \<Rightarrow> 's set \<Rightarrow> 's set" where
  "dia S R X = {s \<in> S. \<exists>t. R s t \<and> t \<in> X}"

definition holding :: "(string \<Rightarrow> 's set) \<Rightarrow> 's set \<Rightarrow> ltl \<Rightarrow> 's set" where
  \<comment> \<open>the states in which a propositional formula holds\<close>
  "holding P S b = {s \<in> S. lsat P b (\<lambda>_. s)}"

lemma box_mono: "mono (box S R)" and dia_mono: "mono (dia S R)"
  by (auto simp: mono_def box_def dia_def)

lemma path_suffix: "path R \<pi> \<Longrightarrow> path R (suffix i \<pi>)"
  by (simp add: path_def)

lemma path_Cons: "path R \<pi> \<Longrightarrow> R s (\<pi> 0) \<Longrightarrow> path R (case_nat s \<pi>)"
  by (auto simp: path_def split: nat.split)

lemma suffix_Cons: "suffix (Suc i) (case_nat s \<pi>) = suffix i \<pi>"
  by (simp add: suffix_def)

lemma lsat_propositional: "is_propositional b \<Longrightarrow> lsat P b \<pi> \<longleftrightarrow> lsat P b (\<lambda>_. \<pi> 0)"
  by (induction b) auto

lemma path_in: "graph_on S R \<Longrightarrow> path R \<pi> \<Longrightarrow> \<pi> 0 \<in> S \<Longrightarrow> \<pi> i \<in> S"
  by (induction i) (auto simp: path_def graph_on_def)

lemma lsat_holding:
  assumes "graph_on S R" "path R \<pi>" "\<pi> 0 \<in> S" "is_propositional b"
  shows "lsat P b (suffix i \<pi>) \<longleftrightarrow> \<pi> i \<in> holding P S b"
  using lsat_propositional [OF assms(4), of P "suffix i \<pi>"] path_in [OF assms(1-3), of i] by (simp add: holding_def)

text \<open>A state outside a set closed under the step of a fixpoint starts a path that avoids it.\<close>

lemma avoiding_path:
  assumes step: "\<And>s. s \<in> A \<Longrightarrow> \<exists>t. R s t \<and> t \<in> A" and s: "s \<in> A"
  obtains \<pi> where "path R \<pi>" "\<pi> 0 = s" "\<And>i. \<pi> i \<in> A"
proof -
  define \<pi> where "\<pi> = rec_nat s (\<lambda>_ s. SOME t. R s t \<and> t \<in> A)"
  have nx: "R x (SOME t. R x t \<and> t \<in> A) \<and> (SOME t. R x t \<and> t \<in> A) \<in> A" if "x \<in> A" for x
    using someI_ex [OF step [OF that]] .
  have A: "\<pi> i \<in> A" for i by (induction i) (use s nx in \<open>simp_all add: \<pi>_def\<close>)
  have "path R \<pi>" using nx [OF A] by (simp add: path_def \<pi>_def)
  then show ?thesis using that A by (simp add: \<pi>_def)
qed

lemma some_path:
  assumes "graph_on S R" "s \<in> S"
  obtains \<pi> where "path R \<pi>" "\<pi> 0 = s"
  using avoiding_path [of S R s] assms unfolding graph_on_def by metis

lemma all_propositional:
  assumes "graph_on S R" "is_propositional b"
  shows "all_paths R S P b = holding P S b"
proof
  show "all_paths R S P b \<subseteq> holding P S b"
  proof
    fix s assume "s \<in> all_paths R S P b"
    then have s: "s \<in> S" "\<And>\<pi>. path R \<pi> \<Longrightarrow> \<pi> 0 = s \<Longrightarrow> lsat P b \<pi>" by (simp_all add: all_paths_def)
    obtain \<pi> where "path R \<pi>" "\<pi> 0 = s" by (rule some_path [OF assms(1) s(1)])
    then show "s \<in> holding P S b" using s lsat_propositional [OF assms(2), of P \<pi>] by (simp add: holding_def)
  qed
  show "holding P S b \<subseteq> all_paths R S P b"
    using lsat_propositional [OF assms(2), of P] by (auto simp: holding_def all_paths_def)
qed

lemma all_and: "all_paths R S P (LAnd a b) = all_paths R S P a \<inter> all_paths R S P b"
  by (auto simp: all_paths_def)

lemma all_or:
  assumes "is_propositional b"
  shows "all_paths R S P (LOr b a) = holding P S b \<union> all_paths R S P a" "all_paths R S P (LOr a b) = all_paths R S P a \<union> holding P S b"
  using lsat_propositional [OF assms, of P] by (auto simp: all_paths_def holding_def)

lemma all_next: "graph_on S R \<Longrightarrow> all_paths R S P (LNext a) = box S R (all_paths R S P a)"
proof -
  assume G: "graph_on S R"
  have "lsat P a \<pi>" if "s \<in> all_paths R S P (LNext a)" "R s (\<pi> 0)" "path R \<pi>" for s \<pi>
    using that(1) path_Cons [OF that(3,2)] suffix_Cons [of 0 s \<pi>] by (fastforce simp: all_paths_def)
  then have "all_paths R S P (LNext a) \<subseteq> box S R (all_paths R S P a)"
    using G by (auto simp: box_def all_paths_def [of R S P a] graph_on_def) (auto simp: all_paths_def)
  moreover have "box S R (all_paths R S P a) \<subseteq> all_paths R S P (LNext a)"
    using path_suffix [of R _ 1] by (fastforce simp: box_def all_paths_def path_def)
  ultimately show ?thesis by blast
qed

text \<open>Paths from a state extend paths from its successors.\<close>

lemma all_pathsD: "s \<in> all_paths R S P f \<Longrightarrow> path R \<pi> \<Longrightarrow> R s (\<pi> 0) \<Longrightarrow> lsat P f (case_nat s \<pi>)"
  using path_Cons [of R \<pi> s] by (auto simp: all_paths_def)

lemma graph_next: "graph_on S R \<Longrightarrow> s \<in> S \<Longrightarrow> \<exists>t. R s t \<and> t \<in> S"
  unfolding graph_on_def by blast

lemma gfp_memberD: "mono F \<Longrightarrow> s \<in> gfp F \<Longrightarrow> s \<in> F (gfp F)"
  using gfp_unfold [of F] by blast

lemma lfp_member: "mono F \<Longrightarrow> s \<in> lfp F \<longleftrightarrow> s \<in> F (lfp F)"
  using lfp_unfold [of F] by blast

lemma all_always:
  assumes G: "graph_on S R"
  shows "all_paths R S P (LAlways a) = gfp (\<lambda>X. S \<inter> (all_paths R S P a \<inter> box S R X))" (is "?L = gfp ?F")
proof
  have "R s t \<Longrightarrow> t \<in> ?L" if s: "s \<in> ?L" for s t
  proof -
    assume R: "R s t"
    have "lsat P a (suffix i \<pi>)" if "path R \<pi>" "\<pi> 0 = t" for \<pi> i
      using all_pathsD [OF s that(1)] R that(2) suffix_Cons [of i s \<pi>] by (metis lsat.simps(9))
    then show "t \<in> ?L" using G s R by (auto simp: all_paths_def graph_on_def)
  qed
  moreover have "?L \<subseteq> all_paths R S P a" by (auto simp: all_paths_def) (metis suffix_simps(1))
  moreover have "?L \<subseteq> S" by (auto simp: all_paths_def)
  ultimately have "?L \<subseteq> ?F ?L" unfolding box_def by blast
  then show "?L \<subseteq> gfp ?F" by (rule gfp_upperbound)
  have mono: "mono ?F" by (auto simp: mono_def box_def)
  have in_gfp: "s \<in> all_paths R S P a \<and> (\<forall>t. R s t \<longrightarrow> t \<in> gfp ?F) \<and> s \<in> S" if "s \<in> gfp ?F" for s
    using gfp_memberD [OF mono that] unfolding box_def by blast
  show "gfp ?F \<subseteq> ?L"
  proof
    fix s assume s: "s \<in> gfp ?F"
    have "lsat P a (suffix i \<pi>)" if "path R \<pi>" "\<pi> 0 = s" for \<pi> i
    proof -
      have "\<pi> i \<in> gfp ?F" by (induction i) (use in_gfp s that in \<open>auto simp: path_def\<close>)
      from in_gfp [OF this] show ?thesis using path_suffix [OF that(1), of i] by (simp add: all_paths_def)
    qed
    then show "s \<in> ?L" using in_gfp [OF s] by (auto simp: all_paths_def)
  qed
qed

lemma all_until:
  assumes G: "graph_on S R" and p: "is_propositional l" "is_propositional r"
  shows "all_paths R S P (LUntil l r) = lfp (\<lambda>X. holding P S r \<union> (holding P S l \<inter> (box S R X \<inter> dia S R S)))" (is "?L = lfp ?F")
proof
  have mono: "mono ?F" by (auto simp: mono_def box_def)
  note l = lsat_holding [OF G _ _ p(1), of _ P] and r = lsat_holding [OF G _ _ p(2), of _ P]
  show "?L \<subseteq> lfp ?F"
  proof
    fix s assume s: "s \<in> ?L"
    show "s \<in> lfp ?F"
    proof (rule ccontr)
      assume not: "s \<notin> lfp ?F"
      let ?A = "S - lfp ?F"
      define bad where "bad = {s \<in> ?A. s \<in> holding P S l}"
      note unf = lfp_member [OF mono]
      have step: "\<exists>u. R t u \<and> u \<in> ?A" if bad: "t \<in> bad" for t
      proof -
        obtain u where "R t u" "u \<in> S" using graph_next [OF G, of t] bad by (auto simp: bad_def)
        then show ?thesis using bad unf [of t] G unfolding bad_def box_def dia_def graph_on_def by blast
      qed
      have sS: "s \<in> ?A" using s not by (auto simp: all_paths_def)
      define R' where "R' = (\<lambda>t u. R t u \<and> (t \<in> bad \<longrightarrow> u \<in> ?A))"
      have R': "\<exists>u. R' t u \<and> u \<in> S" if "t \<in> S" for t
        using step [of t] graph_next [OF G that] by (cases "t \<in> bad") (auto simp: R'_def)
      obtain \<pi> where \<pi>: "path R' \<pi>" "\<pi> 0 = s" by (rule avoiding_path [of S R' s, OF R']) (use sS in simp_all)
      have path: "path R \<pi>" using \<pi>(1) by (simp add: path_def R'_def)
      obtain i where i: "\<pi> i \<in> holding P S r" "\<forall>j<i. \<pi> j \<in> holding P S l"
        using s path \<pi>(2) sS l [OF path] r [OF path] by (auto simp: all_paths_def)
      have "j \<le> i \<Longrightarrow> \<pi> j \<in> ?A" for j
      proof (induction j)
        case (Suc j)
        then have "\<pi> j \<in> bad" using i(2) by (simp add: bad_def)
        then show ?case using \<pi>(1) by (simp add: path_def R'_def)
      qed (use \<pi>(2) sS in simp)
      then show False using i(1) unf [of "\<pi> i"] by auto
    qed
  qed
  have "?F ?L \<subseteq> ?L"
  proof
    fix s assume s: "s \<in> ?F ?L"
    have sS: "s \<in> S" using s by (auto simp: holding_def)
    have "\<exists>i. \<pi> i \<in> holding P S r \<and> (\<forall>j<i. \<pi> j \<in> holding P S l)" if \<pi>: "path R \<pi>" "\<pi> 0 = s" for \<pi>
    proof (cases "s \<in> holding P S r")
      case False
      then have "\<pi> 1 \<in> ?L" "s \<in> holding P S l" using s \<pi> by (auto simp: box_def path_def)
      then obtain i where "lsat P r (suffix (Suc i) \<pi>)" "\<forall>j<i. lsat P l (suffix (Suc j) \<pi>)"
        using path_suffix [OF \<pi>(1), of 1] by (auto simp: all_paths_def)
      then have "\<pi> (Suc i) \<in> holding P S r" "\<forall>j<Suc i. \<pi> j \<in> holding P S l"
        using l [OF \<pi>(1)] r [OF \<pi>(1)] \<pi>(2) sS \<open>s \<in> holding P S l\<close> by (auto simp: less_Suc_eq_0_disj)
      then show ?thesis by blast
    qed (use \<pi> in blast)
    then show "s \<in> ?L" using l r sS by (auto simp: all_paths_def)
  qed
  then show "lfp ?F \<subseteq> ?L" by (rule lfp_lowerbound)
qed

lemma all_eventually:
  assumes "graph_on S R" "is_propositional b"
  shows "all_paths R S P (LEventually b) = lfp (\<lambda>X. holding P S b \<union> (box S R X \<inter> dia S R S))"
proof -
  have "all_paths R S P (LEventually b) = all_paths R S P (LUntil LTrue b)" by (simp add: all_paths_def)
  moreover have "holding P S LTrue \<inter> (box S R X \<inter> dia S R S) = box S R X \<inter> dia S R S" for X by (auto simp: holding_def box_def)
  ultimately show ?thesis using all_until [OF assms(1) _ assms(2), of LTrue P] by simp
qed

lemma all_weak_until:
  assumes G: "graph_on S R" and p: "is_propositional l" "is_propositional r"
  shows "all_paths R S P (LWeakUntil l r)
    = gfp (\<lambda>X. S \<inter> ((holding P S r \<union> holding P S l) \<inter> (holding P S r \<union> box S R X)))" (is "?L = gfp ?F")
proof
  have mono: "mono ?F" by (auto simp: mono_def box_def)
  note l = lsat_holding [OF G _ _ p(1), of _ P] and r = lsat_holding [OF G _ _ p(2), of _ P]
  have sat: "lsat P (LWeakUntil l r) \<pi> \<longleftrightarrow> (\<forall>i. \<pi> i \<in> holding P S l \<or> (\<exists>j\<le>i. \<pi> j \<in> holding P S r))"
    if "path R \<pi>" "\<pi> 0 \<in> S" for \<pi> using that l r by (simp add: weak_until_iff)
  show "?L \<subseteq> gfp ?F"
  proof (rule gfp_upperbound, rule subsetI)
    fix s assume s: "s \<in> ?L"
    have sS: "s \<in> S" using s by (simp add: all_paths_def)
    have here: "s \<in> holding P S l \<union> holding P S r"
    proof -
      obtain \<pi> where "path R \<pi>" "\<pi> 0 = s" by (rule some_path [OF G sS])
      then show ?thesis using s sS sat [of \<pi>] by (auto simp: all_paths_def)
    qed
    moreover have "t \<in> ?L" if R: "R s t" and not: "s \<notin> holding P S r" for t
    proof -
      have t: "t \<in> S" using G sS R by (auto simp: graph_on_def)
      have "lsat P (LWeakUntil l r) \<pi>" if \<pi>: "path R \<pi>" "\<pi> 0 = t" for \<pi>
      proof (subst sat [OF \<pi>(1)], use t \<pi> in simp, rule allI)
        fix i
        have "lsat P (LWeakUntil l r) (case_nat s \<pi>)" by (rule all_pathsD [OF s \<pi>(1)]) (use R \<pi> in simp)
        then have w: "\<forall>i. (case_nat s \<pi> i) \<in> holding P S l \<or> (\<exists>j\<le>i. (case_nat s \<pi> j) \<in> holding P S r)"
          using sat [OF path_Cons [OF \<pi>(1)], of s] R \<pi>(2) sS by simp
        consider "\<pi> i \<in> holding P S l" | j where "j \<le> Suc i" "case_nat s \<pi> j \<in> holding P S r"
          using w [rule_format, of "Suc i"] by auto
        then show "\<pi> i \<in> holding P S l \<or> (\<exists>j\<le>i. \<pi> j \<in> holding P S r)"
        proof cases
          case (2 j)
          then show ?thesis using not by (cases j) auto
        qed simp
      qed
      then show ?thesis using t by (simp add: all_paths_def)
    qed
    ultimately show "s \<in> ?F ?L" using sS by (auto simp: box_def)
  qed
  have unf: "s \<in> S \<and> (s \<notin> holding P S r \<longrightarrow> s \<in> holding P S l \<and> (\<forall>t. R s t \<longrightarrow> t \<in> gfp ?F))" if "s \<in> gfp ?F" for s
    using gfp_memberD [OF mono that] unfolding box_def by blast
  show "gfp ?F \<subseteq> ?L"
  proof
    fix s assume s: "s \<in> gfp ?F"
    have "lsat P (LWeakUntil l r) \<pi>" if \<pi>: "path R \<pi>" "\<pi> 0 = s" for \<pi>
    proof -
      have "(\<exists>j<i. \<pi> j \<in> holding P S r) \<or> \<pi> i \<in> gfp ?F" for i
      proof (induction i)
        case (Suc i)
        then show ?case using unf [of "\<pi> i"] \<pi>(1) by (auto simp: path_def less_Suc_eq)
      qed (use s \<pi> in simp)
      then show ?thesis using sat [OF \<pi>(1)] unf \<pi>(2) s by (metis less_imp_le_nat order.refl)
    qed
    then show "s \<in> ?L" using unf [OF s] by (simp add: all_paths_def)
  qed
qed

end
