(* ===== verification/Parser_Props.thy ===== *)
theory Parser_Props
  imports Mu_Parser Transforms
begin

section \<open>Totality of the parser and well-formedness of its results\<close>

text \<open>
  The parser returns a formula or an error on every input, with fuel linear in the length of the
  text, and a formula it returns is what the later passes assume of their input: children precede
  parents, the formula is closed and every binder has a variable of its own. \<open>delivers r Q\<close> is the
  postcondition of an outcome: an error, or a value that satisfies \<open>Q\<close>.
\<close>

subsection \<open>Postconditions\<close>

definition delivers :: "('e, 'a) res \<Rightarrow> ('a \<Rightarrow> bool) \<Rightarrow> bool" where
  "delivers r Q \<longleftrightarrow> (case r of Ok x \<Rightarrow> Q x | Err e \<Rightarrow> True | _ \<Rightarrow> False)"

lemma delivers_simps [simp]: "delivers (Ok x) Q \<longleftrightarrow> Q x" "delivers (Err e) Q" "\<not> delivers Panic Q"
  "\<not> delivers OutOfFuel Q"
  by (simp_all add: delivers_def)

lemma delivers_bind: "delivers m P \<Longrightarrow> (\<And>x. P x \<Longrightarrow> delivers (k x) Q) \<Longrightarrow> delivers (rbind m k) Q"
  by (cases m) auto

lemma delivers_mono: "delivers m P \<Longrightarrow> (\<And>x. P x \<Longrightarrow> Q x) \<Longrightarrow> delivers m Q"
  by (cases m) auto

lemma delivers_ifI: "(c \<Longrightarrow> delivers a Q) \<Longrightarrow> (\<not> c \<Longrightarrow> delivers b Q) \<Longrightarrow> delivers (if c then a else b) Q"
  by simp

lemma delivers_prodI: "(\<And>a b. x = (a, b) \<Longrightarrow> delivers (f a b) Q) \<Longrightarrow> delivers (case x of (a, b) \<Rightarrow> f a b) Q"
  by (cases x) simp

lemma delivers_boolI: "(\<And>q. x = (True, q) \<Longrightarrow> delivers (f q) Q) \<Longrightarrow> (\<And>q. x = (False, q) \<Longrightarrow> delivers (g q) Q) \<Longrightarrow>
    delivers (case x of (True, q) \<Rightarrow> f q | (False, q) \<Rightarrow> g q) Q"
  by (cases x) (auto split: bool.split)

lemma delivers_optionI: "(x = None \<Longrightarrow> delivers a Q) \<Longrightarrow> (\<And>y. x = Some y \<Longrightarrow> delivers (f y) Q) \<Longrightarrow>
    delivers (case x of None \<Rightarrow> a | Some y \<Rightarrow> f y) Q"
  by (cases x) simp_all

lemma delivers_True: "delivers (Ok x) (\<lambda>_. True)"
  by simp

lemmas delivers_intros = delivers_ifI delivers_prodI delivers_optionI delivers_True delivers_simps(2)

subsection \<open>Tokens\<close>

abbreviation unread :: "parser \<Rightarrow> nat" where
  "unread p \<equiv> length (ps_rest p)"

definition moved :: "parser \<Rightarrow> parser \<Rightarrow> bool" where
  \<comment> \<open>only the position has changed\<close>
  "moved p p' \<longleftrightarrow> ps_builder p' = ps_builder p \<and> ps_binders p' = ps_binders p \<and> ps_depth p' = ps_depth p
     \<and> unread p' \<le> unread p"

lemma moved_trans: "moved p q \<Longrightarrow> moved q r \<Longrightarrow> moved p r"
  by (simp add: moved_def)

lemma moved_advance [simp]: "moved p (advance n p)"
  by (simp add: moved_def advance_def)

lemma moved_skip [simp]: "moved p (skip_whitespace U p)"
  by (simp add: skip_whitespace_def)

lemma moved_refl [simp]: "moved p p"
  by (simp add: moved_def)

definition consumes :: "(parser \<Rightarrow> bool \<times> parser) \<Rightarrow> bool" where
  "consumes f \<longleftrightarrow> (\<forall>p b p'. f p = (b, p') \<longrightarrow> moved p p' \<and> (b \<longrightarrow> unread p' < unread p))"

lemma consumesD: "consumes f \<Longrightarrow> f p = (b, p') \<Longrightarrow> moved p p' \<and> (b \<longrightarrow> unread p' < unread p)"
  unfolding consumes_def by blast

lemma consumes_from: "consumes f \<Longrightarrow> moved p q \<Longrightarrow> f q = (b, r) \<Longrightarrow> moved p r \<and> (b \<longrightarrow> unread r < unread p)"
  using consumesD [of f q b r] by (auto simp: moved_def)

lemma unread_advance: "unread (advance n p) = unread p - n"
  by (simp add: advance_def)

lemma consumes_char: "consumes (try_consume_char ch)"
  by (auto simp: consumes_def try_consume_char_def peek_char_def unread_advance dest!: next_char_Some)

lemma starts_with_length: "starts_with s pre \<Longrightarrow> length pre \<le> length s"
  unfolding starts_with_def by (metis length_take min.cobounded1)

lemma consumed: "s \<noteq> [] \<Longrightarrow> length s \<le> n \<Longrightarrow> n - length s < n"
  by (cases s) auto

lemma consumed_more: "s \<noteq> [] \<Longrightarrow> length s \<le> n \<Longrightarrow> n \<le> m \<Longrightarrow> n - (length s + x) < m"
  by (cases s) auto

lemma consumes_bytes: "s \<noteq> [] \<Longrightarrow> consumes (consume_bytes s)"
  by (auto simp: consumes_def consume_bytes_def unread_advance consumed dest!: starts_with_length)

lemma consumes_keyword: "kw \<noteq> [] \<Longrightarrow> consumes (consume_keyword U kw)"
  by (auto simp: consumes_def consume_keyword_def unread_advance to_ascii_lowercase_def consumed
      dest!: starts_with_length split: if_splits option.splits)

lemma consumes_or_else: "(\<And>f. f \<in> set fs \<Longrightarrow> consumes f) \<Longrightarrow> consumes (or_else fs)"
proof (induction fs)
  case (Cons f fs)
  have IH: "consumes (or_else fs)" and f: "consumes f" using Cons by auto
  show ?case
    unfolding consumes_def
  proof (intro allI impI)
    fix p b p' assume r: "or_else (f # fs) p = (b, p')"
    obtain c q where c: "f p = (c, q)" by fastforce
    show "moved p p' \<and> (b \<longrightarrow> unread p' < unread p)"
      using r consumesD [OF f c] consumesD [OF IH, of q b p'] moved_trans [of p q p']
      by (cases c) (auto simp: c moved_def)
  qed
qed (simp add: consumes_def)

declare or_else.simps [simp del]

lemma consumes_ops: "consumes (try_consume_not U)" "consumes (try_consume_and U)" "consumes (try_consume_or U)"
  "consumes (or_else [consume_keyword U ''mu'', try_consume_char mu_char])"
  "consumes (or_else [consume_keyword U ''nu'', try_consume_char nu_char])"
  unfolding try_consume_not_def try_consume_and_def try_consume_or_def
  by (rule consumes_or_else; force simp: consumes_char consumes_keyword consumes_bytes)+

lemma expect_char_delivers: "delivers (expect_char U ch p) (moved p)"
proof -
  obtain b q where "try_consume_char ch (skip_whitespace U p) = (b, q)" by fastforce
  then show ?thesis using consumesD [OF consumes_char, of ch "skip_whitespace U p" b q]
    moved_trans [OF moved_skip, of U p q] by (cases b) (simp_all add: expect_char_def)
qed

lemma identifier_moved:
  "parse_identifier U p = (r, p') \<Longrightarrow> moved p p' \<and> (r \<noteq> None \<longrightarrow> unread p' < unread p)"
proof -
  assume r: "parse_identifier U p = (r, p')"
  let ?q = "skip_whitespace U p"
  have q: "moved p ?q" "unread ?q \<le> unread p" using moved_skip [of p U] by (simp_all add: moved_def)
  show ?thesis
    using r q moved_trans [OF q(1) moved_advance]
    by (auto simp: parse_identifier_def Let_def unread_advance consumed_more split: option.splits if_splits dest!: next_char_Some)
qed

subsection \<open>Guards\<close>

lemma ensure_once_delivers: "delivers (ensure_once flag field pos) (\<lambda>_. True)"
  by (simp add: ensure_once_def)

lemma apply_steps_delivers: "delivers (apply_steps U p trimmed gs) (\<lambda>_. True)"
  unfolding apply_steps_def Let_def
  by (intro delivers_intros ensure_once_delivers delivers_bind [where P = "\<lambda>_. True"])

lemma parse_control_delivers: "delivers (parse_control U raw pos) (\<lambda>_. True)"
  by (simp add: parse_control_def Let_def)

lemma apply_guard_component_delivers: "delivers (apply_guard_component U p component gs) (\<lambda>_. True)"
  unfolding apply_guard_component_def Let_def
  by (intro delivers_intros apply_steps_delivers delivers_bind [OF ensure_once_delivers]
      delivers_bind [OF parse_control_delivers])

lemma guard_components_delivers:
  "unread p < k \<Longrightarrow> delivers (guard_components k U gs p) (\<lambda>(g, p'). moved p p')"
proof (induction k arbitrary: gs p)
  case (Suc k)
  let ?q = "skip_whitespace U p"
  obtain b p1 where 1: "try_consume_char '')'' ?q = (b, p1)" by fastforce
  obtain component p2 where 2: "read_component U ['','', '')''] p1 = (component, p2)" by fastforce
  obtain c p3 where 3: "try_consume_char '','' (skip_whitespace U p2) = (c, p3)" by fastforce
  obtain d p4 where 4: "try_consume_char '')'' p3 = (d, p4)" by fastforce
  have m1: "moved p p1" using consumesD [OF consumes_char 1] moved_trans [OF moved_skip] by blast
  have "moved p1 p2" using 2 by (auto simp: read_component_def Let_def)
  then have m2: "moved p (skip_whitespace U p2)" using m1 moved_trans [OF moved_trans [OF m1]] by simp
  have m3: "moved p p3" "c \<longrightarrow> unread p3 < unread p"
    using consumesD [OF consumes_char 3] m2 moved_trans by (auto simp: moved_def)
  have m4: "moved p p4" using consumesD [OF consumes_char 4] m3(1) moved_trans by blast
  have IH: "delivers (guard_components k U gs1 p3) (\<lambda>(g, p'). moved p p')" if c for gs1
    by (rule delivers_mono [OF Suc.IH]) (use that m3 Suc.prems moved_trans in \<open>auto\<close>)
  show ?case
    using m1 IH m4
    by (auto simp: 1 2 3 4 split: bool.splits intro!: delivers_bind [OF apply_guard_component_delivers])
qed simp

lemma parse_guard_delivers: "unread p < k \<Longrightarrow> delivers (parse_guard k U closing p) (\<lambda>(g, p'). moved p p')"
proof -
  assume k: "unread p < k"
  let ?q = "skip_whitespace U p"
  obtain b p1 where 1: "try_consume_char closing ?q = (b, p1)" by fastforce
  obtain c p2 where 2: "try_consume_char ''('' (skip_whitespace U p1) = (c, p2)" by fastforce
  obtain component p3 where 3: "read_until closing p2 = (component, p3)" by fastforce
  have m1: "moved p p1" using consumesD [OF consumes_char 1] moved_trans [OF moved_skip] by blast
  have m2: "moved p p2" using consumesD [OF consumes_char 2] moved_trans [OF moved_trans [OF m1 moved_skip]] by blast
  have m3: "moved p p3" using 3 m2 moved_trans [OF m2 moved_advance] by (auto simp: read_until_def Let_def)
  have "unread p2 < k" using m2 k by (simp add: moved_def)
  then have parens: "delivers (guard_components k U gs p2) (\<lambda>(g, p'). moved p p')" for gs
    by (rule delivers_mono [OF guard_components_delivers]) (use m2 moved_trans in auto)
  have tail: "delivers (rbind (expect_char U closing (skip_whitespace U p4)) (\<lambda>p5. Ok (g, p5))) (\<lambda>(g, p'). moved p p')"
    if "moved p p4" for g p4
    by (rule delivers_bind [OF expect_char_delivers])
      (use moved_trans [OF moved_trans [OF that moved_skip]] in auto)
  show ?thesis
  proof (cases b)
    case False
    have "delivers (case try_consume_char ''('' (skip_whitespace U p1) of
              (True, p2) \<Rightarrow> guard_components k U (guard_default, guard_seen_none) p2
            | (False, p2) \<Rightarrow> (case read_until closing p2 of (component, p3) \<Rightarrow>
                rbind (apply_guard_component U p3 (trim U component) (guard_default, guard_seen_none))
                  (\<lambda>(g, seen). Ok (g, p3)))) (\<lambda>(g, p'). moved p p')"
      using parens m3 by (cases c) (auto simp: 2 3 intro!: delivers_bind [OF apply_guard_component_delivers])
    then show ?thesis using False 1 by (auto simp: parse_guard_def intro!: delivers_bind tail)
  qed (simp add: parse_guard_def 1 m1)
qed

subsection \<open>Nodes\<close>

abbreviation nodes :: "parser \<Rightarrow> node list" where
  "nodes p \<equiv> fb_nodes (ps_builder p)"

abbreviation var_count :: "parser \<Rightarrow> nat" where
  "var_count p \<equiv> length (fb_vars (ps_builder p))"

definition wf_parser :: "parser \<Rightarrow> bool" where
  "wf_parser p \<longleftrightarrow> wf_nodes (nodes p) \<and> (\<forall>v \<in> snd ` set (ps_binders p). v < var_count p)"

definition yields :: "parser \<Rightarrow> nat \<times> parser \<Rightarrow> bool" where
  \<comment> \<open>a subformula has been read and its nodes added\<close>
  "yields p r \<longleftrightarrow> (case r of (i, p') \<Rightarrow> wf_nodes (nodes p') \<and> extends_builder (ps_builder p) (ps_builder p')
     \<and> ps_binders p' = ps_binders p \<and> unread p' \<le> unread p
     \<and> (\<exists>t. arena_tree (nodes p') i t \<and> fv t \<subseteq> snd ` set (ps_binders p) \<and> distinct (binders t)
          \<and> set (binders t) \<subseteq> {var_count p..<var_count p'}))"

lemma yields_wf: "wf_parser p \<Longrightarrow> yields p (i, p') \<Longrightarrow> wf_parser p'"
  by (auto simp: wf_parser_def yields_def extends_builder_def dest: less_le_trans)

lemma moved_wf: "wf_parser p \<Longrightarrow> moved p p' \<Longrightarrow> wf_parser p'"
  by (simp add: wf_parser_def moved_def)

lemma yields_before: "moved p q \<Longrightarrow> yields q r \<Longrightarrow> yields p r"
  by (auto simp: yields_def moved_def)

lemma yields_after: "yields p (i, q) \<Longrightarrow> moved q q' \<Longrightarrow> yields p (i, q')"
  by (auto simp: yields_def moved_def)

lemma yields_depth: "yields p (i, q\<lparr>ps_depth := d\<rparr>) \<longleftrightarrow> yields p (i, q)"
  "yields (p\<lparr>ps_depth := d\<rparr>) r \<longleftrightarrow> yields p r" "wf_parser (p\<lparr>ps_depth := d\<rparr>) \<longleftrightarrow> wf_parser p"
  by (simp_all add: yields_def wf_parser_def)

lemma ps_push_eq: "ps_push nd p = (length (nodes p), p\<lparr>ps_builder := (ps_builder p)\<lparr>fb_nodes := nodes p @ [nd]\<rparr>\<rparr>)"
  by (simp add: ps_push_def push_node_def)

lemma extends_push: "extends_builder b b' \<Longrightarrow> extends_builder b (b'\<lparr>fb_nodes := fb_nodes b' @ [nd]\<rparr>)"
  by (auto simp: extends_builder_def)

lemma arena_snoc: "arena_tree ns i t \<Longrightarrow> arena_tree (ns @ [nd]) i t"
  using arena_tree_prefix [of ns i t "ns @ [nd]"] by (simp add: prefix_def)

lemma extends_refl: "extends_builder b b"
  by (simp add: extends_builder_def)

lemma arena_push:
  "arena_tree (ns @ [NTrue]) (length ns) FTrue" "arena_tree (ns @ [NFalse]) (length ns) FFalse"
  "arena_tree (ns @ [NPredicate x]) (length ns) (FPred x)" "arena_tree (ns @ [NVariable v]) (length ns) (FVar v)"
  "arena_tree ns a t \<Longrightarrow> arena_tree (ns @ [NNot a]) (length ns) (FNot t)"
  "arena_tree ns a t \<Longrightarrow> arena_tree ns b u \<Longrightarrow> arena_tree (ns @ [NAnd a b]) (length ns) (FAnd t u)"
  "arena_tree ns a t \<Longrightarrow> arena_tree ns b u \<Longrightarrow> arena_tree (ns @ [NOr a b]) (length ns) (FOr t u)"
  "arena_tree ns a t \<Longrightarrow> arena_tree (ns @ [NModal k g a]) (length ns) (FModal k g t)"
  "arena_tree ns a t \<Longrightarrow> arena_tree (ns @ [NMu v a]) (length ns) (FMu v t)"
  "arena_tree ns a t \<Longrightarrow> arena_tree (ns @ [NNu v a]) (length ns) (FNu v t)"
  by (rule arena_tree.intros [OF _ nth_append_length]; simp add: arena_snoc)+

text \<open>One rule for all nodes: the new node stands for a tree whose variables are in scope.\<close>

lemma yields_push:
  assumes "wf_nodes (nodes q)" "extends_builder (ps_builder p) (ps_builder q)" "ps_binders q = ps_binders p"
    "unread q \<le> unread p" "\<forall>j \<in> set (children nd). j < length (nodes q)"
    "arena_tree (nodes q @ [nd]) (length (nodes q)) t" "fv t \<subseteq> snd ` set (ps_binders p)" "distinct (binders t)"
    "set (binders t) \<subseteq> {var_count p..<var_count q}"
  shows "yields p (ps_push nd q)"
  unfolding yields_def ps_push_eq prod.case
  using assms wf_nodes_snoc [OF assms(1,5)] extends_push [OF assms(2), of nd]
  by (intro conjI exI [of _ t]) simp_all

lemma yields_leaf:
  assumes "wf_parser p" "arena_tree (nodes p @ [nd]) (length (nodes p)) t" "children nd = []"
    "fv t \<subseteq> snd ` set (ps_binders p)" "binders t = []"
  shows "yields p (ps_push nd p)"
  by (rule yields_push [OF _ _ _ _ _ assms(2)]) (use assms extends_refl in \<open>auto simp: wf_parser_def\<close>)

lemma yieldsE:
  assumes "yields p (i, p')"
  obtains t where "wf_nodes (nodes p')" "extends_builder (ps_builder p) (ps_builder p')" "ps_binders p' = ps_binders p"
    "unread p' \<le> unread p" "arena_tree (nodes p') i t" "fv t \<subseteq> snd ` set (ps_binders p)" "distinct (binders t)"
    "set (binders t) \<subseteq> {var_count p..<var_count p'}"
  using assms unfolding yields_def by blast

lemma yields_unary:
  assumes "yields p (i, q)"
  shows "yields p (ps_push (NNot i) q)" "yields p (ps_push (NModal k g i) q)"
proof -
  obtain t where t: "wf_nodes (nodes q)" "extends_builder (ps_builder p) (ps_builder q)" "ps_binders q = ps_binders p"
    "unread q \<le> unread p" "arena_tree (nodes q) i t" "fv t \<subseteq> snd ` set (ps_binders p)" "distinct (binders t)"
    "set (binders t) \<subseteq> {var_count p..<var_count q}" using assms by (rule yieldsE)
  show "yields p (ps_push (NNot i) q)"
    by (rule yields_push [OF t(1-4) _ arena_push(5) [OF t(5)]]) (use t(6-8) arena_tree_less [OF t(5)] in simp_all)
  show "yields p (ps_push (NModal k g i) q)"
    by (rule yields_push [OF t(1-4) _ arena_push(8) [OF t(5)]]) (use t(6-8) arena_tree_less [OF t(5)] in simp_all)
qed

lemma yields_binary:
  assumes "yields p (l, p1)" "yields p1 (r, q)"
  shows "yields p (ps_push (NAnd l r) q)" "yields p (ps_push (NOr l r) q)"
proof -
  obtain s where s: "wf_nodes (nodes p1)" "extends_builder (ps_builder p) (ps_builder p1)" "ps_binders p1 = ps_binders p"
    "unread p1 \<le> unread p" "arena_tree (nodes p1) l s" "fv s \<subseteq> snd ` set (ps_binders p)" "distinct (binders s)"
    "set (binders s) \<subseteq> {var_count p..<var_count p1}" using assms(1) by (rule yieldsE)
  obtain t where t: "wf_nodes (nodes q)" "extends_builder (ps_builder p1) (ps_builder q)" "ps_binders q = ps_binders p1"
    "unread q \<le> unread p1" "arena_tree (nodes q) r t" "fv t \<subseteq> snd ` set (ps_binders p1)" "distinct (binders t)"
    "set (binders t) \<subseteq> {var_count p1..<var_count q}" using assms(2) by (rule yieldsE)
  have ext: "extends_builder (ps_builder p) (ps_builder q)" by (rule extends_trans [OF s(2) t(2)])
  have l: "arena_tree (nodes q) l s" using s(5) t(2) arena_tree_prefix by (auto simp: extends_builder_def)
  have rest: "ps_binders q = ps_binders p" "unread q \<le> unread p" using s(3,4) t(3,4) by simp_all
  have "var_count p \<le> var_count p1" "var_count p1 \<le> var_count q" using s(2) t(2) by (auto simp: extends_builder_def)
  then have b: "set (binders s @ binders t) \<subseteq> {var_count p..<var_count q}" "set (binders s) \<inter> set (binders t) = {}"
    using s(8) t(8) by fastforce+
  note side = s(3,6,7) t(6,7) b arena_tree_less [OF l] arena_tree_less [OF t(5)]
  show "yields p (ps_push (NAnd l r) q)"
    by (rule yields_push [OF t(1) ext rest _ arena_push(6) [OF l t(5)]]) (use side in simp_all)
  show "yields p (ps_push (NOr l r) q)"
    by (rule yields_push [OF t(1) ext rest _ arena_push(7) [OF l t(5)]]) (use side in simp_all)
qed

text \<open>A fixpoint: the variable is new, bound in the body and removed from the stack afterwards.\<close>

definition binds :: "parser \<Rightarrow> nat \<times> parser \<Rightarrow> bool" where
  "binds p r \<longleftrightarrow> (case r of (v, p1) \<Rightarrow> \<exists>name. v = var_count p
     \<and> ps_builder p1 = (ps_builder p)\<lparr>fb_vars := fb_vars (ps_builder p) @ [name]\<rparr>
     \<and> ps_binders p1 = (name, v) # ps_binders p \<and> unread p1 < unread p)"

lemma binds_wf: "wf_parser p \<Longrightarrow> binds p (v, p1) \<Longrightarrow> wf_parser p1"
  by (force simp: wf_parser_def binds_def less_Suc_eq)

lemma yields_fixpoint:
  assumes "wf_parser p" "binds p (v, p1)" "yields p1 (body, q)"
  shows "yields p (ps_push (NMu v body) (pop_binder q))" "yields p (ps_push (NNu v body) (pop_binder q))"
proof -
  obtain name where n: "v = var_count p" "ps_builder p1 = (ps_builder p)\<lparr>fb_vars := fb_vars (ps_builder p) @ [name]\<rparr>"
    "ps_binders p1 = (name, v) # ps_binders p" "unread p1 < unread p" using assms(2) by (auto simp: binds_def)
  obtain t where t: "wf_nodes (nodes q)" "extends_builder (ps_builder p1) (ps_builder q)" "ps_binders q = ps_binders p1"
    "unread q \<le> unread p1" "arena_tree (nodes q) body t" "fv t \<subseteq> snd ` set (ps_binders p1)" "distinct (binders t)"
    "set (binders t) \<subseteq> {var_count p1..<var_count q}" using assms(3) by (rule yieldsE)
  have ext: "extends_builder (ps_builder p) (ps_builder (pop_binder q))"
    using t(2) n(2) by (simp add: pop_binder_def extends_builder_def)
  have pop: "wf_nodes (nodes (pop_binder q))" "ps_binders (pop_binder q) = ps_binders p" "unread (pop_binder q) \<le> unread p"
    "arena_tree (nodes (pop_binder q)) body t" using t n(3,4) by (simp_all add: pop_binder_def)
  have "fv t - {v} \<subseteq> snd ` set (ps_binders p)" using t(6) n(3) by auto
  moreover have "v \<notin> set (binders t)" "v < var_count q" using t(2,8) n(1,2) by (auto simp: extends_builder_def)
  moreover have "set (binders t) \<subseteq> {var_count p..<var_count q}" using t(8) n(2) by force
  ultimately have side: "fv t - {v} \<subseteq> snd ` set (ps_binders p)" "distinct (v # binders t)"
    "set (v # binders t) \<subseteq> {var_count p..<var_count (pop_binder q)}" using t(7) n(1) by (auto simp: pop_binder_def)
  note lt = arena_tree_less [OF pop(4)]
  show "yields p (ps_push (NMu v body) (pop_binder q))"
    by (rule yields_push [OF pop(1) ext pop(2,3) _ arena_push(9) [OF pop(4)]]) (use side lt in simp_all)
  show "yields p (ps_push (NNu v body) (pop_binder q))"
    by (rule yields_push [OF pop(1) ext pop(2,3) _ arena_push(10) [OF pop(4)]]) (use side lt in simp_all)
qed

subsection \<open>The descent\<close>

definition reads_ok :: "nat \<Rightarrow> (parser \<Rightarrow> parse_result) \<Rightarrow> bool" where
  "reads_ok b F \<longleftrightarrow> (\<forall>p. wf_parser p \<longrightarrow> unread p < b \<longrightarrow> delivers (F p) (yields p))"

lemma reads_okD: "reads_ok b F \<Longrightarrow> wf_parser p \<Longrightarrow> unread p < b \<Longrightarrow> delivers (F p) (yields p)"
  by (simp add: reads_ok_def)

lemma reads_ok_from:
  "reads_ok b F \<Longrightarrow> wf_parser p \<Longrightarrow> moved p q \<Longrightarrow> unread q < b \<Longrightarrow> delivers (F q) (yields p)"
  by (rule delivers_mono [OF reads_okD]) (auto intro: moved_wf yields_before)

lemma loop_step:
  \<comment> \<open>one more operand\<close>
  assumes F: "reads_ok b F" and p: "wf_parser p" "yields p (left, q)" and m: "moved q q1" "unread q1 < b"
    and cont: "\<And>right q2. yields p (ps_push (NAnd left right) q2) \<Longrightarrow> yields p (ps_push (NOr left right) q2) \<Longrightarrow>
      unread q2 \<le> unread q1 \<Longrightarrow> delivers (K right q2) Q"
  shows "delivers (rbind (F q1) (\<lambda>(right, q2). K right q2)) Q"
proof (rule delivers_bind [OF reads_okD [OF F moved_wf [OF yields_wf [OF p] m(1)] m(2)]])
  fix r assume r: "yields q1 r"
  obtain right q2 where r': "r = (right, q2)" by (cases r)
  then have "unread q2 \<le> unread q1" using r by (simp add: yields_def)
  then show "delivers (case r of (right, q2) \<Rightarrow> K right q2) Q"
    using cont yields_binary [OF p(2) yields_before [OF m(1), of "(right, q2)"]] r r' by simp
qed

lemma unread_push [simp]: "unread (snd (ps_push nd q)) = unread q"
  by (simp add: ps_push_eq)

lemma and_loop_delivers:
  "reads_ok b F \<Longrightarrow> wf_parser p \<Longrightarrow> yields p (left, q) \<Longrightarrow> unread q \<le> b \<Longrightarrow> unread q < k \<Longrightarrow>
    delivers (and_loop k F U left q) (yields p)"
proof (induction k arbitrary: left q)
  case (Suc k)
  obtain c q1 where c: "try_consume_and U (skip_whitespace U q) = (c, q1)" by fastforce
  note m = consumesD [OF consumes_ops(2) c]
  have q1: "moved q q1" using m moved_trans [OF moved_skip] by blast
  show ?case
  proof (cases c)
    case True
    then have lt: "unread q1 < unread q" using m moved_skip [of q U] by (simp add: moved_def)
    have "delivers (rbind (F q1) (\<lambda>(right, q2). case ps_push (NAnd left right) q2 of (i, q3) \<Rightarrow> and_loop k F U i q3)) (yields p)"
    proof (rule loop_step [OF Suc.prems(1-3) q1])
      show "unread q1 < b" using lt Suc.prems(4) by simp
      fix right q2 assume y: "yields p (ps_push (NAnd left right) q2)" "unread q2 \<le> unread q1"
      obtain i q3 where i: "ps_push (NAnd left right) q2 = (i, q3)" by fastforce
      then have "unread q3 = unread q2" using unread_push [of "NAnd left right" q2] by simp
      then show "delivers (case ps_push (NAnd left right) q2 of (i, q3) \<Rightarrow> and_loop k F U i q3) (yields p)"
        using Suc.IH [OF Suc.prems(1,2), of i q3] y lt Suc.prems(4,5) i by simp
    qed
    then show ?thesis using True c by simp
  next
    case False
    then show ?thesis using c yields_after [OF Suc.prems(3) q1] by simp
  qed
qed simp

lemma or_loop_delivers:
  "reads_ok b F \<Longrightarrow> wf_parser p \<Longrightarrow> yields p (left, q) \<Longrightarrow> unread q \<le> b \<Longrightarrow> unread q < k \<Longrightarrow>
    delivers (or_loop k F U left q) (yields p)"
proof (induction k arbitrary: left q)
  case (Suc k)
  obtain c q1 where c: "try_consume_or U (skip_whitespace U q) = (c, q1)" by fastforce
  note m = consumesD [OF consumes_ops(3) c]
  have q1: "moved q q1" using m moved_trans [OF moved_skip] by blast
  show ?case
  proof (cases c)
    case True
    then have lt: "unread q1 < unread q" using m moved_skip [of q U] by (simp add: moved_def)
    have "delivers (rbind (F q1) (\<lambda>(right, q2). case ps_push (NOr left right) q2 of (i, q3) \<Rightarrow> or_loop k F U i q3)) (yields p)"
    proof (rule loop_step [OF Suc.prems(1-3) q1])
      show "unread q1 < b" using lt Suc.prems(4) by simp
      fix right q2 assume y: "yields p (ps_push (NOr left right) q2)" "unread q2 \<le> unread q1"
      obtain i q3 where i: "ps_push (NOr left right) q2 = (i, q3)" by fastforce
      then have "unread q3 = unread q2" using unread_push [of "NOr left right" q2] by simp
      then show "delivers (case ps_push (NOr left right) q2 of (i, q3) \<Rightarrow> or_loop k F U i q3) (yields p)"
        using Suc.IH [OF Suc.prems(1,2), of i q3] y lt Suc.prems(4,5) i by simp
    qed
    then show ?thesis using True c by simp
  next
    case False
    then show ?thesis using c yields_after [OF Suc.prems(3) q1] by simp
  qed
qed simp

lemma yields_unread: "yields p (i, q) \<Longrightarrow> unread q \<le> unread p"
  by (simp add: yields_def)

lemma parse_and_ok:
  assumes "reads_ok b F" "b \<le> k"
  shows "reads_ok b (parse_and k F U)"
  unfolding reads_ok_def parse_and_def
proof (intro allI impI)
  fix p assume p: "wf_parser p" "unread p < b"
  show "delivers (rbind (F p) (\<lambda>(left, p1). and_loop k F U left p1)) (yields p)"
  proof (rule delivers_bind [OF reads_okD [OF assms(1) p]])
    fix r assume r: "yields p r"
    obtain left q where r': "r = (left, q)" by (cases r)
    then have "yields p (left, q)" "unread q \<le> b" "unread q < k" using r yields_unread [of p left q] p(2) assms(2) by auto
    then show "delivers (case r of (left, q) \<Rightarrow> and_loop k F U left q) (yields p)"
      using and_loop_delivers [OF assms(1) p(1)] r' by simp
  qed
qed

lemma binds_before: "moved p q \<Longrightarrow> binds q r \<Longrightarrow> binds p r"
  by (auto simp: binds_def moved_def)

lemma parse_binder_delivers: "delivers (parse_binder U p) (binds p)"
proof -
  obtain r p1 where r: "parse_identifier U (skip_whitespace U p) = (r, p1)" by fastforce
  note m = identifier_moved [OF r]
  show ?thesis
  proof (cases r)
    case (Some name)
    have lt: "unread p1 < unread p" "moved p p1"
      using m Some moved_skip [of p U] moved_trans [OF moved_skip, of U p p1] by (auto simp: moved_def)
    have "delivers (rbind (expect_char U ''.'' (skip_whitespace U p1)) (\<lambda>p2.
          case push_var name (ps_builder p2) of (v, b) \<Rightarrow>
            Ok (v, p2\<lparr>ps_builder := b, ps_binders := (name, v) # ps_binders p2\<rparr>))) (binds p)"
      by (rule delivers_bind [OF expect_char_delivers])
        (use lt moved_skip [of p1 U] in \<open>auto simp: push_var_def binds_def moved_def\<close>)
    then show ?thesis using r Some by (simp add: parse_binder_def)
  qed (simp add: parse_binder_def r)
qed

definition optional :: "parser \<Rightarrow> nat option \<times> parser \<Rightarrow> bool" where
  "optional p r \<longleftrightarrow> (case r of (Some i, q) \<Rightarrow> yields p (i, q) | (None, q) \<Rightarrow> moved p q)"

lemma optional_some: "yields p r \<Longrightarrow> delivers (case r of (i, q) \<Rightarrow> Ok (Some i, q)) (optional p)"
  by (cases r) (simp add: optional_def)

lemma fixpoint_body_delivers:
  assumes "reads_ok b F" "wf_parser p" "moved p q" "unread q < b" "nd = NMu \<or> nd = NNu"
  shows "delivers (rbind (parse_binder U q) (\<lambda>(v, p2). rbind (F p2) (\<lambda>(body, p3).
          case ps_push (nd v body) (pop_binder p3) of (i, p4) \<Rightarrow> Ok (Some i, p4)))) (optional p)"
proof (rule delivers_bind [OF parse_binder_delivers])
  fix r assume r: "binds q r"
  obtain v p2 where r': "r = (v, p2)" by (cases r)
  have bd: "binds p (v, p2)" using binds_before [OF assms(3)] r r' by simp
  have "unread p2 < b" using r r' assms(4) by (auto simp: binds_def)
  then have "delivers (F p2) (yields p2)" by (rule reads_okD [OF assms(1) binds_wf [OF assms(2) bd]])
  then have "delivers (rbind (F p2) (\<lambda>(body, p3).
          case ps_push (nd v body) (pop_binder p3) of (i, p4) \<Rightarrow> Ok (Some i, p4))) (optional p)"
  proof (rule delivers_bind)
    fix s assume s: "yields p2 s"
    obtain body p3 where s': "s = (body, p3)" by (cases s)
    have y: "yields p (ps_push (nd v body) (pop_binder p3))"
      using yields_fixpoint [OF assms(2) bd] s s' assms(5) by auto
    show "delivers (case s of (body, p3) \<Rightarrow> case ps_push (nd v body) (pop_binder p3) of (i, p4) \<Rightarrow> Ok (Some i, p4)) (optional p)"
      using optional_some [OF y] s' by simp
  qed
  then show "delivers (case r of (v, p2) \<Rightarrow> rbind (F p2) (\<lambda>(body, p3).
          case ps_push (nd v body) (pop_binder p3) of (i, p4) \<Rightarrow> Ok (Some i, p4))) (optional p)"
    using r' by simp
qed

lemma try_consume_fixpoint_delivers:
  assumes "reads_ok b F" "wf_parser p" "unread p \<le> b"
  shows "delivers (try_consume_fixpoint F U p) (optional p)"
proof -
  obtain c p1 where 1: "or_else [consume_keyword U ''mu'', try_consume_char mu_char] (skip_whitespace U p) = (c, p1)" by fastforce
  obtain d p2 where 2: "or_else [consume_keyword U ''nu'', try_consume_char nu_char] p1 = (d, p2)" by fastforce
  have m1: "moved p p1" "c \<longrightarrow> unread p1 < unread p"
    using consumes_from [OF consumes_ops(4) moved_skip 1] by auto
  have m2: "moved p p2" "d \<longrightarrow> unread p2 < unread p"
    using consumes_from [OF consumes_ops(5) m1(1) 2] by auto
  show ?thesis
  proof (cases c)
    case True
    then show ?thesis
      using fixpoint_body_delivers [OF assms(1,2) m1(1), of NMu] m1(2) assms(3) by (simp add: try_consume_fixpoint_def 1)
  next
    case c: False
    show ?thesis
    proof (cases d)
      case True
      then show ?thesis
        using fixpoint_body_delivers [OF assms(1,2) m2(1), of NNu] m2(2) assms(3) c by (simp add: try_consume_fixpoint_def 1 2)
    next
      case False
      then show ?thesis using m2(1) c by (simp add: try_consume_fixpoint_def 1 2 optional_def)
    qed
  qed
qed

lemma parse_modality_delivers:
  assumes "reads_ok b F" "wf_parser p" "moved p q" "unread q < b" "b \<le> k"
  shows "delivers (parse_modality k F U kind closing q) (optional p)"
  unfolding parse_modality_def
proof (rule delivers_bind [OF parse_guard_delivers])
  fix r :: "guard \<times> parser" assume r: "case r of (g, p1) \<Rightarrow> moved q p1"
  obtain g p1 where r': "r = (g, p1)" by (cases r)
  have m: "moved p p1" "unread p1 < b" using r r' assms(3,4) moved_trans by (auto simp: moved_def)
  have "delivers (rbind (F p1) (\<lambda>(target, p2). case ps_push (NModal kind g target) p2 of (i, p3) \<Rightarrow> Ok (Some i, p3))) (optional p)"
  proof (rule delivers_bind [OF reads_ok_from [OF assms(1,2) m]])
    fix s assume "yields p s"
    then show "delivers (case s of (target, p2) \<Rightarrow> case ps_push (NModal kind g target) p2 of (i, p3) \<Rightarrow> Ok (Some i, p3)) (optional p)"
      using optional_some [OF yields_unary(2)] by (cases s) auto
  qed
  then show "delivers (case r of (g, p1) \<Rightarrow> rbind (F p1) (\<lambda>(target, p2).
      case ps_push (NModal kind g target) p2 of (i, p3) \<Rightarrow> Ok (Some i, p3))) (optional p)" using r' by simp
qed (use assms in simp)

lemma try_consume_modal_delivers:
  assumes "reads_ok b F" "wf_parser p" "unread p \<le> b" "b \<le> k"
  shows "delivers (try_consume_modal k F U p) (optional p)"
proof -
  obtain c1 p1 where 1: "try_consume_char ''['' (skip_whitespace U p) = (c1, p1)" by fastforce
  obtain c2 p2 where 2: "try_consume_char langle_char p1 = (c2, p2)" by fastforce
  obtain c3 p3 where 3: "try_consume_char ''<'' p2 = (c3, p3)" by fastforce
  have m1: "moved p p1" "c1 \<longrightarrow> unread p1 < unread p"
    using consumes_from [OF consumes_char moved_skip 1] by auto
  have m2: "moved p p2" "c2 \<longrightarrow> unread p2 < unread p"
    using consumes_from [OF consumes_char m1(1) 2] by auto
  have m3: "moved p p3" "c3 \<longrightarrow> unread p3 < unread p"
    using consumes_from [OF consumes_char m2(1) 3] by auto
  note rules = parse_modality_delivers [OF assms(1,2) _ _ assms(4)]
  show ?thesis
  proof (cases c1)
    case True
    then show ?thesis using rules [OF m1(1)] m1(2) assms(3) by (simp add: try_consume_modal_def 1)
  next
    case c1: False
    show ?thesis
    proof (cases c2)
      case True
      then show ?thesis using rules [OF m2(1)] m2(2) assms(3) c1 by (simp add: try_consume_modal_def 1 2)
    next
      case c2: False
      show ?thesis
      proof (cases c3)
        case True
        then show ?thesis using rules [OF m3(1)] m3(2) assms(3) c1 c2 by (simp add: try_consume_modal_def 1 2 3)
      next
        case False
        then show ?thesis using m3(1) c1 c2 by (simp add: try_consume_modal_def 1 2 3 optional_def)
      qed
    qed
  qed
qed

lemma comparison_moved:
  "try_consume_comparison_op p = (r, p') \<Longrightarrow> moved p p'" "parse_comparison_rhs U p = (r, p') \<Longrightarrow> moved p p'"
  "try_consume_addend U p = (r, p') \<Longrightarrow> moved p p'"
proof -
  show "try_consume_comparison_op p = (r, p') \<Longrightarrow> moved p p'"
    by (auto simp: try_consume_comparison_op_def Let_def split: if_splits)
  show "try_consume_addend U p = (r, p') \<Longrightarrow> moved p p'"
    using moved_trans [OF moved_skip moved_trans [OF moved_advance moved_trans [OF moved_skip moved_advance]]]
    by (auto simp: try_consume_addend_def Let_def split: if_splits)
  assume r: "parse_comparison_rhs U p = (r, p')"
  let ?s = "skip_whitespace U p"
  obtain a q where a: "consume_keyword U ''true'' ?s = (a, q)" by fastforce
  obtain b q1 where b: "consume_keyword U ''false'' q = (b, q1)" by fastforce
  have q: "moved p q" using consumes_from [OF consumes_keyword moved_skip a] by simp
  have q1: "moved p q1" using consumes_from [OF consumes_keyword q b] by simp
  have num: "moved p (advance n ?s)" "moved p (advance n (advance m ?s))" for n m
    using moved_trans [OF moved_skip moved_advance] moved_trans [OF moved_skip moved_trans [OF moved_advance moved_advance]]
    by blast+
  show "moved p p'"
  proof (cases "digits_len (ps_rest (if peek_char ?s \<in> {Some ''-'', Some ''+''} then advance 1 ?s else ?s)) > 0")
    case True
    then show ?thesis using r num by (auto simp: parse_comparison_rhs_def Let_def split: if_splits)
  next
    case False
    then show ?thesis
      using r q q1 identifier_moved [of U q1 r p'] moved_trans [OF q1]
      by (simp add: parse_comparison_rhs_def Let_def a b split: bool.splits if_splits)
  qed
qed

lemma parse_atom_delivers: "wf_parser p \<Longrightarrow> delivers (parse_atom U p) (yields p)"
proof -
  assume p: "wf_parser p"
  have leaf: "yields p (ps_push nd q)" if "moved p q" "nd \<in> {NTrue, NFalse} \<union> range NPredicate" for nd q
  proof (rule yields_before [OF that(1)])
    show "yields q (ps_push nd q)"
      using that(2) yields_leaf [OF moved_wf [OF p that(1)] arena_push(1)] yields_leaf [OF moved_wf [OF p that(1)] arena_push(2)]
        yields_leaf [OF moved_wf [OF p that(1)] arena_push(3)] by auto
  qed
  obtain a p1 where 1: "consume_keyword U ''true'' p = (a, p1)" by fastforce
  obtain b p2 where 2: "consume_keyword U ''false'' p1 = (b, p2)" by fastforce
  obtain r p3 where 3: "parse_identifier U p2 = (r, p3)" by fastforce
  have m1: "moved p p1" using consumes_from [OF consumes_keyword moved_refl 1] by simp
  have m2: "moved p p2" using consumes_from [OF consumes_keyword m1 2] by simp
  have m3: "moved p p3" using identifier_moved [OF 3] moved_trans [OF m2] by simp
  have cmp: "delivers (parse_comparison U x p3) (yields p)" for x
  proof -
    obtain op p4 where 4: "try_consume_comparison_op (skip_whitespace U p3) = (op, p4)" by fastforce
    obtain rhs p5 where 5: "parse_comparison_rhs U (skip_whitespace U p4) = (rhs, p5)" by fastforce
    obtain ad p6 where 6: "try_consume_addend U p5 = (ad, p6)" by fastforce
    have m4: "moved p p4" using comparison_moved(1) [OF 4] moved_trans [OF moved_trans [OF m3 moved_skip]] by simp
    have m5: "moved p p5" using comparison_moved(2) [OF 5] moved_trans [OF moved_trans [OF m4 moved_skip]] by simp
    have m6: "moved p p6" using comparison_moved(3) [OF 6] moved_trans [OF m5] by simp
    show ?thesis
      using leaf [OF m4] leaf [OF m5] leaf [OF m6]
      by (cases op; cases rhs) (simp_all add: parse_comparison_def 4 5 6 Let_def)
  qed
  have var: "yields p (ps_push (NVariable v) p3)" if "map_of (ps_binders p3) x = Some v" for v x
  proof (rule yields_before [OF m3 yields_leaf [OF moved_wf [OF p m3] arena_push(4)]])
    show "fv (FVar v) \<subseteq> snd ` set (ps_binders p3)" using map_of_SomeD [OF that] by (force simp: image_iff)
  qed simp_all
  show ?thesis
    using leaf [OF m1, of NTrue] leaf [OF m2, of NFalse] cmp var
    by (cases a; cases b; cases r) (auto simp: parse_atom_def 1 2 3 split: option.split)
qed

lemma parse_primary_delivers:
  assumes "reads_ok b F" "wf_parser p" "unread p \<le> b"
  shows "delivers (parse_primary F U p) (yields p)"
proof -
  obtain c p1 where 1: "try_consume_char ''('' (skip_whitespace U p) = (c, p1)" by fastforce
  have m1: "moved p p1" "c \<longrightarrow> unread p1 < unread p" using consumes_from [OF consumes_char moved_skip 1] by auto
  show ?thesis
  proof (cases c)
    case True
    have "delivers (rbind (F p1) (\<lambda>(i, p2). rbind (expect_char U '')'' (skip_whitespace U p2)) (\<lambda>p3. Ok (i, p3)))) (yields p)"
    proof (rule delivers_bind [OF reads_ok_from [OF assms(1,2) m1(1)]])
      show "unread p1 < b" using True m1(2) assms(3) by simp
      fix r assume r: "yields p r"
      obtain i p2 where r': "r = (i, p2)" by (cases r)
      have "delivers (rbind (expect_char U '')'' (skip_whitespace U p2)) (\<lambda>p3. Ok (i, p3))) (yields p)"
        by (rule delivers_bind [OF expect_char_delivers])
          (use yields_after [OF yields_after [OF r [unfolded r'] moved_skip]] in simp)
      then show "delivers (case r of (i, p2) \<Rightarrow> rbind (expect_char U '')'' (skip_whitespace U p2)) (\<lambda>p3. Ok (i, p3))) (yields p)"
        using r' by simp
    qed
    then show ?thesis using True by (simp add: parse_primary_def 1)
  next
    case False
    then show ?thesis
      using delivers_mono [OF parse_atom_delivers [OF moved_wf [OF assms(2) m1(1)]] yields_before [OF m1(1)]]
      by (simp add: parse_primary_def 1)
  qed
qed

lemma parse_unary_inner_delivers:
  assumes F: "reads_ok b F" and G: "reads_ok b G" and p: "wf_parser p" "unread p \<le> b" and k: "b \<le> k"
  shows "delivers (parse_unary_inner k F G U p) (yields p)"
proof -
  obtain c p1 where 1: "try_consume_not U (skip_whitespace U p) = (c, p1)" by fastforce
  have m1: "moved p p1" "c \<longrightarrow> unread p1 < unread p" using consumes_from [OF consumes_ops(1) moved_skip 1] by auto
  note wf1 = moved_wf [OF p(1) m1(1)]
  have u1: "unread p1 \<le> b" using m1(1) p(2) by (simp add: moved_def)
  show ?thesis
  proof (cases c)
    case True
    have "delivers (rbind (G p1) (\<lambda>(operand, p2). Ok (ps_push (NNot operand) p2))) (yields p)"
      by (rule delivers_bind [OF reads_ok_from [OF G p(1) m1(1)]])
        (use True m1(2) p(2) yields_unary(1) in auto)
    then show ?thesis using True by (simp add: parse_unary_inner_def 1)
  next
    case False
    let ?rest = "\<lambda>p2. rbind (try_consume_modal k G U p2) (\<lambda>(r, p3). case r of Some i \<Rightarrow> Ok (i, p3) | None \<Rightarrow> parse_primary F U p3)"
    have modal: "delivers (?rest p2) (yields p)" if m2: "moved p p2" for p2
    proof -
      have u2: "unread p2 \<le> b" using m2 p(2) by (simp add: moved_def)
      show ?thesis
      proof (rule delivers_bind [OF try_consume_modal_delivers [OF G moved_wf [OF p(1) m2] u2 k]])
        fix s assume s: "optional p2 s"
        obtain r p3 where s': "s = (r, p3)" by (cases s)
        show "delivers (case s of (r, p3) \<Rightarrow> case r of Some i \<Rightarrow> Ok (i, p3) | None \<Rightarrow> parse_primary F U p3) (yields p)"
        proof (cases r)
          case None
          have m3: "moved p p3" using s s' None moved_trans [OF m2] by (simp add: optional_def)
          have "unread p3 \<le> b" using m3 p(2) by (simp add: moved_def)
          then show ?thesis
            using delivers_mono [OF parse_primary_delivers [OF F moved_wf [OF p(1) m3]] yields_before [OF m3]] s' None by simp
        qed (use s s' yields_before [OF m2] in \<open>simp add: optional_def\<close>)
      qed
    qed
    have "delivers (rbind (try_consume_fixpoint F U p1) (\<lambda>(r, p2). case r of Some i \<Rightarrow> Ok (i, p2) | None \<Rightarrow> ?rest p2)) (yields p)"
    proof (rule delivers_bind [OF try_consume_fixpoint_delivers [OF F wf1 u1]])
      fix s assume s: "optional p1 s"
      obtain r p2 where s': "s = (r, p2)" by (cases s)
      show "delivers (case s of (r, p2) \<Rightarrow> case r of Some i \<Rightarrow> Ok (i, p2) | None \<Rightarrow> ?rest p2) (yields p)"
        using s s' modal moved_trans [OF m1(1)] yields_before [OF m1(1)] by (cases r) (simp_all add: optional_def)
    qed
    then show ?thesis using False by (simp add: parse_unary_inner_def 1)
  qed
qed

lemma parse_or_step:
  assumes "reads_ok b (\<lambda>p. parse_unary k U p)" "b \<le> k"
  shows "reads_ok b (\<lambda>p. parse_or (Suc k) U p)"
  unfolding reads_ok_def
proof (intro allI impI)
  note A = parse_and_ok [OF assms, of U]
  fix p assume p: "wf_parser p" "unread p < b"
  have "delivers (rbind (parse_and k (\<lambda>p. parse_unary k U p) U p) (\<lambda>(left, p1).
      or_loop k (parse_and k (\<lambda>p. parse_unary k U p) U) U left p1)) (yields p)"
  proof (rule delivers_bind [OF reads_okD [OF A p]])
    fix r assume r: "yields p r"
    obtain left q where r': "r = (left, q)" by (cases r)
    have "unread q \<le> b" "unread q < k" using r r' yields_unread [of p left q] p(2) assms(2) by auto
    then show "delivers (case r of (left, p1) \<Rightarrow> or_loop k (parse_and k (\<lambda>p. parse_unary k U p) U) U left p1) (yields p)"
      using or_loop_delivers [OF A p(1)] r r' by simp
  qed
  then show "delivers (parse_or (Suc k) U p) (yields p)" by simp
qed

lemma parse_unary_step:
  assumes "reads_ok b (\<lambda>p. parse_or k U p)" "reads_ok b (\<lambda>p. parse_unary k U p)" "b \<le> k"
  shows "reads_ok (Suc b) (\<lambda>p. parse_unary (Suc k) U p)"
  unfolding reads_ok_def
proof (intro allI impI)
  fix p assume p: "wf_parser p" "unread p < Suc b"
  let ?q = "p\<lparr>ps_depth := Suc (ps_depth p)\<rparr>"
  have "delivers (parse_unary_inner k (\<lambda>p. parse_or k U p) (\<lambda>p. parse_unary k U p) U ?q) (yields ?q)"
    by (rule parse_unary_inner_delivers [OF assms(1,2)]) (use p assms(3) in \<open>simp_all add: yields_depth\<close>)
  then have "delivers (rbind (parse_unary_inner k (\<lambda>p. parse_or k U p) (\<lambda>p. parse_unary k U p) U ?q)
      (\<lambda>(i, p2). Ok (i, p2\<lparr>ps_depth := ps_depth p2 - 1\<rparr>))) (yields p)"
    by (rule delivers_bind) (auto simp: yields_depth)
  then show "delivers (parse_unary (Suc k) U p) (yields p)" by (simp add: Let_def)
qed

lemma descent_ok:
  "(2 * b + 1 \<le> k \<longrightarrow> reads_ok b (\<lambda>p. parse_or k U p)) \<and> (2 * b \<le> k \<longrightarrow> reads_ok b (\<lambda>p. parse_unary k U p))"
proof (induction k arbitrary: b)
  case (Suc k)
  have "reads_ok b (\<lambda>p. parse_unary (Suc k) U p)" if "2 * b \<le> Suc k"
  proof (cases b)
    case (Suc b')
    then show ?thesis using parse_unary_step [of b' k U] Suc.IH [of b'] that by simp
  qed (simp add: reads_ok_def)
  then show ?case using parse_or_step [of b k U] Suc.IH [of b] by simp
qed (simp add: reads_ok_def)

lemma parse_delivers:
  assumes "2 * length input + 3 \<le> k"
  shows "delivers (parse k U input) (\<lambda>f. wf_formula f \<and> (\<exists>t. tree f = Some t \<and> well_bound f t))"
proof -
  let ?p = "parser_new input"
  have "reads_ok (Suc (length input)) (\<lambda>p. parse_or k U p)" using descent_ok [of "Suc (length input)" k U] assms by simp
  moreover have wf: "wf_parser ?p" by (simp add: wf_parser_def parser_new_def formula_builder_default_def wf_nodes_def)
  ultimately have "delivers (parse_or k U ?p) (yields ?p)" by (rule reads_okD) (simp add: parser_new_def)
  then show "delivers (parse k U input) (\<lambda>f. wf_formula f \<and> (\<exists>t. tree f = Some t \<and> well_bound f t))"
    unfolding parse_def
  proof (rule delivers_bind)
    fix r assume r: "yields ?p r"
    obtain root q where r': "r = (root, q)" by (cases r)
    let ?q = "skip_whitespace U q"
    obtain t where t: "wf_nodes (nodes ?q)" "arena_tree (nodes ?q) root t" "fv t \<subseteq> snd ` set (ps_binders ?p)"
      "distinct (binders t)" "set (binders t) \<subseteq> {var_count ?p..<var_count ?q}"
      using yields_after [OF r [unfolded r'] moved_skip] by (rule yieldsE)
    let ?f = "into_formula (ps_builder ?q) root"
    have "tree ?f = Some t" by (rule arena_tree_tree [OF t(1,2)])
    moreover have "wf_formula ?f" using t(1) arena_tree_less [OF t(2)] by (simp add: wf_formula_def into_formula_def)
    moreover have "well_bound ?f t"
      using t(3-5) by (auto simp: well_bound_def into_formula_def parser_new_def)
    ultimately show "delivers (case r of (root, p) \<Rightarrow> let p1 = skip_whitespace U p
       in if \<not> is_eof p1 then Err (error_here UnexpectedTrailing p1) else Ok (into_formula (ps_builder p1) root))
      (\<lambda>f. wf_formula f \<and> (\<exists>t. tree f = Some t \<and> well_bound f t))" using r' by (simp add: Let_def)
  qed
qed

text \<open>
  C17: The parser is total and its results are well formed. With fuel linear in the length of the text,
  parsing any text with any tables for the characters beyond ASCII returns an error or a formula
  whose arena lists children before parents, which is closed, and in which every fixpoint binds a
  variable of its own: the input the rewriting passes and the evaluators expect.
\<close>

theorem parse_well_formed:
  assumes "2 * length input + 3 \<le> k"
  shows "(\<exists>e. parse k U input = Err e) \<or>
    (\<exists>f t. parse k U input = Ok f \<and> wf_formula f \<and> tree f = Some t \<and> well_bound f t)"
  using parse_delivers [OF assms, of U] by (cases "parse k U input") auto

definition ascii_tables :: unicode where
  \<comment> \<open>no character beyond ASCII is a letter, a digit or a space\<close>
  "ascii_tables = \<lparr>u_alphabetic = (\<lambda>_. False), u_numeric = (\<lambda>_. False), u_whitespace = (\<lambda>_. False)\<rparr>"

theorem parse_well_formed_witness:
  "\<exists>f t. parse 40 ascii_tables ''nu X. (p && [] X)'' = Ok f \<and> tree f = Some t \<and> well_bound f t"
proof -
  have "case parse 40 ascii_tables ''nu X. (p && [] X)'' of Ok f \<Rightarrow> True | _ \<Rightarrow> False" by code_simp
  then show ?thesis using parse_well_formed [of "''nu X. (p && [] X)''" 40 ascii_tables]
    by (auto split: res.splits)
qed

end
