(* ===== verification/Text_Reading.thy ===== *)
theory Text_Reading
  imports Parser_Props
begin

section \<open>What the parser reads\<close>

text \<open>
  Callers that generate formulas as text (the translation of LTL) rely on the parser to read back
  the formula they mean. \<open>src\<close> is a formula over names, as written; \<open>elab\<close> resolves its names to
  variables and predicates in the order in which the parser allocates variables. The rules below say
  which texts the parser reads as which formula, at the level of an operand (\<open>unary_reads\<close>) and of
  a whole formula in parentheses (\<open>or_reads\<close>).
\<close>

subsection \<open>Formulas as written\<close>

datatype src =
    STrue | SFalse | SIdent string
  | SNot src | SAnd src src | SOr src src
  | SModal modal_kind guard src
  | SMu string src | SNu string src

fun elab :: "(string \<times> nat) list \<Rightarrow> nat \<Rightarrow> src \<Rightarrow> fml \<times> nat" where
  "elab \<Gamma> n STrue = (FTrue, n)"
| "elab \<Gamma> n SFalse = (FFalse, n)"
| "elab \<Gamma> n (SIdent x) = ((case map_of \<Gamma> x of Some v \<Rightarrow> FVar v | None \<Rightarrow> FPred x), n)"
| "elab \<Gamma> n (SNot a) = (case elab \<Gamma> n a of (s, m) \<Rightarrow> (FNot s, m))"
| "elab \<Gamma> n (SAnd a b) = (case elab \<Gamma> n a of (s, m) \<Rightarrow> case elab \<Gamma> m b of (t, l) \<Rightarrow> (FAnd s t, l))"
| "elab \<Gamma> n (SOr a b) = (case elab \<Gamma> n a of (s, m) \<Rightarrow> case elab \<Gamma> m b of (t, l) \<Rightarrow> (FOr s t, l))"
| "elab \<Gamma> n (SModal k g a) = (case elab \<Gamma> n a of (s, m) \<Rightarrow> (FModal k g s, m))"
| "elab \<Gamma> n (SMu x a) = (case elab ((x, n) # \<Gamma>) (Suc n) a of (s, m) \<Rightarrow> (FMu n s, m))"
| "elab \<Gamma> n (SNu x a) = (case elab ((x, n) # \<Gamma>) (Suc n) a of (s, m) \<Rightarrow> (FNu n s, m))"

primrec ssem :: "('l::complete_lattice) mu_algebra \<Rightarrow> (string \<rightharpoonup> 'l) \<Rightarrow> src \<Rightarrow> 'l" where
  "ssem A \<delta> STrue = a_top A"
| "ssem A \<delta> SFalse = bot"
| "ssem A \<delta> (SIdent x) = (case \<delta> x of Some l \<Rightarrow> l | None \<Rightarrow> a_pred A x)"
| "ssem A \<delta> (SNot a) = a_not A (ssem A \<delta> a)"
| "ssem A \<delta> (SAnd a b) = inf (ssem A \<delta> a) (ssem A \<delta> b)"
| "ssem A \<delta> (SOr a b) = sup (ssem A \<delta> a) (ssem A \<delta> b)"
| "ssem A \<delta> (SModal k g a) = a_modal A k g (ssem A \<delta> a)"
| "ssem A \<delta> (SMu x a) = lfp (\<lambda>X. ssem A (\<delta>(x \<mapsto> X)) a)"
| "ssem A \<delta> (SNu x a) = gfp (\<lambda>X. inf (a_top A) (ssem A (\<delta>(x \<mapsto> X)) a))"

lemma elab_mono: "n \<le> snd (elab \<Gamma> n e)"
proof (induction e arbitrary: \<Gamma> n)
  case (SMu x e)
  show ?case using SMu [of "Suc n" "(x, n) # \<Gamma>"] by (auto split: prod.split)
next
  case (SNu x e)
  show ?case using SNu [of "Suc n" "(x, n) # \<Gamma>"] by (auto split: prod.split)
next
  case (SAnd a b)
  show ?case using SAnd(1) [of n \<Gamma>] SAnd(2) [of "snd (elab \<Gamma> n a)" \<Gamma>] by (auto split: prod.split)
next
  case (SOr a b)
  show ?case using SOr(1) [of n \<Gamma>] SOr(2) [of "snd (elab \<Gamma> n a)" \<Gamma>] by (auto split: prod.split)
next
  case (SNot e)
  show ?case using SNot [of n \<Gamma>] by (simp add: case_prod_beta)
next
  case (SModal k g e)
  show ?case using SModal [of n \<Gamma>] by (simp add: case_prod_beta)
qed simp_all

lemma sem_elab:
  "(\<forall>v \<in> snd ` set \<Gamma>. v < n) \<Longrightarrow> sem A (fst (elab \<Gamma> n e)) \<rho> = ssem A (\<lambda>x. map_option \<rho> (map_of \<Gamma> x)) e"
proof (induction e arbitrary: \<Gamma> n \<rho>)
  case (SAnd a b)
  have "\<forall>v \<in> snd ` set \<Gamma>. v < snd (elab \<Gamma> n a)" using SAnd.prems elab_mono [of n \<Gamma> a] by fastforce
  then show ?case using SAnd.IH(1) [OF SAnd.prems] SAnd.IH(2) by (simp add: case_prod_beta)
next
  case (SOr a b)
  have "\<forall>v \<in> snd ` set \<Gamma>. v < snd (elab \<Gamma> n a)" using SOr.prems elab_mono [of n \<Gamma> a] by fastforce
  then show ?case using SOr.IH(1) [OF SOr.prems] SOr.IH(2) by (simp add: case_prod_beta)
next
  case (SMu x a)
  have scope: "\<forall>v \<in> snd ` set ((x, n) # \<Gamma>). v < Suc n" using SMu.prems by auto
  have "(\<lambda>y. map_option (\<rho>(n := X)) (map_of ((x, n) # \<Gamma>) y)) = (\<lambda>y. map_option \<rho> (map_of \<Gamma> y))(x \<mapsto> X)" for X
    using SMu.prems by (auto simp: fun_eq_iff map_option_case split: option.split dest!: map_of_SomeD)
  then show ?case using SMu.IH [OF scope] by (simp add: case_prod_beta del: fun_upd_apply map_of.simps)
next
  case (SNu x a)
  have scope: "\<forall>v \<in> snd ` set ((x, n) # \<Gamma>). v < Suc n" using SNu.prems by auto
  have "(\<lambda>y. map_option (\<rho>(n := X)) (map_of ((x, n) # \<Gamma>) y)) = (\<lambda>y. map_option \<rho> (map_of \<Gamma> y))(x \<mapsto> X)" for X
    using SNu.prems by (auto simp: fun_eq_iff map_option_case split: option.split dest!: map_of_SomeD)
  then show ?case using SNu.IH [OF scope] by (simp add: case_prod_beta del: fun_upd_apply map_of.simps)
qed (auto simp: case_prod_beta split: option.split)

subsection \<open>ASCII texts\<close>

abbreviation ascii :: "char \<Rightarrow> bool" where
  "ascii b \<equiv> byte b < 128"

definition strip :: "unicode \<Rightarrow> string \<Rightarrow> string" where
  "strip U s = drop (span_len (is_whitespace U) s) s"

definition ident_char :: "char \<Rightarrow> bool" where
  "ident_char b \<longleftrightarrow> ascii_alpha b \<or> ascii_digit b \<or> b = CHR ''_'' \<or> b = CHR ''$''"

lemma next_char_ascii [simp]: "ascii b \<Longrightarrow> next_char (b # s) = Some [b]" "next_char [] = None"
  by (simp_all add: next_char_def char_len_def)

lemma ident_continue_ascii [simp]: "is_ident_continue U [b] \<longleftrightarrow> ident_char b"
  by (auto simp: is_ident_continue_def is_alphanumeric_def is_alphabetic_def ident_char_def)

lemma ident_start_ascii [simp]: "is_ident_start U [b] \<longleftrightarrow> ascii_alpha b \<or> b = CHR ''_'' \<or> b = CHR ''$''"
  by (auto simp: is_ident_start_def is_alphabetic_def)

lemma whitespace_ascii [simp]: "is_whitespace U [b] \<longleftrightarrow> ascii_space b"
  by (simp add: is_whitespace_def)

lemma strip_simps:
  "strip U [] = []" "ascii b \<Longrightarrow> \<not> ascii_space b \<Longrightarrow> strip U (b # s) = b # s" "strip U (CHR '' '' # s) = strip U s"
  by (simp_all add: strip_def span_len.simps [of _ "_ # s"] span_len.simps [of _ "[]"])
    (simp add: ascii_space_def)

lemma span_len_drop: "span_len P (drop (span_len P s) s) = 0"
proof (induction P s rule: span_len.induct)
  case (1 P s)
  show ?case
  proof (cases "next_char s")
    case (Some c)
    show ?thesis
    proof (cases "P c")
      case True
      then have "span_len P s = length c + span_len P (drop (length c) s)" using Some by (simp add: span_len.simps [of P s])
      then show ?thesis using 1 [OF Some True] by (simp add: add.commute)
    next
      case False
      then have "span_len P s = 0" using Some by (simp add: span_len.simps [of P s])
      then show ?thesis by simp
    qed
  next
    case None
    then have "span_len P s = 0" by (simp add: span_len.simps [of P s])
    then show ?thesis by simp
  qed
qed

lemma strip_strip [simp]: "strip U (strip U s) = strip U s"
  by (simp add: strip_def span_len_drop)

lemma skip_simps [simp]:
  "ps_rest (skip_whitespace U p) = strip U (ps_rest p)" "ps_builder (skip_whitespace U p) = ps_builder p"
  "ps_binders (skip_whitespace U p) = ps_binders p" "ps_depth (skip_whitespace U p) = ps_depth p"
  by (simp_all add: skip_whitespace_def advance_def strip_def)

lemma advance_simps [simp]:
  "ps_rest (advance n p) = drop n (ps_rest p)" "ps_builder (advance n p) = ps_builder p"
  "ps_binders (advance n p) = ps_binders p" "ps_depth (advance n p) = ps_depth p"
  by (simp_all add: advance_def)

lemma try_char:
  "ps_rest p = b # s \<Longrightarrow> ascii b \<Longrightarrow> try_consume_char ch p = (if ch = [b] then (True, advance 1 p) else (False, p))"
  "ps_rest p = [] \<Longrightarrow> try_consume_char ch p = (False, p)"
  by (auto simp: try_consume_char_def peek_char_def)

lemma keyword_fails:
  "ps_rest p = b # s \<Longrightarrow> lower_byte b \<noteq> c \<Longrightarrow> consume_keyword U (c # kw) p = (False, p)"
  "ps_rest p = [] \<Longrightarrow> consume_keyword U (c # kw) p = (False, p)"
  by (simp_all add: consume_keyword_def starts_with_def to_ascii_lowercase_def)

lemma bytes_fail:
  "ps_rest p = b # s \<Longrightarrow> b \<noteq> c \<Longrightarrow> consume_bytes (c # cs) p = (False, p)"
  "ps_rest p = [] \<Longrightarrow> consume_bytes (c # cs) p = (False, p)"
  by (simp_all add: consume_bytes_def starts_with_def)

subsection \<open>Specification of a reader\<close>

definition delimited :: "string list \<Rightarrow> string \<Rightarrow> bool" where
  \<comment> \<open>the text ends or goes on with one of the delimiters\<close>
  "delimited ds r \<longleftrightarrow> r = [] \<or> (\<exists>d \<in> set ds. \<exists>r'. r = d @ r')"

abbreviation operand_end :: "string \<Rightarrow> bool" where
  "operand_end \<equiv> delimited ['')'', '' && '', '' || '']"

abbreviation formula_end :: "string \<Rightarrow> bool" where
  "formula_end \<equiv> delimited ['')'']"

definition starts :: "string \<Rightarrow> bool" where
  "starts t \<longleftrightarrow> (\<exists>b s. t = b # s \<and> ascii b \<and> \<not> ascii_space b)"

definition took :: "unicode \<Rightarrow> parser \<Rightarrow> string \<Rightarrow> src \<Rightarrow> nat \<times> parser \<Rightarrow> bool" where
  "took U p r e x \<longleftrightarrow> (case x of (i, p') \<Rightarrow>
     strip U (ps_rest p') = strip U r \<and> ps_binders p' = ps_binders p \<and> ps_depth p' = ps_depth p
     \<and> prefix (nodes p) (nodes p') \<and> arena_tree (nodes p') i (fst (elab (ps_binders p) (var_count p) e))
     \<and> var_count p' = snd (elab (ps_binders p) (var_count p) e))"

definition reads :: "unicode \<Rightarrow> (string \<Rightarrow> bool) \<Rightarrow> (parser \<Rightarrow> parse_result) \<Rightarrow> string \<Rightarrow> src \<Rightarrow> nat \<Rightarrow> bool" where
  "reads U End F t e d \<longleftrightarrow> (\<forall>p r. strip U (ps_rest p) = t @ r \<longrightarrow> End r \<longrightarrow> ps_depth p + d \<le> max_parse_depth \<longrightarrow>
     (\<exists>x. F p = Ok x \<and> took U p r e x))"

definition unary_reads :: "unicode \<Rightarrow> (string \<Rightarrow> bool) \<Rightarrow> string \<Rightarrow> src \<Rightarrow> nat \<Rightarrow> bool" where
  "unary_reads U End t e d \<longleftrightarrow> starts t \<and> (\<forall>k \<ge> 2 * length t. reads U End (\<lambda>p. parse_unary k U p) t e d)"

definition or_reads :: "unicode \<Rightarrow> string \<Rightarrow> src \<Rightarrow> nat \<Rightarrow> bool" where
  "or_reads U t e d \<longleftrightarrow> starts t \<and> (\<forall>k \<ge> 2 * length t + 1. reads U formula_end (\<lambda>p. parse_or k U p) t e d)"

lemma readsE:
  assumes "reads U End F t e d" "strip U (ps_rest p) = t @ r" "End r" "ps_depth p + d \<le> max_parse_depth"
  obtains i p' where "F p = Ok (i, p')" "took U p r e (i, p')"
  using assms unfolding reads_def by (metis surj_pair)

lemma unary_readsE:
  assumes "unary_reads U End t e d" "2 * length t \<le> k" "strip U (ps_rest p) = t @ r" "End r" "ps_depth p + d \<le> max_parse_depth"
  obtains i p' where "parse_unary k U p = Ok (i, p')" "took U p r e (i, p')"
  using assms readsE [of U End "\<lambda>p. parse_unary k U p" t e d p r] unfolding unary_reads_def by blast

lemma or_readsE:
  assumes "or_reads U t e d" "2 * length t + 1 \<le> k" "strip U (ps_rest p) = t @ r" "formula_end r"
    "ps_depth p + d \<le> max_parse_depth"
  obtains i p' where "parse_or k U p = Ok (i, p')" "took U p r e (i, p')"
  using assms readsE [of U formula_end "\<lambda>p. parse_or k U p" t e d p r] unfolding or_reads_def by blast

lemma strip_starts: "starts t \<Longrightarrow> strip U (t @ r) = t @ r"
  by (auto simp: starts_def strip_simps)

lemma formula_end_operand: "formula_end r \<Longrightarrow> operand_end r"
  by (auto simp: delimited_def)

lemma operand_end_cases:
  assumes "operand_end r"
  obtains "r = []" | r' where "r = CHR '')'' # r'" | r' where "r = CHR '' '' # CHR ''&'' # CHR ''&'' # CHR '' '' # r'"
    | r' where "r = CHR '' '' # CHR ''|'' # CHR ''|'' # CHR '' '' # r'"
  using assms by (auto simp: delimited_def)

text \<open>An operand is read by the body of \<open>parse_unary\<close> with one more level of depth.\<close>

lemma unary_readsI:
  assumes t: "starts t" and inner: "\<And>k p r. 2 * length t \<le> Suc k \<Longrightarrow> strip U (ps_rest p) = t @ r \<Longrightarrow> End r \<Longrightarrow>
      ps_depth p + d \<le> max_parse_depth \<Longrightarrow>
      \<exists>x. parse_unary_inner k (\<lambda>p. parse_or k U p) (\<lambda>p. parse_unary k U p) U p = Ok x \<and> took U p r e x"
  shows "unary_reads U End t e (Suc d)"
  unfolding unary_reads_def reads_def
proof (intro conjI allI impI)
  fix k r and p :: parser assume k: "2 * length t \<le> k" and p: "strip U (ps_rest p) = t @ r" "End r" "ps_depth p + Suc d \<le> max_parse_depth"
  have "t \<noteq> []" using t by (auto simp: starts_def)
  then obtain k' where k': "k = Suc k'" using k by (cases k) auto
  let ?q = "p\<lparr>ps_depth := Suc (ps_depth p)\<rparr>"
  obtain i q where x: "parse_unary_inner k' (\<lambda>p. parse_or k' U p) (\<lambda>p. parse_unary k' U p) U ?q = Ok (i, q)" "took U ?q r e (i, q)"
    using inner [of k' ?q r] k k' p by fastforce
  then have "took U p r e (i, q\<lparr>ps_depth := ps_depth q - 1\<rparr>)" by (simp add: took_def)
  then show "\<exists>x. parse_unary k U p = Ok x \<and> took U p r e x" using x(1) p(3) k' by (simp add: parse_unary.simps Let_def)
qed (rule t)

declare parse_or.simps [simp del] parse_unary.simps [simp del]

lemmas token_simps = try_consume_not_def try_consume_and_def try_consume_or_def or_else.simps try_char keyword_fails
  bytes_fail lower_byte_def ascii_upper_def

lemma ops_fail:
  assumes "formula_end r" "ps_rest q = r"
  shows "try_consume_and U q = (False, q)" "try_consume_or U q = (False, q)"
  using assms by (auto simp: delimited_def token_simps)

lemma and_fails_or: "ps_rest q = CHR ''|'' # s \<Longrightarrow> try_consume_and U q = (False, q)"
  by (simp add: token_simps)

lemma op_taken:
  "ps_rest q = CHR ''&'' # CHR ''&'' # s \<Longrightarrow> try_consume_and U q = (True, advance 2 q)"
  "ps_rest q = CHR ''|'' # CHR ''|'' # s \<Longrightarrow> try_consume_or U q = (True, advance 2 q)"
  by (simp_all add: token_simps consume_bytes_def starts_with_def numeral_2_eq_2)

lemma took_skip: "took U p r e (i, p') \<Longrightarrow> took U p r e (i, skip_whitespace U p')"
  by (simp add: took_def)

lemma strip_end: "formula_end r \<Longrightarrow> strip U r = r"
  by (auto simp: delimited_def strip_simps ascii_space_def)

lemma loops_stop:
  assumes "strip U (ps_rest p) = r" "formula_end r" "0 < k"
  shows "and_loop k F U i p = Ok (i, skip_whitespace U p)" "or_loop k F U i p = Ok (i, skip_whitespace U p)"
  using assms ops_fail [OF assms(2), of "skip_whitespace U p" U] by (cases k; simp)+

lemma or_reads_one:
  assumes "unary_reads U formula_end t e d"
  shows "or_reads U t e d"
  unfolding or_reads_def reads_def
proof (intro conjI allI impI)
  show st: "starts t" using assms by (simp add: unary_reads_def)
  fix k r and p :: parser
  assume k: "2 * length t + 1 \<le> k" and p: "strip U (ps_rest p) = t @ r" "formula_end r" "ps_depth p + d \<le> max_parse_depth"
  obtain k' where k': "k = Suc k'" "0 < k'" using k st by (cases k) (auto simp: starts_def)
  obtain i q where x: "parse_unary k' U p = Ok (i, q)" "took U p r e (i, q)"
    by (rule unary_readsE [OF assms _ p]) (use k k' in simp)
  have q: "strip U (ps_rest q) = r" "strip U (ps_rest (skip_whitespace U q)) = r"
    using x(2) strip_end [OF p(2)] by (simp_all add: took_def)
  show "\<exists>x. parse_or k U p = Ok x \<and> took U p r e x"
    using x k' loops_stop [OF q(1) p(2) k'(2)] loops_stop [OF q(2) p(2) k'(2)] took_skip [OF took_skip [OF x(2)]]
    by (simp add: parse_or.simps parse_and_def)
qed

lemma took_binary:
  assumes "took U p r1 a (l, p1)" "took U p2 r b (m, p3)" "ps_builder p2 = ps_builder p1" "ps_binders p2 = ps_binders p1"
    "ps_depth p2 = ps_depth p1"
  shows "took U p r (SAnd a b) (ps_push (NAnd l m) p3)" "took U p r (SOr a b) (ps_push (NOr l m) p3)"
proof -
  have "arena_tree (nodes p3) l (fst (elab (ps_binders p) (var_count p) a))"
    using assms arena_tree_prefix by (fastforce simp: took_def)
  moreover have "arena_tree (nodes p3) m (fst (elab (ps_binders p) (snd (elab (ps_binders p) (var_count p) a)) b))"
    using assms by (auto simp: took_def)
  ultimately show "took U p r (SAnd a b) (ps_push (NAnd l m) p3)" "took U p r (SOr a b) (ps_push (NOr l m) p3)"
    using assms arena_push(6,7) prefix_order.trans [of "nodes p" "nodes p1" "nodes p3"]
    by (auto simp: took_def ps_push_eq case_prod_beta prefix_def)
qed

lemma took_push_rest: "took U p r e (ps_push nd q) \<Longrightarrow> strip U (ps_rest q) = strip U r"
  by (simp add: took_def ps_push_eq)

lemma second_operand:
  \<comment> \<open>the operand after an operator\<close>
  assumes "unary_reads U operand_end t b d2" "took U p r1 a (l, p1)" "strip U r1 = o1 # o2 # CHR '' '' # t @ r" "formula_end r"
    "ps_depth p + d2 \<le> max_parse_depth" "2 * length t \<le> k" "strip U (ps_rest q) = strip U (ps_rest p1)"
    "ps_builder q = ps_builder p1" "ps_binders q = ps_binders p1" "ps_depth q = ps_depth p1"
  obtains m p3 where "parse_unary k U (advance 2 (skip_whitespace U q)) = Ok (m, p3)"
    "took U p r (SAnd a b) (ps_push (NAnd l m) p3)" "took U p r (SOr a b) (ps_push (NOr l m) p3)"
proof -
  let ?p2 = "advance 2 (skip_whitespace U q)"
  have r1: "ps_rest (skip_whitespace U q) = o1 # o2 # CHR '' '' # t @ r" using assms(2,3,7) by (simp add: took_def)
  obtain m p3 where 3: "parse_unary k U ?p2 = Ok (m, p3)" "took U ?p2 r b (m, p3)"
  proof (rule unary_readsE [OF assms(1,6), of ?p2 r])
    have "starts t" using assms(1) by (simp add: unary_reads_def)
    then show "strip U (ps_rest ?p2) = t @ r" using r1 strip_starts by (simp add: strip_simps numeral_2_eq_2)
    show "operand_end r" by (rule formula_end_operand [OF assms(4)])
    show "ps_depth ?p2 + d2 \<le> max_parse_depth" using assms(2,5,10) by (simp add: took_def)
  qed
  show ?thesis
    by (rule that [OF 3(1)]) (rule took_binary [OF assms(2) 3(2)]; simp add: assms)+
qed

lemma or_reads_and:
  assumes "unary_reads U operand_end s a d1" "unary_reads U operand_end t b d2"
  shows "or_reads U (s @ '' && '' @ t) (SAnd a b) (max d1 d2)"
  unfolding or_reads_def reads_def
proof (intro conjI allI impI)
  show "starts (s @ '' && '' @ t)" using assms by (auto simp: unary_reads_def starts_def)
  fix k r and p :: parser
  assume k: "2 * length (s @ '' && '' @ t) + 1 \<le> k" and p: "strip U (ps_rest p) = (s @ '' && '' @ t) @ r" "formula_end r"
    "ps_depth p + max d1 d2 \<le> max_parse_depth"
  obtain k' where k': "k = Suc (Suc k')" "0 < k'" using k by (cases k; cases "k - 1") auto
  let ?F = "\<lambda>p. parse_unary (Suc k') U p" and ?r = "'' && '' @ t @ r"
  obtain l p1 where 1: "?F p = Ok (l, p1)" "took U p ?r a (l, p1)"
    by (rule unary_readsE [OF assms(1), of "Suc k'" p ?r]) (use k k' p in \<open>auto simp: delimited_def\<close>)
  have r1: "strip U ?r = CHR ''&'' # CHR ''&'' # CHR '' '' # t @ r" by (simp add: strip_simps ascii_space_def)
  have d2: "ps_depth p + d2 \<le> max_parse_depth" "2 * length t \<le> Suc k'" using p(3) k k' by simp_all
  obtain m p3 where 3: "?F (advance 2 (skip_whitespace U p1)) = Ok (m, p3)" "took U p r (SAnd a b) (ps_push (NAnd l m) p3)"
    by (rule second_operand [OF assms(2) 1(2) r1 p(2) d2, of p1]) simp_all
  obtain i p4 where i: "ps_push (NAnd l m) p3 = (i, p4)" by fastforce
  have y: "took U p r (SAnd a b) (i, p4)" using 3(2) i by simp
  have q: "strip U (ps_rest p4) = r" "strip U (ps_rest (skip_whitespace U p4)) = r"
    using y strip_end [OF p(2)] by (simp_all add: took_def)
  have "ps_rest (skip_whitespace U p1) = CHR ''&'' # CHR ''&'' # CHR '' '' # t @ r" using 1(2) r1 by (simp add: took_def)
  then have "and_loop (Suc k') ?F U l p1 = Ok (i, skip_whitespace U p4)"
    using op_taken(1) 3(1) i loops_stop(1) [OF q(1) p(2) k'(2)] by simp
  then show "\<exists>x. parse_or k U p = Ok x \<and> took U p r (SAnd a b) x"
    using 1(1) k'(1) loops_stop(2) [OF q(2) p(2), of "Suc k'"] took_skip [OF took_skip [OF y]]
    by (simp add: parse_or.simps parse_and_def del: and_loop.simps or_loop.simps)
qed

lemma or_reads_or:
  assumes "unary_reads U operand_end s a d1" "unary_reads U operand_end t b d2"
  shows "or_reads U (s @ '' || '' @ t) (SOr a b) (max d1 d2)"
  unfolding or_reads_def reads_def
proof (intro conjI allI impI)
  show "starts (s @ '' || '' @ t)" using assms by (auto simp: unary_reads_def starts_def)
  fix k r and p :: parser
  assume k: "2 * length (s @ '' || '' @ t) + 1 \<le> k" and p: "strip U (ps_rest p) = (s @ '' || '' @ t) @ r" "formula_end r"
    "ps_depth p + max d1 d2 \<le> max_parse_depth"
  obtain k' where k': "k = Suc (Suc k')" "0 < k'" using k by (cases k; cases "k - 1") auto
  let ?F = "\<lambda>p. parse_unary (Suc k') U p" and ?r = "'' || '' @ t @ r"
  obtain l p1 where 1: "?F p = Ok (l, p1)" "took U p ?r a (l, p1)"
    by (rule unary_readsE [OF assms(1), of "Suc k'" p ?r]) (use k k' p in \<open>auto simp: delimited_def\<close>)
  have r1: "strip U ?r = CHR ''|'' # CHR ''|'' # CHR '' '' # t @ r" by (simp add: strip_simps ascii_space_def)
  have d2: "ps_depth p + d2 \<le> max_parse_depth" "2 * length t \<le> Suc k'" using p(3) k k' by simp_all
  let ?q = "skip_whitespace U p1"
  obtain m p3 where 3: "?F (advance 2 (skip_whitespace U ?q)) = Ok (m, p3)" "took U p r (SOr a b) (ps_push (NOr l m) p3)"
    by (rule second_operand [OF assms(2) 1(2) r1 p(2) d2, of ?q]) simp_all
  have rest: "ps_rest ?q = CHR ''|'' # CHR ''|'' # CHR '' '' # t @ r" "ps_rest (skip_whitespace U ?q) = CHR ''|'' # CHR ''|'' # CHR '' '' # t @ r"
    using 1(2) r1 by (simp_all add: took_def strip_simps ascii_space_def)
  have first: "parse_and (Suc k') ?F U p = Ok (l, ?q)" using 1(1) and_fails_or [OF rest(1)] by (simp add: parse_and_def)
  let ?x = "skip_whitespace U p3"
  have x: "strip U (ps_rest p3) = r" using took_push_rest [OF 3(2)] strip_end [OF p(2)] by simp
  have second: "parse_and (Suc k') ?F U (advance 2 (skip_whitespace U ?q)) = Ok (m, ?x)"
    using 3(1) loops_stop(1) [OF x p(2), of "Suc k'"] by (simp add: parse_and_def del: and_loop.simps)
  obtain i p4 where i: "ps_push (NOr l m) ?x = (i, p4)" by fastforce
  have y: "took U p r (SOr a b) (i, p4)" using 3(2) i by (auto simp: took_def ps_push_eq)
  have q: "strip U (ps_rest p4) = r" using y strip_end [OF p(2)] by (simp add: took_def)
  have "or_loop (Suc k') (parse_and (Suc k') ?F U) U l ?q = Ok (i, skip_whitespace U p4)"
    using op_taken(2) [OF rest(2), of U] second i loops_stop(2) [OF q p(2) k'(2)] by simp
  then show "\<exists>x. parse_or k U p = Ok x \<and> took U p r (SOr a b) x"
    using first k'(1) took_skip [OF y] by (simp add: parse_or.simps del: and_loop.simps or_loop.simps)
qed

subsection \<open>Operands\<close>

lemma no_fixpoint:
  assumes "ps_rest p = b # s" "ascii b" "\<not> ascii_space b" "lower_byte b \<noteq> CHR ''m''" "lower_byte b \<noteq> CHR ''n''"
  shows "try_consume_fixpoint F U p = Ok (None, skip_whitespace U p)"
    "b \<noteq> CHR ''!'' \<Longrightarrow> try_consume_not U p = (False, p)"
proof -
  have "ps_rest (skip_whitespace U p) = b # s" using assms(1-3) by (simp add: strip_simps)
  then show "try_consume_fixpoint F U p = Ok (None, skip_whitespace U p)"
    using assms(2,4,5) by (simp add: try_consume_fixpoint_def or_else.simps try_char keyword_fails)
  show "b \<noteq> CHR ''!'' \<Longrightarrow> try_consume_not U p = (False, p)"
    using assms by (simp add: try_consume_not_def or_else.simps try_char keyword_fails)
qed

lemma no_modal:
  assumes "ps_rest p = b # s" "ascii b" "\<not> ascii_space b" "b \<noteq> CHR ''[''" "b \<noteq> CHR ''<''"
  shows "try_consume_modal k F U p = Ok (None, skip_whitespace U p)"
proof -
  have "ps_rest (skip_whitespace U p) = b # s" using assms(1-3) by (simp add: strip_simps)
  then show ?thesis using assms(2,4,5) by (simp add: try_consume_modal_def try_char)
qed

lemma took_from:
  "took U q r e x \<Longrightarrow> ps_builder q = ps_builder p \<Longrightarrow> ps_binders q = ps_binders p \<Longrightarrow> ps_depth q = ps_depth p \<Longrightarrow> took U p r e x"
  by (simp add: took_def case_prod_beta)

lemma unary_reads_paren:
  assumes "or_reads U t e d"
  shows "unary_reads U End (''('' @ t @ '')'') e (Suc d)"
proof (rule unary_readsI)
  fix k r and p :: parser
  assume k: "2 * length (''('' @ t @ '')'') \<le> Suc k" and p: "strip U (ps_rest p) = (''('' @ t @ '')'') @ r" "ps_depth p + d \<le> max_parse_depth"
  let ?s = "skip_whitespace U"
  have rest: "ps_rest (?s p) = CHR ''('' # t @ '')'' @ r" using p(1) by simp
  have deep: "ps_rest (?s (?s p)) = CHR ''('' # t @ '')'' @ r" "ps_rest (?s (?s (?s p))) = CHR ''('' # t @ '')'' @ r"
    "ps_rest (?s (?s (?s (?s p)))) = CHR ''('' # t @ '')'' @ r" using rest by (simp_all add: strip_simps ascii_space_def)
  let ?q = "advance 1 (?s (?s (?s (?s p))))"
  have st: "starts t" using assms by (simp add: or_reads_def)
  obtain i p1 where 1: "parse_or k U ?q = Ok (i, p1)" "took U ?q ('')'' @ r) e (i, p1)"
    by (rule or_readsE [OF assms, of k ?q "'')'' @ r"]) (use k p deep strip_starts [OF st, of U] in \<open>auto simp: delimited_def\<close>)
  let ?p2 = "advance 1 (?s (?s p1))"
  have e: "expect_char U '')'' (?s p1) = Ok ?p2"
    using 1(2) by (simp add: took_def expect_char_def strip_simps ascii_space_def try_char(1) [of _ "CHR '')''" r])
  have y: "took U p r e (i, ?p2)"
    using 1(2) by (simp add: took_def strip_simps ascii_space_def)
  have "parse_primary (\<lambda>p. parse_or k U p) U (?s (?s (?s p))) = Ok (i, ?p2)"
    using 1(1) e try_char(1) [OF deep(3)] by (simp add: parse_primary_def)
  then show "\<exists>x. parse_unary_inner k (\<lambda>p. parse_or k U p) (\<lambda>p. parse_unary k U p) U p = Ok x \<and> took U p r e x"
    using y rest deep no_fixpoint [OF rest] no_modal [OF deep(1)]
    by (simp add: parse_unary_inner_def lower_byte_def ascii_upper_def ascii_space_def)
qed (simp add: starts_def ascii_space_def)

lemma took_unary:
  assumes "took U q r e (i, p1)" "ps_builder q = ps_builder p" "ps_binders q = ps_binders p" "ps_depth q = ps_depth p"
  shows "took U p r (SNot e) (ps_push (NNot i) p1)" "took U p r (SModal k g e) (ps_push (NModal k g i) p1)"
  using assms arena_push(5,8) by (auto simp: took_def ps_push_eq case_prod_beta prefix_def)

lemma unary_reads_not:
  assumes "unary_reads U End t e d"
  shows "unary_reads U End (''!'' @ t) (SNot e) (Suc d)"
proof (rule unary_readsI)
  fix k r and p :: parser
  assume k: "2 * length (''!'' @ t) \<le> Suc k" and p: "strip U (ps_rest p) = (''!'' @ t) @ r" "End r" "ps_depth p + d \<le> max_parse_depth"
  let ?q = "advance 1 (skip_whitespace U p)"
  have st: "starts t" using assms by (simp add: unary_reads_def)
  have rest: "ps_rest (skip_whitespace U p) = CHR ''!'' # t @ r" using p(1) by simp
  obtain i p1 where 1: "parse_unary k U ?q = Ok (i, p1)" "took U ?q r e (i, p1)"
    by (rule unary_readsE [OF assms, of k ?q r]) (use k p strip_starts [OF st] in simp_all)
  have "try_consume_not U (skip_whitespace U p) = (True, ?q)"
    using rest by (simp add: try_consume_not_def or_else.simps try_char)
  then show "\<exists>x. parse_unary_inner k (\<lambda>p. parse_or k U p) (\<lambda>p. parse_unary k U p) U p = Ok x \<and> took U p r (SNot e) x"
    using 1(1) took_unary(1) [OF 1(2), of p] by (simp add: parse_unary_inner_def)
qed (simp add: starts_def ascii_space_def)

subsection \<open>Names and keywords\<close>

definition plain_name :: "string \<Rightarrow> bool" where
  "plain_name x \<longleftrightarrow> x \<noteq> [] \<and> (ascii_alpha (hd x) \<or> hd x = CHR ''_'' \<or> hd x = CHR ''$'') \<and> list_all ident_char x"

definition stops :: "string \<Rightarrow> bool" where
  \<comment> \<open>no character of a name follows\<close>
  "stops r \<longleftrightarrow> r = [] \<or> (\<exists>c r'. r = c # r' \<and> ascii c \<and> \<not> ident_char c \<and> (c = CHR ''.'' \<longrightarrow> (\<exists>s. r' = CHR '' '' # s)))"

lemma ident_char_ascii: "ident_char b \<Longrightarrow> ascii b"
  by (auto simp: ident_char_def ascii_alpha_def ascii_digit_def ascii_upper_def)

lemma ident_char_space: "ident_char b \<Longrightarrow> \<not> ascii_space b"
  by (auto simp: ident_char_def ascii_alpha_def ascii_digit_def ascii_upper_def ascii_space_def)

lemma lower_ident: "ident_char (lower_byte b) \<longleftrightarrow> ident_char b"
proof (cases "ascii_upper b")
  case True
  then have "(of_char (lower_byte b) :: nat) = byte b + 32" by (simp add: lower_byte_def ascii_upper_def)
  then have "ascii_alpha (lower_byte b)" using True by (simp add: ascii_alpha_def ascii_upper_def)
  then show ?thesis using True by (simp add: ident_char_def ascii_alpha_def)
qed (simp add: lower_byte_def)

lemma not_ident_char: "\<not> ident_char CHR '' ''" "\<not> ident_char CHR '')''" "\<not> ident_char CHR ''.''"
  by (simp_all add: ident_char_def ascii_alpha_def ascii_digit_def ascii_upper_def)

lemma operand_stops:
  assumes "operand_end r"
  shows "stops r"
  by (rule operand_end_cases [OF assms]) (simp_all add: stops_def not_ident_char)

lemma ident_tail_plain: "list_all ident_char s \<Longrightarrow> stops r \<Longrightarrow> ident_tail_len U (s @ r) = length s"
proof (induction s)
  case Nil
  consider "r = []" | c r' where "r = c # r'" "ascii c" "\<not> ident_char c" "c \<noteq> CHR ''.''" | r' where "r = CHR ''.'' # CHR '' '' # r'"
    using Nil(2) by (auto simp: stops_def)
  then show ?case by cases (simp_all add: ident_tail_len.simps [of U "_ # _"] ident_tail_len.simps [of U "[]"] not_ident_char)
next
  case (Cons b s)
  then show ?case using ident_char_ascii [of b] by (simp add: ident_tail_len.simps [of U "b # s @ r"])
qed

lemma name_read:
  assumes "plain_name x" "strip U (ps_rest p) = x @ r" "stops r"
  shows "parse_identifier U p = (Some x, advance (length x) (skip_whitespace U p))"
proof -
  obtain b s where x: "x = b # s" using assms(1) by (cases x) (auto simp: plain_name_def)
  then show ?thesis
    using assms ident_tail_plain [of s r U] ident_char_ascii [of b]
    by (simp add: parse_identifier_def plain_name_def Let_def)
qed

lemma keyword_name:
  assumes "ps_rest p = x @ r" "plain_name x" "stops r" "list_all ident_char kw"
  shows "consume_keyword U kw p = (if to_ascii_lowercase x = kw then (True, advance (length kw) p) else (False, p))"
proof -
  have all: "\<And>i. i < length x \<Longrightarrow> ident_char (x ! i)" using assms(2) by (simp add: plain_name_def list_all_length)
  consider "length kw < length x" | "length kw = length x" | "length x < length kw" by linarith
  then show ?thesis
  proof cases
    case 1
    then have "drop (length kw) (x @ r) = x ! length kw # drop (Suc (length kw)) x @ r" by (simp add: Cons_nth_drop_Suc [symmetric])
    moreover have "to_ascii_lowercase x \<noteq> kw" using 1 by (auto simp: to_ascii_lowercase_def)
    ultimately show ?thesis using all [OF 1] ident_char_ascii [OF all [OF 1]] assms(1) by (simp add: consume_keyword_def)
  next
    case 2
    then show ?thesis using assms(1,3)
      by (auto simp: consume_keyword_def starts_with_def to_ascii_lowercase_def stops_def)
  next
    case 3
    have "\<not> starts_with (to_ascii_lowercase (x @ r)) kw"
    proof
      assume a: "starts_with (to_ascii_lowercase (x @ r)) kw"
      then have "length kw \<le> length (x @ r)" using starts_with_length [of "to_ascii_lowercase (x @ r)" kw] by (simp add: to_ascii_lowercase_def)
      then obtain c r' where r: "r = c # r'" "\<not> ident_char c" using 3 assms(3) by (auto simp: stops_def)
      have "kw ! length x = take (length kw) (to_ascii_lowercase (x @ r)) ! length x" using a by (simp add: starts_with_def)
      also have "\<dots> = lower_byte c" using 3 r(1) by (simp add: to_ascii_lowercase_def nth_append)
      finally show False using r(2) assms(4) 3 lower_ident [of c] by (metis list_all_length)
    qed
    then show ?thesis using 3 assms(1) by (auto simp: consume_keyword_def to_ascii_lowercase_def)
  qed
qed

lemma advance_0 [simp]: "advance 0 p = p"
  by (simp add: advance_def)

lemma skip_skip: "skip_whitespace U (skip_whitespace U p) = skip_whitespace U p"
  by (simp add: skip_whitespace_def [of U "skip_whitespace U p"]) (simp add: strip_def span_len_drop)

lemma keyword_letters: "list_all ident_char ''mu''" "list_all ident_char ''nu''" "list_all ident_char ''not''"
  "list_all ident_char ''true''" "list_all ident_char ''false''"
  by (simp_all add: ident_char_def ascii_alpha_def ascii_upper_def)

lemma plain_name_parts:
  assumes "plain_name x"
  obtains b s where "x = b # s" "ascii b" "\<not> ascii_space b" "b \<notin> {CHR ''!'', CHR ''['', CHR ''<'', CHR ''(''}"
proof -
  obtain b s where "x = b # s" "ident_char b" using assms by (cases x) (auto simp: plain_name_def)
  moreover from this have "b \<notin> {CHR ''!'', CHR ''['', CHR ''<'', CHR ''(''}"
    by (auto simp: ident_char_def ascii_alpha_def ascii_digit_def ascii_upper_def)
  ultimately show ?thesis using that ident_char_ascii ident_char_space by blast
qed

lemma plain_name_starts: "plain_name x \<Longrightarrow> starts (x @ r)"
  by (erule plain_name_parts) (auto simp: starts_def)

lemma strip_name: "plain_name x \<Longrightarrow> strip U (x @ r) = x @ r"
  using strip_starts [of x U r] plain_name_starts [of x "[]"] by simp

text \<open>A name reaches \<open>parse_atom\<close>, unless it is the keyword of a negation or a fixpoint.\<close>

lemma name_reaches_atom:
  assumes p: "strip U (ps_rest p) = x @ r" and x: "plain_name x" "stops r" "to_ascii_lowercase x \<notin> {''not'', ''mu'', ''nu''}"
  shows "parse_unary_inner k F G U p = parse_atom U (skip_whitespace U p)"
proof -
  let ?q = "skip_whitespace U p"
  obtain b s where b: "x = b # s" "ascii b" "\<not> ascii_space b" "b \<notin> {CHR ''!'', CHR ''['', CHR ''<'', CHR ''(''}"
    using plain_name_parts [OF x(1)] by blast
  have rest: "ps_rest ?q = x @ r" using p by simp
  have kw: "consume_keyword U ''not'' ?q = (False, ?q)" "consume_keyword U ''mu'' ?q = (False, ?q)" "consume_keyword U ''nu'' ?q = (False, ?q)"
    using keyword_name [OF rest x(1,2)] keyword_letters x(3) by auto
  have ch: "try_consume_char ch ?q = (False, ?q)" if "ch \<noteq> [b]" for ch
    using try_char(1) [of ?q b "s @ r" ch] rest b that by simp
  have "try_consume_not U ?q = (False, ?q)" using kw(1) b(4) by (auto simp: try_consume_not_def or_else.simps ch)
  moreover have "try_consume_fixpoint F U ?q = Ok (None, ?q)" using kw by (simp add: try_consume_fixpoint_def skip_skip or_else.simps ch)
  moreover have "try_consume_modal k G U ?q = Ok (None, ?q)" using b(4) by (auto simp: try_consume_modal_def skip_skip ch)
  moreover have "parse_primary F U ?q = parse_atom U ?q" using b(4) by (auto simp: parse_primary_def skip_skip ch)
  ultimately show ?thesis by (simp add: parse_unary_inner_def)
qed

subsection \<open>Atoms, modalities and fixpoints\<close>

lemma took_leaf:
  assumes "strip U (ps_rest q) = strip U r" "ps_builder q = ps_builder p" "ps_binders q = ps_binders p" "ps_depth q = ps_depth p"
    "elab (ps_binders p) (var_count p) e = (t, var_count p)" "arena_tree (nodes p @ [nd]) (length (nodes p)) t"
  shows "took U p r e (ps_push nd q)"
  using assms by (simp add: took_def ps_push_eq)

definition reserved :: "string list" where
  "reserved = [''not'', ''mu'', ''nu'', ''true'', ''false'']"

definition atom_name :: "string \<Rightarrow> bool" where
  "atom_name x \<longleftrightarrow> plain_name x \<and> to_ascii_lowercase x \<notin> set reserved"

lemma atom_not_compared:
  assumes "operand_end r" "ps_rest q = strip U r"
  shows "try_consume_comparison_op q = (None, q)"
  by (rule operand_end_cases [OF assms(1)])
    (use assms(2) in \<open>simp_all add: try_consume_comparison_op_def peek_char_def strip_simps ascii_space_def take_Suc split: list.split\<close>)

lemma unary_reads_name:
  assumes "atom_name x"
  shows "unary_reads U operand_end x (SIdent x) (Suc 0)"
proof (rule unary_readsI)
  have x: "plain_name x" "to_ascii_lowercase x \<notin> {''not'', ''mu'', ''nu''}" "to_ascii_lowercase x \<notin> {''true'', ''false''}"
    using assms by (auto simp: atom_name_def reserved_def)
  show "starts x" using plain_name_starts [OF x(1), of "[]"] by simp
  fix k r and p :: parser
  assume p: "strip U (ps_rest p) = x @ r" "operand_end r" "ps_depth p + 0 \<le> max_parse_depth"
  have st: "stops r" using p(2) by (rule operand_stops)
  let ?q = "skip_whitespace U p" and ?q' = "advance (length x) (skip_whitespace U p)"
  have kw: "consume_keyword U ''true'' ?q = (False, ?q)" "consume_keyword U ''false'' ?q = (False, ?q)"
    using keyword_name [of ?q x r] p(1) x(1,3) st keyword_letters by auto
  have id: "parse_identifier U ?q = (Some x, ?q')" using name_read [OF x(1), of U ?q r] p(1) st strip_name [OF x(1)] by (simp add: skip_skip)
  have rest: "ps_rest ?q' = r" using p(1) by simp
  have leaf: "took U p r (SIdent x) (ps_push nd q)"
    if "q \<in> {?q', skip_whitespace U ?q'}" "elab (ps_binders p) (var_count p) (SIdent x) = (t, var_count p)"
      "arena_tree (nodes p @ [nd]) (length (nodes p)) t" for t nd q
    by (rule took_leaf [OF _ _ _ _ that(2,3)]) (use that(1) rest in auto)
  have "\<exists>y. parse_atom U ?q = Ok y \<and> took U p r (SIdent x) y"
  proof (cases "map_of (ps_binders p) x")
    case None
    have "try_consume_comparison_op (skip_whitespace U ?q') = (None, skip_whitespace U ?q')"
      using atom_not_compared [OF p(2), of "skip_whitespace U ?q'" U] rest by simp
    then have "parse_atom U ?q = Ok (ps_push (NPredicate x) (skip_whitespace U ?q'))"
      using kw id None by (simp add: parse_atom_def parse_comparison_def)
    moreover have "took U p r (SIdent x) (ps_push (NPredicate x) (skip_whitespace U ?q'))"
      by (rule leaf [of _ "FPred x"]) (use None arena_push(3) in simp_all)
    ultimately show ?thesis by blast
  next
    case (Some v)
    then have "parse_atom U ?q = Ok (ps_push (NVariable v) ?q')" using kw id by (simp add: parse_atom_def)
    moreover have "took U p r (SIdent x) (ps_push (NVariable v) ?q')"
      by (rule leaf [of _ "FVar v"]) (use Some arena_push(4) in simp_all)
    ultimately show ?thesis by blast
  qed
  then show "\<exists>y. parse_unary_inner k (\<lambda>p. parse_or k U p) (\<lambda>p. parse_unary k U p) U p = Ok y \<and> took U p r (SIdent x) y"
    by (simp add: name_reaches_atom [OF p(1) x(1) st x(2)])
qed

lemma plain_keywords: "plain_name ''true''" "plain_name ''false''" "plain_name ''mu''" "plain_name ''nu''"
  by (simp_all add: plain_name_def keyword_letters ident_char_def ascii_alpha_def ascii_upper_def)

lemma lower_keywords: "to_ascii_lowercase ''true'' = ''true''" "to_ascii_lowercase ''false'' = ''false''"
  "to_ascii_lowercase ''mu'' = ''mu''" "to_ascii_lowercase ''nu'' = ''nu''"
  by (simp_all add: to_ascii_lowercase_def lower_byte_def ascii_upper_def)

lemma unary_reads_constant:
  shows "unary_reads U operand_end ''true'' STrue (Suc 0)" "unary_reads U operand_end ''false'' SFalse (Suc 0)"
proof -
  have const: "unary_reads U operand_end x e (Suc 0)"
    if x: "plain_name x" "x \<in> {''true'', ''false''}" "to_ascii_lowercase x = x"
      and atom: "\<And>q. consume_keyword U ''true'' q = (x = ''true'', if x = ''true'' then advance (length x) q else q) \<Longrightarrow>
         consume_keyword U ''false'' q = (x = ''false'', if x = ''false'' then advance (length x) q else q) \<Longrightarrow>
         parse_atom U q = Ok (ps_push nd (advance (length x) q))"
      and t: "\<And>\<Gamma> n. elab \<Gamma> n e = (t, n)" "\<And>ns. arena_tree (ns @ [nd]) (length ns) t" for x e nd t
  proof (rule unary_readsI)
    show "starts x" using plain_name_starts [OF x(1), of "[]"] by simp
    fix k r and p :: parser
    assume p: "strip U (ps_rest p) = x @ r" "operand_end r"
    have st: "stops r" using p(2) by (rule operand_stops)
    let ?q = "skip_whitespace U p"
    have "parse_unary_inner k (\<lambda>p. parse_or k U p) (\<lambda>p. parse_unary k U p) U p = parse_atom U ?q"
      using name_reaches_atom [OF p(1) x(1) st] x(2,3) by auto
    moreover have "parse_atom U ?q = Ok (ps_push nd (advance (length x) ?q))"
      using atom [of ?q] keyword_name [of ?q x r, OF _ x(1) st] p(1) x(2,3) keyword_letters(4,5) by auto
    moreover have "took U p r e (ps_push nd (advance (length x) ?q))"
      by (rule took_leaf [OF _ _ _ _ t]) (use p(1) in simp_all)
    ultimately show "\<exists>y. parse_unary_inner k (\<lambda>p. parse_or k U p) (\<lambda>p. parse_unary k U p) U p = Ok y \<and> took U p r e y" by simp
  qed
  show "unary_reads U operand_end ''true'' STrue (Suc 0)"
    by (rule const [of _ NTrue _ FTrue]) (use plain_keywords lower_keywords arena_push(1) in \<open>auto simp: parse_atom_def\<close>)
  show "unary_reads U operand_end ''false'' SFalse (Suc 0)"
    by (rule const [of _ NFalse _ FFalse]) (use plain_keywords lower_keywords arena_push(2) in \<open>auto simp: parse_atom_def\<close>)
qed

lemma modality_reads:
  assumes "unary_reads U End t e d" "strip U (ps_rest p) = c # CHR '' '' # t @ r" "ascii c" "End r"
    "ps_depth p + d \<le> max_parse_depth" "2 * length t \<le> k"
  obtains i q where "parse_modality k' (\<lambda>p. parse_unary k U p) U kind [c] p = Ok (Some i, q)" "took U p r (SModal kind guard_default e) (i, q)"
proof -
  let ?s = "skip_whitespace U p"
  let ?q = "advance 1 ?s"
  have st: "starts t" using assms(1) by (simp add: unary_reads_def)
  have g: "parse_guard k' U [c] p = Ok (guard_default, ?q)"
    using try_char(1) [of ?s c "CHR '' '' # t @ r" "[c]"] assms(2,3) by (simp add: parse_guard_def)
  have rest: "strip U (ps_rest ?q) = t @ r" using assms(2) strip_starts [OF st] by (simp add: strip_simps)
  obtain i p1 where 1: "parse_unary k U ?q = Ok (i, p1)" "took U ?q r e (i, p1)"
    by (rule unary_readsE [OF assms(1,6) rest assms(4)]) (use assms(5) in simp)
  obtain j q where j: "ps_push (NModal kind guard_default i) p1 = (j, q)" by fastforce
  show ?thesis
    by (rule that [of j q])
      (use g 1(1) j took_unary(2) [OF 1(2), of p kind guard_default] in \<open>simp_all add: parse_modality_def\<close>)
qed

lemma unary_reads_modal:
  assumes "unary_reads U End t e d" and m_in: "(kind, m) \<in> {(Box, ''[] ''), (Diamond, ''<> ''), (Diamond, ''< > '')}"
  shows "unary_reads U End (m @ t) (SModal kind guard_default e) (Suc d)"
proof (rule unary_readsI)
  show "starts (m @ t)" using m_in by (auto simp: starts_def ascii_space_def)
  fix k r and p :: parser
  assume k: "2 * length (m @ t) \<le> Suc k" and p: "strip U (ps_rest p) = (m @ t) @ r" "End r" "ps_depth p + d \<le> max_parse_depth"
  obtain b c m' where m: "m = b # m'" "(b, c, kind) \<in> {(CHR ''['', CHR '']'', Box), (CHR ''<'', CHR ''>'', Diamond)}"
      "strip U (m' @ t @ r) = c # CHR '' '' # t @ r"
    using m_in by (auto simp: strip_simps ascii_space_def)
  let ?q = "skip_whitespace U p"
  let ?q' = "advance 1 ?q"
  have rest: "ps_rest ?q = b # m' @ t @ r" using p(1) m(1) by simp
  have b: "ascii b" "\<not> ascii_space b" "lower_byte b \<notin> {CHR ''m'', CHR ''n''}" "b \<noteq> CHR ''!''" "ascii c"
    using m(2) by (auto simp: lower_byte_def ascii_upper_def ascii_space_def)
  have none: "try_consume_fixpoint F U ?q = Ok (None, ?q)" "try_consume_not U ?q = (False, ?q)" for F
    using no_fixpoint [OF rest b(1,2)] b(3,4) by (auto simp: skip_skip)
  obtain i q where i: "parse_modality k (\<lambda>p. parse_unary k U p) U kind [c] ?q' = Ok (Some i, q)"
      "took U ?q' r (SModal kind guard_default e) (i, q)"
    by (rule modality_reads [OF assms(1) _ b(5) p(2), of ?q' k k kind]) (use rest m(1,3) k p(3) in simp_all)
  have "try_consume_char ch ?q = (if ch = [b] then (True, ?q') else (False, ?q))" for ch by (rule try_char(1) [OF rest b(1)])
  then have "try_consume_modal k (\<lambda>p. parse_unary k U p) U ?q = Ok (Some i, q)"
    using m(2) i(1) by (auto simp: try_consume_modal_def skip_skip)
  then have "parse_unary_inner k (\<lambda>p. parse_or k U p) (\<lambda>p. parse_unary k U p) U p = Ok (i, q)"
    using none by (simp add: parse_unary_inner_def)
  then show "\<exists>x. parse_unary_inner k (\<lambda>p. parse_or k U p) (\<lambda>p. parse_unary k U p) U p = Ok x \<and> took U p r (SModal kind guard_default e) x"
    using took_from [OF i(2), of p] by simp
qed

lemma binder_read:
  assumes "plain_name x" "strip U (ps_rest p) = x @ ''. '' @ s"
  obtains q where "parse_binder U p = Ok (var_count p, q)" "ps_rest q = CHR '' '' # s" "ps_binders q = (x, var_count p) # ps_binders p"
    "nodes q = nodes p" "var_count q = Suc (var_count p)" "ps_depth q = ps_depth p"
proof -
  let ?q = "advance (length x) (skip_whitespace U p)"
  have st: "stops (''. '' @ s)" by (simp add: stops_def not_ident_char)
  have id: "parse_identifier U (skip_whitespace U p) = (Some x, ?q)"
    using name_read [OF assms(1), of U "skip_whitespace U p" "''. '' @ s"] assms(2) st strip_name [OF assms(1)] by (simp add: skip_skip)
  have rest: "ps_rest (skip_whitespace U ?q) = CHR ''.'' # CHR '' '' # s" using assms(2) by (simp add: strip_simps ascii_space_def)
  have "expect_char U ''.'' (skip_whitespace U ?q) = Ok (advance 1 (skip_whitespace U ?q))"
    using try_char(1) [OF rest, of "''.''"] by (simp add: expect_char_def skip_skip)
  then show ?thesis using that id rest by (simp add: parse_binder_def push_var_def)
qed

lemma fixpoint_keyword:
  assumes "ps_rest p = kw @ CHR '' '' # s" "(kw, other) \<in> {(''mu'', ''nu''), (''nu'', ''mu'')}"
  shows "consume_keyword U kw p = (True, advance 2 p)" "consume_keyword U other p = (False, p)" "try_consume_char [CHR 0xCE, c] p = (False, p)"
    "try_consume_not U p = (False, p)"
proof -
  have st: "stops (CHR '' '' # s)" by (simp add: stops_def not_ident_char)
  have kw: "plain_name kw" "to_ascii_lowercase kw = kw" "kw \<noteq> other" "list_all ident_char other" "list_all ident_char kw" "length kw = 2"
    using assms(2) plain_keywords lower_keywords keyword_letters by auto
  note key = keyword_name [OF assms(1) kw(1) st]
  show "consume_keyword U kw p = (True, advance 2 p)" "consume_keyword U other p = (False, p)"
    using key [OF kw(5)] key [OF kw(4)] kw by auto
  obtain b s' where b: "ps_rest p = b # s'" "b \<in> {CHR ''m'', CHR ''n''}" using assms by auto
  then have "ascii b" by auto
  note ch = try_char(1) [OF b(1) this]
  show "try_consume_char [CHR 0xCE, c] p = (False, p)" by (simp add: ch)
  show "try_consume_not U p = (False, p)"
    using b(2) key [OF keyword_letters(3)] assms(2) kw(2) by (auto simp: try_consume_not_def or_else.simps ch)
qed

lemma took_fixpoint:
  assumes "took U q r e (i, p1)" "ps_binders q = (x, var_count p) # ps_binders p" "nodes q = nodes p"
    "var_count q = Suc (var_count p)" "ps_depth q = ps_depth p"
  shows "took U p r (SMu x e) (ps_push (NMu (var_count p) i) (pop_binder p1))" "took U p r (SNu x e) (ps_push (NNu (var_count p) i) (pop_binder p1))"
  using assms arena_push(9,10) by (auto simp: took_def ps_push_eq case_prod_beta prefix_def pop_binder_def)

lemma unary_reads_fixpoint:
  assumes "or_reads U t e d" "plain_name x" and m_in: "(kw, f) \<in> {(''mu'', SMu x e), (''nu'', SNu x e)}"
  shows "unary_reads U formula_end (kw @ '' '' @ x @ ''. '' @ t) f (Suc d)"
proof (rule unary_readsI)
  let ?t = "kw @ '' '' @ x @ ''. '' @ t"
  show "starts ?t" using m_in by (auto simp: starts_def ascii_space_def)
  fix k r and p :: parser
  assume k: "2 * length ?t \<le> Suc k" and p: "strip U (ps_rest p) = ?t @ r" "formula_end r" "ps_depth p + d \<le> max_parse_depth"
  let ?s = "skip_whitespace U p"
  have rest: "ps_rest ?s = kw @ CHR '' '' # x @ ''. '' @ t @ r" using p(1) by simp
  have kw: "(kw, if kw = ''mu'' then ''nu'' else ''mu'') \<in> {(''mu'', ''nu''), (''nu'', ''mu'')}" "length kw = 2" using m_in by auto
  note key = fixpoint_keyword [OF rest kw(1)]
  have "strip U (ps_rest (advance 2 ?s)) = x @ ''. '' @ t @ r" using rest kw(2) strip_name [OF assms(2)] by (simp add: strip_simps)
  then obtain q where q: "parse_binder U (advance 2 ?s) = Ok (var_count p, q)" "ps_rest q = CHR '' '' # t @ r"
      "ps_binders q = (x, var_count p) # ps_binders p" "nodes q = nodes p" "var_count q = Suc (var_count p)" "ps_depth q = ps_depth p"
    by (rule binder_read [OF assms(2)]) simp
  have st: "starts t" using assms(1) by (simp add: or_reads_def)
  obtain i p1 where 1: "parse_or k U q = Ok (i, p1)" "took U q r e (i, p1)"
    by (rule or_readsE [OF assms(1), of k q r]) (use k p q kw(2) strip_starts [OF st] in \<open>simp_all add: strip_simps\<close>)
  note y = took_fixpoint [OF 1(2) q(3-6)]
  let ?fix = "try_consume_fixpoint (\<lambda>p. parse_or k U p) U ?s"
  obtain j z where j: "?fix = Ok (Some j, z)" "took U p r f (j, z)"
  proof (cases "kw = ''mu''")
    case True
    obtain j z where j: "ps_push (NMu (var_count p) i) (pop_binder p1) = (j, z)" by fastforce
    show ?thesis
      by (rule that [of j z]) (use True key m_in q(1) 1(1) j y in \<open>simp_all add: try_consume_fixpoint_def skip_skip or_else.simps\<close>)
  next
    case False
    obtain j z where j: "ps_push (NNu (var_count p) i) (pop_binder p1) = (j, z)" by fastforce
    show ?thesis
      by (rule that [of j z]) (use False key m_in q(1) 1(1) j y in \<open>auto simp: try_consume_fixpoint_def skip_skip or_else.simps\<close>)
  qed
  then show "\<exists>x. parse_unary_inner k (\<lambda>p. parse_or k U p) (\<lambda>p. parse_unary k U p) U p = Ok x \<and> took U p r f x"
    using key(4) by (simp add: parse_unary_inner_def)
qed

subsection \<open>A whole text\<close>

lemma unary_reads_weaken:
  assumes "unary_reads U End t e d" "d \<le> d'" "\<And>r. End' r \<Longrightarrow> End r"
  shows "unary_reads U End' t e d'"
  using assms by (simp add: unary_reads_def reads_def)

lemma parse_text:
  assumes "or_reads U t e d" "d \<le> max_parse_depth" "2 * length t + 1 \<le> k"
  obtains f where "parse k U t = Ok f" "arena_tree (f_nodes f) (f_root f) (fst (elab [] 0 e))"
proof -
  have st: "starts t" using assms(1) by (simp add: or_reads_def)
  let ?p = "parser_new t"
  obtain i q where 1: "parse_or k U ?p = Ok (i, q)" "took U ?p [] e (i, q)"
    by (rule or_readsE [OF assms(1,3), of ?p "[]"])
      (use strip_starts [OF st, of U "[]"] assms(2) in \<open>simp_all add: parser_new_def delimited_def\<close>)
  have "is_eof (skip_whitespace U q)" using 1(2) by (simp add: took_def is_eof_def strip_simps)
  then have "parse k U t = Ok (into_formula (ps_builder q) i)" using 1(1) by (simp add: parse_def)
  moreover have "arena_tree (nodes q) i (fst (elab [] 0 e))" using 1(2) by (simp add: took_def parser_new_def formula_builder_default_def)
  ultimately show ?thesis using that by (simp add: into_formula_def)
qed

end
