(* ===== verification/Text_Meaning.thy ===== *)
theory Text_Meaning
  imports Text_Reading Preservation
begin

section \<open>What a text evaluates to\<close>

text \<open>
  Connects a text to the bits the evaluator returns for it: a text that is read as a formula over names
  parses, and evaluation of the parsed formula returns the meaning \<open>ssem\<close> of the formula over names.
  Evaluation needs positive formulas with plain guards; \<open>neg_closed\<close> and \<open>plain_src\<close> are the conditions
  on the formula over names. No code.
\<close>

primrec fidents :: "src \<Rightarrow> string set" where
  "fidents STrue = {}"
| "fidents SFalse = {}"
| "fidents (SIdent x) = {x}"
| "fidents (SNot a) = fidents a"
| "fidents (SAnd a b) = fidents a \<union> fidents b"
| "fidents (SOr a b) = fidents a \<union> fidents b"
| "fidents (SModal k g a) = fidents a"
| "fidents (SMu x a) = fidents a - {x}"
| "fidents (SNu x a) = fidents a - {x}"

primrec neg_closed :: "string set \<Rightarrow> src \<Rightarrow> bool" where
  \<comment> \<open>binders are in \<open>B\<close>, and negated formulas have no free name in \<open>B\<close>\<close>
  "neg_closed B STrue = True"
| "neg_closed B SFalse = True"
| "neg_closed B (SIdent x) = True"
| "neg_closed B (SNot a) = (neg_closed B a \<and> fidents a \<inter> B = {})"
| "neg_closed B (SAnd a b) = (neg_closed B a \<and> neg_closed B b)"
| "neg_closed B (SOr a b) = (neg_closed B a \<and> neg_closed B b)"
| "neg_closed B (SModal k g a) = neg_closed B a"
| "neg_closed B (SMu x a) = (x \<in> B \<and> neg_closed B a)"
| "neg_closed B (SNu x a) = (x \<in> B \<and> neg_closed B a)"

primrec plain_src :: "src \<Rightarrow> bool" where
  "plain_src STrue = True"
| "plain_src SFalse = True"
| "plain_src (SIdent x) = True"
| "plain_src (SNot a) = plain_src a"
| "plain_src (SAnd a b) = (plain_src a \<and> plain_src b)"
| "plain_src (SOr a b) = (plain_src a \<and> plain_src b)"
| "plain_src (SModal k g a) = (plain g \<and> plain_src a)"
| "plain_src (SMu x a) = plain_src a"
| "plain_src (SNu x a) = plain_src a"

lemma elab_plain: "plain_src e \<Longrightarrow> plain_formula (fst (elab \<Gamma> n e))"
  by (induction e arbitrary: \<Gamma> n) (auto simp: case_prod_beta split: option.split)

lemma elab_fv: "fv (fst (elab \<Gamma> n e)) \<subseteq> {v. \<exists>x \<in> fidents e. map_of \<Gamma> x = Some v}"
proof (induction e arbitrary: \<Gamma> n)
  case (SMu x e)
  show ?case using SMu [of "(x, n) # \<Gamma>" "Suc n"] by (fastforce simp: case_prod_beta split: if_splits)
next
  case (SNu x e)
  show ?case using SNu [of "(x, n) # \<Gamma>" "Suc n"] by (fastforce simp: case_prod_beta split: if_splits)
next
  case (SAnd a b)
  then show ?case by (simp add: case_prod_beta) blast
next
  case (SOr a b)
  then show ?case by (simp add: case_prod_beta) blast
qed (auto simp: case_prod_beta split: option.split)

lemma elab_polar:
  "neg_closed B e \<Longrightarrow> fst ` set \<Gamma> \<subseteq> B \<Longrightarrow> (\<forall>v \<in> snd ` set \<Gamma>. v < n) \<Longrightarrow>
   positive (fst (elab \<Gamma> n e)) \<and> (\<forall>v \<in> snd ` set \<Gamma>. polar True v (fst (elab \<Gamma> n e)))"
proof (induction e arbitrary: \<Gamma> n)
  case (SNot e)
  have "map_of \<Gamma> x = None" if "x \<in> fidents e" for x
    using that SNot.prems(1,2) by (auto simp: map_of_eq_None_iff)
  then have "fv (fst (elab \<Gamma> n e)) = {}" using elab_fv [of \<Gamma> n e] by auto
  then show ?case using SNot by (simp add: case_prod_beta polar_fresh)
next
  case (SAnd a b)
  have "\<forall>v \<in> snd ` set \<Gamma>. v < snd (elab \<Gamma> n a)" using SAnd.prems(3) elab_mono [of n \<Gamma> a] by fastforce
  then show ?case using SAnd by (simp add: case_prod_beta)
next
  case (SOr a b)
  have "\<forall>v \<in> snd ` set \<Gamma>. v < snd (elab \<Gamma> n a)" using SOr.prems(3) elab_mono [of n \<Gamma> a] by fastforce
  then show ?case using SOr by (simp add: case_prod_beta)
next
  case (SMu x e)
  have "positive (fst (elab ((x, n) # \<Gamma>) (Suc n) e)) \<and> (\<forall>v \<in> snd ` set ((x, n) # \<Gamma>). polar True v (fst (elab ((x, n) # \<Gamma>) (Suc n) e)))"
    by (rule SMu.IH) (use SMu.prems in auto)
  then show ?case by (simp add: case_prod_beta)
next
  case (SNu x e)
  have "positive (fst (elab ((x, n) # \<Gamma>) (Suc n) e)) \<and> (\<forall>v \<in> snd ` set ((x, n) # \<Gamma>). polar True v (fst (elab ((x, n) # \<Gamma>) (Suc n) e)))"
    by (rule SNu.IH) (use SNu.prems in auto)
  then show ?case by (simp add: case_prod_beta)
qed (auto simp: case_prod_beta split: option.split)

lemma parse_tree:
  assumes "or_reads U t e d" "d \<le> max_parse_depth" "2 * length t + 3 \<le> k"
  obtains f where "parse k U t = Ok f" "tree f = Some (fst (elab [] 0 e))"
proof -
  obtain f where f: "parse k U t = Ok f" "arena_tree (f_nodes f) (f_root f) (fst (elab [] 0 e))"
    using parse_text [OF assms(1,2), of k] assms(3) by auto
  obtain u where "tree f = Some u" using parse_delivers [OF assms(3), of U] f(1) by auto
  then show ?thesis using that f arena_tree_of [OF f(2)] by (auto simp: tree_def)
qed

text \<open>Evaluation of a text, for all large enough amounts of fuel.\<close>

definition evaluates_text :: "unicode \<Rightarrow> clts \<Rightarrow> environment \<Rightarrow> string \<Rightarrow> nat set \<Rightarrow> bool" where
  "evaluates_text U c env t X \<longleftrightarrow> (\<exists>K. \<forall>k \<ge> K. \<exists>f bits. parse k U t = Ok f \<and> evaluate k f c env = Ok bits
     \<and> length bits = state_count c \<and> bset bits = X)"

lemma text_evaluates:
  assumes model: "wf_clts c" "simple_clts c" "no_oob c" "env_fits env c"
    and t: "or_reads U t e d" "d \<le> max_parse_depth" and e: "neg_closed B e" "plain_src e"
  shows "evaluates_text U c env t (ssem (kripke c env) Map.empty e)"
proof -
  let ?t = "fst (elab [] 0 e)"
  have pos: "positive ?t" using elab_polar [OF e(1), of "[]" 0] by simp
  have sem: "sem (kripke c env) ?t (\<lambda>_. {}) = ssem (kripke c env) Map.empty e"
    using sem_elab [of "[]" 0 "kripke c env" e "\<lambda>_. {}"] by simp
  have "\<exists>f bits. parse k U t = Ok f \<and> evaluate k f c env = Ok bits \<and> length bits = state_count c
      \<and> bset bits = ssem (kripke c env) Map.empty e" if k: "2 * length t + 3 + need (state_count c) ?t \<le> k" for k
  proof -
    have prior: "no_prior options_default ?t" by (simp add: no_prior_def options_default_def)
    have fuel: "need (state_count c) ?t \<le> k" using k by simp
    obtain f where f: "parse k U t = Ok f" "tree f = Some ?t"
      using parse_tree [OF t, of k] k by auto
    obtain bits where "evaluate_with_options k f c env options_default = Ok bits" "length bits = state_count c"
        "bset bits = sem (kripke c env) ?t (\<lambda>_. {})"
      by (rule bool_result [OF model f(2) pos elab_plain [OF e(2)] prior fuel])
    then show ?thesis using f(1) sem by (simp add: evaluate_def)
  qed
  then show ?thesis unfolding evaluates_text_def by blast
qed

end
