(* ===== verification/Ltl_Universal.thy ===== *)
theory Ltl_Universal
  imports Ltl_Paths Text_Meaning
begin

section \<open>The every-path translation is exact\<close>

text \<open>
  The text printed by \<open>universal\<close> is read by the parser as a formula whose value is the set of states
  all of whose paths satisfy the LTL formula. \<open>written\<close> relates a text, a bound on its nesting and its
  value; a rule per shape of text composes them. Names the translation generates for fixpoint
  variables form the set \<open>B\<close>, which the atoms avoid.
\<close>

subsection \<open>Generated names\<close>

definition generated :: "string \<Rightarrow> bool" where
  "generated x \<longleftrightarrow> x \<noteq> [] \<and> hd x \<in> set ''GFUW'' \<and> tl x \<noteq> [] \<and> list_all ascii_digit (tl x)"

lemma show_nat_digits: "show_nat n \<noteq> [] \<and> list_all ascii_digit (show_nat n)"
proof (induction n rule: show_nat.induct)
  case (1 n)
  show ?case
  proof (cases "n < 10")
    case True
    then show ?thesis by (simp add: show_nat.simps [of n] ascii_digit_def)
  next
    case False
    have "ascii_digit (char_of (48 + n mod 10))" by (simp add: ascii_digit_def)
    then show ?thesis using 1 False by (simp add: show_nat.simps [of n])
  qed
qed

lemma generated_fresh: "c \<in> set ''GFUW'' \<Longrightarrow> generated (c # show_nat n)"
  using show_nat_digits [of n] by (simp add: generated_def)

lemma generated_name:
  assumes "generated x"
  shows "plain_name x" "atom_name x"
proof -
  obtain c d s where x: "x = c # d # s" "c \<in> set ''GFUW''" "ascii_digit d" "list_all ascii_digit s"
    using assms by (cases x; cases "tl x") (auto simp: generated_def)
  have "ascii_alpha c" using x(2) by (auto simp: ascii_alpha_def ascii_upper_def)
  then show n: "plain_name x" using x(1,3,4) by (auto simp: plain_name_def ident_char_def list_all_iff)
  have d: "lower_byte d = d" using x(3) by (simp add: lower_byte_def ascii_digit_def ascii_upper_def)
  have "d \<notin> {CHR ''o'', CHR ''u'', CHR ''r'', CHR ''a''}" using x(3) by (auto simp: ascii_digit_def)
  then show "atom_name x" using n x(1) d by (simp add: atom_name_def reserved_def to_ascii_lowercase_def)
qed

subsection \<open>Texts with a value\<close>

definition step :: "clts \<Rightarrow> nat \<Rightarrow> nat \<Rightarrow> bool" where
  "step c s t \<longleftrightarrow> (\<exists>e \<in> set (outgoing c s). t_target e = t)"

abbreviation states :: "clts \<Rightarrow> nat set" where
  "states c \<equiv> {..<state_count c}"

abbreviation atom_value :: "clts \<Rightarrow> environment \<Rightarrow> string \<Rightarrow> nat set" where
  "atom_value c env p \<equiv> fst (std_pred c env p)"

definition denotes :: "string set \<Rightarrow> clts \<Rightarrow> environment \<Rightarrow> src \<Rightarrow> nat set \<Rightarrow> bool" where
  "denotes B c env e X \<longleftrightarrow> neg_closed B e \<and> plain_src e \<and> fidents e \<inter> B = {}
     \<and> (\<forall>\<delta>. dom \<delta> \<subseteq> B \<longrightarrow> ssem (kripke c env) \<delta> e = X)"

definition written :: "unicode \<Rightarrow> string set \<Rightarrow> clts \<Rightarrow> environment \<Rightarrow> string \<Rightarrow> nat \<Rightarrow> nat set \<Rightarrow> bool" where
  "written U B c env t d X \<longleftrightarrow> (\<exists>e. unary_reads U operand_end t e d \<and> denotes B c env e X)"

lemma matching_default: "matching c guard_default s = set (outgoing c s)"
  by (auto simp: matching_def guard_matches_iff guard_default_def variable_guard_default_def vars_match_def)

lemma kripke_simps [simp]:
  "a_top (kripke c env) = states c" "a_not (kripke c env) X = states c - X" "a_pred (kripke c env) p = atom_value c env p"
  "a_modal (kripke c env) Box guard_default X = box (states c) (step c) X"
  "a_modal (kripke c env) Diamond guard_default X = dia (states c) (step c) X"
  by (auto simp: kripke_def pre_all_def pre_ex_def matching_default box_def dia_def step_def)

text \<open>The rules for operands in parentheses.\<close>

lemma formula_of_operand: "unary_reads U operand_end t e d \<Longrightarrow> or_reads U t e d"
  using unary_reads_weaken [of U operand_end t e d d formula_end] formula_end_operand by (blast intro: or_reads_one)

lemma paren_operand: "unary_reads U formula_end t e d \<Longrightarrow> unary_reads U operand_end (''('' @ t @ '')'') e (Suc d)"
  by (intro unary_reads_paren or_reads_one)

lemma dom_upd: "dom \<delta> \<subseteq> B \<Longrightarrow> x \<in> B \<Longrightarrow> dom (\<delta>(x \<mapsto> X)) \<subseteq> B"
  by auto

lemma denotesD:
  assumes "denotes B c env e X"
  shows "neg_closed B e" "plain_src e" "fidents e \<inter> B = {}" "dom \<delta> \<subseteq> B \<Longrightarrow> ssem (kripke c env) \<delta> e = X"
    "x \<in> B \<Longrightarrow> dom \<delta> \<subseteq> B \<Longrightarrow> ssem (kripke c env) (\<delta>(x \<mapsto> Y)) e = X"
  using assms dom_upd [of \<delta> B x Y] by (simp_all add: denotes_def)

lemma writtenI: "unary_reads U operand_end t e d \<Longrightarrow> denotes B c env e X \<Longrightarrow> written U B c env t d X"
  by (auto simp: written_def)

lemma denotes_simps:
  "denotes B c env STrue (states c)" "denotes B c env SFalse {}"
  "denotes B c env e X \<Longrightarrow> denotes B c env (SNot e) (states c - X)"
  "denotes B c env e X \<Longrightarrow> denotes B c env f Y \<Longrightarrow> denotes B c env (SAnd e f) (X \<inter> Y)"
  "denotes B c env e X \<Longrightarrow> denotes B c env f Y \<Longrightarrow> denotes B c env (SOr e f) (X \<union> Y)"
  "denotes B c env e X \<Longrightarrow> denotes B c env (SModal Box guard_default e) (box (states c) (step c) X)"
  "denotes B c env e X \<Longrightarrow> denotes B c env (SModal Diamond guard_default e) (dia (states c) (step c) X)"
  by (auto simp: denotes_def)

lemma written_constant: "written U B c env ''true'' (Suc 0) (states c)" "written U B c env ''false'' (Suc 0) {}"
  by (rule writtenI [OF unary_reads_constant(1) denotes_simps(1)], rule writtenI [OF unary_reads_constant(2) denotes_simps(2)])

lemma written_name:
  assumes "atom_name p" "p \<notin> B"
  shows "written U B c env p (Suc 0) (atom_value c env p)"
proof -
  have "\<delta> p = None" if "dom \<delta> \<subseteq> B" for \<delta> :: "string \<rightharpoonup> nat set" using that assms(2) by auto
  then have "denotes B c env (SIdent p) (atom_value c env p)" using assms(2) by (auto simp: denotes_def split: option.split)
  then show ?thesis by (rule writtenI [OF unary_reads_name [OF assms(1)]])
qed

lemma written_not:
  assumes "written U B c env t d X"
  shows "written U B c env (''(!('' @ t @ ''))'') (3 + d) (states c - X)"
proof -
  obtain e where e: "unary_reads U operand_end t e d" "denotes B c env e X" using assms by (auto simp: written_def)
  have "unary_reads U operand_end (''('' @ (''!'' @ ''('' @ t @ '')'') @ '')'') (SNot e) (Suc (Suc (Suc d)))"
    by (intro paren_operand unary_reads_not unary_reads_paren formula_of_operand e(1))
  from writtenI [OF this denotes_simps(3) [OF e(2)]] show ?thesis by (simp add: numeral_3_eq_3)
qed

lemma written_binary:
  assumes "written U B c env s d1 X" "written U B c env t d2 Y"
  shows "written U B c env (''('' @ s @ '' && '' @ t @ '')'') (Suc (max d1 d2)) (X \<inter> Y)"
    "written U B c env (''('' @ s @ '' || '' @ t @ '')'') (Suc (max d1 d2)) (X \<union> Y)"
proof -
  obtain e f where e: "unary_reads U operand_end s e d1" "denotes B c env e X" and f: "unary_reads U operand_end t f d2" "denotes B c env f Y"
    using assms by (auto simp: written_def)
  have r: "unary_reads U operand_end (''('' @ (s @ '' && '' @ t) @ '')'') (SAnd e f) (Suc (max d1 d2))"
    "unary_reads U operand_end (''('' @ (s @ '' || '' @ t) @ '')'') (SOr e f) (Suc (max d1 d2))"
    by (intro unary_reads_paren or_reads_and or_reads_or e(1) f(1))+
  from writtenI [OF r(1) denotes_simps(4) [OF e(2) f(2)]]
  show "written U B c env (''('' @ s @ '' && '' @ t @ '')'') (Suc (max d1 d2)) (X \<inter> Y)" by simp
  from writtenI [OF r(2) denotes_simps(5) [OF e(2) f(2)]]
  show "written U B c env (''('' @ s @ '' || '' @ t @ '')'') (Suc (max d1 d2)) (X \<union> Y)" by simp
qed

lemma written_box:
  assumes "written U B c env t d X"
  shows "written U B c env (''([] '' @ t @ '')'') (Suc (Suc d)) (box (states c) (step c) X)"
proof -
  obtain e where e: "unary_reads U operand_end t e d" "denotes B c env e X" using assms by (auto simp: written_def)
  have "unary_reads U operand_end (''('' @ (''[] '' @ t) @ '')'') (SModal Box guard_default e) (Suc (Suc d))"
    by (intro unary_reads_paren formula_of_operand unary_reads_modal e(1)) simp
  from writtenI [OF this denotes_simps(6) [OF e(2)]] show ?thesis by simp
qed

text \<open>The rules for fixpoints.\<close>

lemma fixpoint_operand:
  assumes "or_reads U t e d" "plain_name x" "(kw, f) \<in> {(''mu'', SMu x e), (''nu'', SNu x e)}"
  shows "unary_reads U operand_end (''('' @ (kw @ '' '' @ x @ ''. '' @ t) @ '')'') f (Suc (Suc d))"
  using paren_operand [OF unary_reads_fixpoint [OF assms]] .

lemma box_operand:
  assumes "atom_name x"
  shows "unary_reads U operand_end (''[] '' @ x) (SModal Box guard_default (SIdent x)) 2"
    "unary_reads U operand_end (''('' @ (''[] '' @ x) @ '')'') (SModal Box guard_default (SIdent x)) 3"
proof -
  have m: "unary_reads U operand_end (''[] '' @ x) (SModal Box guard_default (SIdent x)) (Suc (Suc 0))"
    by (rule unary_reads_modal [OF unary_reads_name [OF assms]]) simp
  then show "unary_reads U operand_end (''[] '' @ x) (SModal Box guard_default (SIdent x)) 2" by (simp add: numeral_2_eq_2)
  show "unary_reads U operand_end (''('' @ (''[] '' @ x) @ '')'') (SModal Box guard_default (SIdent x)) 3"
    using unary_reads_paren [OF formula_of_operand [OF m]] by (simp add: numeral_3_eq_3)
qed

abbreviation step_src :: "string \<Rightarrow> src" where
  "step_src x \<equiv> SAnd (SModal Box guard_default (SIdent x)) (SModal Diamond guard_default STrue)"

lemma step_operand:
  assumes "atom_name x"
  shows "unary_reads U operand_end (''('' @ ((''('' @ (''[] '' @ x) @ '')'') @ '' && '' @ (''('' @ (''<> '' @ ''true'') @ '')'')) @ '')'') (step_src x) 4"
proof -
  have "unary_reads U operand_end (''('' @ (''<> '' @ ''true'') @ '')'') (SModal Diamond guard_default STrue) (Suc (Suc (Suc 0)))"
    by (rule unary_reads_paren [OF formula_of_operand [OF unary_reads_modal [OF unary_reads_constant(1)]]]) simp
  from unary_reads_paren [OF or_reads_and [OF box_operand(2) [OF assms] this]] show ?thesis by (simp add: eval_nat_numeral)
qed

lemma denotes_fixpoint:
  assumes "x \<in> B" "neg_closed B e" "plain_src e" "fidents e \<inter> B \<subseteq> {x}" "\<And>\<delta> Y. dom \<delta> \<subseteq> B \<Longrightarrow> ssem (kripke c env) (\<delta>(x \<mapsto> Y)) e = F Y"
  shows "denotes B c env (SMu x e) (lfp F)" "denotes B c env (SNu x e) (gfp (\<lambda>Y. states c \<inter> F Y))"
  using assms by (auto simp: denotes_def)

lemma written_always:
  assumes "written U B c env s d X" "x \<in> B" "atom_name x" "plain_name x"
  shows "written U B c env (''(nu '' @ x @ ''. ('' @ s @ '' && [] '' @ x @ ''))'') (3 + max d 2)
    (gfp (\<lambda>Y. states c \<inter> (X \<inter> box (states c) (step c) Y)))"
proof -
  obtain e where e: "unary_reads U operand_end s e d" "denotes B c env e X" using assms(1) by (auto simp: written_def)
  let ?e = "SAnd e (SModal Box guard_default (SIdent x))"
  note r = fixpoint_operand [OF formula_of_operand [OF unary_reads_paren [OF or_reads_and [OF e(1) box_operand(1) [OF assms(3)]]]]
      assms(4), of "''nu''" "SNu x ?e"]
  have "denotes B c env (SNu x ?e) (gfp (\<lambda>Y. states c \<inter> (X \<inter> box (states c) (step c) Y)))"
    by (rule denotes_fixpoint) (use denotesD [OF e(2)] assms(2) in auto)
  from writtenI [OF r this] show ?thesis by (simp add: numeral_3_eq_3)
qed

lemma written_until:
  assumes "written U B c env q d1 Q" "written U B c env p d2 P" "x \<in> B" "atom_name x" "plain_name x"
  shows "written U B c env (''(mu '' @ x @ ''. ('' @ q @ '' || ('' @ p @ '' && (([] '' @ x @ '') && (<> true)))))'')
    (3 + max d1 (1 + max d2 4)) (lfp (\<lambda>Y. Q \<union> (P \<inter> (box (states c) (step c) Y \<inter> dia (states c) (step c) (states c)))))"
proof -
  obtain e f where e: "unary_reads U operand_end q e d1" "denotes B c env e Q" and f: "unary_reads U operand_end p f d2" "denotes B c env f P"
    using assms(1,2) by (auto simp: written_def)
  let ?e = "SOr e (SAnd f (step_src x))"
  note r = fixpoint_operand [OF formula_of_operand [OF unary_reads_paren [OF or_reads_or [OF e(1) unary_reads_paren [OF or_reads_and [OF f(1) step_operand [OF assms(4)]]]]]]
      assms(5), of "''mu''" "SMu x ?e"]
  have "denotes B c env (SMu x ?e) (lfp (\<lambda>Y. Q \<union> (P \<inter> (box (states c) (step c) Y \<inter> dia (states c) (step c) (states c)))))"
    by (rule denotes_fixpoint) (use denotesD [OF e(2)] denotesD [OF f(2)] assms(3) in auto)
  from writtenI [OF r this] show ?thesis by (simp add: numeral_3_eq_3)
qed

lemma written_eventually:
  assumes "written U B c env q d Q" "x \<in> B" "atom_name x" "plain_name x"
  shows "written U B c env (''(mu '' @ x @ ''. ('' @ q @ '' || (([] '' @ x @ '') && (<> true))))'')
    (3 + max d 4) (lfp (\<lambda>Y. Q \<union> (box (states c) (step c) Y \<inter> dia (states c) (step c) (states c))))"
proof -
  obtain e where e: "unary_reads U operand_end q e d" "denotes B c env e Q" using assms(1) by (auto simp: written_def)
  let ?e = "SOr e (step_src x)"
  note r = fixpoint_operand [OF formula_of_operand [OF unary_reads_paren [OF or_reads_or [OF e(1) step_operand [OF assms(3)]]]]
      assms(4), of "''mu''" "SMu x ?e"]
  have "denotes B c env (SMu x ?e) (lfp (\<lambda>Y. Q \<union> (box (states c) (step c) Y \<inter> dia (states c) (step c) (states c))))"
    by (rule denotes_fixpoint) (use denotesD [OF e(2)] assms(2) in auto)
  from writtenI [OF r this] show ?thesis by (simp add: numeral_3_eq_3)
qed

lemma written_weak_until:
  assumes "written U B c env q d1 Q" "written U B c env p d2 P" "x \<in> B" "atom_name x" "plain_name x"
  shows "written U B c env (weak_until_text x p q) (4 + max (max d1 d2) (max d1 3))
    (gfp (\<lambda>Y. states c \<inter> ((Q \<union> P) \<inter> (Q \<union> box (states c) (step c) Y))))"
proof -
  obtain e f where e: "unary_reads U operand_end q e d1" "denotes B c env e Q" and f: "unary_reads U operand_end p f d2" "denotes B c env f P"
    using assms(1,2) by (auto simp: written_def)
  let ?e = "SAnd (SOr e f) (SOr e (SModal Box guard_default (SIdent x)))"
  note r = fixpoint_operand [OF formula_of_operand [OF unary_reads_paren [OF or_reads_and [OF
        unary_reads_paren [OF or_reads_or [OF e(1) f(1)]] unary_reads_paren [OF or_reads_or [OF e(1) box_operand(2) [OF assms(4)]]]]]]
      assms(5), of "''nu''" "SNu x ?e"]
  have "denotes B c env (SNu x ?e) (gfp (\<lambda>Y. states c \<inter> ((Q \<union> P) \<inter> (Q \<union> box (states c) (step c) Y))))"
    by (rule denotes_fixpoint) (use denotesD [OF e(2)] denotesD [OF f(2)] assms(3) in auto)
  from writtenI [OF r this] show ?thesis by (simp add: weak_until_text_def eval_nat_numeral)
qed

subsection \<open>The fragment\<close>

primrec ltl_atoms :: "ltl \<Rightarrow> string set" where
  "ltl_atoms LTrue = {}"
| "ltl_atoms LFalse = {}"
| "ltl_atoms (LPredicate p) = {p}"
| "ltl_atoms (LNot a) = ltl_atoms a"
| "ltl_atoms (LAnd a b) = ltl_atoms a \<union> ltl_atoms b"
| "ltl_atoms (LOr a b) = ltl_atoms a \<union> ltl_atoms b"
| "ltl_atoms (LImplies a b) = ltl_atoms a \<union> ltl_atoms b"
| "ltl_atoms (LNext a) = ltl_atoms a"
| "ltl_atoms (LAlways a) = ltl_atoms a"
| "ltl_atoms (LEventually a) = ltl_atoms a"
| "ltl_atoms (LUntil a b) = ltl_atoms a \<union> ltl_atoms b"
| "ltl_atoms (LWeakUntil a b) = ltl_atoms a \<union> ltl_atoms b"
| "ltl_atoms (LRelease a b) = ltl_atoms a \<union> ltl_atoms b"
| "ltl_atoms (LRecurrence a) = ltl_atoms a"
| "ltl_atoms (LStabilization a) = ltl_atoms a"
| "ltl_atoms (LResponse a b) = ltl_atoms a \<union> ltl_atoms b"

lemma nnf_atoms: "ltl_atoms (nnf f neg) = ltl_atoms f"
  by (induction f neg rule: nnf.induct) auto

primrec text_depth :: "ltl \<Rightarrow> nat" where
  \<comment> \<open>the nesting of the text of a formula of the fragment\<close>
  "text_depth LTrue = 1"
| "text_depth LFalse = 1"
| "text_depth (LPredicate p) = 1"
| "text_depth (LNot a) = 3 + text_depth a"
| "text_depth (LAnd a b) = Suc (max (text_depth a) (text_depth b))"
| "text_depth (LOr a b) = Suc (max (text_depth a) (text_depth b))"
| "text_depth (LImplies a b) = Suc (max (3 + text_depth a) (text_depth b))"
| "text_depth (LNext a) = Suc (Suc (text_depth a))"
| "text_depth (LAlways a) = 3 + max (text_depth a) 2"
| "text_depth (LEventually a) = 3 + max (text_depth a) 4"
| "text_depth (LUntil l r) = 3 + max (text_depth r) (1 + max (text_depth l) 4)"
| "text_depth (LWeakUntil l r) = 4 + max (max (text_depth r) (text_depth l)) (max (text_depth r) 3)"
| "text_depth (LRelease l r) = 0"
| "text_depth (LRecurrence a) = 0"
| "text_depth (LStabilization a) = 0"
| "text_depth (LResponse a b) = 0"

primrec fragment :: "ltl \<Rightarrow> bool" where
  \<comment> \<open>the grammar of \<^verbatim>\<open>ltl/universal.rs\<close>\<close>
  "fragment LTrue = True"
| "fragment LFalse = True"
| "fragment (LPredicate p) = True"
| "fragment (LNot a) = is_propositional a"
| "fragment (LAnd a b) = (fragment a \<and> fragment b)"
| "fragment (LOr a b) = (is_propositional a \<and> fragment b \<or> is_propositional b \<and> fragment a)"
| "fragment (LImplies a b) = (is_propositional a \<and> is_propositional b)"
| "fragment (LNext a) = fragment a"
| "fragment (LAlways a) = fragment a"
| "fragment (LEventually a) = is_propositional a"
| "fragment (LUntil l r) = (is_propositional l \<and> is_propositional r)"
| "fragment (LWeakUntil l r) = (is_propositional l \<and> is_propositional r)"
| "fragment (LRelease l r) = False"
| "fragment (LRecurrence a) = False"
| "fragment (LStabilization a) = False"
| "fragment (LResponse a b) = False"

lemma propositional_fragment: "is_propositional f \<Longrightarrow> fragment f"
  by (induction f) auto

definition clean :: "string set \<Rightarrow> ltl \<Rightarrow> bool" where
  \<comment> \<open>atoms are names the parser reads as atoms, and none of them is in \<open>B\<close>\<close>
  "clean B f \<longleftrightarrow> (\<forall>p \<in> ltl_atoms f. atom_name p \<and> p \<notin> B)"

lemma atom_name_space: "atom_name p \<Longrightarrow> CHR '' '' \<notin> set p"
  using not_ident_char(1) by (auto simp: atom_name_def plain_name_def list_all_iff)

lemma prop_written:
  assumes "is_propositional f" "clean B f" "env_fits env c"
  shows "\<exists>t. prop_text f = Ok t \<and> written U B c env t (text_depth f) (holding (atom_value c env) (states c) f)"
  using assms
proof (induction f)
  case (LPredicate p)
  then have p: "atom_name p" "p \<notin> B" by (auto simp: clean_def)
  have "holding (atom_value c env) (states c) (LPredicate p) = atom_value c env p"
    using std_pred_le [OF LPredicate.prems(3), of p] by (auto simp: holding_def)
  then show ?case using written_name [OF p, of U c env] atom_name_space [OF p(1)] by simp
next
  case (LNot f)
  then obtain t where t: "prop_text f = Ok t" "written U B c env t (text_depth f) (holding (atom_value c env) (states c) f)"
    by (auto simp: clean_def)
  have "holding (atom_value c env) (states c) (LNot f) = states c - holding (atom_value c env) (states c) f" by (auto simp: holding_def)
  then show ?case using t(1) written_not [OF t(2)] by simp
next
  case (LAnd f g)
  then obtain s t where s: "prop_text f = Ok s" "written U B c env s (text_depth f) (holding (atom_value c env) (states c) f)"
    and t: "prop_text g = Ok t" "written U B c env t (text_depth g) (holding (atom_value c env) (states c) g)"
    by (auto simp: clean_def)
  have "holding (atom_value c env) (states c) (LAnd f g) = holding (atom_value c env) (states c) f \<inter> holding (atom_value c env) (states c) g"
    by (auto simp: holding_def)
  then show ?case using s(1) t(1) written_binary(1) [OF s(2) t(2)] by simp
next
  case (LOr f g)
  then obtain s t where s: "prop_text f = Ok s" "written U B c env s (text_depth f) (holding (atom_value c env) (states c) f)"
    and t: "prop_text g = Ok t" "written U B c env t (text_depth g) (holding (atom_value c env) (states c) g)"
    by (auto simp: clean_def)
  have "holding (atom_value c env) (states c) (LOr f g) = holding (atom_value c env) (states c) f \<union> holding (atom_value c env) (states c) g"
    by (auto simp: holding_def)
  then show ?case using s(1) t(1) written_binary(2) [OF s(2) t(2)] by simp
next
  case (LImplies f g)
  then obtain s t where s: "prop_text f = Ok s" "written U B c env s (text_depth f) (holding (atom_value c env) (states c) f)"
    and t: "prop_text g = Ok t" "written U B c env t (text_depth g) (holding (atom_value c env) (states c) g)"
    by (auto simp: clean_def)
  have "holding (atom_value c env) (states c) (LImplies f g)
      = (states c - holding (atom_value c env) (states c) f) \<union> holding (atom_value c env) (states c) g"
    by (auto simp: holding_def)
  then show ?case using s(1) t(1) written_binary(2) [OF written_not [OF s(2)] t(2)] by simp
qed (use written_constant in \<open>auto simp: holding_def lessThan_def\<close>)

subsection \<open>Exactness\<close>

lemma universal_propositional: "is_propositional f \<Longrightarrow> universal f n as = rbind (prop_text f) (\<lambda>s. Ok (s, n))"
  by (cases f) (simp_all add: unless_propositional_def)

definition every_path :: "clts \<Rightarrow> environment \<Rightarrow> ltl \<Rightarrow> nat set" where
  "every_path c env f = all_paths (step c) (states c) (atom_value c env) f"

abbreviation ltl_written :: "unicode \<Rightarrow> clts \<Rightarrow> environment \<Rightarrow> string \<Rightarrow> ltl \<Rightarrow> nat set \<Rightarrow> bool" where
  "ltl_written U c env t f \<equiv> written U (Collect generated) c env t (text_depth f)"

abbreviation atoms_ok :: "ltl \<Rightarrow> bool" where
  "atoms_ok \<equiv> clean (Collect generated)"

lemma universal_written_propositional:
  assumes "graph_on (states c) (step c)" "env_fits env c" "is_propositional f" "atoms_ok f"
  shows "\<exists>t m. universal f n [] = Ok (t, m) \<and> ltl_written U c env t f (every_path c env f)"
  using prop_written [OF assms(3,4,2), of U] universal_propositional [OF assms(3), of n "[]"]
    all_propositional [OF assms(1,3), of "atom_value c env"] by (auto simp: every_path_def)

lemma clean_simps:
  "clean B (LNot f) = clean B f" "clean B (LNext f) = clean B f" "clean B (LAlways f) = clean B f" "clean B (LEventually f) = clean B f"
  "clean B (LAnd f g) = (clean B f \<and> clean B g)" "clean B (LOr f g) = (clean B f \<and> clean B g)"
  "clean B (LUntil f g) = (clean B f \<and> clean B g)" "clean B (LWeakUntil f g) = (clean B f \<and> clean B g)"
  by (auto simp: clean_def)

lemma fresh_names:
  assumes "ch \<in> set ''GFUW''"
  shows "fresh_var [ch] n \<in> Collect generated" "atom_name (fresh_var [ch] n)" "plain_name (fresh_var [ch] n)"
  using generated_fresh [OF assms] generated_name [OF generated_fresh [OF assms]] by simp_all

lemma universal_written:
  assumes G: "graph_on (states c) (step c)" and env: "env_fits env c"
  shows "fragment f \<Longrightarrow> atoms_ok f \<Longrightarrow>
    \<exists>t m. universal f n [] = Ok (t, m) \<and> ltl_written U c env t f (every_path c env f)"
proof (induction f arbitrary: n)
  case (LAnd f g)
  show ?case
  proof (cases "is_propositional (LAnd f g)")
    case False
    obtain s m where s: "universal f n [] = Ok (s, m)" "ltl_written U c env s f (every_path c env f)"
      using LAnd.IH(1) [of n] LAnd.prems by (auto simp: clean_simps)
    obtain t k where t: "universal g m [] = Ok (t, k)" "ltl_written U c env t g (every_path c env g)"
      using LAnd.IH(2) [of m] LAnd.prems by (auto simp: clean_simps)
    show ?thesis using written_binary(1) [OF s(2) t(2)] s(1) t(1) False by (auto simp: unless_propositional_def every_path_def all_and)
  qed (rule universal_written_propositional [OF G env _ LAnd.prems(2)])
next
  case (LOr f g)
  have cl: "atoms_ok f" "atoms_ok g" using LOr.prems by (auto simp: clean_simps)
  consider "is_propositional (LOr f g)" | "is_propositional f" "\<not> is_propositional g" "fragment g"
    | "is_propositional g" "\<not> is_propositional f" "fragment f" using LOr.prems(1) by auto
  then show ?case
  proof cases
    case 1
    then show ?thesis by (rule universal_written_propositional [OF G env _ LOr.prems(2)])
  next
    case 2
    obtain s where s: "prop_text f = Ok s" "ltl_written U c env s f (holding (atom_value c env) (states c) f)"
      using prop_written [OF 2(1) cl(1) env, of U] by blast
    obtain t m where t: "universal g n [] = Ok (t, m)" "ltl_written U c env t g (every_path c env g)"
      using LOr.IH(2) [OF 2(3) cl(2), of n] by blast
    show ?thesis using 2 s(1) t(1) written_binary(2) [OF s(2) t(2)]
      by (simp add: unless_propositional_def every_path_def all_or(1) [OF 2(1)])
  next
    case 3
    obtain s where s: "prop_text g = Ok s" "ltl_written U c env s g (holding (atom_value c env) (states c) g)"
      using prop_written [OF 3(1) cl(2) env, of U] by blast
    obtain t m where t: "universal f n [] = Ok (t, m)" "ltl_written U c env t f (every_path c env f)"
      using LOr.IH(1) [OF 3(3) cl(1), of n] by blast
    show ?thesis using 3 s(1) t(1) written_binary(2) [OF t(2) s(2)]
      by (simp add: unless_propositional_def every_path_def all_or(2) [OF 3(1)])
  qed
next
  case (LNext f)
  obtain s m where "universal f n [] = Ok (s, m)" "ltl_written U c env s f (every_path c env f)"
    using LNext.IH [of n] LNext.prems by (auto simp: clean_simps)
  then show ?case using written_box by (auto simp: unless_propositional_def every_path_def all_next [OF G])
next
  case (LAlways f)
  obtain s m where s: "universal f (Suc n) [] = Ok (s, m)" "ltl_written U c env s f (every_path c env f)"
    using LAlways.IH [of "Suc n"] LAlways.prems by (auto simp: clean_simps)
  then show ?case using written_always [OF s(2), of "fresh_var ''G'' n"] fresh_names [of "CHR ''G''" n]
    by (simp add: unless_propositional_def every_path_def all_always [OF G])
next
  case (LEventually f)
  obtain s where s: "prop_text f = Ok s" "ltl_written U c env s f (holding (atom_value c env) (states c) f)"
    using prop_written [of f "Collect generated" env c U] env LEventually.prems by (auto simp: clean_simps)
  show ?case
    using s(1)  written_eventually [OF s(2), of "fresh_var ''F'' n"] fresh_names [of "CHR ''F''" n] LEventually.prems(1)
    by (simp add: unless_propositional_def every_path_def all_eventually [OF G])
next
  case (LUntil f g)
  obtain s t where s: "prop_text f = Ok s" "ltl_written U c env s f (holding (atom_value c env) (states c) f)"
    and t: "prop_text g = Ok t" "ltl_written U c env t g (holding (atom_value c env) (states c) g)"
    using prop_written [of f "Collect generated" env c U] prop_written [of g "Collect generated" env c U] env LUntil.prems by (auto simp: clean_simps)
  show ?case
    using s(1) t(1)  written_until [OF t(2) s(2), of "fresh_var ''U'' n"] fresh_names [of "CHR ''U''" n] LUntil.prems(1)
    by (simp add: unless_propositional_def every_path_def all_until [OF G])
next
  case (LWeakUntil f g)
  obtain s t where s: "prop_text f = Ok s" "ltl_written U c env s f (holding (atom_value c env) (states c) f)"
    and t: "prop_text g = Ok t" "ltl_written U c env t g (holding (atom_value c env) (states c) g)"
    using prop_written [of f "Collect generated" env c U] prop_written [of g "Collect generated" env c U] env LWeakUntil.prems by (auto simp: clean_simps)
  show ?case
    using s(1) t(1)  written_weak_until [OF t(2) s(2), of "fresh_var ''W'' n"] fresh_names [of "CHR ''W''" n] LWeakUntil.prems(1)
    by (simp add: unless_propositional_def every_path_def all_weak_until [OF G])
qed (rule universal_written_propositional [OF G env]; simp)+

lemma every_path_nnf: "every_path c env (nnf f False) = every_path c env f"
  by (simp add: every_path_def all_paths_def nnf_lsat)

lemma total_graph:
  assumes "wf_clts c" "\<forall>s < state_count c. outgoing c s \<noteq> []"
  shows "graph_on (states c) (step c)"
  unfolding graph_on_def
proof (intro conjI ballI allI impI)
  fix s assume "s \<in> states c"
  then obtain e where "e \<in> set (outgoing c s)" using assms(2) by (cases "outgoing c s") auto
  then show "\<exists>t. step c s t" by (auto simp: step_def)
next
  fix s t assume "s \<in> states c" "step c s t"
  then show "t \<in> states c" using wf_target [OF assms(1)] by (auto simp: step_def)
qed

lemma written_evaluates:
  assumes "wf_clts c" "simple_clts c" "no_oob c" "env_fits env c" "written U B c env t d X" "d \<le> max_parse_depth"
  shows "evaluates_text U c env t X"
proof -
  obtain e where e: "unary_reads U operand_end t e d" "denotes B c env e X" using assms(5) by (auto simp: written_def)
  have "ssem (kripke c env) Map.empty e = X" using denotesD(4) [OF e(2), of Map.empty] by simp
  then show ?thesis
    using text_evaluates [OF assms(1-4) formula_of_operand [OF e(1)] assms(6) denotesD(1,2) [OF e(2)]] by simp
qed

text \<open>
  C15: The every-path translation is exact. On a total model, for an LTL formula whose negation normal
  form is in the documented fragment and whose atoms are identifiers that are neither keywords nor names
  the translation generates, \<open>translate_universal\<close> returns a formula, and evaluating it returns exactly
  the states from which every infinite path satisfies the LTL formula. The nesting of the printed text
  must not exceed the limit of the parser.
\<close>

theorem translate_universal_every_path:
  assumes "wf_clts c" "simple_clts c" "no_oob c" "env_fits env c" "\<forall>s < state_count c. outgoing c s \<noteq> []"
    and "fragment (nnf f False)" "\<forall>p \<in> ltl_atoms f. atom_name p \<and> \<not> generated p"
    and "text_depth (nnf f False) \<le> max_parse_depth"
  shows "\<exists>K. \<forall>k \<ge> K. \<exists>g bits. translate_universal k U f = Ok g \<and> evaluate k g c env = Ok bits \<and> length bits = state_count c
    \<and> bset bits = {s. s < state_count c \<and> (\<forall>\<pi>. path (step c) \<pi> \<longrightarrow> \<pi> 0 = s \<longrightarrow> lsat (atom_value c env) f \<pi>)}"
proof -
  let ?X = "every_path c env f"
  have "atoms_ok (nnf f False)" using assms(7) by (simp add: clean_def nnf_atoms)
  then obtain t m where t: "universal (nnf f False) 0 [] = Ok (t, m)" "ltl_written U c env t (nnf f False) ?X"
    using universal_written [OF total_graph [OF assms(1,5)] assms(4,6), of 0 U] by (auto simp: every_path_nnf)
  have "evaluates_text U c env t ?X" by (rule written_evaluates [OF assms(1-4) t(2) assms(8)])
  moreover have "translate_universal k U f = map_err (TranslationNoParse t) (parse k U t)" for k
    using t(1) by (simp add: translate_universal_def translate_universal_fair_def)
  moreover have "?X = {s. s < state_count c \<and> (\<forall>\<pi>. path (step c) \<pi> \<longrightarrow> \<pi> 0 = s \<longrightarrow> lsat (atom_value c env) f \<pi>)}"
    by (auto simp: every_path_def all_paths_def)
  ultimately show ?thesis unfolding evaluates_text_def by (simp, elim exE, intro exI, fastforce)
qed

lemma ex_total: "\<forall>s < state_count ex_clts. outgoing ex_clts s \<noteq> []"
  by (simp add: all_less_3) (simp add: ex_defs outgoing_def)

lemma atom_p: "atom_name ''p''" "\<not> generated ''p''"
  by (simp_all add: atom_name_def reserved_def plain_name_def generated_def ident_char_def ascii_alpha_def ascii_upper_def
      to_ascii_lowercase_def lower_byte_def)

theorem translate_universal_every_path_witness:
  "\<exists>k g bits. translate_universal k ascii_tables (LResponse (LPredicate ''p'') (LPredicate ''p'')) = Ok g
    \<and> evaluate k g ex_clts ex_env = Ok bits \<and> length bits = 3
    \<and> bset bits = {s. s < 3 \<and> (\<forall>\<pi>. path (step ex_clts) \<pi> \<longrightarrow> \<pi> 0 = s \<longrightarrow>
        lsat (atom_value ex_clts ex_env) (LResponse (LPredicate ''p'') (LPredicate ''p'')) \<pi>)}"
  using translate_universal_every_path [OF ex_wf ex_simple ex_no_oob ex_fits ex_total, of "LResponse (LPredicate ''p'') (LPredicate ''p'')" ascii_tables]
    atom_p by (fastforce simp: max_parse_depth_def simp del: lsat.simps)

subsection \<open>Formulas outside the fragment\<close>

primrec subformulas :: "ltl \<Rightarrow> ltl set" where
  "subformulas LTrue = {LTrue}"
| "subformulas LFalse = {LFalse}"
| "subformulas (LPredicate p) = {LPredicate p}"
| "subformulas (LNot a) = insert (LNot a) (subformulas a)"
| "subformulas (LAnd a b) = insert (LAnd a b) (subformulas a \<union> subformulas b)"
| "subformulas (LOr a b) = insert (LOr a b) (subformulas a \<union> subformulas b)"
| "subformulas (LImplies a b) = insert (LImplies a b) (subformulas a \<union> subformulas b)"
| "subformulas (LNext a) = insert (LNext a) (subformulas a)"
| "subformulas (LAlways a) = insert (LAlways a) (subformulas a)"
| "subformulas (LEventually a) = insert (LEventually a) (subformulas a)"
| "subformulas (LUntil a b) = insert (LUntil a b) (subformulas a \<union> subformulas b)"
| "subformulas (LWeakUntil a b) = insert (LWeakUntil a b) (subformulas a \<union> subformulas b)"
| "subformulas (LRelease a b) = insert (LRelease a b) (subformulas a \<union> subformulas b)"
| "subformulas (LRecurrence a) = insert (LRecurrence a) (subformulas a)"
| "subformulas (LStabilization a) = insert (LStabilization a) (subformulas a)"
| "subformulas (LResponse a b) = insert (LResponse a b) (subformulas a \<union> subformulas b)"

definition refused :: "ltl \<Rightarrow> (translation_error, 'a) res \<Rightarrow> bool" where
  "refused f r \<longleftrightarrow> (\<exists>g \<in> subformulas f. \<not> fragment g \<and> (\<exists>why. r = Err (outside g why)))"

lemma refused_Ok [simp]: "\<not> refused f (Ok x)"
  by (simp add: refused_def)

lemma prop_text_ok: "is_propositional f \<Longrightarrow> \<exists>t. prop_text f = Ok t"
  by (induction f) auto

lemma refusedI: "g \<in> subformulas f \<Longrightarrow> \<not> fragment g \<Longrightarrow> refused f (Err (outside g why))"
  by (auto simp: refused_def)

lemma refused_bind:
  assumes "refused g (r :: (translation_error, 'a) res)" "subformulas g \<subseteq> subformulas f"
  shows "refused f (rbind r h)"
proof -
  obtain x why where "x \<in> subformulas g" "\<not> fragment x" "r = Err (outside x why)" using assms(1) by (auto simp: refused_def)
  then show ?thesis using assms(2) refusedI [of x f why] by auto
qed

lemma refused_up:
  fixes r :: "(translation_error, 'a) res" and h :: "'a \<Rightarrow> (translation_error, 'b) res"
  shows "refused f r \<Longrightarrow> refused (LAnd f g) (rbind r h)" "refused g r \<Longrightarrow> refused (LAnd f g) (rbind r h)"
    "refused f r \<Longrightarrow> refused (LOr f g) (rbind r h)" "refused g r \<Longrightarrow> refused (LOr f g) (rbind r h)"
    "refused f r \<Longrightarrow> refused (LNext f) (rbind r h)" "refused f r \<Longrightarrow> refused (LAlways f) (rbind r h)"
  by (auto elim!: refused_bind)

lemma refused_refl: "\<not> fragment f \<Longrightarrow> refused f (Err (outside f why))"
  by (rule refusedI) (cases f, simp_all)

lemma universal_ok_or_refused:
  "(fragment f \<longrightarrow> (\<exists>r. universal f n as = Ok r)) \<and> (\<not> fragment f \<longrightarrow> refused f (universal f n as))" (is "?C f n")
proof (induction f arbitrary: n)
  case (LAnd f g)
  show ?case
  proof (cases "is_propositional (LAnd f g)")
    case False
    show ?thesis
    proof (cases "fragment f")
      case True
      then obtain s m where "universal f n as = Ok (s, m)" using LAnd.IH(1) [of n] by auto
      then show ?thesis using True False LAnd.IH(2) [of m]
        by (auto simp: unless_propositional_def refused_up)
    next
      case Ff: False
      then show ?thesis using False LAnd.IH(1) [of n] by (auto simp: unless_propositional_def refused_up)
    qed
  qed (use propositional_fragment [of "LAnd f g"] universal_propositional [of "LAnd f g" n as] prop_text_ok [of "LAnd f g"] in auto)
next
  case (LOr f g)
  consider "is_propositional (LOr f g)" | "is_propositional f" "\<not> is_propositional g" | "is_propositional g" "\<not> is_propositional f"
    | "\<not> is_propositional f" "\<not> is_propositional g" by auto
  then show ?case
  proof cases
    case 1
    then show ?thesis using propositional_fragment [of "LOr f g"] universal_propositional [of "LOr f g" n as] prop_text_ok [of "LOr f g"] by auto
  next
    case 2
    then show ?thesis using LOr.IH(2) [of n] prop_text_ok [of f]
      by (auto simp: unless_propositional_def refused_up)
  next
    case 3
    then show ?thesis using LOr.IH(1) [of n] prop_text_ok [of g]
      by (auto simp: unless_propositional_def refused_up)
  next
    case 4
    then show ?thesis using refused_refl [of "LOr f g"] by (simp add: unless_propositional_def)
  qed
next
  case (LNext f)
  show ?case using LNext [of n] by (auto simp: unless_propositional_def refused_up)
next
  case (LAlways f)
  show ?case using LAlways [of "Suc n"] by (auto simp: unless_propositional_def refused_up)
next
  case (LEventually f)
  then show ?case using prop_text_ok [of f] refused_refl [of "LEventually f"] by (auto simp: unless_propositional_def refused_up)
next
  case (LUntil f g)
  then show ?case using prop_text_ok [of f] prop_text_ok [of g] refused_refl [of "LUntil f g"] by (auto simp: unless_propositional_def refused_up)
next
  case (LWeakUntil f g)
  then show ?case using prop_text_ok [of f] prop_text_ok [of g] refused_refl [of "LWeakUntil f g"] by (auto simp: unless_propositional_def refused_up)
next
  case (LNot f)
  then show ?case using prop_text_ok [of "LNot f"] refused_refl [of "LNot f"] by (auto simp: unless_propositional_def refused_up)
next
  case (LImplies f g)
  then show ?case using prop_text_ok [of "LImplies f g"] refused_refl [of "LImplies f g"] by (auto simp: unless_propositional_def refused_up)
qed (auto simp: unless_propositional_def intro: refused_refl)

text \<open>
  C35: A formula outside the fragment is refused, with or without fairness assumptions: the translation
  returns the error that names a subformula of its negation normal form which is not in the fragment. It
  never translates such a formula into something else.
\<close>

theorem translate_universal_refuses:
  assumes "\<not> fragment (nnf f False)"
  shows "\<exists>g why. g \<in> subformulas (nnf f False) \<and> \<not> fragment g \<and> translate_universal_fair k U f as = Err (outside g why)"
proof -
  have "refused (nnf f False) (universal (nnf f False) 0 as)" using universal_ok_or_refused assms by blast
  from refused_bind [OF this order.refl] show ?thesis unfolding translate_universal_fair_def refused_def by blast
qed

theorem translate_universal_refuses_witness:
  "\<exists>g why. translate_universal_fair 9 ascii_tables (LStabilization (LPredicate ''p'')) [] = Err (outside g why)"
  using translate_universal_refuses [of "LStabilization (LPredicate ''p'')" 9 ascii_tables "[]"] by auto

subsection \<open>Capture of an atom\<close>

definition capture_env :: environment where
  \<comment> \<open>the atom \<open>F1\<close> holds in every state\<close>
  "capture_env = \<lparr>env_state_count = 3, env_predicates = [(''F1'', [True, True, True])], env_on_demand = None\<rparr>"

lemma all_paths_all: "(\<And>\<pi>. \<pi> 0 \<in> S \<Longrightarrow> lsat P f \<pi>) \<Longrightarrow> all_paths R S P f = S"
  by (auto simp: all_paths_def)

lemma capture_fits: "env_fits capture_env ex_clts"
  by (simp add: env_fits_def env_predicate_def) (simp add: capture_env_def)

lemma show_one: "show_nat (Suc 0) = ''1''"
  by code_simp

lemma captured_reads:
  "or_reads U ''(mu F1. (F1 || (([] F1) && (<> true))))'' (SMu ''F1'' (SOr (SIdent ''F1'') (step_src ''F1''))) 7"
proof -
  have n: "atom_name ''F1''" "plain_name ''F1''"
    using generated_name [of "''F1''"] by (simp_all add: generated_def ascii_digit_def)
  from formula_of_operand [OF fixpoint_operand [OF formula_of_operand [OF unary_reads_paren [OF or_reads_or [OF unary_reads_name [OF n(1)] step_operand [OF n(1)]]]]
      n(2), of "''mu''" "SMu ''F1'' (SOr (SIdent ''F1'') (step_src ''F1''))"]]
  show ?thesis by (simp add: eval_nat_numeral)
qed

lemma captured_empty: "ssem (kripke c env) Map.empty (SMu ''F1'' (SOr (SIdent ''F1'') (step_src ''F1''))) = {}"
proof -
  have "lfp (\<lambda>X. X \<union> (box (states c) (step c) X \<inter> dia (states c) (step c) (states c))) \<subseteq> {}"
    by (rule lfp_lowerbound) (auto simp: box_def dia_def)
  then show ?thesis by simp
qed

text \<open>
  C36: The names of the fixpoint variables are not fresh for the atoms. The translation of \<open>F F1\<close> binds a
  variable \<open>F1\<close>, which captures the atom: the formula \<open>mu F1. (F1 || ...)\<close> is false in every state of a
  model in which \<open>F1\<close>, and therefore \<open>F F1\<close> on every path, is true in every state.
\<close>

theorem translate_universal_captures:
  "(\<exists>k g bits. translate_universal k ascii_tables (LEventually (LPredicate ''F1'')) = Ok g
      \<and> evaluate k g ex_clts capture_env = Ok bits \<and> length bits = 3 \<and> bset bits = {})
   \<and> every_path ex_clts capture_env (LEventually (LPredicate ''F1'')) = {0, 1, 2}"
proof
  let ?t = "''(mu F1. (F1 || (([] F1) && (<> true))))''"
  have "neg_closed {''F1''} (SMu ''F1'' (SOr (SIdent ''F1'') (step_src ''F1'')))" "plain_src (SMu ''F1'' (SOr (SIdent ''F1'') (step_src ''F1'')))"
    by simp_all
  from text_evaluates [OF ex_wf ex_simple ex_no_oob capture_fits captured_reads [of ascii_tables] _ this]
  obtain K where "\<forall>k\<ge>K. \<exists>f bits. parse k ascii_tables ?t = Ok f \<and> evaluate k f ex_clts capture_env = Ok bits \<and> length bits = 3 \<and> bset bits = {}"
    by (auto simp: evaluates_text_def captured_empty max_parse_depth_def simp del: ssem.simps)
  then obtain f bits where "parse K ascii_tables ?t = Ok f" "evaluate K f ex_clts capture_env = Ok bits" "length bits = 3" "bset bits = {}"
    by blast
  moreover have "translate_universal k ascii_tables (LEventually (LPredicate ''F1'')) = map_err (TranslationNoParse ?t) (parse k ascii_tables ?t)" for k
    by (simp add: translate_universal_def translate_universal_fair_def unless_propositional_def show_one)
  ultimately show "\<exists>k g bits. translate_universal k ascii_tables (LEventually (LPredicate ''F1'')) = Ok g
      \<and> evaluate k g ex_clts capture_env = Ok bits \<and> length bits = 3 \<and> bset bits = {}" by (intro exI [of _ K]) simp
  have now: "lsat (atom_value c env) (LEventually (LPredicate x)) \<pi>" if "\<pi> 0 \<in> atom_value c env x" for \<pi> c env x
    using that by (simp, intro exI [of _ 0]) simp
  have "env_predicate capture_env ''F1'' = Some (bv_repeat True 3)"
    by (simp add: env_predicate_def capture_env_def bv_repeat_def numeral_3_eq_3)
  then have "atom_value ex_clts capture_env ''F1'' = {..<3}" by (simp add: std_pred_def)
  then have "lsat (atom_value ex_clts capture_env) (LEventually (LPredicate ''F1'')) \<pi>" if "\<pi> 0 \<in> states ex_clts" for \<pi>
    by (intro now) (use that in simp)
  then have "every_path ex_clts capture_env (LEventually (LPredicate ''F1'')) = states ex_clts"
    unfolding every_path_def by (rule all_paths_all)
  also have "states ex_clts = {0, 1, 2}" by (auto simp: numeral_eq_Suc less_Suc_eq)
  finally show "every_path ex_clts capture_env (LEventually (LPredicate ''F1'')) = {0, 1, 2}" .
qed

end
