(* ===== verification/Ltl_Existential.thy ===== *)
theory Ltl_Existential
  imports Ltl_Universal
begin

section \<open>The some-path translation\<close>

text \<open>
  The specification of the some-path reading: \<open>G\<close> over all reachable states, \<open>X\<close> over all successors,
  \<open>F\<close> and \<open>U\<close> along some finite path, negation as complement. The arena built by \<open>translate_formula\<close>
  evaluates to it.
\<close>

subsection \<open>The reading\<close>

definition ef :: "'s set \<Rightarrow> ('s \<Rightarrow> 's \<Rightarrow> bool) \<Rightarrow> 's set \<Rightarrow> 's set" where
  "ef S R A = {s \<in> S. \<exists>t \<in> A. R\<^sup>*\<^sup>* s t}"

definition ag :: "'s set \<Rightarrow> ('s \<Rightarrow> 's \<Rightarrow> bool) \<Rightarrow> 's set \<Rightarrow> 's set" where
  "ag S R A = {s \<in> S. \<forall>t. R\<^sup>*\<^sup>* s t \<longrightarrow> t \<in> A}"

definition eu :: "'s set \<Rightarrow> ('s \<Rightarrow> 's \<Rightarrow> bool) \<Rightarrow> 's set \<Rightarrow> 's set \<Rightarrow> 's set" where
  \<comment> \<open>a finite path to \<open>B\<close> through states of \<open>A\<close>\<close>
  "eu S R A B = {s \<in> S. \<exists>t \<in> B. (\<lambda>x y. x \<in> A \<and> R x y)\<^sup>*\<^sup>* s t}"

primrec branching :: "('s \<Rightarrow> 's \<Rightarrow> bool) \<Rightarrow> 's set \<Rightarrow> (string \<Rightarrow> 's set) \<Rightarrow> ltl \<Rightarrow> 's set" where
  "branching R S P LTrue = S"
| "branching R S P LFalse = {}"
| "branching R S P (LPredicate p) = P p"
| "branching R S P (LNot a) = S - branching R S P a"
| "branching R S P (LAnd a b) = branching R S P a \<inter> branching R S P b"
| "branching R S P (LOr a b) = branching R S P a \<union> branching R S P b"
| "branching R S P (LImplies a b) = (S - branching R S P a) \<union> branching R S P b"
| "branching R S P (LNext a) = box S R (branching R S P a)"
| "branching R S P (LAlways a) = ag S R (branching R S P a)"
| "branching R S P (LEventually a) = ef S R (branching R S P a)"
| "branching R S P (LUntil a b) = eu S R (branching R S P a) (branching R S P b)"
| "branching R S P (LWeakUntil a b) = eu S R (branching R S P a) (branching R S P b) \<union> ag S R (branching R S P a)"
| "branching R S P (LRelease a b) = S - eu S R (S - branching R S P a) (S - branching R S P b)"
| "branching R S P (LRecurrence a) = ag S R (ef S R (branching R S P a))"
| "branching R S P (LStabilization a) = ef S R (ag S R (branching R S P a))"
| "branching R S P (LResponse a b) = ag S R ((S - branching R S P a) \<union> ef S R (branching R S P b))"

abbreviation closed_under :: "('s \<Rightarrow> 's \<Rightarrow> bool) \<Rightarrow> 's set \<Rightarrow> bool" where
  "closed_under R S \<equiv> \<forall>s \<in> S. \<forall>t. R s t \<longrightarrow> t \<in> S"

lemma eu_lfp:
  assumes S: "closed_under R S" "B \<subseteq> S"
  shows "lfp (\<lambda>X. B \<union> (A \<inter> dia S R X)) = eu S R A B" (is "lfp ?F = _")
proof
  have mono: "mono ?F" by (auto simp: mono_def dia_def)
  have "?F (eu S R A B) \<subseteq> eu S R A B"
  proof
    fix s assume "s \<in> ?F (eu S R A B)"
    then consider "s \<in> B" | t where "s \<in> A" "s \<in> S" "R s t" "t \<in> eu S R A B" by (auto simp: dia_def)
    then show "s \<in> eu S R A B"
    proof cases
      case 2
      then obtain u where "u \<in> B" "(\<lambda>x y. x \<in> A \<and> R x y)\<^sup>*\<^sup>* t u" by (auto simp: eu_def)
      moreover have "(\<lambda>x y. x \<in> A \<and> R x y) s t" using 2 by simp
      ultimately show ?thesis using 2(2) converse_rtranclp_into_rtranclp [of "\<lambda>x y. x \<in> A \<and> R x y" s t u] by (auto simp: eu_def)
    qed (use S(2) in \<open>auto simp: eu_def\<close>)
  qed
  then show "lfp ?F \<subseteq> eu S R A B" by (rule lfp_lowerbound)
  have "s \<in> S \<longrightarrow> s \<in> lfp ?F" if "(\<lambda>x y. x \<in> A \<and> R x y)\<^sup>*\<^sup>* s t" "t \<in> B" for s t
    using that(1)
  proof (induction rule: converse_rtranclp_induct)
    case base
    then show ?case using that(2) lfp_member [OF mono, of t] by simp
  next
    case (step x y)
    then show ?case using S(1) lfp_member [OF mono, of x] unfolding dia_def by blast
  qed
  then show "eu S R A B \<subseteq> lfp ?F" by (auto simp: eu_def)
qed

lemma ef_lfp:
  assumes "closed_under R S" "A \<subseteq> S"
  shows "lfp (\<lambda>X. A \<union> dia S R X) = ef S R A"
proof -
  have "S \<inter> dia S R X = dia S R X" for X by (auto simp: dia_def)
  moreover have "eu S R S A = ef S R A"
  proof -
    have "(\<lambda>x y. x \<in> S \<and> R x y)\<^sup>*\<^sup>* s t" if "R\<^sup>*\<^sup>* s t" "s \<in> S" for s t
      using that
    proof (induction rule: converse_rtranclp_induct)
      case (step x y)
      then have "(\<lambda>x y. x \<in> S \<and> R x y) x y" "(\<lambda>x y. x \<in> S \<and> R x y)\<^sup>*\<^sup>* y t" using assms(1) by auto
      then show ?case by (rule converse_rtranclp_into_rtranclp)
    qed simp
    moreover have "R\<^sup>*\<^sup>* s t" if "(\<lambda>x y. x \<in> S \<and> R x y)\<^sup>*\<^sup>* s t" for s t
      using that by (rule mono_rtranclp [rule_format, rotated]) auto
    ultimately show ?thesis unfolding eu_def ef_def by blast
  qed
  ultimately show ?thesis using eu_lfp [OF assms, of S] by simp
qed

lemma ag_gfp:
  assumes "closed_under R S"
  shows "gfp (\<lambda>X. S \<inter> (A \<inter> box S R X)) = ag S R A" (is "gfp ?F = _")
proof
  have mono: "mono ?F" by (auto simp: mono_def box_def)
  have "t \<in> gfp ?F" if "R\<^sup>*\<^sup>* s t" "s \<in> gfp ?F" for s t
    using that
  proof (induction rule: rtranclp_induct)
    case (step y z)
    then show ?case using gfp_memberD [OF mono, of y] unfolding box_def by blast
  qed
  then show "gfp ?F \<subseteq> ag S R A" using gfp_memberD [OF mono] unfolding ag_def by blast
  have "t \<in> ag S R A" if "s \<in> ag S R A" "R s t" for s t
    using that assms converse_rtranclp_into_rtranclp [of R s t] unfolding ag_def by blast
  moreover have "ag S R A \<subseteq> A" "ag S R A \<subseteq> S" by (auto simp: ag_def)
  ultimately show "ag S R A \<subseteq> gfp ?F" by (intro gfp_upperbound) (auto simp: box_def)
qed

lemma branching_subset: "(\<And>p. P p \<subseteq> S) \<Longrightarrow> branching R S P f \<subseteq> S"
  by (induction f) (auto simp: box_def ag_def ef_def eu_def)

subsection \<open>The arena\<close>

abbreviation tnodes :: "translator \<Rightarrow> node list" where
  "tnodes s \<equiv> fb_nodes (tr_builder s)"

definition means :: "clts \<Rightarrow> environment \<Rightarrow> fml \<Rightarrow> nat set \<Rightarrow> bool" where
  "means c env t X \<longleftrightarrow> fv t = {} \<and> positive t \<and> plain_formula t \<and> (\<forall>\<rho>. sem (kripke c env) t \<rho> = X)"

definition has :: "clts \<Rightarrow> environment \<Rightarrow> translator \<Rightarrow> nat \<Rightarrow> nat set \<Rightarrow> bool" where
  \<comment> \<open>node \<open>i\<close> is the root of a closed formula with value \<open>X\<close>\<close>
  "has c env s i X \<longleftrightarrow> (\<exists>t. arena_tree (tnodes s) i t \<and> means c env t X)"

definition after :: "translator \<Rightarrow> translator \<Rightarrow> bool" where
  "after s s' \<longleftrightarrow> wf_nodes (tnodes s') \<and> prefix (tnodes s) (tnodes s')"

lemma has_mono: "has c env s i X \<Longrightarrow> after s s' \<Longrightarrow> has c env s' i X"
  by (auto simp: has_def after_def intro: arena_tree_prefix)

lemma after_trans: "after s s' \<Longrightarrow> after s' s'' \<Longrightarrow> after s s''"
  by (auto simp: after_def)

lemma has_less: "has c env s i X \<Longrightarrow> i < length (tnodes s)"
  by (auto simp: has_def intro: arena_tree_less)

lemma tr_push_eq: "tr_push nd s = (length (tnodes s), s\<lparr>tr_builder := (tr_builder s)\<lparr>fb_nodes := tnodes s @ [nd]\<rparr>\<rparr>)"
  by (simp add: tr_push_def push_node_def)

lemma push_after:
  assumes "wf_nodes (tnodes s)" "\<forall>j \<in> set (children nd). j < length (tnodes s)"
  shows "after s (snd (tr_push nd s))"
  using wf_nodes_snoc [OF assms] by (simp add: after_def tr_push_eq)

lemma means_simps:
  "means c env FTrue (states c)" "means c env FFalse {}" "means c env (FPred p) (atom_value c env p)"
  "means c env t X \<Longrightarrow> means c env (FNot t) (states c - X)"
  "means c env t X \<Longrightarrow> means c env u Y \<Longrightarrow> means c env (FAnd t u) (X \<inter> Y)"
  "means c env t X \<Longrightarrow> means c env u Y \<Longrightarrow> means c env (FOr t u) (X \<union> Y)"
  "means c env t X \<Longrightarrow> means c env (FModal Box guard_default t) (box (states c) (step c) X)"
  by (auto simp: means_def)

lemma means_fixpoints:
  assumes "means c env t X"
  shows "means c env (FNu v (FAnd t (FModal Box guard_default (FVar v)))) (gfp (\<lambda>Y. states c \<inter> (X \<inter> box (states c) (step c) Y)))"
    "means c env (FMu v (FOr t (FModal Diamond guard_default (FVar v)))) (lfp (\<lambda>Y. X \<union> dia (states c) (step c) Y))"
    "means c env u Z \<Longrightarrow> means c env (FMu v (FOr u (FAnd t (FModal Diamond guard_default (FVar v))))) (lfp (\<lambda>Y. Z \<union> (X \<inter> dia (states c) (step c) Y)))"
  using assms by (auto simp: means_def polar_fresh)

definition pushed :: "clts \<Rightarrow> environment \<Rightarrow> translator \<Rightarrow> nat \<times> translator \<Rightarrow> nat set \<Rightarrow> bool" where
  "pushed c env s r X \<longleftrightarrow> (case r of (i, s') \<Rightarrow> after s s' \<and> has c env s' i X)"

lemma pushedI:
  assumes "wf_nodes (tnodes s)" "\<forall>j \<in> set (children nd). j < length (tnodes s)"
    "arena_tree (tnodes s @ [nd]) (length (tnodes s)) t" "means c env t X"
  shows "pushed c env s (tr_push nd s) X"
  using push_after [OF assms(1,2)] assms(3,4) by (auto simp: pushed_def tr_push_eq has_def)

lemma pushed_leaf:
  assumes "wf_nodes (tnodes s)"
  shows "pushed c env s (tr_push NTrue s) (states c)" "pushed c env s (tr_push NFalse s) {}"
    "pushed c env s (tr_push (NPredicate p) s) (atom_value c env p)"
  by (rule pushedI [OF assms _ arena_push(1) means_simps(1)], simp)
    (rule pushedI [OF assms _ arena_push(2) means_simps(2)], simp,
     rule pushedI [OF assms _ arena_push(3) means_simps(3)], simp)

lemma pushed_unary:
  assumes "wf_nodes (tnodes s)" "has c env s i X"
  shows "pushed c env s (tr_push (NNot i) s) (states c - X)" "pushed c env s (box_modal i s) (box (states c) (step c) X)"
proof -
  obtain t where t: "arena_tree (tnodes s) i t" "means c env t X" using assms(2) by (auto simp: has_def)
  show "pushed c env s (tr_push (NNot i) s) (states c - X)"
    by (rule pushedI [OF assms(1) _ arena_push(5) [OF t(1)] means_simps(4) [OF t(2)]]) (use has_less [OF assms(2)] in simp)
  show "pushed c env s (box_modal i s) (box (states c) (step c) X)" unfolding box_modal_def
    by (rule pushedI [OF assms(1) _ arena_push(8) [OF t(1)] means_simps(7) [OF t(2)]]) (use has_less [OF assms(2)] in simp)
qed

lemma pushed_binary:
  assumes "wf_nodes (tnodes s)" "has c env s i X" "has c env s j Y"
  shows "pushed c env s (tr_push (NAnd i j) s) (X \<inter> Y)" "pushed c env s (tr_push (NOr i j) s) (X \<union> Y)"
proof -
  obtain t u where t: "arena_tree (tnodes s) i t" "means c env t X" and u: "arena_tree (tnodes s) j u" "means c env u Y"
    using assms(2,3) by (auto simp: has_def)
  note lt = has_less [OF assms(2)] has_less [OF assms(3)]
  show "pushed c env s (tr_push (NAnd i j) s) (X \<inter> Y)"
    by (rule pushedI [OF assms(1) _ arena_push(6) [OF t(1) u(1)] means_simps(5) [OF t(2) u(2)]]) (use lt in simp)
  show "pushed c env s (tr_push (NOr i j) s) (X \<union> Y)"
    by (rule pushedI [OF assms(1) _ arena_push(7) [OF t(1) u(1)] means_simps(6) [OF t(2) u(2)]]) (use lt in simp)
qed

text \<open>The fixpoint templates, node by node.\<close>

lemma new_var_eq: "\<exists>b. new_fixpoint_var p s = (length (fb_vars (tr_builder s)), b) \<and> tnodes b = tnodes s"
  by (simp add: new_fixpoint_var_def push_var_def)

lemma pushed_fixpoint:
  assumes "fst r = length ns" "tnodes (snd r) = ns @ [nd]" "wf_nodes (tnodes s)" "prefix (tnodes s) ns"
    "wf_nodes (ns @ [nd])" "arena_tree (ns @ [nd]) (length ns) t" "means c env t X"
  shows "pushed c env s r X"
  using assms by (auto simp: pushed_def after_def has_def case_prod_beta)

lemma pushed_nu_box:
  assumes "wf_nodes (tnodes s)" "has c env s i X"
  shows "pushed c env s (nu_box p i s) (gfp (\<lambda>Y. states c \<inter> (X \<inter> box (states c) (step c) Y)))"
proof -
  obtain t where t: "arena_tree (tnodes s) i t" "means c env t X" using assms(2) by (auto simp: has_def)
  obtain v b where b: "new_fixpoint_var p s = (v, b)" "tnodes b = tnodes s" using new_var_eq [of p s] by blast
  let ?n = "length (tnodes s)"
  show ?thesis
  proof (rule pushed_fixpoint [OF _ _ assms(1) _ _ _ means_fixpoints(1) [OF t(2), of v]])
    show "fst (nu_box p i s) = length (tnodes s @ [NVariable v, NModal Box guard_default ?n, NAnd i (Suc ?n)])"
      "tnodes (snd (nu_box p i s)) = (tnodes s @ [NVariable v, NModal Box guard_default ?n, NAnd i (Suc ?n)]) @ [NNu v (Suc (Suc ?n))]"
      by (simp_all add: nu_box_def b tr_push_eq box_modal_def)
    show "wf_nodes ((tnodes s @ [NVariable v, NModal Box guard_default ?n, NAnd i (Suc ?n)]) @ [NNu v (Suc (Suc ?n))])"
      using assms(1) has_less [OF assms(2)] by (auto simp: wf_nodes_def nth_append nth_Cons' less_Suc_eq)
    show "arena_tree ((tnodes s @ [NVariable v, NModal Box guard_default ?n, NAnd i (Suc ?n)]) @ [NNu v (Suc (Suc ?n))])
        (length (tnodes s @ [NVariable v, NModal Box guard_default ?n, NAnd i (Suc ?n)])) (FNu v (FAnd t (FModal Box guard_default (FVar v))))"
      using arena_push(10) [OF arena_push(6) [OF arena_snoc [OF arena_snoc [OF t(1)]] arena_push(8) [OF arena_push(4) [of "tnodes s" v], of Box guard_default]], of v]
      by simp
  qed simp
qed

lemma pushed_mu_diamond:
  assumes "wf_nodes (tnodes s)" "has c env s i X"
  shows "pushed c env s (mu_diamond p i s) (lfp (\<lambda>Y. X \<union> dia (states c) (step c) Y))"
proof -
  obtain t where t: "arena_tree (tnodes s) i t" "means c env t X" using assms(2) by (auto simp: has_def)
  obtain v b where b: "new_fixpoint_var p s = (v, b)" "tnodes b = tnodes s" using new_var_eq [of p s] by blast
  let ?n = "length (tnodes s)"
  show ?thesis
  proof (rule pushed_fixpoint [OF _ _ assms(1) _ _ _ means_fixpoints(2) [OF t(2), of v]])
    show "fst (mu_diamond p i s) = length (tnodes s @ [NVariable v, NModal Diamond guard_default ?n, NOr i (Suc ?n)])"
      "tnodes (snd (mu_diamond p i s)) = (tnodes s @ [NVariable v, NModal Diamond guard_default ?n, NOr i (Suc ?n)]) @ [NMu v (Suc (Suc ?n))]"
      by (simp_all add: mu_diamond_def b tr_push_eq diamond_modal_def)
    show "wf_nodes ((tnodes s @ [NVariable v, NModal Diamond guard_default ?n, NOr i (Suc ?n)]) @ [NMu v (Suc (Suc ?n))])"
      using assms(1) has_less [OF assms(2)] by (auto simp: wf_nodes_def nth_append nth_Cons' less_Suc_eq)
    show "arena_tree ((tnodes s @ [NVariable v, NModal Diamond guard_default ?n, NOr i (Suc ?n)]) @ [NMu v (Suc (Suc ?n))])
        (length (tnodes s @ [NVariable v, NModal Diamond guard_default ?n, NOr i (Suc ?n)])) (FMu v (FOr t (FModal Diamond guard_default (FVar v))))"
      using arena_push(9) [OF arena_push(7) [OF arena_snoc [OF arena_snoc [OF t(1)]] arena_push(8) [OF arena_push(4) [of "tnodes s" v], of Diamond guard_default]], of v]
      by simp
  qed simp
qed

lemma pushed_until:
  assumes "wf_nodes (tnodes s)" "has c env s i X" "has c env s j Z"
  shows "\<exists>r. translate_until_internal i j s = Ok r \<and> pushed c env s r (lfp (\<lambda>Y. Z \<union> (X \<inter> dia (states c) (step c) Y)))"
proof -
  obtain t u where t: "arena_tree (tnodes s) i t" "means c env t X" and u: "arena_tree (tnodes s) j u" "means c env u Z"
    using assms(2,3) by (auto simp: has_def)
  obtain v b where b: "new_fixpoint_var ''X'' s = (v, b)" "tnodes b = tnodes s" using new_var_eq [of "''X''" s] by blast
  let ?n = "length (tnodes s)"
  let ?ns = "tnodes s @ [NVariable v, NModal Diamond guard_default ?n, NAnd i (Suc ?n), NOr j (Suc (Suc ?n))]"
  obtain r where r: "translate_until_internal i j s = Ok r" "fst r = length ?ns" "tnodes (snd r) = ?ns @ [NMu v (Suc (Suc (Suc ?n)))]"
    by (simp add: translate_until_internal_def b tr_push_eq diamond_modal_def)
  have "pushed c env s r (lfp (\<lambda>Y. Z \<union> (X \<inter> dia (states c) (step c) Y)))"
  proof (rule pushed_fixpoint [OF r(2,3) assms(1) _ _ _ means_fixpoints(3) [OF t(2) u(2), of v]])
    show "wf_nodes (?ns @ [NMu v (Suc (Suc (Suc ?n)))])"
      using assms(1) has_less [OF assms(2)] has_less [OF assms(3)] by (auto simp: wf_nodes_def nth_append nth_Cons' less_Suc_eq)
    have "arena_tree (((tnodes s @ [NVariable v]) @ [NModal Diamond guard_default ?n]) @ [NAnd i (length (tnodes s @ [NVariable v]))])
        (length ((tnodes s @ [NVariable v]) @ [NModal Diamond guard_default ?n])) (FAnd t (FModal Diamond guard_default (FVar v)))"
      by (rule arena_push(6) [OF arena_snoc [OF arena_snoc [OF t(1)]] arena_push(8) [OF arena_push(4)]])
    from arena_push(9) [OF arena_push(7) [OF arena_snoc [OF arena_snoc [OF arena_snoc [OF u(1)]]] this], of v]
    show "arena_tree (?ns @ [NMu v (Suc (Suc (Suc ?n)))]) (length ?ns) (FMu v (FOr u (FAnd t (FModal Diamond guard_default (FVar v)))))"
      by simp
  qed simp
  then show ?thesis using r(1) by blast
qed

text \<open>Translations compose.\<close>

definition translates :: "clts \<Rightarrow> environment \<Rightarrow> (translator \<Rightarrow> translated) \<Rightarrow> nat set \<Rightarrow> bool" where
  "translates c env F X \<longleftrightarrow> (\<forall>s. wf_nodes (tnodes s) \<longrightarrow> (\<exists>r. F s = Ok r \<and> pushed c env s r X))"

lemma translatesE:
  assumes "translates c env F X" "wf_nodes (tnodes s)"
  obtains i s' where "F s = Ok (i, s')" "after s s'" "has c env s' i X" "wf_nodes (tnodes s')"
  using assms unfolding translates_def pushed_def after_def by (metis (no_types, lifting) case_prodE)

lemma pushed_after: "after s s' \<Longrightarrow> pushed c env s' r X \<Longrightarrow> pushed c env s r X"
  by (auto simp: pushed_def intro: after_trans)

lemma translates_unary:
  assumes "translates c env F X" "\<And>s i. wf_nodes (tnodes s) \<Longrightarrow> has c env s i X \<Longrightarrow> \<exists>r. g i s = Ok r \<and> pushed c env s r Y"
  shows "translates c env (\<lambda>s. rbind (F s) (\<lambda>(i, s1). g i s1)) Y"
  unfolding translates_def
proof (intro allI impI)
  fix s assume s: "wf_nodes (tnodes s)"
  obtain i s' where "F s = Ok (i, s')" "after s s'" "has c env s' i X" "wf_nodes (tnodes s')" by (rule translatesE [OF assms(1) s])
  then show "\<exists>r. rbind (F s) (\<lambda>(i, s1). g i s1) = Ok r \<and> pushed c env s r Y" using assms(2) [of s' i] pushed_after by auto
qed

lemma translates_binary:
  assumes "translates c env F X" "translates c env G Y"
    "\<And>s i j. wf_nodes (tnodes s) \<Longrightarrow> has c env s i X \<Longrightarrow> has c env s j Y \<Longrightarrow> \<exists>r. h i j s = Ok r \<and> pushed c env s r Z"
  shows "translates c env (\<lambda>s. rbind (F s) (\<lambda>(i, s1). rbind (G s1) (\<lambda>(j, s2). h i j s2))) Z"
proof (rule translates_unary [OF assms(1)])
  fix s i assume s: "wf_nodes (tnodes s)" "has c env s i X"
  obtain j s' where "G s = Ok (j, s')" "after s s'" "has c env s' j Y" "wf_nodes (tnodes s')" by (rule translatesE [OF assms(2) s(1)])
  then show "\<exists>r. rbind (G s) (\<lambda>(j, s2). h i j s2) = Ok r \<and> pushed c env s r Z"
    using assms(3) [of s' i j] has_mono [OF s(2)] pushed_after by auto
qed

lemma push_then:
  \<comment> \<open>one more node before the last step\<close>
  assumes "pushed c env s r W" "\<And>s' n. r = (n, s') \<Longrightarrow> wf_nodes (tnodes s') \<Longrightarrow> after s s' \<Longrightarrow> has c env s' n W \<Longrightarrow> \<exists>q. g n s' = Ok q \<and> pushed c env s' q Z"
  shows "\<exists>q. (case r of (n, s') \<Rightarrow> g n s') = Ok q \<and> pushed c env s q Z"
  using assms by (cases r) (fastforce simp: pushed_def after_def intro: after_trans [unfolded after_def])

lemma translate_always_ok:
  assumes "translates c env F X" "closed_under (step c) (states c)"
  shows "translates c env (translate_always F) (ag (states c) (step c) X)"
proof -
  have "translates c env (\<lambda>s. rbind (F s) (\<lambda>(i, s1). Ok (nu_box ''X'' i s1))) (ag (states c) (step c) X)"
    by (rule translates_unary [OF assms(1)]) (simp add: pushed_nu_box ag_gfp [OF assms(2), symmetric])
  then show ?thesis by (simp add: translate_always_def [abs_def])
qed

lemma translate_eventually_ok:
  assumes "translates c env F X" "closed_under (step c) (states c)" "X \<subseteq> states c"
  shows "translates c env (translate_eventually F) (ef (states c) (step c) X)"
proof -
  have "translates c env (\<lambda>s. rbind (F s) (\<lambda>(i, s1). translate_eventually_internal i s1)) (ef (states c) (step c) X)"
    by (rule translates_unary [OF assms(1)]) (simp add: pushed_mu_diamond ef_lfp [OF assms(2,3), symmetric] translate_eventually_internal_def)
  then show ?thesis by (simp add: translate_eventually_def [abs_def])
qed

lemma translate_until_ok:
  assumes "translates c env F X" "translates c env G Z" "closed_under (step c) (states c)" "Z \<subseteq> states c"
  shows "translates c env (translate_until F G) (eu (states c) (step c) X Z)"
proof -
  have "translates c env (\<lambda>s. rbind (F s) (\<lambda>(i, s1). rbind (G s1) (\<lambda>(j, s2). translate_until_internal i j s2))) (eu (states c) (step c) X Z)"
    by (rule translates_binary [OF assms(1,2)]) (unfold eu_lfp [OF assms(3,4), symmetric], rule pushed_until)
  then show ?thesis by (simp add: translate_until_def [abs_def])
qed

lemma until_negated:
  assumes "wf_nodes (tnodes s)" "has c env s m X" "has c env s n Z" "closed_under (step c) (states c)" "Z \<subseteq> states c"
  shows "\<exists>r. rbind (translate_until_internal m n s) (\<lambda>(u, s5). Ok (tr_push (NNot u) s5)) = Ok r
    \<and> pushed c env s r (states c - eu (states c) (step c) X Z)"
proof -
  obtain u s5 where 5: "translate_until_internal m n s = Ok (u, s5)" "pushed c env s (u, s5) (eu (states c) (step c) X Z)"
    using pushed_until [OF assms(1-3)] eu_lfp [OF assms(4,5)] by auto
  then have "pushed c env s5 (tr_push (NNot u) s5) (states c - eu (states c) (step c) X Z)"
    by (intro pushed_unary(1)) (auto simp: pushed_def after_def)
  then show ?thesis using 5 pushed_after [of s s5] by (auto simp: pushed_def [of c env s "(u, s5)"])
qed

lemma release_ok:
  assumes "wf_nodes (tnodes s)" "has c env s i X" "has c env s j Y" "closed_under (step c) (states c)"
  shows "\<exists>r. (case tr_push (NNot i) s of (m, s3) \<Rightarrow> case tr_push (NNot j) s3 of (n, s4) \<Rightarrow>
      rbind (translate_until_internal m n s4) (\<lambda>(u, s5). Ok (tr_push (NNot u) s5))) = Ok r
    \<and> pushed c env s r (states c - eu (states c) (step c) (states c - X) (states c - Y))"
proof (rule push_then [OF pushed_unary(1) [OF assms(1,2)]])
  fix s3 m assume 3: "wf_nodes (tnodes s3)" "after s s3" "has c env s3 m (states c - X)"
  show "\<exists>r. (case tr_push (NNot j) s3 of (n, s4) \<Rightarrow> rbind (translate_until_internal m n s4) (\<lambda>(u, s5). Ok (tr_push (NNot u) s5))) = Ok r
      \<and> pushed c env s3 r (states c - eu (states c) (step c) (states c - X) (states c - Y))"
    by (rule push_then [OF pushed_unary(1) [OF 3(1) has_mono [OF assms(3) 3(2)]]])
      (rule until_negated, use 3(3) assms(4) in \<open>auto intro: has_mono\<close>)
qed

lemma response_ok:
  assumes "wf_nodes (tnodes s)" "has c env s i X" "has c env s j Y" "closed_under (step c) (states c)" "Y \<subseteq> states c"
  shows "\<exists>r. (case tr_push (NNot i) s of (m, s3) \<Rightarrow> rbind (translate_eventually_internal j s3) (\<lambda>(e, s4).
      case tr_push (NOr m e) s4 of (q, s5) \<Rightarrow> Ok (nu_box ''X'' q s5))) = Ok r
    \<and> pushed c env s r (ag (states c) (step c) ((states c - X) \<union> ef (states c) (step c) Y))"
proof (rule push_then [OF pushed_unary(1) [OF assms(1,2)]])
  fix s3 m assume 3: "wf_nodes (tnodes s3)" "after s s3" "has c env s3 m (states c - X)"
  obtain e s4 where e: "mu_diamond ''X'' j s3 = (e, s4)" by fastforce
  have 4: "after s3 s4" "has c env s4 e (ef (states c) (step c) Y)" "wf_nodes (tnodes s4)"
    using pushed_mu_diamond [OF 3(1) has_mono [OF assms(3) 3(2)], of "''X''"] e ef_lfp [OF assms(4,5)] by (auto simp: pushed_def after_def)
  have "\<exists>r. (case tr_push (NOr m e) s4 of (q, s5) \<Rightarrow> Ok (nu_box ''X'' q s5)) = Ok r
      \<and> pushed c env s4 r (ag (states c) (step c) ((states c - X) \<union> ef (states c) (step c) Y))"
    by (rule push_then [OF pushed_binary(2) [OF 4(3) has_mono [OF 3(3) 4(1)] 4(2)]]) (simp add: pushed_nu_box ag_gfp [OF assms(4), symmetric])
  then show "\<exists>r. rbind (translate_eventually_internal j s3) (\<lambda>(e, s4). case tr_push (NOr m e) s4 of (q, s5) \<Rightarrow> Ok (nu_box ''X'' q s5)) = Ok r
      \<and> pushed c env s3 r (ag (states c) (step c) ((states c - X) \<union> ef (states c) (step c) Y))"
    using e pushed_after [OF 4(1)] by (simp add: translate_eventually_internal_def del: split_paired_Ex) blast
qed

lemma implies_ok:
  assumes "wf_nodes (tnodes s)" "has c env s i X" "has c env s j Y"
  shows "\<exists>r. (case tr_push (NNot i) s of (n, s3) \<Rightarrow> Ok (tr_push (NOr n j) s3)) = Ok r \<and> pushed c env s r ((states c - X) \<union> Y)"
  by (rule push_then [OF pushed_unary(1) [OF assms(1,2)]]) (simp add: pushed_binary(2) has_mono [OF assms(3)])

lemma branching_le: "env_fits env c \<Longrightarrow> branching (step c) (states c) (atom_value c env) f \<subseteq> states c"
  by (rule branching_subset) (rule std_pred_le(1))

lemma ef_le: "ef S R A \<subseteq> S" and ag_le: "ag S R A \<subseteq> S"
  by (auto simp: ef_def ag_def)

lemma translate_formula_ok:
  assumes S: "closed_under (step c) (states c)" and env: "env_fits env c"
  shows "translates c env (translate_formula f) (branching (step c) (states c) (atom_value c env) f)"
proof (induction f)
  case (LNot f)
  show ?case unfolding translate_formula.simps branching.simps
    by (rule translates_unary [OF LNot]) (simp add: pushed_unary)
next
  case (LAnd f g)
  show ?case unfolding translate_formula.simps branching.simps
    by (rule translates_binary [OF LAnd]) (simp add: pushed_binary)
next
  case (LOr f g)
  show ?case unfolding translate_formula.simps branching.simps
    by (rule translates_binary [OF LOr]) (simp add: pushed_binary)
next
  case (LImplies f g)
  show ?case unfolding translate_formula.simps branching.simps
    by (rule translates_binary [OF LImplies]) (rule implies_ok)
next
  case (LNext f)
  show ?case unfolding translate_formula.simps branching.simps
    by (rule translates_unary [OF LNext]) (simp add: pushed_unary)
next
  case (LWeakUntil f g)
  show ?case unfolding translate_formula.simps branching.simps
    by (rule translates_binary [OF translate_until_ok [OF LWeakUntil S branching_le [OF env]] translate_always_ok [OF LWeakUntil(1) S]])
      (simp add: pushed_binary)
next
  case (LRelease f g)
  show ?case unfolding translate_formula.simps branching.simps Let_def
    by (rule translates_binary [OF LRelease]) (rule release_ok [OF _ _ _ S])
next
  case (LRecurrence f)
  show ?case unfolding translate_formula.simps branching.simps
    by (rule translates_unary [OF translate_eventually_ok [OF LRecurrence S branching_le [OF env]]])
      (simp add: pushed_nu_box ag_gfp [OF S, symmetric])
next
  case (LStabilization f)
  show ?case unfolding translate_formula.simps branching.simps
    by (rule translates_unary [OF translate_always_ok [OF LStabilization S]])
      (simp add: pushed_mu_diamond ef_lfp [OF S ag_le, symmetric])
next
  case (LResponse f g)
  show ?case unfolding translate_formula.simps branching.simps
    by (rule translates_binary [OF LResponse]) (rule response_ok [OF _ _ _ S branching_le [OF env]])
next
  case (LAlways f)
  then show ?case by (simp add: translate_always_ok [OF _ S])
next
  case (LEventually f)
  then show ?case by (simp add: translate_eventually_ok [OF _ S branching_le [OF env]])
next
  case (LUntil f g)
  then show ?case by (simp add: translate_until_ok [OF _ _ S branching_le [OF env]])
qed (simp_all add: translates_def pushed_leaf)

text \<open>
  C16: The some-path translation is total and computes the reading it documents. For every LTL formula
  \<open>translate_existential\<close> returns a formula, and on every well-formed model evaluating it returns the states
  of the branching reading: \<open>X\<close> over all successors, \<open>G\<close> over all reachable states, \<open>F\<close> and \<open>U\<close> along some
  finite path, \<open>W\<close> as \<open>U\<close> or \<open>G\<close>, \<open>R\<close> as the complement of \<open>U\<close> of complements, negation as complement.
\<close>

theorem translate_existential_branching:
  assumes "wf_clts c" "simple_clts c" "no_oob c" "env_fits env c"
  shows "\<exists>g. translate_existential f = Ok g \<and> (\<exists>K. \<forall>k \<ge> K. \<exists>bits. evaluate k g c env = Ok bits
    \<and> length bits = state_count c \<and> bset bits = branching (step c) (states c) (atom_value c env) f)"
proof -
  have S: "closed_under (step c) (states c)" using wf_target [OF assms(1)] by (auto simp: step_def)
  have wf: "wf_nodes (tnodes translator_new)" by (simp add: translator_new_def formula_builder_default_def wf_nodes_def)
  obtain i s where s: "translate_formula f translator_new = Ok (i, s)" "wf_nodes (tnodes s)"
      "has c env s i (branching (step c) (states c) (atom_value c env) f)"
    using translatesE [OF translate_formula_ok [OF S assms(4), of f] wf] by metis
  obtain t where t: "arena_tree (tnodes s) i t" "means c env t (branching (step c) (states c) (atom_value c env) f)"
    using s(3) by (auto simp: has_def)
  let ?g = "into_formula (tr_builder s) i"
  have prior: "no_prior options_default t" by (simp add: no_prior_def options_default_def)
  have "\<exists>bits. evaluate k ?g c env = Ok bits \<and> length bits = state_count c \<and> bset bits = branching (step c) (states c) (atom_value c env) f"
    if "need (state_count c) t \<le> k" for k
    using bool_result [OF assms arena_tree_tree [OF s(2) t(1)] _ _ prior that] t(2) unfolding means_def evaluate_def by metis
  moreover have "translate_existential f = Ok ?g" using s(1) by (simp add: translate_existential_def)
  ultimately show ?thesis by blast
qed

theorem translate_existential_branching_witness:
  "\<exists>g k bits. translate_existential (LResponse (LPredicate ''p'') (LPredicate ''p'')) = Ok g \<and> evaluate k g ex_clts ex_env = Ok bits
    \<and> bset bits = branching (step ex_clts) (states ex_clts) (atom_value ex_clts ex_env) (LResponse (LPredicate ''p'') (LPredicate ''p''))"
  using translate_existential_branching [OF ex_wf ex_simple ex_no_oob ex_fits, of "LResponse (LPredicate ''p'') (LPredicate ''p'')"] by blast

end
