(* ===== verification/Gr1.thy ===== *)
theory Gr1
  imports Clts Mu_Semantics
begin

section \<open>GR(1) games\<close>

text \<open>
  Models \<^verbatim>\<open>mu_calculus/gr1.rs\<close>: the controllable predecessor on the states of a plant, the winning regions
  of safety, reachability, B\"uchi and GR(1) objectives as iterated fixpoints, attractor ranks and the
  extraction of strategies. A \<open>StateSet\<close> is a bit vector with a bit per state of the plant. Each
  \<^verbatim>\<open>loop\<close> is \<open>fix_loop\<close>, which runs on fuel.
\<close>

type_synonym state_set = bitvec

definition full :: "nat \<Rightarrow> state_set" where
  "full n = bv_repeat True n"

definition empty :: "nat \<Rightarrow> state_set" where
  "empty n = bv_repeat False n"

definition eve_owned :: "clts \<Rightarrow> nat \<Rightarrow> bool" where
  "eve_owned c s \<longleftrightarrow> list_ex (is_controllable c) (outgoing c s)"

definition cpre :: "clts \<Rightarrow> state_set \<Rightarrow> state_set \<Rightarrow> state_set" where
  "cpre c safe target = bv_of (state_count c) (\<lambda>s.
     bit_is_set safe s \<and> outgoing c s \<noteq> []
     \<and> (if eve_owned c s
        then list_ex (\<lambda>t. bit_is_set target (t_target t)) (filter (is_controllable c) (outgoing c s))
        else list_all (\<lambda>t. bit_is_set target (t_target t)) (outgoing c s)))"

fun fix_loop :: "nat \<Rightarrow> ('a \<Rightarrow> (unit, 'a) res) \<Rightarrow> 'a \<Rightarrow> (unit, 'a) res" where
  \<comment> \<open>\<open>loop { let next = f(x); if next == x { return x; } x = next; }\<close>\<close>
  "fix_loop 0 f x = OutOfFuel"
| "fix_loop (Suc k) f x = rbind (f x) (\<lambda>y. if y = x then Ok x else fix_loop k f y)"

definition safety_region :: "nat \<Rightarrow> clts \<Rightarrow> state_set \<Rightarrow> (unit, state_set) res" where
  "safety_region k c safe = fix_loop k (\<lambda>x. Ok (cpre c safe x)) (full (state_count c))"

definition reach :: "nat \<Rightarrow> clts \<Rightarrow> state_set \<Rightarrow> state_set \<Rightarrow> (unit, state_set) res" where
  "reach k c safe target = fix_loop k (\<lambda>x. Ok (bv_or x (cpre c safe x))) (bv_and target safe)"

definition buchi :: "nat \<Rightarrow> clts \<Rightarrow> state_set \<Rightarrow> state_set \<Rightarrow> (unit, state_set) res" where
  "buchi k c safe f =
     fix_loop k (\<lambda>z. reach k c safe (bv_and f (cpre c safe z))) (bv_and (full (state_count c)) safe)"

definition gr1_nu_x :: "nat \<Rightarrow> clts \<Rightarrow> state_set \<Rightarrow> state_set \<Rightarrow> state_set \<Rightarrow> (unit, state_set) res" where
  "gr1_nu_x k c safe base a =
     fix_loop k (\<lambda>x. Ok (bv_or base (bv_and (bv_not a) (cpre c safe x)))) (bv_and (full (state_count c)) safe)"

fun disj_nu_x :: "nat \<Rightarrow> clts \<Rightarrow> state_set \<Rightarrow> state_set \<Rightarrow> state_set list \<Rightarrow> state_set \<Rightarrow> (unit, state_set) res" where
  \<comment> \<open>\<open>for a_i in env_fair { d |= gr1_nu_x(..); }\<close>\<close>
  "disj_nu_x k c safe base [] d = Ok d"
| "disj_nu_x k c safe base (a # as) d = rbind (gr1_nu_x k c safe base a) (\<lambda>nx. disj_nu_x k c safe base as (bv_or d nx))"

definition mu_y_disj :: "nat \<Rightarrow> clts \<Rightarrow> state_set \<Rightarrow> state_set \<Rightarrow> state_set list \<Rightarrow> state_set \<Rightarrow> (unit, state_set) res" where
  "mu_y_disj k c safe g_and_cprez env_fair y =
     (let base = bv_or g_and_cprez (cpre c safe y)
      in if env_fair = [] then Ok base else disj_nu_x k c safe base env_fair (empty (state_count c)))"

definition gr1_mu_y :: "nat \<Rightarrow> clts \<Rightarrow> state_set \<Rightarrow> state_set \<Rightarrow> state_set \<Rightarrow> state_set list \<Rightarrow> (unit, state_set) res" where
  "gr1_mu_y k c safe g z env_fair =
     (let g_and_cprez = bv_and g (cpre c safe z)
      in fix_loop k (\<lambda>y. rbind (mu_y_disj k c safe g_and_cprez env_fair y) (\<lambda>d. Ok (bv_or y d))) (empty (state_count c)))"

fun conj_mu_y :: "nat \<Rightarrow> clts \<Rightarrow> state_set \<Rightarrow> state_set \<Rightarrow> state_set list \<Rightarrow> state_set list \<Rightarrow> state_set \<Rightarrow> (unit, state_set) res" where
  \<comment> \<open>\<open>for g_j in sys_fair { z_next &= gr1_mu_y(..); }\<close>\<close>
  "conj_mu_y k c safe z env_fair [] z_next = Ok z_next"
| "conj_mu_y k c safe z env_fair (g # gs) z_next =
     rbind (gr1_mu_y k c safe g z env_fair) (\<lambda>y. conj_mu_y k c safe z env_fair gs (bv_and z_next y))"

definition gr1_win :: "nat \<Rightarrow> clts \<Rightarrow> state_set \<Rightarrow> state_set list \<Rightarrow> state_set list \<Rightarrow> (unit, state_set) res" where
  "gr1_win k c safe sys_fair env_fair =
     (if sys_fair = [] then safety_region k c safe
      else rbind (safety_region k c safe) (\<lambda>z0.
        fix_loop k (\<lambda>z. conj_mu_y k c safe z env_fair sys_fair (bv_and (full (state_count c)) safe)) z0))"

subsection \<open>Ranks and strategies\<close>

type_synonym ranks = "nat option list"

definition add_ranks :: "state_set \<Rightarrow> nat \<Rightarrow> ranks \<Rightarrow> ranks" where
  "add_ranks cp r rank = map2 (\<lambda>b x. if b \<and> x = None then Some r else x) cp rank"

fun reach_ranks_loop :: "nat \<Rightarrow> clts \<Rightarrow> state_set \<Rightarrow> nat \<Rightarrow> state_set \<Rightarrow> ranks \<Rightarrow> (unit, ranks) res" where
  "reach_ranks_loop 0 c arena r current rank = OutOfFuel"
| "reach_ranks_loop (Suc k) c arena r current rank =
     (let cp = cpre c arena current; rank1 = add_ranks cp (r + 1) rank
      in if rank1 = rank then Ok rank
         else reach_ranks_loop k c arena (r + 1) (bv_or current (map2 (\<lambda>b x. b \<and> x = None) cp rank)) rank1)"

definition gr1_reach_ranks :: "nat \<Rightarrow> clts \<Rightarrow> state_set \<Rightarrow> state_set \<Rightarrow> (unit, ranks) res" where
  "gr1_reach_ranks k c arena target =
     (let current = bv_and target arena
      in reach_ranks_loop k c arena 0 current (map (\<lambda>b. if b then Some 0 else None) current))"

fun rank_less :: "nat option \<Rightarrow> nat option \<Rightarrow> bool" where
  \<comment> \<open>comparison of \<open>unwrap_or(usize::MAX)\<close>\<close>
  "rank_less (Some a) (Some b) = (a < b)"
| "rank_less (Some a) None = True"
| "rank_less None b = False"

fun best_target :: "ranks \<Rightarrow> state_set \<Rightarrow> nat list \<Rightarrow> (nat option \<times> nat) option \<Rightarrow> (nat option \<times> nat) option" where
  \<comment> \<open>the scan over the targets of the controllable transitions\<close>
  "best_target rank z [] best = best"
| "best_target rank z (ti # ts) best =
     (if \<not> bit_is_set z ti then best_target rank z ts best
      else best_target rank z ts
        (case best of None \<Rightarrow> Some (rank ! ti, ti)
         | Some (br, bi) \<Rightarrow> if rank_less (rank ! ti) br then Some (rank ! ti, ti) else best))"

definition controllable_targets :: "clts \<Rightarrow> nat \<Rightarrow> nat list" where
  "controllable_targets c s = map t_target (filter (is_controllable c) (outgoing c s))"

definition gr1_strategy_single :: "nat \<Rightarrow> clts \<Rightarrow> state_set \<Rightarrow> state_set \<Rightarrow> (unit, nat \<rightharpoonup> nat) res" where
  "gr1_strategy_single k c z g =
     rbind (gr1_reach_ranks k c z (bv_and g (cpre c z z))) (\<lambda>rank.
       Ok (\<lambda>s. if s < state_count c \<and> bit_is_set z s \<and> eve_owned c s
               then map_option snd (best_target rank z (controllable_targets c s) None) else None))"

fun mu_y_ranks_loop :: "nat \<Rightarrow> (state_set \<Rightarrow> (unit, state_set) res) \<Rightarrow> nat \<Rightarrow> state_set \<Rightarrow> ranks \<Rightarrow> (unit, ranks) res" where
  "mu_y_ranks_loop 0 step r y rank = OutOfFuel"
| "mu_y_ranks_loop (Suc k) step r y rank =
     rbind (step y) (\<lambda>d.
       let y_next = bv_or y d; added = map2 (\<lambda>n p. n \<and> \<not> p) y_next y
       in if \<not> list_ex id added then Ok rank
          else mu_y_ranks_loop k step (r + 1) y_next (map2 (\<lambda>b x. if b then Some r else x) added rank))"

definition gr1_mu_y_ranks :: "nat \<Rightarrow> clts \<Rightarrow> state_set \<Rightarrow> state_set \<Rightarrow> state_set \<Rightarrow> state_set list \<Rightarrow> (unit, ranks) res" where
  "gr1_mu_y_ranks k c safe g z env_fair =
     (let g_and_cprez = bv_and g (cpre c safe z)
      in mu_y_ranks_loop k (mu_y_disj k c safe g_and_cprez env_fair) 0 (empty (state_count c)) (replicate (state_count c) None))"

record gr1_multi_strategy =
  ms_moves :: "nat \<times> nat \<rightharpoonup> nat \<times> nat"
  ms_n_modes :: nat

fun res_all :: "(unit, 'a) res list \<Rightarrow> (unit, 'a list) res" where
  "res_all [] = Ok []"
| "res_all (x # xs) = rbind x (\<lambda>a. rbind (res_all xs) (\<lambda>as. Ok (a # as)))"

definition gr1_strategy_multi ::
  "nat \<Rightarrow> clts \<Rightarrow> state_set \<Rightarrow> state_set \<Rightarrow> state_set list \<Rightarrow> state_set list \<Rightarrow> (unit, gr1_multi_strategy) res" where
  "gr1_strategy_multi k c safe z sys_fair env_fair =
     rbind (res_all (map (\<lambda>g. gr1_mu_y_ranks k c safe g z env_fair) sys_fair)) (\<lambda>ranks.
       let m = max (length sys_fair) 1
       in if sys_fair = [] \<and> list_ex (\<lambda>s. bit_is_set z s \<and> eve_owned c s \<and> list_ex (bit_is_set z) (controllable_targets c s)) [0..<state_count c]
          then Panic
          else Ok \<lparr>ms_moves = (\<lambda>(s, mode).
              if s < state_count c \<and> bit_is_set z s \<and> eve_owned c s \<and> mode < m
              then map_option (\<lambda>(r, ti). (ti, if bit_is_set (sys_fair ! mode) ti then (mode + 1) mod m else mode))
                (best_target (ranks ! mode) z (controllable_targets c s) None)
              else None),
            ms_n_modes = m\<rparr>)"

end
