(* ===== verification/Gr1_Fixpoint.thy ===== *)
theory Gr1_Fixpoint
  imports Gr1
begin

section \<open>The loops of the GR(1) solver compute their fixpoints\<close>

text \<open>
  The documented formulas of \<^verbatim>\<open>mu_calculus/gr1.rs\<close> as fixpoints on sets of states, over any monotone
  predecessor (the locale \<open>predecessor\<close>), and that each loop of the model returns, with fuel beyond the
  number of states, the bit vector of its formula.
\<close>

subsection \<open>The formulas\<close>

definition nu_x_set :: "('a set \<Rightarrow> 'a set) \<Rightarrow> 'a set \<Rightarrow> 'a set \<Rightarrow> 'a set" where
  "nu_x_set pre B A = gfp (\<lambda>X. B \<union> (pre X - A))"

definition mu_y_set :: "('a set \<Rightarrow> 'a set) \<Rightarrow> 'a set set \<Rightarrow> 'a set \<Rightarrow> 'a set \<Rightarrow> 'a set" where
  "mu_y_set pre As G Z = lfp (\<lambda>Y. \<Union>A\<in>As. nu_x_set pre (G \<inter> pre Z \<union> pre Y) A)"

definition gr1_set :: "('a set \<Rightarrow> 'a set) \<Rightarrow> 'a set set \<Rightarrow> 'a set set \<Rightarrow> 'a set" where
  "gr1_set pre Gs As = gfp (\<lambda>Z. \<Inter>G\<in>Gs. mu_y_set pre As G Z)"

definition buchi_set :: "('a set \<Rightarrow> 'a set) \<Rightarrow> 'a set \<Rightarrow> 'a set" where
  "buchi_set pre F = gfp (\<lambda>Z. lfp (\<lambda>Y. F \<inter> pre Z \<union> pre Y))"

locale predecessor =
  fixes pre :: "'a set \<Rightarrow> 'a set"
  assumes pre_mono: "mono pre"
begin

lemma pre_le: "X \<subseteq> Y \<Longrightarrow> pre X \<subseteq> pre Y"
  using pre_mono by (rule monoD)

lemma nu_x_body_mono: "mono (\<lambda>X. B \<union> (pre X - A))"
  by (rule monoI) (use pre_le in blast)

lemma nu_x_unfold: "nu_x_set pre B A = B \<union> (pre (nu_x_set pre B A) - A)"
  unfolding nu_x_set_def by (rule gfp_unfold [OF nu_x_body_mono])

lemma nu_x_le: "B \<subseteq> B' \<Longrightarrow> nu_x_set pre B A \<subseteq> nu_x_set pre B' A"
  unfolding nu_x_set_def by (rule gfp_mono) auto

lemma nu_x_iff: "s \<in> nu_x_set pre B A \<longleftrightarrow> s \<in> B \<or> s \<in> pre (nu_x_set pre B A) \<and> s \<notin> A"
  by (subst nu_x_unfold) blast

lemma nu_x_base: "B \<subseteq> nu_x_set pre B A"
  by (subst nu_x_unfold) blast

lemma mu_y_body_mono: "mono (\<lambda>Y. \<Union>A\<in>As. nu_x_set pre (C \<union> pre Y) A)"
proof (rule monoI)
  fix X Y :: "'a set" assume "X \<subseteq> Y"
  then have "nu_x_set pre (C \<union> pre X) A \<subseteq> nu_x_set pre (C \<union> pre Y) A" for A
    by (intro nu_x_le) (use pre_le in blast)
  then show "(\<Union>A\<in>As. nu_x_set pre (C \<union> pre X) A) \<subseteq> (\<Union>A\<in>As. nu_x_set pre (C \<union> pre Y) A)"
    by blast
qed

lemma mu_y_unfold: "mu_y_set pre As G Z = (\<Union>A\<in>As. nu_x_set pre (G \<inter> pre Z \<union> pre (mu_y_set pre As G Z)) A)"
  unfolding mu_y_set_def by (rule lfp_unfold [OF mu_y_body_mono])

lemma mu_y_iff:
  "s \<in> mu_y_set pre As G Z \<longleftrightarrow> (\<exists>A\<in>As. s \<in> nu_x_set pre (G \<inter> pre Z \<union> pre (mu_y_set pre As G Z)) A)"
  by (subst mu_y_unfold) blast

lemma nu_x_in_mu_y: "A \<in> As \<Longrightarrow> nu_x_set pre (G \<inter> pre Z \<union> pre (mu_y_set pre As G Z)) A \<subseteq> mu_y_set pre As G Z"
  by (subst (2) mu_y_unfold) blast

lemma mu_y_le: "Z \<subseteq> Z' \<Longrightarrow> mu_y_set pre As G Z \<subseteq> mu_y_set pre As G Z'"
proof -
  assume "Z \<subseteq> Z'"
  then have "nu_x_set pre (G \<inter> pre Z \<union> pre Y) A \<subseteq> nu_x_set pre (G \<inter> pre Z' \<union> pre Y) A" for A Y
    by (intro nu_x_le) (use pre_le in blast)
  then show ?thesis unfolding mu_y_set_def by (intro lfp_mono UN_mono order_refl)
qed

lemma gr1_body_mono: "mono (\<lambda>Z. \<Inter>G\<in>Gs. mu_y_set pre As G Z)"
  by (intro monoI INF_mono') (rule mu_y_le)

lemma gr1_unfold: "gr1_set pre Gs As = (\<Inter>G\<in>Gs. mu_y_set pre As G (gr1_set pre Gs As))"
  unfolding gr1_set_def by (rule gfp_unfold [OF gr1_body_mono])

lemma gr1_in_mu_y: "G \<in> Gs \<Longrightarrow> gr1_set pre Gs As \<subseteq> mu_y_set pre As G (gr1_set pre Gs As)"
  by (subst gr1_unfold) blast

text \<open>In the least fixpoint every state can step into it or meets the goal and steps into \<open>Z\<close>: waiting is
  absorbed, so each of the inner greatest fixpoints is the whole set.\<close>

lemma mu_y_cases: "mu_y_set pre As G Z \<subseteq> G \<inter> pre Z \<union> pre (mu_y_set pre As G Z)"
proof
  fix s
  let ?Y = "mu_y_set pre As G Z" and ?X = "nu_x_set pre (G \<inter> pre Z \<union> pre (mu_y_set pre As G Z))"
  assume "s \<in> ?Y"
  then obtain A where A: "A \<in> As" "s \<in> ?X A" by (subst (asm) mu_y_iff) blast
  have "pre (?X A) \<subseteq> pre ?Y" by (rule pre_le [OF nu_x_in_mu_y [OF A(1)]])
  with A(2) show "s \<in> G \<inter> pre Z \<union> pre ?Y" by (subst (asm) nu_x_iff) blast
qed

lemma mu_y_each:
  assumes "A \<in> As"
  shows "nu_x_set pre (G \<inter> pre Z \<union> pre (mu_y_set pre As G Z)) A = mu_y_set pre As G Z"
proof (rule antisym)
  show "mu_y_set pre As G Z \<subseteq> nu_x_set pre (G \<inter> pre Z \<union> pre (mu_y_set pre As G Z)) A"
    by (rule subset_trans [OF mu_y_cases nu_x_base])
qed (rule nu_x_in_mu_y [OF assms])

lemma mu_y_stays: "mu_y_set pre As G Z \<subseteq> pre (Z \<union> mu_y_set pre As G Z)"
  using mu_y_cases [of As G Z] pre_le [of Z "Z \<union> mu_y_set pre As G Z"]
    pre_le [of "mu_y_set pre As G Z" "Z \<union> mu_y_set pre As G Z"] by blast

lemma base_in_mu_y:
  assumes "As \<noteq> {}"
  shows "G \<inter> pre Z \<union> pre (mu_y_set pre As G Z) \<subseteq> mu_y_set pre As G Z"
proof -
  from assms obtain A where "A \<in> As" by blast
  then show ?thesis by (rule subset_trans [OF nu_x_base nu_x_in_mu_y])
qed

lemma mu_y_in_safety: "mu_y_set pre As G (gfp pre) \<subseteq> gfp pre"
proof -
  let ?W = "gfp pre \<union> mu_y_set pre As G (gfp pre)"
  have "gfp pre \<subseteq> pre ?W"
    by (subst gfp_unfold [OF pre_mono]) (rule pre_le, blast)
  then have "?W \<subseteq> pre ?W" using mu_y_stays by blast
  then show ?thesis using gfp_upperbound [of ?W pre] by blast
qed

lemma gr1_in_safety:
  assumes "Gs \<noteq> {}"
  shows "gr1_set pre Gs As \<subseteq> gfp pre"
proof -
  from assms obtain G where G: "G \<in> Gs" by blast
  let ?Z = "gr1_set pre Gs As" and ?Y = "mu_y_set pre As G (gr1_set pre Gs As)"
  have Z: "?Z \<subseteq> ?Y" by (rule gr1_in_mu_y [OF G])
  then have "?Z \<union> ?Y = ?Y" by blast
  then have "?Y \<subseteq> pre ?Y" using mu_y_stays [of As G ?Z] by simp
  then show ?thesis using gfp_upperbound [of ?Y pre] Z by blast
qed

text \<open>A goal that every state meets is no obligation beyond staying safe.\<close>

lemma gr1_no_goal:
  assumes "As \<noteq> {}" and "\<And>X. pre X \<subseteq> G"
  shows "gr1_set pre {G} As = gfp pre"
proof (rule antisym)
  have "gfp pre \<subseteq> G \<inter> pre (gfp pre)"
    using assms(2) [of "gfp pre"] by (simp add: gfp_unfold [OF pre_mono, symmetric])
  then have "gfp pre \<subseteq> mu_y_set pre As G (gfp pre)"
    using base_in_mu_y [OF assms(1), of G "gfp pre"] by blast
  then show "gfp pre \<subseteq> gr1_set pre {G} As"
    unfolding gr1_set_def by (intro gfp_upperbound) simp
qed (simp add: gr1_in_safety)

text \<open>An assumption that every state meets leaves the B\"uchi formula.\<close>

lemma gr1_no_assumption:
  assumes "\<And>X. pre X \<subseteq> A"
  shows "gr1_set pre {G} {A} = buchi_set pre G"
proof -
  have gone: "pre X - A = {}" for X using assms by blast
  have "nu_x_set pre B A = B" for B
    unfolding nu_x_set_def gone by (rule antisym) (simp_all add: gfp_upperbound gfp_least)
  then show ?thesis by (simp add: gr1_set_def buchi_set_def mu_y_set_def)
qed

end

subsection \<open>Iterating to a fixpoint\<close>

lemma fix_loop_down:
  assumes mono: "mono F"
    and step: "\<And>x. length x = n \<Longrightarrow> \<exists>y. f x = Ok y \<and> length y = n \<and> bset y = F (bset x)"
    and "length x = n" "gfp F \<subseteq> bset x" "F (bset x) \<subseteq> bset x" "card (bset x) < k"
  shows "\<exists>y. fix_loop k f x = Ok y \<and> length y = n \<and> bset y = gfp F"
  using assms(3-)
proof (induction k arbitrary: x)
  case (Suc k)
  obtain y where y: "f x = Ok y" "length y = n" "bset y = F (bset x)" using step Suc.prems(1) by blast
  have above: "gfp F \<subseteq> F (bset x)"
    using monoD [OF mono Suc.prems(2)] by (simp add: gfp_unfold [OF mono, symmetric])
  show ?case
  proof (cases "y = x")
    case True
    then have "bset x = gfp F" using y Suc.prems(2) by (intro fixpoint_above_gfp_eq) simp_all
    then show ?thesis using True y by simp
  next
    case False
    then have "bset y \<subset> bset x" using y Suc.prems by (auto simp: bv_eq_iff)
    then have "card (bset y) < k" using Suc.prems(4) psubset_card_mono [of "bset x" "bset y"] by simp
    moreover have "F (bset y) \<subseteq> bset y" using monoD [OF mono Suc.prems(3)] y by simp
    ultimately show ?thesis using Suc.IH [of y] y above False by simp
  qed
qed simp

lemma fix_loop_up:
  assumes mono: "mono F"
    and step: "\<And>x. length x = n \<Longrightarrow> L \<subseteq> bset x \<Longrightarrow>
      \<exists>y. f x = Ok y \<and> length y = n \<and> bset y = bset x \<union> F (bset x)"
    and "length x = n" "L \<subseteq> bset x" "bset x \<subseteq> lfp F" "n - card (bset x) < k"
  shows "\<exists>y. fix_loop k f x = Ok y \<and> length y = n \<and> bset y = lfp F"
  using assms(3-)
proof (induction k arbitrary: x)
  case (Suc k)
  obtain y where y: "f x = Ok y" "length y = n" "bset y = bset x \<union> F (bset x)"
    using step Suc.prems(1,2) by blast
  have below: "F (bset x) \<subseteq> lfp F"
    using monoD [OF mono Suc.prems(3)] by (simp add: lfp_unfold [OF mono, symmetric])
  show ?case
  proof (cases "y = x")
    case True
    then have "lfp F \<subseteq> bset x" using y by (intro lfp_lowerbound) blast
    then show ?thesis using True y Suc.prems by auto
  next
    case False
    then have "bset x \<subset> bset y" using y Suc.prems by (auto simp: bv_eq_iff)
    then have "card (bset x) < card (bset y)" by (intro psubset_card_mono) simp_all
    then have "n - card (bset y) < k" using Suc.prems(4) card_bset_le [of y] y(2) by simp
    then show ?thesis using Suc.IH [of y] Suc.prems y below False by auto
  qed
qed simp

subsection \<open>The controllable predecessor\<close>

definition game_moves :: "clts \<Rightarrow> nat \<Rightarrow> nat set" where
  \<comment> \<open>the targets the owner of a state chooses from\<close>
  "game_moves c s = t_target ` (if eve_owned c s then {t \<in> set (outgoing c s). is_controllable c t}
     else set (outgoing c s))"

definition cpre_set :: "clts \<Rightarrow> nat set \<Rightarrow> nat set \<Rightarrow> nat set" where
  "cpre_set c S T = {s. s < state_count c \<and> s \<in> S \<and> game_moves c s \<noteq> {}
     \<and> (if eve_owned c s then game_moves c s \<inter> T \<noteq> {} else game_moves c s \<subseteq> T)}"

lemma cpre_set_mono: "mono (cpre_set c S)"
  by (rule monoI) (auto simp: cpre_set_def)

interpretation cp: predecessor "cpre_set c S" for c S
  by unfold_locales (rule cpre_set_mono)

lemma cpre_set_subset: "cpre_set c S T \<subseteq> S" "cpre_set c S T \<subseteq> {..<state_count c}"
  by (auto simp: cpre_set_def)

lemma game_moves_empty_iff: "game_moves c s = {} \<longleftrightarrow> outgoing c s = []"
  by (auto simp: game_moves_def eve_owned_def list_ex_iff)

lemma game_moves_less:
  "wf_clts c \<Longrightarrow> s < state_count c \<Longrightarrow> t \<in> game_moves c s \<Longrightarrow> t < state_count c"
  by (auto simp: game_moves_def wf_target split: if_splits)

lemma length_cpre [simp]: "length (cpre c safe target) = state_count c"
  by (simp add: cpre_def)

lemma bset_cpre [simp]: "bset (cpre c safe target) = cpre_set c (bset safe) (bset target)"
  by (auto simp: cpre_def cpre_set_def game_moves_empty_iff game_moves_def list_ex_iff list_all_iff)
subsection \<open>The loops of the solver\<close>

definition fair_sets :: "nat \<Rightarrow> state_set list \<Rightarrow> nat set set" where
  \<comment> \<open>no set at all reads as the one set of all states\<close>
  "fair_sets n xs = (if xs = [] then {{..<n}} else bset ` set xs)"

lemma fair_sets_nonempty [simp]: "fair_sets n xs \<noteq> {}"
  by (simp add: fair_sets_def)

definition sized :: "clts \<Rightarrow> state_set list \<Rightarrow> bool" where
  "sized c bs \<longleftrightarrow> list_all (\<lambda>b. length b = state_count c) bs"

lemma sized_simps [simp]:
  "sized c []" "sized c (b # bs) \<longleftrightarrow> length b = state_count c \<and> sized c bs"
  by (simp_all add: sized_def)

lemma bset_full [simp]: "bset (full n) = {..<n}" and length_full [simp]: "length (full n) = n"
  by (simp_all add: full_def)

lemma bset_empty [simp]: "bset (empty n) = {}" and length_empty [simp]: "length (empty n) = n"
  by (simp_all add: empty_def)

lemma safety_region_loop:
  assumes "state_count c < k"
  shows "\<exists>z. safety_region k c safe = Ok z \<and> length z = state_count c \<and> bset z = gfp (cpre_set c (bset safe))"
  unfolding safety_region_def
proof (rule fix_loop_down [OF cpre_set_mono])
  show "gfp (cpre_set c (bset safe)) \<subseteq> bset (full (state_count c))"
    unfolding bset_full by (rule gfp_least) (erule subset_trans [OF _ cpre_set_subset(2)])
qed (use assms cpre_set_subset in auto)

lemma reach_body_mono: "mono (\<lambda>X. B \<union> cpre_set c S X)"
  by (rule monoI) (use cp.pre_le in blast)

lemma reach_loop:
  assumes "state_count c < k" "sized c [safe, target]"
  shows "\<exists>x. reach k c safe target = Ok x \<and> length x = state_count c
    \<and> bset x = lfp (\<lambda>X. bset target \<inter> bset safe \<union> cpre_set c (bset safe) X)"
  unfolding reach_def
proof (rule fix_loop_up [OF reach_body_mono, where L = "bset target \<inter> bset safe"])
  show "bset (bv_and target safe) \<subseteq> lfp (\<lambda>X. bset target \<inter> bset safe \<union> cpre_set c (bset safe) X)"
    using assms(2) by (subst lfp_unfold [OF reach_body_mono]) (simp add: bset_and le_supI1)
qed (use assms in \<open>auto simp: bset_and bset_or\<close>)

lemma reach_of_pre:
  assumes "state_count c < k" "sized c [safe, f]"
  shows "\<exists>x. reach k c safe (bv_and f (cpre c safe z)) = Ok x \<and> length x = state_count c
    \<and> bset x = lfp (\<lambda>X. bset f \<inter> cpre_set c (bset safe) (bset z) \<union> cpre_set c (bset safe) X)"
proof -
  have "bset f \<inter> cpre_set c (bset safe) (bset z) \<inter> bset safe = bset f \<inter> cpre_set c (bset safe) (bset z)"
    using cpre_set_subset(1) by blast
  then show ?thesis
    using reach_loop [OF assms(1), of safe "bv_and f (cpre c safe z)"] assms(2) by (simp add: bset_and)
qed

lemma lfp_pre_in_safe:
  "lfp (\<lambda>X. F \<inter> cpre_set c S Z \<union> cpre_set c S X) \<subseteq> S \<inter> {..<state_count c}"
  by (rule lfp_lowerbound) (use cpre_set_subset in blast)

lemma buchi_body_mono: "mono (\<lambda>Z. lfp (\<lambda>X. F \<inter> cpre_set c S Z \<union> cpre_set c S X))"
  by (intro monoI lfp_mono Un_mono Int_mono order_refl cp.pre_le)

lemma buchi_loop:
  assumes "state_count c < k" "sized c [safe, f]"
  shows "\<exists>z. buchi k c safe f = Ok z \<and> length z = state_count c
    \<and> bset z = buchi_set (cpre_set c (bset safe)) (bset f)"
proof -
  have len: "length safe = state_count c" using assms(2) by simp
  have start: "bset (bv_and (full (state_count c)) safe) = bset safe"
    using len bset_subset [of safe] by (auto simp: bset_and)
  have below: "gfp (\<lambda>Z. lfp (\<lambda>X. bset f \<inter> cpre_set c (bset safe) Z \<union> cpre_set c (bset safe) X)) \<subseteq> bset safe"
    by (rule gfp_least, rule subset_trans) (use lfp_pre_in_safe in blast)+
  show ?thesis unfolding buchi_def buchi_set_def
  proof (rule fix_loop_down [OF buchi_body_mono])
    show "card (bset (bv_and (full (state_count c)) safe)) < k"
      using card_bset_le [of safe] assms(1) len start by simp
  qed (use reach_of_pre [OF assms] lfp_pre_in_safe below start len in auto)
qed

lemma nu_x_loop:
  assumes "state_count c < k" "sized c [safe, base, a]" and base: "bset base \<subseteq> bset safe"
  shows "\<exists>x. gr1_nu_x k c safe base a = Ok x \<and> length x = state_count c
    \<and> bset x = nu_x_set (cpre_set c (bset safe)) (bset base) (bset a)"
proof -
  have len: "length safe = state_count c" using assms(2) by simp
  have start: "bset (bv_and (full (state_count c)) safe) = bset safe"
    using len bset_subset [of safe] by (auto simp: bset_and)
  have body: "bset base \<union> (cpre_set c (bset safe) X - bset a) \<subseteq> bset safe" for X
    using base cpre_set_subset by blast
  then have below: "gfp (\<lambda>X. bset base \<union> (cpre_set c (bset safe) X - bset a)) \<subseteq> bset safe"
    by (intro gfp_least) blast
  show ?thesis unfolding gr1_nu_x_def nu_x_set_def
  proof (rule fix_loop_down [OF cp.nu_x_body_mono])
    fix x :: state_set assume "length x = state_count c"
    show "\<exists>y. Ok (bv_or base (bv_and (bv_not a) (cpre c safe x))) = (Ok y :: (unit, state_set) res)
      \<and> length y = state_count c \<and> bset y = bset base \<union> (cpre_set c (bset safe) (bset x) - bset a)"
      using assms(2) cpre_set_subset(2) [of c "bset safe"] by (auto simp: bset_or bset_and bset_not)
  next
    show "card (bset (bv_and (full (state_count c)) safe)) < k"
      using card_bset_le [of safe] assms(1) len start by simp
  qed (use body below start len in auto)
qed

lemma disj_nu_x_loop:
  assumes "state_count c < k" "sized c [safe, base]" "bset base \<subseteq> bset safe"
  shows "sized c as \<Longrightarrow> length d = state_count c \<Longrightarrow> \<exists>x. disj_nu_x k c safe base as d = Ok x \<and> length x = state_count c
    \<and> bset x = bset d \<union> (\<Union>a\<in>set as. nu_x_set (cpre_set c (bset safe)) (bset base) (bset a))"
proof (induction as arbitrary: d)
  case (Cons a as)
  obtain x where x: "gr1_nu_x k c safe base a = Ok x" "length x = state_count c"
      "bset x = nu_x_set (cpre_set c (bset safe)) (bset base) (bset a)"
    using nu_x_loop [of c k safe base a] assms Cons.prems by auto
  show ?case using Cons.IH [of "bv_or d x"] Cons.prems x by (auto simp: bset_or)
qed simp

text \<open>An assumption that holds everywhere contributes no waiting.\<close>

lemma nu_x_everywhere: "nu_x_set (cpre_set c S) B {..<state_count c} = B"
proof -
  have gone: "cpre_set c S X - {..<state_count c} = {}" for X using cpre_set_subset(2) by blast
  show ?thesis unfolding nu_x_set_def gone by (rule antisym) (simp_all add: gfp_upperbound gfp_least)
qed

lemma mu_y_disj_value:
  assumes "state_count c < k" "sized c (safe # gz # as)" "bset gz \<subseteq> bset safe"
  shows "\<exists>d. mu_y_disj k c safe gz as y = Ok d \<and> length d = state_count c \<and> bset d =
    (\<Union>A\<in>fair_sets (state_count c) as. nu_x_set (cpre_set c (bset safe)) (bset gz \<union> cpre_set c (bset safe) (bset y)) A)"
proof (cases "as = []")
  case True
  then show ?thesis using assms by (simp add: mu_y_disj_def fair_sets_def bset_or nu_x_everywhere)
next
  case False
  then show ?thesis
    using disj_nu_x_loop [OF assms(1), of safe "bv_or gz (cpre c safe y)" as "empty (state_count c)"]
      assms cpre_set_subset(1) [of c "bset safe" "bset y"]
    by (simp add: mu_y_disj_def fair_sets_def bset_or)
qed

lemma mu_y_loop:
  assumes "state_count c < k" "sized c (safe # g # as)"
  shows "\<exists>y. gr1_mu_y k c safe g z as = Ok y \<and> length y = state_count c
    \<and> bset y = mu_y_set (cpre_set c (bset safe)) (fair_sets (state_count c) as) (bset g) (bset z)"
proof -
  let ?gz = "bv_and g (cpre c safe z)"
  have gz: "bset ?gz = bset g \<inter> cpre_set c (bset safe) (bset z)" using assms by (simp add: bset_and)
  then have gz': "bset ?gz \<subseteq> bset safe" using cpre_set_subset(1) by blast
  show ?thesis unfolding gr1_mu_y_def mu_y_set_def Let_def
  proof (rule fix_loop_up [OF cp.mu_y_body_mono, where L = "{}"])
    fix y :: state_set assume "length y = state_count c"
    then show "\<exists>x. rbind (mu_y_disj k c safe ?gz as y) (\<lambda>d. Ok (bv_or y d)) = Ok x \<and> length x = state_count c
      \<and> bset x = bset y \<union> (\<Union>A\<in>fair_sets (state_count c) as. nu_x_set (cpre_set c (bset safe))
          (bset g \<inter> cpre_set c (bset safe) (bset z) \<union> cpre_set c (bset safe) (bset y)) A)"
      using mu_y_disj_value [OF assms(1), of safe ?gz as y] assms(2) gz gz' by (auto simp: bset_or)
  qed (use assms in auto)
qed

lemma conj_mu_y_loop:
  assumes "state_count c < k" "sized c (safe # as)"
  shows "sized c gs \<Longrightarrow> length zn = state_count c \<Longrightarrow>
    \<exists>x. conj_mu_y k c safe z as gs zn = Ok x \<and> length x = state_count c
    \<and> bset x = bset zn \<inter> (\<Inter>g\<in>set gs. mu_y_set (cpre_set c (bset safe)) (fair_sets (state_count c) as) (bset g) (bset z))"
proof (induction gs arbitrary: zn)
  case (Cons g gs)
  obtain y where y: "gr1_mu_y k c safe g z as = Ok y" "length y = state_count c"
      "bset y = mu_y_set (cpre_set c (bset safe)) (fair_sets (state_count c) as) (bset g) (bset z)"
    using mu_y_loop [of c k safe g as z] assms Cons.prems by auto
  show ?case using Cons.IH [of "bv_and zn y"] Cons.prems y by (auto simp: bset_and)
qed simp

lemma mu_y_in_safe: "mu_y_set (cpre_set c S) As G Z \<subseteq> S \<inter> {..<state_count c}"
  using cp.mu_y_stays [of c S As G Z] cpre_set_subset [of c S] by blast

lemma gr1_win_loop:
  assumes "state_count c < k" "sized c (safe # gs @ as)"
  shows "\<exists>z. gr1_win k c safe gs as = Ok z \<and> length z = state_count c \<and> bset z =
    gr1_set (cpre_set c (bset safe)) (fair_sets (state_count c) gs) (fair_sets (state_count c) as)"
proof (cases "gs = []")
  case True
  have "gr1_set (cpre_set c (bset safe)) {{..<state_count c}} (fair_sets (state_count c) as) = gfp (cpre_set c (bset safe))"
    by (rule cp.gr1_no_goal) (simp_all add: cpre_set_subset)
  then show ?thesis using True safety_region_loop [OF assms(1)] by (simp add: gr1_win_def fair_sets_def)
next
  case False
  let ?pre = "cpre_set c (bset safe)" and ?As = "fair_sets (state_count c) as" and ?Gs = "bset ` set gs"
  let ?F = "\<lambda>Z. \<Inter>G\<in>?Gs. mu_y_set ?pre ?As G Z"
  have sz: "sized c (safe # as)" "sized c gs" using assms(2) by (simp_all add: sized_def)
  obtain z0 where z0: "safety_region k c safe = Ok z0" "length z0 = state_count c" "bset z0 = gfp ?pre"
    using safety_region_loop [OF assms(1)] by blast
  have dec: "?F (gfp ?pre) \<subseteq> gfp ?pre"
    using False by (cases gs) (auto intro: subsetD [OF cp.mu_y_in_safety])
  have "\<exists>z. fix_loop k (\<lambda>z. conj_mu_y k c safe z as gs (bv_and (full (state_count c)) safe)) z0 = Ok z
      \<and> length z = state_count c \<and> bset z = gfp ?F"
  proof (rule fix_loop_down [OF cp.gr1_body_mono])
    fix z :: state_set
    obtain g where g: "g \<in> set gs" using False by (cases gs) auto
    have len: "length safe = state_count c" using assms(2) by simp
    have "bset (bv_and (full (state_count c)) safe) \<inter> ?F (bset z) = ?F (bset z)"
      using g len mu_y_in_safe [of c "bset safe" ?As "bset g" "bset z"] by (auto simp: bset_and)
    then show "\<exists>y. conj_mu_y k c safe z as gs (bv_and (full (state_count c)) safe) = Ok y
        \<and> length y = state_count c \<and> bset y = ?F (bset z)"
      using conj_mu_y_loop [OF assms(1) sz, of "bv_and (full (state_count c)) safe" z] len by simp
  next
    show "gfp ?F \<subseteq> bset z0" using False cp.gr1_in_safety [of ?Gs c "bset safe" ?As] z0 by (simp add: gr1_set_def)
    show "card (bset z0) < k" using card_bset_le [of z0] assms(1) z0 by simp
  qed (use z0 dec in auto)
  then show ?thesis using False z0 by (simp add: gr1_win_def fair_sets_def gr1_set_def)
qed

end
