(* ===== verification/Gr1_Plays.thy ===== *)
theory Gr1_Plays
  imports Gr1_Fixpoint
begin

section \<open>Plays and strategies on the arena of a plant\<close>

text \<open>
  Two players move a token on the states of a plant: the owner of a state picks a target among
  \<^term>\<open>game_moves c s\<close>. A strategy sees the whole history, newest state first. Eve wins when no play that follows
  her strategy gets stuck or leaves the safe states, and every infinite one satisfies the GR(1) objective:
  if every assumption set is visited infinitely often, so is every guarantee set.
\<close>

type_synonym strategy = "nat list \<Rightarrow> nat"

primrec hist :: "(nat \<Rightarrow> nat) \<Rightarrow> nat \<Rightarrow> nat list" where
  "hist p 0 = [p 0]"
| "hist p (Suc i) = p (Suc i) # hist p i"

lemma hd_hist [simp]: "hd (hist p i) = p i" and hist_not_Nil [simp]: "hist p i \<noteq> []"
  by (cases i; simp)+

lemma hist_Cons: "hist p i = p i # tl (hist p i)"
  by (cases i) simp_all

definition conforms :: "(nat \<Rightarrow> bool) \<Rightarrow> (nat \<Rightarrow> nat set) \<Rightarrow> strategy \<Rightarrow> (nat \<Rightarrow> nat) \<Rightarrow> bool" where
  "conforms own mv \<sigma> p \<longleftrightarrow> (\<forall>i. p (Suc i) \<in> mv (p i) \<and> (own (p i) \<longrightarrow> p (Suc i) = \<sigma> (hist p i)))"

inductive partial_play :: "(nat \<Rightarrow> bool) \<Rightarrow> (nat \<Rightarrow> nat set) \<Rightarrow> strategy \<Rightarrow> nat \<Rightarrow> nat list \<Rightarrow> bool"
  for own mv \<sigma> s where
  pp_start: "partial_play own mv \<sigma> s [s]"
| pp_step: "partial_play own mv \<sigma> s h \<Longrightarrow> t \<in> mv (hd h) \<Longrightarrow> (own (hd h) \<Longrightarrow> t = \<sigma> h) \<Longrightarrow>
    partial_play own mv \<sigma> s (t # h)"

lemma partial_play_hist: "conforms own mv \<sigma> p \<Longrightarrow> partial_play own mv \<sigma> (p 0) (hist p i)"
proof (induction i)
  case (Suc i)
  then show ?case by (auto simp: conforms_def intro: pp_step)
qed (simp add: pp_start)

lemma partial_play_not_Nil: "partial_play own mv \<sigma> s h \<Longrightarrow> h \<noteq> []"
  by (induction rule: partial_play.induct) simp_all

definition inf_often :: "nat set \<Rightarrow> (nat \<Rightarrow> nat) \<Rightarrow> bool" where
  "inf_often A p \<longleftrightarrow> (\<forall>N. \<exists>i\<ge>N. p i \<in> A)"

definition gr1_goal :: "nat set set \<Rightarrow> nat set set \<Rightarrow> (nat \<Rightarrow> nat) \<Rightarrow> bool" where
  "gr1_goal As Gs p \<longleftrightarrow> ((\<forall>A\<in>As. inf_often A p) \<longrightarrow> (\<forall>G\<in>Gs. inf_often G p))"

definition eve_wins :: "clts \<Rightarrow> nat set \<Rightarrow> nat set set \<Rightarrow> nat set set \<Rightarrow> nat \<Rightarrow> bool" where
  "eve_wins c S As Gs s \<longleftrightarrow> (\<exists>\<sigma>.
     (\<forall>h. partial_play (eve_owned c) (game_moves c) \<sigma> s h \<longrightarrow>
        hd h \<in> S \<and> game_moves c (hd h) \<noteq> {} \<and> (eve_owned c (hd h) \<longrightarrow> \<sigma> h \<in> game_moves c (hd h)))
     \<and> (\<forall>p. p 0 = s \<longrightarrow> conforms (eve_owned c) (game_moves c) \<sigma> p \<longrightarrow> gr1_goal As Gs p))"

definition adam_wins :: "clts \<Rightarrow> nat set \<Rightarrow> nat set set \<Rightarrow> nat set set \<Rightarrow> nat \<Rightarrow> bool" where
  "adam_wins c S As Gs s \<longleftrightarrow> (\<exists>\<tau>.
     (\<forall>h. partial_play (\<lambda>s. \<not> eve_owned c s) (game_moves c) \<tau> s h \<longrightarrow>
        \<not> eve_owned c (hd h) \<longrightarrow> game_moves c (hd h) \<noteq> {} \<longrightarrow> \<tau> h \<in> game_moves c (hd h))
     \<and> (\<forall>p. p 0 = s \<longrightarrow> conforms (\<lambda>s. \<not> eve_owned c s) (game_moves c) \<tau> p \<longrightarrow> (\<forall>i. p i \<in> S) \<longrightarrow>
          \<not> gr1_goal As Gs p))"

subsection \<open>At most one player wins\<close>

lemma not_both_win:
  assumes "eve_wins c S As Gs s" and "adam_wins c S As Gs s"
  shows False
proof -
  let ?mv = "game_moves c" and ?eve = "eve_owned c" and ?adam = "\<lambda>s. \<not> eve_owned c s"
  obtain \<sigma> where \<sigma>: "\<And>h. partial_play ?eve ?mv \<sigma> s h \<Longrightarrow> hd h \<in> S \<and> ?mv (hd h) \<noteq> {} \<and> (?eve (hd h) \<longrightarrow> \<sigma> h \<in> ?mv (hd h))"
      and \<sigma>_win: "\<And>p. p 0 = s \<Longrightarrow> conforms ?eve ?mv \<sigma> p \<Longrightarrow> gr1_goal As Gs p"
    using assms(1) unfolding eve_wins_def by blast
  obtain \<tau> where \<tau>: "\<And>h. partial_play ?adam ?mv \<tau> s h \<Longrightarrow> \<not> ?eve (hd h) \<Longrightarrow> ?mv (hd h) \<noteq> {} \<Longrightarrow> \<tau> h \<in> ?mv (hd h)"
      and \<tau>_win: "\<And>p. p 0 = s \<Longrightarrow> conforms ?adam ?mv \<tau> p \<Longrightarrow> \<forall>i. p i \<in> S \<Longrightarrow> \<not> gr1_goal As Gs p"
    using assms(2) unfolding adam_wins_def by blast
  define H where "H = rec_nat [s] (\<lambda>_ h. (if ?eve (hd h) then \<sigma> h else \<tau> h) # h)"
  define p where "p i = hd (H i)" for i
  have H: "H 0 = [s]" "\<And>i. H (Suc i) = (if ?eve (hd (H i)) then \<sigma> (H i) else \<tau> (H i)) # H i"
    by (simp_all add: H_def)
  have hist: "hist p i = H i" for i by (induction i) (simp_all add: p_def H)
  have both: "partial_play ?eve ?mv \<sigma> s (H i) \<and> partial_play ?adam ?mv \<tau> s (H i)" for i
  proof (induction i)
    case (Suc i)
    then show ?case using \<sigma> [of "H i"] \<tau> [of "H i"] by (auto simp: H intro!: pp_step)
  qed (simp add: H pp_start)
  have nxt: "p (Suc i) = (if ?eve (p i) then \<sigma> (hist p i) else \<tau> (hist p i))" for i
    by (simp add: p_def H hist)
  have "p (Suc i) \<in> ?mv (p i)" for i
    using both [of i] \<sigma> [of "H i"] \<tau> [of "H i"] by (simp add: p_def H)
  then have "conforms ?eve ?mv \<sigma> p" "conforms ?adam ?mv \<tau> p"
    using nxt by (simp_all add: conforms_def)
  moreover have "p 0 = s" by (simp add: p_def H)
  moreover have "p i \<in> S" for i using both [of i] \<sigma> [of "H i"] by (simp add: p_def)
  ultimately show False using \<sigma>_win \<tau>_win by blast
qed

subsection \<open>Strategies with memory\<close>

primrec mems :: "('m \<Rightarrow> nat \<Rightarrow> nat \<Rightarrow> 'm) \<Rightarrow> 'm \<Rightarrow> (nat \<Rightarrow> nat) \<Rightarrow> nat \<Rightarrow> 'm" where
  "mems upd m0 p 0 = m0"
| "mems upd m0 p (Suc i) = upd (mems upd m0 p i) (p i) (p (Suc i))"

fun hmem :: "('m \<Rightarrow> nat \<Rightarrow> nat \<Rightarrow> 'm) \<Rightarrow> 'm \<Rightarrow> nat list \<Rightarrow> 'm" where
  "hmem upd m0 (t # s # h) = upd (hmem upd m0 (s # h)) s t"
| "hmem upd m0 _ = m0"

lemma hmem_hist: "hmem upd m0 (hist p i) = mems upd m0 p i"
proof (induction i)
  case (Suc i)
  obtain h where h: "hist p i = p i # h" using hist_Cons by blast
  show ?case using Suc by (simp add: h)
qed simp

text \<open>
  The contract of a strategy with memory: while the invariant holds on the domain, the player can force a
  step that keeps it.
\<close>

locale memory_strategy =
  fixes own :: "nat \<Rightarrow> bool" and mv :: "nat \<Rightarrow> nat set" and D :: "nat set"
    and keep :: "'m \<Rightarrow> nat \<Rightarrow> bool" and step :: "'m \<Rightarrow> nat \<Rightarrow> nat \<Rightarrow> bool" and upd :: "'m \<Rightarrow> nat \<Rightarrow> nat \<Rightarrow> 'm"
  assumes force_own: "keep m s \<Longrightarrow> s \<in> D \<Longrightarrow> mv s \<noteq> {} \<Longrightarrow> own s \<Longrightarrow> \<exists>t\<in>mv s. step m s t"
    and force_other: "keep m s \<Longrightarrow> s \<in> D \<Longrightarrow> \<not> own s \<Longrightarrow> t \<in> mv s \<Longrightarrow> step m s t"
    and step_keeps: "keep m s \<Longrightarrow> s \<in> D \<Longrightarrow> step m s t \<Longrightarrow> keep (upd m s t) t"
begin

definition follow :: "'m \<Rightarrow> strategy" where
  "follow m0 h = (let good = {t \<in> mv (hd h). step (hmem upd m0 h) (hd h) t}
     in SOME t. t \<in> (if good \<noteq> {} then good else mv (hd h)))"

lemma follow_legal: "mv (hd h) \<noteq> {} \<Longrightarrow> follow m0 h \<in> mv (hd h)"
proof -
  let ?good = "{t \<in> mv (hd h). step (hmem upd m0 h) (hd h) t}"
  assume "mv (hd h) \<noteq> {}"
  then have "follow m0 h \<in> (if ?good \<noteq> {} then ?good else mv (hd h))"
    unfolding follow_def Let_def some_in_eq by (cases "?good = {}") simp_all
  then show ?thesis by (simp split: if_splits)
qed

lemma follow_steps:
  assumes "keep (hmem upd m0 h) (hd h)" "hd h \<in> D" "t \<in> mv (hd h)" "own (hd h) \<Longrightarrow> t = follow m0 h"
  shows "step (hmem upd m0 h) (hd h) t"
proof (cases "own (hd h)")
  case True
  let ?good = "{t \<in> mv (hd h). step (hmem upd m0 h) (hd h) t}"
  have "?good \<noteq> {}" using force_own [OF assms(1,2) _ True] assms(3) by blast
  then have "follow m0 h \<in> ?good"
    by (simp only: follow_def Let_def some_in_eq if_True not_False_eq_True)
  then show ?thesis using assms(4) True by simp
qed (use force_other assms in blast)

lemma follow_partial:
  assumes "partial_play own mv (follow m0) s h" "keep m0 s" "set h \<subseteq> D"
  shows "keep (hmem upd m0 h) (hd h)"
  using assms
proof (induction rule: partial_play.induct)
  case (pp_step h t)
  obtain u h' where h: "h = u # h'" using partial_play_not_Nil [OF pp_step.hyps(1)] by (cases h) auto
  have k: "keep (hmem upd m0 h) (hd h)" using pp_step by simp
  have D: "hd h \<in> D" using pp_step.prems(2) h by simp
  from step_keeps [OF k D follow_steps [OF k D pp_step.hyps(2,3)]] show ?case using h by simp
qed simp

lemma follow_play:
  assumes "conforms own mv (follow m0) p" "keep m0 (p 0)" "\<And>i. p i \<in> D"
  shows "keep (mems upd m0 p i) (p i) \<and> step (mems upd m0 p i) (p i) (p (Suc i))"
proof -
  have "set (hist p i) \<subseteq> D" using assms(3) by (induction i) auto
  then have k: "keep (hmem upd m0 (hist p i)) (hd (hist p i))"
    by (intro follow_partial [OF partial_play_hist [OF assms(1)] assms(2)])
  have "step (hmem upd m0 (hist p i)) (hd (hist p i)) (p (Suc i))"
    by (rule follow_steps [OF k]) (use assms in \<open>auto simp: conforms_def\<close>)
  then show ?thesis using k by (simp add: hmem_hist)
qed

end

subsection \<open>Sequences\<close>

lemma round_robin:
  fixes j :: "nat \<Rightarrow> nat"
  assumes m: "0 < m" "\<And>i. j i < m" and step: "\<And>i. j (Suc i) = (if adv i then Suc (j i) mod m else j i)"
    and inf: "\<And>N. \<exists>i\<ge>N. adv i" and q: "q < m"
  shows "\<exists>i\<ge>N. j i = q \<and> adv i"
proof -
  have same: "\<exists>i\<ge>N. adv i \<and> j i = j N" for N
  proof -
    define i where "i = (LEAST i. N \<le> i \<and> adv i)"
    have i: "N \<le> i" "adv i" using LeastI_ex [of "\<lambda>i. N \<le> i \<and> adv i"] inf [of N] by (auto simp: i_def)
    have "j (N + d) = j N" if "N + d \<le> i" for d
      using that
    proof (induction d)
      case (Suc d)
      then have "\<not> adv (N + d)" using not_less_Least [of "N + d" "\<lambda>i. N \<le> i \<and> adv i"] by (auto simp: i_def)
      then show ?case using Suc by (simp add: step)
    qed simp
    from this [of "i - N"] i show ?thesis by auto
  qed
  have "\<exists>i\<ge>N. adv i \<and> j i = (j N + d) mod m" for d
  proof (induction d)
    case 0
    then show ?case using same [of N] m(2) [of N] by auto
  next
    case (Suc d)
    then obtain i where i: "i \<ge> N" "adv i" "j i = (j N + d) mod m" by blast
    obtain i' where "i' \<ge> Suc i" "adv i'" "j i' = j (Suc i)" using same [of "Suc i"] by blast
    then show ?case using i by (intro exI [of _ i']) (simp add: step mod_Suc_eq)
  qed
  from this [of "q + m - j N"] show ?thesis using m(2) [of N] q by auto
qed

lemma eventually_constant:
  fixes f :: "nat \<Rightarrow> nat"
  assumes "\<And>i. N \<le> i \<Longrightarrow> f (Suc i) \<le> f i"
  shows "\<exists>M\<ge>N. \<forall>i\<ge>M. f i = f M"
proof -
  obtain M where M: "N \<le> M" "\<And>i. N \<le> i \<Longrightarrow> f M \<le> f i"
    using ex_has_least_nat [of "\<lambda>i. N \<le> i" N f] by auto
  have "f (M + d) \<le> f M" for d
  proof (induction d)
    case (Suc d)
    then show ?case using assms [of "M + d"] M(1) by simp
  qed simp
  then have "f i = f M" if "M \<le> i" for i
    using M that by (metis le_add_diff_inverse le_antisym order_trans)
  then show ?thesis using M(1) by blast
qed

lemma no_infinite_descent: "\<not> (\<forall>i\<ge>N. f (Suc i) < (f i :: nat))"
proof
  assume d: "\<forall>i\<ge>N. f (Suc i) < f i"
  then obtain M where "M \<ge> N" "\<forall>i\<ge>M. f i = f M"
    using eventually_constant [of N f] less_imp_le by blast
  then show False using d by (metis le_SucI less_irrefl order_refl)
qed

end
