(* ===== verification/Gr1_Determined.thy ===== *)
theory Gr1_Determined
  imports Gr1_Plays
begin

section \<open>The GR(1) region is the winning region\<close>

text \<open>
  From a state of the computed region Eve wins with a strategy whose memory is the index of the guarantee she
  pursues; from every other state Adam wins. Both strategies come from signatures: the number of rounds of the
  fixpoint iteration after which a state enters (or leaves) the set.
\<close>

subsection \<open>Signatures\<close>

locale finite_predecessor = predecessor pre for pre :: "'a set \<Rightarrow> 'a set" +
  fixes U :: "'a set"
  assumes finite_U: "finite U" and pre_in_U: "pre X \<subseteq> U"
begin

definition stage :: "'a set list \<Rightarrow> 'a set \<Rightarrow> 'a set \<Rightarrow> nat \<Rightarrow> 'a set" where
  "stage al G Z r = ((\<lambda>Y. \<Union>A\<in>set al. nu_x_set pre (G \<inter> pre Z \<union> pre Y) A) ^^ r) {}"

definition sig_set :: "'a set list \<Rightarrow> 'a set \<Rightarrow> 'a set \<Rightarrow> nat \<Rightarrow> 'a set" where
  "sig_set al G Z k = nu_x_set pre (G \<inter> pre Z \<union> pre (stage al G Z (k div length al))) (al ! (k mod length al))"

definition sig :: "'a set list \<Rightarrow> 'a set \<Rightarrow> 'a set \<Rightarrow> 'a \<Rightarrow> nat" where
  "sig al G Z s = (LEAST k. s \<in> sig_set al G Z k)"

lemma nu_x_in_U: "B \<subseteq> U \<Longrightarrow> nu_x_set pre B A \<subseteq> U"
  by (subst nu_x_unfold) (use pre_in_U in blast)

lemma base_in_U: "G \<inter> pre Z \<union> pre Y \<subseteq> U"
  using pre_in_U by blast

lemma mu_y_is_stage: "mu_y_set pre (set al) G Z = stage al G Z (card U)"
  unfolding mu_y_set_def stage_def
proof (rule lfp_iterate [OF mu_y_body_mono, where S = "Pow U" and ht = card, symmetric, unfolded bot_set_def [symmetric]])
  show "(\<Union>A\<in>set al. nu_x_set pre (G \<inter> pre Z \<union> pre Y) A) \<in> Pow U" for Y
    using nu_x_in_U [OF base_in_U] by blast
qed (auto intro: psubset_card_mono card_mono finite_subset [OF _ finite_U] simp: finite_U)

lemma stage_in_mu_y: "stage al G Z r \<subseteq> mu_y_set pre (set al) G Z"
  unfolding stage_def mu_y_set_def by (rule funpow_below_lfp [OF mu_y_body_mono]) simp

lemma stage_Suc_sig:
  assumes "s \<in> stage al G Z r"
  shows "\<exists>k < r * length al. s \<in> sig_set al G Z k"
proof (cases r)
  case (Suc q)
  then obtain A where A: "A \<in> set al" "s \<in> nu_x_set pre (G \<inter> pre Z \<union> pre (stage al G Z q)) A"
    using assms by (auto simp: stage_def)
  then obtain i where i: "i < length al" "al ! i = A" by (auto simp: in_set_conv_nth)
  have "(i + q * length al) div length al = q" using i by (subst div_mult_self1) auto
  then have "(q * length al + i) div length al = q" "(q * length al + i) mod length al = i"
    using i by (simp_all add: add.commute)
  then have "s \<in> sig_set al G Z (q * length al + i)" using A i by (simp add: sig_set_def)
  then show ?thesis using Suc i by (intro exI [of _ "q * length al + i"]) simp
qed (use assms in \<open>simp add: stage_def\<close>)

lemma sig_set_in_mu_y:
  assumes "al \<noteq> []"
  shows "sig_set al G Z k \<subseteq> mu_y_set pre (set al) G Z"
proof -
  have "al ! (k mod length al) \<in> set al" using assms by simp
  from nu_x_in_mu_y [OF this, of G Z] nu_x_le [of "G \<inter> pre Z \<union> pre (stage al G Z (k div length al))"
      "G \<inter> pre Z \<union> pre (mu_y_set pre (set al) G Z)" "al ! (k mod length al)"]
    pre_le [OF stage_in_mu_y, of al G Z "k div length al"]
  show ?thesis unfolding sig_set_def by blast
qed

lemma sig_attained: "s \<in> mu_y_set pre (set al) G Z \<Longrightarrow> s \<in> sig_set al G Z (sig al G Z s)"
  unfolding sig_def by (rule LeastI_ex) (use mu_y_is_stage stage_Suc_sig in blast)

lemma sig_le: "s \<in> sig_set al G Z k \<Longrightarrow> sig al G Z s \<le> k"
  unfolding sig_def by (rule Least_le)

lemma eve_signature:
  assumes "al \<noteq> []" and s: "s \<in> mu_y_set pre (set al) G Z"
  shows "s \<in> G \<inter> pre Z \<or> s \<in> pre {t \<in> mu_y_set pre (set al) G Z. sig al G Z t < sig al G Z s}
    \<or> s \<notin> al ! (sig al G Z s mod length al) \<and> s \<in> pre {t \<in> mu_y_set pre (set al) G Z. sig al G Z t \<le> sig al G Z s}"
proof -
  let ?Y = "mu_y_set pre (set al) G Z" and ?k = "sig al G Z s"
  have "stage al G Z (?k div length al) \<subseteq> {t \<in> ?Y. sig al G Z t < ?k}"
  proof
    fix t assume t: "t \<in> stage al G Z (?k div length al)"
    then obtain k where k: "k < ?k div length al * length al" "t \<in> sig_set al G Z k" using stage_Suc_sig by blast
    then have "sig al G Z t < ?k div length al * length al" using sig_le by (meson order.strict_trans1)
    also have "\<dots> \<le> ?k" by simp
    finally show "t \<in> {t \<in> ?Y. sig al G Z t < ?k}" using t stage_in_mu_y by blast
  qed
  moreover have "sig_set al G Z ?k \<subseteq> {t \<in> ?Y. sig al G Z t \<le> ?k}"
    using sig_set_in_mu_y [OF assms(1)] sig_le by blast
  moreover have "s \<in> G \<inter> pre Z \<union> pre (stage al G Z (?k div length al))
      \<or> s \<in> pre (sig_set al G Z ?k) \<and> s \<notin> al ! (?k mod length al)"
    using sig_attained [OF s] unfolding sig_set_def by (subst (asm) nu_x_iff)
  ultimately show ?thesis using pre_le by blast
qed

text \<open>Dually, a state outside a greatest fixpoint leaves it after finitely many rounds.\<close>

lemma gfp_left:
  assumes "mono K" and "\<And>X. K X \<subseteq> U" and "s \<notin> gfp K"
  shows "\<exists>q. s \<notin> (K ^^ Suc q) UNIV"
proof -
  have "(K ^^ card U) (K UNIV) = gfp K"
  proof (rule gfp_iterate [OF assms(1), where S = "Pow U" and ht = card])
    show "K (K UNIV) \<subseteq> K UNIV" using monoD [OF assms(1)] by blast
    show "gfp K \<subseteq> K UNIV" by (subst gfp_unfold [OF assms(1)]) (use monoD [OF assms(1)] in blast)
  qed (use assms(2) in \<open>auto intro: psubset_card_mono card_mono finite_subset [OF _ finite_U] simp: finite_U\<close>)
  then show ?thesis using assms(3) by (intro exI [of _ "card U"]) (simp add: funpow_swap1)
qed

definition escape_body :: "'a set set \<Rightarrow> 'a set \<Rightarrow> 'a set \<Rightarrow> 'a set \<Rightarrow> 'a set \<Rightarrow> 'a set" where
  "escape_body As G Z A X = G \<inter> pre Z \<union> pre (mu_y_set pre As G Z) \<union> (pre X - A)"

definition escape :: "'a set set \<Rightarrow> 'a set \<Rightarrow> 'a set \<Rightarrow> 'a set \<Rightarrow> 'a \<Rightarrow> nat" where
  "escape As G Z A s = (LEAST q. s \<notin> (escape_body As G Z A ^^ Suc q) UNIV)"

lemma escape_body_mono: "mono (escape_body As G Z A)"
  unfolding escape_body_def by (rule nu_x_body_mono)

lemma gfp_escape_body: "A \<in> As \<Longrightarrow> gfp (escape_body As G Z A) = mu_y_set pre As G Z"
  using mu_y_each [of A As G Z] unfolding escape_body_def nu_x_set_def by simp

lemma escape_attained:
  assumes "A \<in> As" "s \<notin> mu_y_set pre As G Z"
  shows "s \<notin> (escape_body As G Z A ^^ Suc (escape As G Z A s)) UNIV"
proof -
  have "escape_body As G Z A X \<subseteq> U" for X using pre_in_U unfolding escape_body_def by blast
  then have "\<exists>q. s \<notin> (escape_body As G Z A ^^ Suc q) UNIV"
    using gfp_left [OF escape_body_mono] assms by (simp add: gfp_escape_body del: funpow.simps)
  then show ?thesis unfolding escape_def by (rule LeastI_ex)
qed

lemma escape_round:
  assumes "A \<in> As" and t: "t \<in> mu_y_set pre As G Z \<or> q \<le> escape As G Z A t"
  shows "t \<in> (escape_body As G Z A ^^ q) UNIV"
proof (cases q)
  case (Suc r)
  have "mu_y_set pre As G Z \<subseteq> (escape_body As G Z A ^^ q) UNIV"
    using funpow_above_gfp [OF escape_body_mono, of As G Z A UNIV q] assms(1) by (simp add: gfp_escape_body)
  moreover have "q \<le> escape As G Z A t \<Longrightarrow> t \<in> (escape_body As G Z A ^^ Suc r) UNIV"
    using not_less_Least [of r "\<lambda>q. t \<notin> (escape_body As G Z A ^^ Suc q) UNIV"] Suc unfolding escape_def by auto
  ultimately show ?thesis using t Suc by blast
qed simp

lemma adam_signature:
  assumes "A \<in> As" and s: "s \<notin> mu_y_set pre As G Z"
  shows "s \<notin> G \<inter> pre Z" "s \<notin> pre (mu_y_set pre As G Z)"
    "s \<notin> A \<Longrightarrow> s \<notin> pre (- {t. t \<notin> mu_y_set pre As G Z \<and> escape As G Z A t < escape As G Z A s})"
proof -
  let ?Y = "mu_y_set pre As G Z" and ?K = "escape_body As G Z A" and ?q = "escape As G Z A s"
  have out: "s \<notin> ?K ((?K ^^ ?q) UNIV)" using escape_attained [OF assms] by simp
  then show "s \<notin> G \<inter> pre Z" "s \<notin> pre ?Y" unfolding escape_body_def by blast+
  assume "s \<notin> A"
  then have "s \<notin> pre ((?K ^^ ?q) UNIV)" using out unfolding escape_body_def by blast
  moreover have "- {t. t \<notin> ?Y \<and> escape As G Z A t < ?q} \<subseteq> (?K ^^ ?q) UNIV"
    by (intro subsetI escape_round [OF assms(1)]) (auto simp: not_less)
  ultimately show "s \<notin> pre (- {t. t \<notin> ?Y \<and> escape As G Z A t < ?q})" using pre_le by blast
qed

end

interpretation fcp: finite_predecessor "cpre_set c S" "{..<state_count c}" for c S
  by unfold_locales (simp_all add: cpre_set_subset)
subsection \<open>Eve wins inside the region\<close>

abbreviation region :: "clts \<Rightarrow> nat set \<Rightarrow> nat set list \<Rightarrow> nat set list \<Rightarrow> nat set" where
  "region c S al gl \<equiv> gr1_set (cpre_set c S) (set gl) (set al)"

abbreviation pursuit :: "clts \<Rightarrow> nat set \<Rightarrow> nat set list \<Rightarrow> nat set \<Rightarrow> nat set \<Rightarrow> nat set" where
  "pursuit c S al \<equiv> mu_y_set (cpre_set c S) (set al)"

definition served :: "clts \<Rightarrow> nat set \<Rightarrow> nat set list \<Rightarrow> nat set list \<Rightarrow> nat \<Rightarrow> nat \<Rightarrow> bool" where
  "served c S al gl j s \<longleftrightarrow> s \<in> gl ! j \<inter> cpre_set c S (region c S al gl)"

definition eve_keep :: "clts \<Rightarrow> nat set \<Rightarrow> nat set list \<Rightarrow> nat set list \<Rightarrow> nat \<Rightarrow> nat \<Rightarrow> bool" where
  "eve_keep c S al gl j s \<longleftrightarrow> al \<noteq> [] \<and> j < length gl \<and> s \<in> pursuit c S al (gl ! j) (region c S al gl)"

definition eve_step :: "clts \<Rightarrow> nat set \<Rightarrow> nat set list \<Rightarrow> nat set list \<Rightarrow> nat \<Rightarrow> nat \<Rightarrow> nat \<Rightarrow> bool" where
  "eve_step c S al gl j s t \<longleftrightarrow>
     (let Z = region c S al gl; sg = fcp.sig c S al (gl ! j) Z
      in if served c S al gl j s then t \<in> Z
         else t \<in> pursuit c S al (gl ! j) Z \<and> (sg t < sg s \<or> s \<notin> al ! (sg s mod length al) \<and> sg t \<le> sg s))"

definition eve_upd :: "clts \<Rightarrow> nat set \<Rightarrow> nat set list \<Rightarrow> nat set list \<Rightarrow> nat \<Rightarrow> nat \<Rightarrow> nat \<Rightarrow> nat" where
  "eve_upd c S al gl j s t = (if served c S al gl j s then Suc j mod length gl else j)"

lemma cpre_forces:
  assumes "s \<in> cpre_set c S T"
  shows "eve_owned c s \<Longrightarrow> \<exists>t\<in>game_moves c s. t \<in> T" "\<not> eve_owned c s \<Longrightarrow> t \<in> game_moves c s \<Longrightarrow> t \<in> T"
    "s \<in> S" "game_moves c s \<noteq> {}"
  using assms by (auto simp: cpre_set_def)

lemma eve_keep_forces:
  assumes "eve_keep c S al gl j s"
  shows "s \<in> cpre_set c S {t. eve_step c S al gl j s t}"
proof -
  let ?Z = "region c S al gl" and ?sg = "fcp.sig c S al (gl ! j) (region c S al gl)"
  have al: "al \<noteq> []" and s: "s \<in> pursuit c S al (gl ! j) ?Z" using assms by (simp_all add: eve_keep_def)
  show ?thesis
  proof (cases "served c S al gl j s")
    case True
    then show ?thesis using cp.pre_le [of ?Z "{t. eve_step c S al gl j s t}"]
      by (auto simp: eve_step_def served_def)
  next
    case False
    have a: "{t \<in> pursuit c S al (gl ! j) ?Z. ?sg t < ?sg s} \<subseteq> {t. eve_step c S al gl j s t}"
      using False by (auto simp: eve_step_def Let_def)
    have b: "{t \<in> pursuit c S al (gl ! j) ?Z. ?sg t \<le> ?sg s} \<subseteq> {t. eve_step c S al gl j s t}"
      if "s \<notin> al ! (?sg s mod length al)"
      using False that by (auto simp: eve_step_def Let_def)
    show ?thesis using fcp.eve_signature [OF al s] False cp.pre_le [OF a] cp.pre_le [OF b]
      unfolding served_def by blast
  qed
qed

lemma region_pursued: "j < length gl \<Longrightarrow> region c S al gl \<subseteq> pursuit c S al (gl ! j) (region c S al gl)"
  by (intro cp.gr1_in_mu_y) simp

interpretation ev: memory_strategy "eve_owned c" "game_moves c" UNIV
    "eve_keep c S al gl" "eve_step c S al gl" "eve_upd c S al gl" for c S al gl
proof unfold_locales
  fix j s t
  assume k: "eve_keep c S al gl j s"
  show "\<exists>t\<in>game_moves c s. eve_step c S al gl j s t" if "eve_owned c s"
    using cpre_forces(1) [OF eve_keep_forces [OF k] that] by blast
  show "eve_step c S al gl j s t" if "\<not> eve_owned c s" "t \<in> game_moves c s"
    using cpre_forces(2) [OF eve_keep_forces [OF k] that] by blast
  show "eve_keep c S al gl (eve_upd c S al gl j s t) t" if st: "eve_step c S al gl j s t"
  proof (cases "served c S al gl j s")
    case True
    have m: "Suc j mod length gl < length gl" using k by (intro mod_less_divisor) (auto simp: eve_keep_def)
    then show ?thesis using region_pursued [OF m, of c S al] True k st
      by (auto simp: eve_keep_def eve_upd_def eve_step_def Let_def)
  next
    case False
    then show ?thesis using k st by (simp add: eve_keep_def eve_upd_def eve_step_def Let_def)
  qed
qed

text \<open>A play of steps of Eve serves the guarantees in turn or stays away from an assumption.\<close>

lemma eve_steps_goal:
  assumes st: "\<And>i. eve_keep c S al gl (j i) (p i) \<and> eve_step c S al gl (j i) (p i) (p (Suc i))"
    and upd: "\<And>i. j (Suc i) = eve_upd c S al gl (j i) (p i) (p (Suc i))"
  shows "gr1_goal (set al) (set gl) p"
proof (cases "\<forall>N. \<exists>i\<ge>N. served c S al gl (j i) (p i)")
  case True
  have j: "j i < length gl" for i using st by (simp add: eve_keep_def)
  have "inf_often G p" if "G \<in> set gl" for G
  proof -
    obtain q where q: "q < length gl" "gl ! q = G" using \<open>G \<in> set gl\<close> by (auto simp: in_set_conv_nth)
    have "\<exists>i\<ge>N. j i = q \<and> served c S al gl (j i) (p i)" for N
      by (rule round_robin [where m = "length gl"]) (use j q True upd in \<open>auto simp: eve_upd_def\<close>)
    then show ?thesis using q unfolding inf_often_def served_def by blast
  qed
  then show ?thesis by (simp add: gr1_goal_def)
next
  case False
  then obtain N where N: "\<And>i. i \<ge> N \<Longrightarrow> \<not> served c S al gl (j i) (p i)" by blast
  have jN: "j (N + d) = j N" for d
  proof (induction d)
    case (Suc d)
    then show ?case using N [of "N + d"] by (simp add: upd eve_upd_def)
  qed simp
  define sg where "sg = fcp.sig c S al (gl ! j N) (region c S al gl)"
  have dn: "sg (p (Suc i)) < sg (p i) \<or> p i \<notin> al ! (sg (p i) mod length al) \<and> sg (p (Suc i)) \<le> sg (p i)"
    if "i \<ge> N" for i
    using st [of i] N [OF that] jN [of "i - N"] that by (simp add: eve_step_def Let_def sg_def)
  then obtain M where M: "M \<ge> N" "\<And>i. i \<ge> M \<Longrightarrow> sg (p i) = sg (p M)"
    using eventually_constant [of N "\<lambda>i. sg (p i)"] by (meson less_imp_le)
  have "p i \<notin> al ! (sg (p M) mod length al)" if "i \<ge> M" for i
    using dn [of i] M(1) M(2) [OF that] M(2) [of "Suc i"] that by simp
  moreover have "al ! (sg (p M) mod length al) \<in> set al" using st [of 0] by (simp add: eve_keep_def)
  ultimately show ?thesis unfolding gr1_goal_def inf_often_def by blast
qed

lemma eve_wins_region:
  assumes "s \<in> region c S al gl" and "al \<noteq> []" "gl \<noteq> []"
  shows "eve_wins c S (set al) (set gl) s"
  unfolding eve_wins_def
proof (intro exI conjI allI impI)
  have start: "eve_keep c S al gl 0 s"
    using region_pursued [of 0 gl c S al] assms by (auto simp: eve_keep_def)
  fix h assume h: "partial_play (eve_owned c) (game_moves c) (ev.follow c S al gl 0) s h"
  have "hd h \<in> cpre_set c S {t. eve_step c S al gl (hmem (eve_upd c S al gl) 0 h) (hd h) t}"
    by (intro eve_keep_forces ev.follow_partial [OF h start]) simp
  note forced = cpre_forces(3,4) [OF this]
  show "hd h \<in> S" "game_moves c (hd h) \<noteq> {}" by (fact forced)+
  show "ev.follow c S al gl 0 h \<in> game_moves c (hd h)" by (rule ev.follow_legal [OF forced(2)])
next
  fix p assume p: "p 0 = s" "conforms (eve_owned c) (game_moves c) (ev.follow c S al gl 0) p"
  have "eve_keep c S al gl 0 (p 0)"
    using region_pursued [of 0 gl c S al] assms p(1) by (auto simp: eve_keep_def)
  from ev.follow_play [OF p(2) this] show "gr1_goal (set al) (set gl) p"
    by (intro eve_steps_goal [where j = "mems (eve_upd c S al gl) 0 p"]) simp_all
qed
subsection \<open>Adam wins outside the region\<close>

definition round :: "clts \<Rightarrow> nat set \<Rightarrow> nat set list \<Rightarrow> nat set list \<Rightarrow> nat \<Rightarrow> nat set" where
  "round c S al gl r = ((\<lambda>Z. \<Inter>G\<in>set gl. pursuit c S al G Z) ^^ r) UNIV"

type_synonym adam_memory = "nat \<times> nat \<times> nat"

fun adam_keep :: "clts \<Rightarrow> nat set \<Rightarrow> nat set list \<Rightarrow> nat set list \<Rightarrow> adam_memory \<Rightarrow> nat \<Rightarrow> bool" where
  "adam_keep c S al gl (r, j, i) s \<longleftrightarrow>
     j < length gl \<and> i < length al \<and> s \<notin> pursuit c S al (gl ! j) (round c S al gl r)"

fun adam_step :: "clts \<Rightarrow> nat set \<Rightarrow> nat set list \<Rightarrow> nat set list \<Rightarrow> adam_memory \<Rightarrow> nat \<Rightarrow> nat \<Rightarrow> bool" where
  "adam_step c S al gl (r, j, i) s t =
     (let Y = pursuit c S al (gl ! j) (round c S al gl r);
          e = fcp.escape c S (set al) (gl ! j) (round c S al gl r) (al ! i)
      in if s \<in> gl ! j then t \<notin> round c S al gl r
         else if s \<in> al ! i then t \<notin> Y
         else t \<notin> Y \<and> e t < e s)"

fun adam_upd :: "clts \<Rightarrow> nat set \<Rightarrow> nat set list \<Rightarrow> nat set list \<Rightarrow> adam_memory \<Rightarrow> nat \<Rightarrow> nat \<Rightarrow> adam_memory" where
  "adam_upd c S al gl (r, j, i) s t =
     (if s \<in> gl ! j then (r - 1, SOME j'. j' < length gl \<and> t \<notin> pursuit c S al (gl ! j') (round c S al gl (r - 1)), i)
      else if s \<in> al ! i then (r, j, Suc i mod length al)
      else (r, j, i))"

lemma left_round:
  assumes "t \<notin> round c S al gl r"
  shows "0 < r" and "\<exists>j<length gl. t \<notin> pursuit c S al (gl ! j) (round c S al gl (r - 1))"
  using assms by (cases r; force simp: round_def in_set_conv_nth)+

lemma cpre_prevents:
  assumes "s \<notin> cpre_set c S (- T)" "s < state_count c" "s \<in> S"
  shows "\<not> eve_owned c s \<Longrightarrow> game_moves c s \<noteq> {} \<Longrightarrow> \<exists>t\<in>game_moves c s. t \<in> T"
    "eve_owned c s \<Longrightarrow> t \<in> game_moves c s \<Longrightarrow> t \<in> T"
  using assms by (auto simp: cpre_set_def)

lemma adam_keep_prevents:
  assumes "adam_keep c S al gl (r, j, i) s"
  shows "s \<notin> cpre_set c S (- {t. adam_step c S al gl (r, j, i) s t})"
proof -
  let ?Z = "round c S al gl r"
  have A: "al ! i \<in> set al" and s: "s \<notin> pursuit c S al (gl ! j) ?Z" using assms by simp_all
  note sg = fcp.adam_signature [OF A s]
  consider "s \<in> gl ! j" | "s \<notin> gl ! j" "s \<in> al ! i" | "s \<notin> gl ! j" "s \<notin> al ! i" by blast
  then show ?thesis
  proof cases
    case 1
    then show ?thesis using sg(1) by (simp add: Collect_neg_eq)
  next
    case 2
    then show ?thesis using sg(2) by (simp add: Collect_neg_eq)
  next
    case 3
    then show ?thesis using sg(3) by (simp add: Let_def)
  qed
qed

lemma adam_keep_next:
  assumes "adam_keep c S al gl m s" "adam_step c S al gl m s t"
  shows "adam_keep c S al gl (adam_upd c S al gl m s t) t"
proof -
  obtain r j i where m: "m = (r, j, i)" by (cases m) auto
  show ?thesis
  proof (cases "s \<in> gl ! j")
    case True
    then have "t \<notin> round c S al gl r" using assms m by simp
    from someI_ex [OF left_round(2) [OF this]] show ?thesis using True assms m by simp
  next
    case False
    moreover have "Suc i mod length al < length al" using assms m by (intro mod_less_divisor) auto
    ultimately show ?thesis using assms m by (auto simp: Let_def split: if_splits)
  qed
qed

interpretation ad: memory_strategy "\<lambda>s. \<not> eve_owned c s" "game_moves c" "S \<inter> {..<state_count c}"
    "adam_keep c S al gl" "adam_step c S al gl" "adam_upd c S al gl" for c S al gl
proof unfold_locales
  fix m s t
  assume k: "adam_keep c S al gl m s" and s: "s \<in> S \<inter> {..<state_count c}"
  have "s \<notin> cpre_set c S (- {t. adam_step c S al gl m s t})"
    using adam_keep_prevents k by (cases m) blast
  note prev = cpre_prevents [OF this]
  show "\<exists>t\<in>game_moves c s. adam_step c S al gl m s t" if "game_moves c s \<noteq> {}" "\<not> eve_owned c s"
    using prev(1) that s by auto
  show "adam_step c S al gl m s t" if "\<not> \<not> eve_owned c s" "t \<in> game_moves c s"
    using prev(2) that s by auto
  show "adam_keep c S al gl (adam_upd c S al gl m s t) t" if "adam_step c S al gl m s t"
    by (rule adam_keep_next [OF k that])
qed

text \<open>A play of steps of Adam meets every assumption again and again, and some guarantee no more.\<close>

lemma adam_steps_goal:
  assumes st: "\<And>i. adam_keep c S al gl (m i) (p i) \<and> adam_step c S al gl (m i) (p i) (p (Suc i))"
    and upd: "\<And>i. m (Suc i) = adam_upd c S al gl (m i) (p i) (p (Suc i))"
  shows "\<not> gr1_goal (set al) (set gl) p"
proof -
  define rr jj ii where "rr i = fst (m i)" and "jj i = fst (snd (m i))" and "ii i = snd (snd (m i))" for i
  have m: "m i = (rr i, jj i, ii i)" for i by (simp add: rr_def jj_def ii_def)
  have fst_step: "rr (Suc i) = (if p i \<in> gl ! jj i then rr i - 1 else rr i)" for i
    using upd [of i] m [of i] m [of "Suc i"] by (simp split: if_splits)
  have pos: "p i \<in> gl ! jj i \<Longrightarrow> 0 < rr i" for i
    using st [of i] m [of i] left_round(1) [of "p (Suc i)" c S al gl "rr i"] by simp
  have dec: "rr (Suc i) \<le> rr i" for i by (simp add: fst_step)
  obtain M where M: "\<And>i. i \<ge> M \<Longrightarrow> rr i = rr M"
    using eventually_constant [of 0 rr] dec by blast
  have out: "p i \<notin> gl ! jj i" if "i \<ge> M" for i
  proof
    assume "p i \<in> gl ! jj i"
    then have "rr (Suc i) < rr i" using fst_step [of i] pos [of i] by simp
    moreover have "rr (Suc i) = rr M" "rr i = rr M" using that by (intro M; simp)+
    ultimately show False by simp
  qed
  have snd_step: "jj (Suc i) = jj i \<and> ii (Suc i) = (if p i \<in> al ! ii i then Suc (ii i) mod length al else ii i)"
    if "i \<ge> M" for i
    using upd [of i] m [of i] m [of "Suc i"] out [OF that] by (simp split: if_splits)
  have jj: "jj (M + d) = jj M" for d
  proof (induction d)
    case (Suc d)
    then show ?case using snd_step [of "M + d"] by simp
  qed simp
  have never: "p i \<notin> gl ! jj M" if "i \<ge> M" for i using out [OF that] jj [of "i - M"] that by simp
  have inf: "\<exists>i\<ge>N. p (M + i) \<in> al ! ii (M + i)" for N
  proof (rule ccontr)
    assume "\<not> ?thesis"
    then have no: "p i \<notin> al ! ii i" if "i \<ge> M + N" for i
      using that by (auto dest!: spec [of _ "i - M"] simp: algebra_simps)
    have ii: "ii (M + N + d) = ii (M + N)" for d
    proof (induction d)
      case (Suc d)
      then show ?case using snd_step [of "M + N + d"] no [of "M + N + d"] by simp
    qed simp
    define e where "e = fcp.escape c S (set al) (gl ! jj M) (round c S al gl (rr M)) (al ! ii (M + N))"
    have "e (p (Suc i)) < e (p i)" if "i \<ge> M + N" for i
      using st [of i] m [of i] out [of i] no [OF that] M [of i] jj [of "i - M"] ii [of "i - (M + N)"] that
      by (simp add: e_def Let_def)
    then show False using no_infinite_descent [of "M + N" "\<lambda>i. e (p i)"] by blast
  qed
  have bound: "ii i < length al" for i using st [of i] m [of i] by simp
  have "inf_often A p" if A: "A \<in> set al" for A
  proof -
    obtain q where q: "q < length al" "al ! q = A" using A by (auto simp: in_set_conv_nth)
    have "\<exists>i\<ge>N. ii (M + i) = q \<and> p (M + i) \<in> al ! ii (M + i)" for N
      by (rule round_robin [where m = "length al" and j = "\<lambda>i. ii (M + i)"])
        (use inf q bound snd_step in auto)
    then show ?thesis using q unfolding inf_often_def by (metis trans_le_add2)
  qed
  moreover have "gl ! jj M \<in> set gl" using st [of M] m [of M] by simp
  moreover have "\<not> inf_often (gl ! jj M) p" using never unfolding inf_often_def by blast
  ultimately show ?thesis unfolding gr1_goal_def by blast
qed

lemma adam_wins_outside:
  assumes wf: "wf_clts c" and s: "s < state_count c" "s \<notin> region c S al gl" and ne: "al \<noteq> []" "gl \<noteq> []"
  shows "adam_wins c S (set al) (set gl) s"
proof -
  have "\<And>X. (\<Inter>G\<in>set gl. pursuit c S al G X) \<subseteq> {..<state_count c}"
    using ne(2) mu_y_in_safe by (cases gl) fastforce+
  then obtain r where r: "s \<notin> round c S al gl (Suc r)"
    using fcp.gfp_left [OF cp.gr1_body_mono] s(2) unfolding gr1_set_def round_def by blast
  then obtain j where j: "adam_keep c S al gl (r, j, 0) s"
    using left_round(2) [OF r] ne(1) by auto
  show ?thesis unfolding adam_wins_def
  proof (intro exI conjI allI impI)
    show "ad.follow c S al gl (r, j, 0) h \<in> game_moves c (hd h)" if "game_moves c (hd h) \<noteq> {}" for h
      by (rule ad.follow_legal [OF that])
    fix p assume p: "p 0 = s" "conforms (\<lambda>s. \<not> eve_owned c s) (game_moves c) (ad.follow c S al gl (r, j, 0)) p"
      and S: "\<forall>i. p i \<in> S"
    have less: "p i < state_count c" for i
    proof (induction i)
      case (Suc i)
      then show ?case using p(2) game_moves_less [OF wf] by (auto simp: conforms_def)
    qed (use p s in simp)
    then have D: "p i \<in> S \<inter> {..<state_count c}" for i using S by simp
    have "adam_keep c S al gl (r, j, 0) (p 0)" using j p(1) by simp
    from ad.follow_play [OF p(2) this D] show "\<not> gr1_goal (set al) (set gl) p"
      by (intro adam_steps_goal [where m = "mems (adam_upd c S al gl) (r, j, 0) p"]) simp_all
  qed
qed

end
