(* ===== verification/Gr1_Solver.thy ===== *)
theory Gr1_Solver
  imports Gr1_Determined
begin

section \<open>Correctness of the GR(1) solver\<close>

text \<open>
  The bit vector that \<open>gr1_win\<close> returns is the set of states from which Eve wins, and Adam wins from every
  other state; the dedicated B\"uchi solver is the case of one guarantee and no assumption.
\<close>

subsection \<open>Empty lists of recurrence sets\<close>

definition fair_list :: "nat \<Rightarrow> state_set list \<Rightarrow> nat set list" where
  "fair_list n xs = (if xs = [] then [{..<n}] else map bset xs)"

lemma set_fair_list [simp]: "set (fair_list n xs) = fair_sets n xs"
  and fair_list_not_Nil [simp]: "fair_list n xs \<noteq> []"
  by (simp_all add: fair_list_def fair_sets_def)

lemma fair_sets_inf_often:
  assumes "\<And>i. p i < n"
  shows "(\<forall>A\<in>fair_sets n xs. inf_often A p) \<longleftrightarrow> (\<forall>A\<in>bset ` set xs. inf_often A p)"
  using assms by (auto simp: fair_sets_def inf_often_def)

lemma conforms_less:
  assumes "wf_clts c" "p 0 < state_count c" "conforms own (game_moves c) \<sigma> p"
  shows "p i < state_count c"
proof (induction i)
  case (Suc i)
  then show ?case using assms(3) game_moves_less [OF assms(1)] by (auto simp: conforms_def)
qed (fact assms(2))

lemma gr1_goal_fair_sets:
  assumes "wf_clts c" "p 0 < state_count c" "conforms own (game_moves c) \<sigma> p"
  shows "gr1_goal (fair_sets (state_count c) as) (fair_sets (state_count c) gs) p \<longleftrightarrow>
    gr1_goal (bset ` set as) (bset ` set gs) p"
  using fair_sets_inf_often [of p "state_count c"] conforms_less [OF assms] by (simp add: gr1_goal_def)

lemma eve_wins_fair_sets:
  assumes "wf_clts c" "s < state_count c"
  shows "eve_wins c S (fair_sets (state_count c) as) (fair_sets (state_count c) gs) s \<longleftrightarrow>
    eve_wins c S (bset ` set as) (bset ` set gs) s"
  unfolding eve_wins_def using gr1_goal_fair_sets [OF assms(1)] assms(2) by (intro ex_cong conj_cong refl) blast

lemma adam_wins_fair_sets:
  assumes "wf_clts c" "s < state_count c"
  shows "adam_wins c S (fair_sets (state_count c) as) (fair_sets (state_count c) gs) s \<longleftrightarrow>
    adam_wins c S (bset ` set as) (bset ` set gs) s"
  unfolding adam_wins_def using gr1_goal_fair_sets [OF assms(1)] assms(2) by (intro ex_cong conj_cong refl) blast

lemma region_determined:
  assumes "wf_clts c" "s < state_count c"
    and Z: "Z = gr1_set (cpre_set c S) (fair_sets (state_count c) gs) (fair_sets (state_count c) as)"
  shows "s \<in> Z \<longleftrightarrow> eve_wins c S (bset ` set as) (bset ` set gs) s"
    and "s \<notin> Z \<longleftrightarrow> adam_wins c S (bset ` set as) (bset ` set gs) s"
proof -
  have "s \<in> Z \<Longrightarrow> eve_wins c S (bset ` set as) (bset ` set gs) s"
    using eve_wins_region [where s = s and c = c and S = S and al = "fair_list (state_count c) as" and gl = "fair_list (state_count c) gs"] Z
      eve_wins_fair_sets [OF assms(1,2)] by simp
  moreover have "s \<notin> Z \<Longrightarrow> adam_wins c S (bset ` set as) (bset ` set gs) s"
    using adam_wins_outside [OF assms(1,2), where S = S and al = "fair_list (state_count c) as" and gl = "fair_list (state_count c) gs"] Z
      adam_wins_fair_sets [OF assms(1,2)] by simp
  ultimately show "s \<in> Z \<longleftrightarrow> eve_wins c S (bset ` set as) (bset ` set gs) s"
    and "s \<notin> Z \<longleftrightarrow> adam_wins c S (bset ` set as) (bset ` set gs) s"
    using not_both_win by blast+
qed

subsection \<open>The solver\<close>

definition arena_clts :: "(bool \<times> nat list) list \<Rightarrow> clts" where
  \<comment> \<open>a plant given by the owner (Eve: controllable label \<open>0\<close>, Adam: uncontrollable label \<open>1\<close>) and the targets of
    each state\<close>
  "arena_clts g = (let n = length g;
       outs = map (\<lambda>(eve, ts). map (\<lambda>t. \<lparr>t_target = t, t_labels = [if eve then 0 else 1], t_modality = Sharp\<rparr>) ts) g
     in \<lparr>c_state_names = replicate n [], c_state_map = [], c_initial_states = {},
      c_outgoing = outs, c_incoming = replicate n [],
      c_labels = \<lparr>st_sets = [], st_bitsets = [], st_symbols = [], st_symbol_index = []\<rparr>,
      c_variables = \<lparr>st_sets = [[]], st_bitsets = [[]], st_symbols = [], st_symbol_index = []\<rparr>,
      c_state_variables = replicate n 0, c_state_valuations = replicate n None, c_state_3valued = None,
      c_label_controllability = [], c_uncontrollable_alphabet = {1}, c_controllable_alphabet = {0},
      c_internal_alphabet = {}, c_uncontrollable_groups = map (\<lambda>ts. group_from {1} 0 ts []) outs\<rparr>)"

lemma state_count_arena [simp]: "state_count (arena_clts g) = length g"
  by (simp add: arena_clts_def state_count_def Let_def)

lemma arena_wf:
  "list_all (\<lambda>(eve, ts). list_all (\<lambda>t. t < length g) ts) g \<Longrightarrow> wf_clts (arena_clts g)"
  by (auto simp: wf_clts_def arena_clts_def state_count_def Let_def list_all_iff split: if_splits)

lemma arena_outgoing:
  "s < length g \<Longrightarrow> outgoing (arena_clts g) s =
     map (\<lambda>t. \<lparr>t_target = t, t_labels = [if fst (g ! s) then 0 else 1], t_modality = Sharp\<rparr>) (snd (g ! s))"
  by (simp add: arena_clts_def outgoing_def Let_def split_beta)

lemma arena_controllable:
  "is_controllable (arena_clts g) \<lparr>t_target = t, t_labels = [if e then 0 else 1], t_modality = m\<rparr> \<longleftrightarrow> e"
  by (simp add: is_controllable_def is_controllable_label_def is_internal_label_def arena_clts_def Let_def)

lemma arena_pure: "s < length g \<Longrightarrow> t \<in> set (outgoing (arena_clts g) s) \<Longrightarrow> is_controllable (arena_clts g) t \<longleftrightarrow> fst (g ! s)"
  unfolding arena_outgoing set_map using arena_controllable by blast

lemma arena_owned: "s < length g \<Longrightarrow> eve_owned (arena_clts g) s \<longleftrightarrow> fst (g ! s) \<and> snd (g ! s) \<noteq> []"
  using arena_pure [of s g] by (cases "snd (g ! s)") (auto simp: eve_owned_def list_ex_iff arena_outgoing)

lemma arena_moves:
  assumes "s < length g"
  shows "game_moves (arena_clts g) s = set (snd (g ! s))"
proof -
  have "game_moves (arena_clts g) s = t_target ` set (outgoing (arena_clts g) s)"
    using arena_pure [OF assms] arena_owned [OF assms] by (auto simp: game_moves_def)
  then show ?thesis by (simp add: arena_outgoing [OF assms] image_image)
qed

text \<open>
  C6: GR(1) synthesis is exact. On a well-formed plant, with recurrence sets of one bit per state and fuel
  beyond the number of states, \<open>gr1_win\<close> returns a set, and for every state: it is in the set iff Eve has a
  strategy that never gets stuck, never leaves the safe states and makes every infinite play visit all
  guarantee sets infinitely often unless some assumption set is visited finitely often; and it is outside
  iff Adam has a strategy that defeats every strategy of Eve.
\<close>

theorem gr1_win_exact:
  assumes "wf_clts c" and "state_count c < k" and "sized c (safe # gs @ as)"
  shows "\<exists>z. gr1_win k c safe gs as = Ok z \<and> length z = state_count c \<and>
    (\<forall>s<state_count c.
       (s \<in> bset z \<longleftrightarrow> eve_wins c (bset safe) (bset ` set as) (bset ` set gs) s) \<and>
       (s \<notin> bset z \<longleftrightarrow> adam_wins c (bset safe) (bset ` set as) (bset ` set gs) s))"
proof -
  obtain z where z: "gr1_win k c safe gs as = Ok z" "length z = state_count c" "bset z =
      gr1_set (cpre_set c (bset safe)) (fair_sets (state_count c) gs) (fair_sets (state_count c) as)"
    using gr1_win_loop [OF assms(2,3)] by blast
  then show ?thesis using region_determined [OF assms(1) _ z(3)] by simp
qed

abbreviation wait_arena :: clts where
  \<comment> \<open>\<open>0 -> 1, 0 -> 0, 1 -> 0\<close>, all of them Eve's\<close>
  "wait_arena \<equiv> arena_clts [(True, [1, 0]), (True, [0])]"

lemma wait_arena_wf: "wf_clts wait_arena"
  by (rule arena_wf) simp

lemma bset_two: "bset [True, True] = {0, 1}" "bset [False, True] = {1}" "bset [False, False] = {}"
  by (auto simp: mem_bset_iff less_Suc_eq nth_Cons split: nat.splits)

lemma wait_arena_win: "gr1_win 3 wait_arena [True, True] [[False, False]] [[False, True]] = Ok [True, True]"
  by code_simp

theorem gr1_win_exact_witness: "eve_wins wait_arena {0, 1} {{1}} {{}} 0"
  using gr1_win_exact [OF wait_arena_wf, of 3 "[True, True]" "[[False, False]]" "[[False, True]]"]
    wait_arena_win by (auto simp: bset_two)

text \<open>
  C38: The dedicated B\"uchi solver agrees with the GR(1) solver on one guarantee and no assumption: both
  return the same bit vector.
\<close>

theorem buchi_is_gr1:
  assumes "state_count c < k" and "sized c [safe, f]"
  shows "\<exists>z. buchi k c safe f = Ok z \<and> gr1_win k c safe [f] [] = Ok z"
proof -
  obtain z where z: "buchi k c safe f = Ok z" "length z = state_count c"
      "bset z = buchi_set (cpre_set c (bset safe)) (bset f)"
    using buchi_loop [OF assms] by blast
  obtain y where y: "gr1_win k c safe [f] [] = Ok y" "length y = state_count c"
      "bset y = gr1_set (cpre_set c (bset safe)) {bset f} {{..<state_count c}}"
    using gr1_win_loop [OF assms(1), of safe "[f]" "[]"] assms(2) by (auto simp: fair_sets_def)
  have "bset y = bset z" using y(3) z(3) cp.gr1_no_assumption [OF cpre_set_subset(2)] by simp
  then have "y = z" using y(2) z(2) by (simp add: bv_eq_iff)
  then show ?thesis using y z by blast
qed

theorem buchi_is_gr1_witness:
  "\<exists>z. buchi 3 wait_arena [True, True] [False, True] = Ok z \<and> gr1_win 3 wait_arena [True, True] [[False, True]] [] = Ok z"
  by (rule buchi_is_gr1) simp_all

end
