(* ===== verification/Gr1_Extract.thy ===== *)
theory Gr1_Extract
  imports Gr1_Solver
begin

section \<open>Extracted GR(1) strategies\<close>

text \<open>
  The ranks that the extractors compute, the moves they pick, and when following these moves wins: always
  without assumptions, and with one assumption for the strategy with modes. With an assumption the positional
  strategy can lose a game that Eve wins, and so can the strategy with modes with two assumptions.
\<close>

subsection \<open>Ranks\<close>

definition below :: "ranks \<Rightarrow> nat \<Rightarrow> nat set" where
  "below rank q = {t. t < length rank \<and> (\<exists>q'<q. rank ! t = Some q')}"

definition ranked :: "ranks \<Rightarrow> nat set" where
  "ranked rank = {t. t < length rank \<and> rank ! t \<noteq> None}"

definition grounded :: "(nat set \<Rightarrow> nat set) \<Rightarrow> ranks \<Rightarrow> bool" where
  "grounded F rank \<longleftrightarrow> (\<forall>s<length rank. \<forall>q. rank ! s = Some q \<longrightarrow> s \<in> F (below rank q))"

definition ranks_of :: "(nat set \<Rightarrow> nat set) \<Rightarrow> nat \<Rightarrow> ranks \<Rightarrow> bool" where
  \<comment> \<open>the rank of a state is the round of the iteration of \<open>F\<close> in which it enters\<close>
  "ranks_of F n rank \<longleftrightarrow> length rank = n \<and> grounded F rank \<and> (\<forall>q. F (below rank q) \<subseteq> below rank (Suc q))"

definition ranks_upto :: "(nat set \<Rightarrow> nat set) \<Rightarrow> nat \<Rightarrow> nat \<Rightarrow> ranks \<Rightarrow> bool" where
  "ranks_upto F n r rank \<longleftrightarrow> length rank = n \<and> grounded F rank \<and> ranked rank = below rank r
     \<and> (\<forall>q<r. F (below rank q) \<subseteq> below rank (Suc q))"

lemma below_mono: "q \<le> r \<Longrightarrow> below rank q \<subseteq> below rank r"
  by (force simp: below_def)

lemma below_ranked: "below rank q \<subseteq> ranked rank"
  by (auto simp: below_def ranked_def)

lemma ranks_upto_stop:
  assumes "ranks_upto F n r rank" and "F (ranked rank) \<subseteq> ranked rank"
  shows "ranks_of F n rank"
proof -
  have "F (below rank q) \<subseteq> below rank (Suc q)" for q
  proof (cases "q < r")
    case False
    then have "below rank q = ranked rank" "below rank (Suc q) = ranked rank"
      using assms(1) below_mono [of r q rank] below_mono [of r "Suc q" rank] below_ranked [of rank]
      by (auto simp: ranks_upto_def)
    then show ?thesis using assms(2) by simp
  qed (use assms(1) in \<open>simp add: ranks_upto_def\<close>)
  then show ?thesis using assms(1) by (simp add: ranks_of_def ranks_upto_def)
qed

lemma ranks_upto_extend:
  assumes upto: "ranks_upto F n r rank" and len: "length rank' = n" and FU: "F (ranked rank) \<subseteq> {..<n}"
    and ext: "\<And>s. s < n \<Longrightarrow> rank' ! s = (if s \<in> F (ranked rank) \<and> rank ! s = None then Some r else rank ! s)"
  shows "ranks_upto F n (Suc r) rank'"
proof -
  have ln: "length rank = n" and up: "ranked rank = below rank r" using upto by (simp_all add: ranks_upto_def)
  have lt: "q < r" if "rank ! s = Some q" "s < n" for s q
  proof -
    have "s \<in> ranked rank" using that ln by (simp add: ranked_def)
    then show ?thesis using that up by (simp add: below_def)
  qed
  have same: "below rank' q = below rank q" if "q \<le> r" for q
    using that len ln by (auto simp: below_def ext split: if_splits)
  have all: "ranked rank' = ranked rank \<union> F (ranked rank)" using FU len ln by (auto simp: ranked_def ext split: if_splits)
  have new: "below rank' (Suc r) = ranked rank'"
    using len ln lt by (force simp: below_def ranked_def ext split: if_splits)
  have "s \<in> F (below rank' q)" if "s < n" "rank' ! s = Some q" for s q
    using that upto up same [of q] lt [of s q] ln by (auto simp: ext ranks_upto_def grounded_def same split: if_splits)
  moreover have "F (below rank' q) \<subseteq> below rank' (Suc q)" if "q < Suc r" for q
  proof (cases "q = r")
    case True
    then show ?thesis using new all same [of r] up by auto
  next
    case False
    then show ?thesis using that upto same [of q] same [of "Suc q"] by (simp add: ranks_upto_def)
  qed
  ultimately show ?thesis using len new by (simp add: ranks_upto_def grounded_def)
qed

lemma ranks_of_lfp:
  assumes "mono F" and rk: "ranks_of F n rank"
  shows "ranked rank = lfp F"
proof (rule antisym)
  have "\<forall>s. s < length rank \<longrightarrow> rank ! s = Some q \<longrightarrow> s \<in> lfp F" for q
  proof (induction q rule: less_induct)
    case (less q)
    then have "below rank q \<subseteq> lfp F" by (auto simp: below_def)
    then have "F (below rank q) \<subseteq> lfp F"
      using monoD [OF assms(1)] by (subst lfp_unfold [OF assms(1)])
    then show ?case using rk by (auto simp: ranks_of_def grounded_def)
  qed
  then show "ranked rank \<subseteq> lfp F" by (auto simp: ranked_def)
  define Q where "Q = Suc (Max (insert 0 ((\<lambda>s. the (rank ! s)) ` {..<length rank})))"
  have "the (rank ! s) < Q" if "s < length rank" for s
    unfolding Q_def less_Suc_eq_le by (rule Max_ge) (use that in auto)
  then have Q: "ranked rank = below rank Q" "ranked rank = below rank (Suc Q)"
    by (force simp: ranked_def below_def less_Suc_eq)+
  have "F (below rank Q) \<subseteq> below rank (Suc Q)" using rk by (simp add: ranks_of_def)
  then have "F (ranked rank) \<subseteq> ranked rank" by (simp only: Q [symmetric])
  then show "lfp F \<subseteq> ranked rank" by (rule lfp_lowerbound)
qed

lemma ranks_of_below: "ranks_of F n rank \<Longrightarrow> F (below rank q) \<subseteq> below rank (Suc q)"
  by (simp add: ranks_of_def)

lemma ranks_of_grounded: "ranks_of F n rank \<Longrightarrow> rank ! s = Some q \<Longrightarrow> s < n \<Longrightarrow> s \<in> F (below rank q)"
  by (auto simp: ranks_of_def grounded_def)

subsection \<open>The loops that compute ranks\<close>

text \<open>One round of either loop: it ends with the ranks, or ranks at least one more state.\<close>

lemma rank_round:
  assumes upto: "ranks_upto F n r rank" and len: "length rank' = n" and FU: "F (ranked rank) \<subseteq> {..<n}"
    and ext: "\<And>s. s < n \<Longrightarrow> rank' ! s = (if s \<in> F (ranked rank) \<and> rank ! s = None then Some r else rank ! s)"
  shows "ranked rank' = ranked rank \<union> F (ranked rank)"
    and "rank' = rank \<longleftrightarrow> F (ranked rank) \<subseteq> ranked rank"
    and "rank' = rank \<Longrightarrow> ranks_of F n rank"
    and "rank' \<noteq> rank \<Longrightarrow> n - card (ranked rank') < n - card (ranked rank)"
proof -
  have ln: "length rank = n" using upto by (simp add: ranks_upto_def)
  show more: "ranked rank' = ranked rank \<union> F (ranked rank)"
    using FU len ln by (auto simp: ranked_def ext split: if_splits)
  show iff: "rank' = rank \<longleftrightarrow> F (ranked rank) \<subseteq> ranked rank"
  proof
    assume "rank' = rank"
    then show "F (ranked rank) \<subseteq> ranked rank" using more by auto
  next
    assume sub: "F (ranked rank) \<subseteq> ranked rank"
    show "rank' = rank"
    proof (rule nth_equalityI)
      fix s assume "s < length rank'"
      then have s: "s < n" by (simp add: len)
      have "s \<in> F (ranked rank) \<Longrightarrow> rank ! s \<noteq> None" using sub by (auto simp: ranked_def)
      then show "rank' ! s = rank ! s" using ext [OF s] by auto
    qed (simp add: len ln)
  qed
  show "rank' = rank \<Longrightarrow> ranks_of F n rank" using ranks_upto_stop [OF upto] iff by simp
  have fin: "ranked rank' \<subseteq> {..<n}" using len by (auto simp: ranked_def)
  show "n - card (ranked rank') < n - card (ranked rank)" if "rank' \<noteq> rank"
  proof -
    have "ranked rank \<subset> ranked rank'" using that iff more by auto
    then have "card (ranked rank) < card (ranked rank')"
      by (intro psubset_card_mono) (use fin finite_subset in auto)
    moreover have "card (ranked rank') \<le> n" using card_mono [OF _ fin] by simp
    ultimately show ?thesis by simp
  qed
qed

lemma nth_bset: "i < length b \<Longrightarrow> b ! i \<longleftrightarrow> i \<in> bset b"
  by (simp add: mem_bset_iff)

lemma nth_map2: "i < length a \<Longrightarrow> i < length b \<Longrightarrow> map2 f a b ! i = f (a ! i) (b ! i)"
  by simp

lemma bset_map2: "length a = n \<Longrightarrow> length b = n \<Longrightarrow> bset (map2 f a b) = {i. i < n \<and> f (i \<in> bset a) (b ! i)}"
  by (auto simp: mem_bset_iff)

lemma reach_ranks_loop_ranks:
  assumes "ranks_upto (\<lambda>X. B \<union> cpre_set c S X) (state_count c) (Suc r) rank"
    and "bset arena = S" and "B \<subseteq> ranked rank" and "length current = state_count c" "bset current = ranked rank"
    and "state_count c - card (ranked rank) < k"
  shows "\<exists>rank'. reach_ranks_loop k c arena r current rank = Ok rank'
    \<and> ranks_of (\<lambda>X. B \<union> cpre_set c S X) (state_count c) rank'"
  using assms
proof (induction k arbitrary: r current rank)
  case (Suc k)
  let ?n = "state_count c" and ?F = "\<lambda>X. B \<union> cpre_set c S X" and ?cp = "cpre c arena current"
  let ?rank1 = "add_ranks ?cp (r + 1) rank"
  let ?new = "map2 (\<lambda>b x. b \<and> x = None) ?cp rank"
  let ?current1 = "bv_or current ?new"
  have len: "length rank = ?n" using Suc.prems(1) by (simp add: ranks_upto_def)
  have r1: "length ?rank1 = ?n" "\<And>s. s < ?n \<Longrightarrow> ?rank1 ! s =
      (if s \<in> ?F (ranked rank) \<and> rank ! s = None then Some (Suc r) else rank ! s)"
    using len Suc.prems(2,3,5) by (auto simp: add_ranks_def nth_bset ranked_def)
  have FU: "?F (ranked rank) \<subseteq> {..<?n}"
    using Suc.prems(3) cpre_set_subset(2) len by (auto simp: ranked_def)
  note round = rank_round [OF Suc.prems(1) r1(1) FU r1(2)]
  show ?case
  proof (cases "?rank1 = rank")
    case True
    then show ?thesis using round(3) by (simp add: Let_def)
  next
    case False
    have up: "ranks_upto ?F ?n (Suc (r + 1)) ?rank1"
      using ranks_upto_extend [OF Suc.prems(1) r1(1) FU r1(2)] by simp
    have "bset ?new = bset ?cp - ranked rank"
      using len cpre_set_subset(2) by (subst bset_map2 [of _ ?n]) (auto simp: ranked_def)
    then have "bset ?current1 = bset current \<union> bset ?cp"
      using Suc.prems(4,5) len by (subst bset_or) auto
    then have cur: "bset ?current1 = ranked ?rank1" using round(1) Suc.prems(2,3,5) by auto
    have "?n - card (ranked ?rank1) < k" using round(4) False Suc.prems(6) by simp
    from Suc.IH [OF up Suc.prems(2) _ _ cur this] show ?thesis
      using False round(1) Suc.prems(3,4) len by (auto simp: Let_def)
  qed
qed simp

lemma reach_ranks_ranks:
  assumes "state_count c < k" and "sized c [arena, target]"
  shows "\<exists>rank. gr1_reach_ranks k c arena target = Ok rank
    \<and> ranks_of (\<lambda>X. bset target \<inter> bset arena \<union> cpre_set c (bset arena) X) (state_count c) rank"
  unfolding gr1_reach_ranks_def Let_def
proof (rule reach_ranks_loop_ranks)
  let ?n = "state_count c" and ?cur = "bv_and target arena"
  define rank where "rank = map (\<lambda>b. if b then Some (0::nat) else None) ?cur"
  have cur: "bset ?cur = bset target \<inter> bset arena" "length ?cur = ?n"
    using assms(2) by (simp_all add: bset_and)
  have rk: "length rank = ?n" "\<And>s. s < ?n \<Longrightarrow> rank ! s = (if s \<in> bset ?cur then Some 0 else None)"
    using cur(2) by (simp_all add: rank_def nth_bset)
  have in_n: "s \<in> bset ?cur \<Longrightarrow> s < ?n" for s using bset_less [of s ?cur] cur(2) by metis
  have set: "ranked rank = bset ?cur" "below rank (Suc 0) = bset ?cur" "below rank 0 = {}"
    using rk in_n by (auto simp: ranked_def below_def split: if_splits)
  have none: "cpre_set c S {} = {}" for S by (auto simp: cpre_set_def)
  have "grounded (\<lambda>X. bset target \<inter> bset arena \<union> cpre_set c (bset arena) X) rank"
    using rk cur(1) set(3) by (auto simp: grounded_def split: if_splits)
  then show "ranks_upto (\<lambda>X. bset target \<inter> bset arena \<union> cpre_set c (bset arena) X) ?n (Suc 0)
      (map (\<lambda>b. if b then Some 0 else None) ?cur)"
    using cur(1) rk(1) set none by (simp add: ranks_upto_def rank_def [symmetric])
  show "bset target \<inter> bset arena \<subseteq> ranked (map (\<lambda>b. if b then Some 0 else None) ?cur)"
    "bset ?cur = ranked (map (\<lambda>b. if b then Some 0 else None) ?cur)" "length ?cur = ?n"
    using cur set(1) by (simp_all add: rank_def)
  show "?n - card (ranked (map (\<lambda>b. if b then Some 0 else None) ?cur)) < k" using assms(1) by simp
qed simp

lemma mu_y_ranks_loop_ranks:
  assumes "ranks_upto F n r rank" and "\<And>X. F X \<subseteq> {..<n}"
    and "length y = n" "bset y = ranked rank" and "n - card (ranked rank) < k"
    and step: "\<And>y. length y = n \<Longrightarrow> \<exists>d. step y = Ok d \<and> length d = n \<and> bset d = F (bset y)"
  shows "\<exists>rank'. mu_y_ranks_loop k step r y rank = Ok rank' \<and> ranks_of F n rank'"
  using assms(1,3-5)
proof (induction k arbitrary: r y rank)
  case (Suc k)
  obtain d where d: "step y = Ok d" "length d = n" "bset d = F (bset y)" using step Suc.prems(2) by blast
  let ?yn = "bv_or y d"
  define add where "add = map2 (\<lambda>n p. n \<and> \<not> p) ?yn y"
  let ?rank1 = "map2 (\<lambda>b x. if b then Some r else x) add rank"
  have len: "length rank = n" using Suc.prems(1) by (simp add: ranks_upto_def)
  have yn: "length ?yn = n" "bset ?yn = ranked rank \<union> F (ranked rank)"
    using d Suc.prems(2,3) by (simp_all add: bset_or)
  have add: "length add = n" "bset add = F (ranked rank) - ranked rank"
    using yn Suc.prems(2,3) assms(2) [of "ranked rank"] by (auto simp: add_def bset_map2 [of _ n] nth_bset)
  have r1: "length ?rank1 = n" "\<And>s. s < n \<Longrightarrow> ?rank1 ! s =
      (if s \<in> F (ranked rank) \<and> rank ! s = None then Some r else rank ! s)"
    using add len nth_bset [of _ add] by (auto simp: ranked_def)
  note round = rank_round [OF Suc.prems(1) r1(1) assms(2) r1(2)]
  have "list_ex id add \<longleftrightarrow> bset add \<noteq> {}" by (auto simp: list_ex_length mem_bset_iff)
  then have ends: "list_ex id add \<longleftrightarrow> ?rank1 \<noteq> rank" using round(2) add(2) by blast
  show ?case
  proof (cases "?rank1 = rank")
    case True
    then show ?thesis using ends round(3) d(1) by (simp add: Let_def add_def [symmetric])
  next
    case False
    have "bset ?yn = ranked ?rank1" using yn(2) round(1) by simp
    from Suc.IH [OF ranks_upto_extend [OF Suc.prems(1) r1(1) assms(2) r1(2)] yn(1) this] show ?thesis
      using False ends round(4) Suc.prems(4) d(1) by (simp add: Let_def add_def [symmetric])
  qed
qed simp
subsection \<open>The move that is picked\<close>

lemma rank_less_trans: "rank_less u a \<Longrightarrow> rank_less a b \<Longrightarrow> rank_less u b"
  by (cases u; cases a; cases b) auto

definition best_ok :: "ranks \<Rightarrow> nat set \<Rightarrow> (nat option \<times> nat) option \<Rightarrow> bool" where
  "best_ok rank seen best = (case best of None \<Rightarrow> seen = {}
     | Some (r, t) \<Rightarrow> t \<in> seen \<and> r = rank ! t \<and> (\<forall>u\<in>seen. \<not> rank_less (rank ! u) r))"

lemma rank_less_irrefl [simp]: "\<not> rank_less a a"
  by (cases a) auto

lemma best_target_ok:
  "best_ok rank seen best \<Longrightarrow> best_ok rank (seen \<union> (set ts \<inter> bset z)) (best_target rank z ts best)"
proof (induction ts arbitrary: seen best)
  case (Cons t ts)
  show ?case
  proof (cases "t \<in> bset z")
    case True
    let ?best = "case best of None \<Rightarrow> Some (rank ! t, t)
         | Some (br, bi) \<Rightarrow> if rank_less (rank ! t) br then Some (rank ! t, t) else best"
    have "best_ok rank (insert t seen) ?best"
      using Cons.prems rank_less_trans by (auto simp: best_ok_def split: option.splits)
    from Cons.IH [OF this] show ?thesis using True by simp
  next
    case False
    then show ?thesis using Cons.IH [OF Cons.prems] by simp
  qed
qed simp

lemma best_target_pick:
  assumes "set ts \<inter> bset z \<noteq> {}"
  obtains t where "best_target rank z ts None = Some (rank ! t, t)" "t \<in> set ts" "t \<in> bset z"
    "\<And>u. u \<in> set ts \<Longrightarrow> u \<in> bset z \<Longrightarrow> \<not> rank_less (rank ! u) (rank ! t)"
proof -
  have "best_ok rank (set ts \<inter> bset z) (best_target rank z ts None)"
    using best_target_ok [of rank "{}" None ts z] by (simp add: best_ok_def)
  then show ?thesis using assms that by (auto simp: best_ok_def split: option.splits)
qed

lemma set_controllable_targets: "eve_owned c s \<Longrightarrow> set (controllable_targets c s) = game_moves c s"
  by (auto simp: controllable_targets_def game_moves_def)

text \<open>If Eve can force the play into lower ranks then the picked move does, and every move of Adam does.\<close>

lemma rank_descent:
  assumes "s \<in> cpre_set c S (below rank q)" and "below rank q \<subseteq> bset z" "length z = length rank"
    and "t \<in> game_moves c s"
    and pick: "eve_owned c s \<Longrightarrow> best_target rank z (controllable_targets c s) None = Some (r, t)"
  shows "t \<in> below rank q"
proof (cases "eve_owned c s")
  case True
  obtain u where u: "u \<in> game_moves c s" "u \<in> below rank q" using cpre_forces(1) [OF assms(1) True] by blast
  then have z: "u \<in> set (controllable_targets c s)" "u \<in> bset z"
    using True assms(2) by (auto simp: set_controllable_targets)
  obtain t' where t': "best_target rank z (controllable_targets c s) None = Some (rank ! t', t')" "t' \<in> bset z"
      "\<not> rank_less (rank ! u) (rank ! t')"
    using best_target_pick [of "controllable_targets c s" z rank] z by blast
  then have "t' = t" using pick [OF True] by simp
  then show ?thesis using t' u(2) bset_less [OF t'(2)] assms(3)
    by (cases "rank ! t") (force simp: below_def)+
qed (use cpre_forces(2) [OF assms(1) _ assms(4)] in blast)

lemma best_pick_in:
  assumes "s \<in> cpre_set c S (bset z)" and e: "eve_owned c s"
  obtains r t where "best_target rank z (controllable_targets c s) None = Some (r, t)"
    "t \<in> game_moves c s" "t \<in> bset z"
proof -
  have "set (controllable_targets c s) \<inter> bset z \<noteq> {}"
    using cpre_forces(1) [OF assms] e by (auto simp: set_controllable_targets)
  then obtain t where "best_target rank z (controllable_targets c s) None = Some (rank ! t, t)"
      "t \<in> set (controllable_targets c s)" "t \<in> bset z"
    using best_target_pick by metis
  then show ?thesis using that e by (simp add: set_controllable_targets)
qed

subsection \<open>The positional strategy\<close>

definition follows :: "clts \<Rightarrow> (nat \<rightharpoonup> nat) \<Rightarrow> (nat \<Rightarrow> nat) \<Rightarrow> bool" where
  "follows c strat p \<longleftrightarrow>
     (\<forall>i. p (Suc i) \<in> game_moves c (p i) \<and> (eve_owned c (p i) \<longrightarrow> strat (p i) = Some (p (Suc i))))"

definition stays_in :: "clts \<Rightarrow> (nat \<rightharpoonup> nat) \<Rightarrow> nat set \<Rightarrow> bool" where
  \<comment> \<open>nobody is stuck, Eve's moves are prescribed and legal, and no move leaves the set\<close>
  "stays_in c strat Z \<longleftrightarrow> (\<forall>s\<in>Z. game_moves c s \<noteq> {} \<and>
     (if eve_owned c s then \<exists>t\<in>game_moves c s. strat s = Some t \<and> t \<in> Z else game_moves c s \<subseteq> Z))"

lemma stays_in_play: "stays_in c strat Z \<Longrightarrow> follows c strat p \<Longrightarrow> p 0 \<in> Z \<Longrightarrow> p i \<in> Z"
proof (induction i)
  case (Suc i)
  then have "p i \<in> Z" by simp
  then show ?case using Suc.prems(1,2)
    by (cases "eve_owned c (p i)") (force simp: stays_in_def follows_def)+
qed simp

lemma attractor_inside:
  assumes Z: "Z = lfp (\<lambda>X. G \<inter> cpre_set c S Z \<union> cpre_set c S X)"
  shows "Z = cpre_set c S Z" and "cpre_set c Z X = Z \<inter> cpre_set c S X"
    and "lfp (\<lambda>X. G \<inter> cpre_set c Z Z \<inter> Z \<union> cpre_set c Z X) = Z"
proof -
  let ?H = "\<lambda>X. G \<inter> cpre_set c S Z \<union> cpre_set c S X"
  let ?F = "\<lambda>X. G \<inter> cpre_set c Z Z \<inter> Z \<union> cpre_set c Z X"
  have "?H Z = Z" using lfp_unfold [OF reach_body_mono [of "G \<inter> cpre_set c S Z" c S]] Z by simp
  then show ZZ: "Z = cpre_set c S Z" by blast
  then have sub: "Z \<subseteq> S" using cpre_set_subset(1) by blast
  then show inter: "cpre_set c Z X = Z \<inter> cpre_set c S X" for X by (auto simp: cpre_set_def)
  have below: "lfp ?F \<subseteq> Z" by (rule lfp_lowerbound) (use cpre_set_subset(1) in blast)
  have "?H (lfp ?F) \<subseteq> ?F (lfp ?F)" using cp.pre_le [OF below, of c S] ZZ inter by blast
  also have "?F (lfp ?F) = lfp ?F" by (rule lfp_unfold [OF reach_body_mono, symmetric])
  finally have "Z \<subseteq> lfp ?F" by (subst Z) (rule lfp_lowerbound)
  then show "lfp ?F = Z" using below by blast
qed

lemma strategy_single_wins:
  assumes fuel: "state_count c < k" and len: "length z = state_count c" "length g = state_count c"
    and Z: "bset z = lfp (\<lambda>X. bset g \<inter> cpre_set c S (bset z) \<union> cpre_set c S X)"
  shows "\<exists>strat. gr1_strategy_single k c z g = Ok strat \<and> stays_in c strat (bset z) \<and>
    (\<forall>p. p 0 \<in> bset z \<longrightarrow> follows c strat p \<longrightarrow> inf_often (bset g) p)"
proof -
  let ?Z = "bset z" and ?F = "\<lambda>X. bset g \<inter> cpre_set c (bset z) (bset z) \<inter> bset z \<union> cpre_set c (bset z) X"
  note inside = attractor_inside [OF Z]
  obtain rank where rank: "gr1_reach_ranks k c z (bv_and g (cpre c z z)) = Ok rank"
      and rk: "ranks_of ?F (state_count c) rank"
    using reach_ranks_ranks [OF fuel, of z "bv_and g (cpre c z z)"] len by (auto simp: bset_and)
  have all: "ranked rank = ?Z" using ranks_of_lfp [OF reach_body_mono rk] inside(3) by simp
  have lr: "length rank = state_count c" using rk by (simp add: ranks_of_def)
  define strat where "strat = (\<lambda>s. if s < state_count c \<and> bit_is_set z s \<and> eve_owned c s
    then map_option snd (best_target rank z (controllable_targets c s) None) else None)"
  have out: "gr1_strategy_single k c z g = Ok strat" by (simp add: gr1_strategy_single_def rank strat_def)
  have stays: "stays_in c strat ?Z"
    unfolding stays_in_def
  proof
    fix s assume s: "s \<in> ?Z"
    then have f: "s \<in> cpre_set c S ?Z" using inside(1) by blast
    have "\<exists>t\<in>game_moves c s. strat s = Some t \<and> t \<in> ?Z" if "eve_owned c s"
      by (rule best_pick_in [OF f that, of rank]) (use that s bset_less [OF s] len in \<open>auto simp: strat_def\<close>)
    then show "game_moves c s \<noteq> {} \<and> (if eve_owned c s then \<exists>t\<in>game_moves c s. strat s = Some t \<and> t \<in> ?Z
        else game_moves c s \<subseteq> ?Z)"
      using cpre_forces(2,4) [OF f] by auto
  qed
  have "inf_often (bset g) p" if p: "p 0 \<in> ?Z" "follows c strat p" for p
  proof (rule ccontr)
    assume "\<not> inf_often (bset g) p"
    then obtain N where N: "\<And>i. i \<ge> N \<Longrightarrow> p i \<notin> bset g" by (auto simp: inf_often_def)
    have "the (rank ! p (Suc i)) < the (rank ! p i)" if "i \<ge> N" for i
    proof -
      have pz: "p i \<in> ?Z" by (rule stays_in_play [OF stays p(2,1)])
      then obtain q where q: "rank ! p i = Some q" "p i < state_count c" using all lr by (auto simp: ranked_def)
      have "p i \<in> cpre_set c ?Z (below rank q)" using ranks_of_grounded [OF rk q] N [OF that] by blast
      moreover have "eve_owned c (p i) \<Longrightarrow> \<exists>r. best_target rank z (controllable_targets c (p i)) None = Some (r, p (Suc i))"
        using p(2) pz q(2) by (auto simp: follows_def strat_def split: if_splits)
      moreover have "p (Suc i) \<in> game_moves c (p i)" using p(2) by (simp add: follows_def)
      ultimately have "p (Suc i) \<in> below rank q"
        using rank_descent [of "p i" c ?Z rank q z "p (Suc i)"] below_ranked [of rank q] all len(1) lr
        by (cases "eve_owned c (p i)") auto
      then show ?thesis using q by (auto simp: below_def)
    qed
    then show False using no_infinite_descent [of N "\<lambda>i. the (rank ! p i)"] by blast
  qed
  then show ?thesis using out stays by blast
qed
lemma no_assumption_attractor:
  assumes Z: "Z = gr1_set (cpre_set c S) {G} {{..<state_count c}}"
  shows "Z = lfp (\<lambda>X. G \<inter> cpre_set c S Z \<union> cpre_set c S X)"
proof -
  have "Z = buchi_set (cpre_set c S) G" using Z cp.gr1_no_assumption [OF cpre_set_subset(2)] by simp
  then show ?thesis using gfp_unfold [OF buchi_body_mono [of G c S]] by (simp add: buchi_set_def)
qed

text \<open>The positional strategy wins on the region of at most one guarantee.\<close>

lemma single_region_wins:
  assumes "state_count c < k" and "sized c (safe # gs)" and "length gs \<le> 1"
    and z: "length z = state_count c"
      "bset z = gr1_set (cpre_set c (bset safe)) (fair_sets (state_count c) gs) {{..<state_count c}}"
    and goal: "g = (if gs = [] then z else hd gs)"
  shows "\<exists>strat. gr1_strategy_single k c z g = Ok strat \<and> bset z \<subseteq> bset safe \<and> stays_in c strat (bset z) \<and>
    (\<forall>p. p 0 \<in> bset z \<longrightarrow> follows c strat p \<longrightarrow> inf_often (bset g) p)"
proof -
  let ?pre = "cpre_set c (bset safe)"
  have len: "length g = state_count c" using goal z(1) assms(2) by (cases gs) auto
  have att: "bset z = lfp (\<lambda>X. bset g \<inter> ?pre (bset z) \<union> ?pre X)"
  proof (cases gs)
    case Nil
    then have eq: "bset z = gfp ?pre" "g = z"
      using z(2) goal cp.gr1_no_goal [of "{{..<state_count c}}" c "bset safe", OF _ cpre_set_subset(2)]
      by (simp_all add: fair_sets_def)
    then have ZZ: "?pre (bset z) = bset z" using gfp_unfold [OF cpre_set_mono] by metis
    have "lfp (\<lambda>X. bset z \<inter> ?pre (bset z) \<union> ?pre X) \<subseteq> bset z" by (rule lfp_lowerbound) (simp add: ZZ)
    moreover have "bset z \<subseteq> lfp (\<lambda>X. bset z \<inter> ?pre (bset z) \<union> ?pre X)"
      by (subst lfp_unfold [OF reach_body_mono]) (simp add: ZZ)
    ultimately show ?thesis using eq(2) by simp
  next
    case (Cons g' gs')
    then have "gs = [g]" using goal assms(3) by simp
    then show ?thesis using z(2) by (intro no_assumption_attractor) (simp add: fair_sets_def)
  qed
  have "bset z \<subseteq> bset safe" using attractor_inside(1) [OF att] cpre_set_subset(1) by blast
  then show ?thesis using strategy_single_wins [OF assms(1) z(1) len att] by blast
qed

text \<open>
  C37: Without assumptions the positional strategy of \<open>gr1_strategy_single\<close>, computed from the region of one
  guarantee (or from the safe region with itself as the goal, when there is none), wins: the extraction
  returns, no play that follows it gets stuck or leaves the winning region, which is safe, and every one
  visits the goal infinitely often.
\<close>

theorem gr1_strategy_single_wins:
  assumes "state_count c < k" and "sized c (safe # gs)" and "length gs \<le> 1"
    and win: "gr1_win k c safe gs [] = Ok z" and goal: "g = (if gs = [] then z else hd gs)"
  shows "\<exists>strat. gr1_strategy_single k c z g = Ok strat \<and> bset z \<subseteq> bset safe \<and> stays_in c strat (bset z) \<and>
    (\<forall>p. p 0 \<in> bset z \<longrightarrow> follows c strat p \<longrightarrow> inf_often (bset g) p)"
proof (rule single_region_wins [OF assms(1-3) _ _ goal])
  show "length z = state_count c" "bset z = gr1_set (cpre_set c (bset safe)) (fair_sets (state_count c) gs) {{..<state_count c}}"
    using gr1_win_loop [OF assms(1), of safe gs "[]"] assms(2) win by (auto simp: fair_sets_def)
qed

abbreviation duel_arena :: clts where
  \<comment> \<open>Eve's \<open>0\<close> goes to \<open>0\<close> or \<open>1\<close>; Adam's \<open>1\<close> goes to \<open>0\<close> or \<open>2\<close>; Eve's \<open>2\<close> goes to \<open>0\<close>\<close>
  "duel_arena \<equiv> arena_clts [(True, [0, 1]), (False, [0, 2]), (True, [0])]"

lemma duel_arena_win: "gr1_win 4 duel_arena [True, True, True] [[False, True, False]] [] = Ok [True, True, True]"
  by code_simp

theorem gr1_strategy_single_wins_witness:
  "\<exists>strat. gr1_strategy_single 4 duel_arena [True, True, True] [False, True, False] = Ok strat
    \<and> stays_in duel_arena strat {0, 1, 2}"
proof -
  have "bset [True, True, True] = {0, 1, 2}" by (auto simp: mem_bset_iff less_Suc_eq nth_Cons split: nat.splits)
  then show ?thesis
    using gr1_strategy_single_wins [OF _ _ _ duel_arena_win, of "[False, True, False]"] by auto
qed

text \<open>
  C39: With an assumption the positional strategy can lose a game that Eve wins. In the plant
  \<open>0 -> 1, 0 -> 0, 1 -> 0\<close>, all moves Eve's, with the assumption \<open>{1}\<close> and the empty guarantee, both states are
  winning (Eve stays in \<open>0\<close>), but the extracted strategy moves back and forth: it meets the assumption forever
  and the guarantee never, so Adam's side of the objective holds on the only play that follows it.
\<close>

theorem gr1_strategy_single_loses:
  "gr1_win 3 wait_arena [True, True] [[False, False]] [[False, True]] = Ok [True, True] \<and>
   (\<exists>strat. gr1_strategy_single 3 wait_arena [True, True] [False, False] = Ok strat \<and>
     follows wait_arena strat (\<lambda>i. i mod 2) \<and>
     \<not> gr1_goal (bset ` {[False, True]}) (bset ` {[False, False]}) (\<lambda>i. i mod 2))"
proof -
  have strat: "case gr1_strategy_single 3 wait_arena [True, True] [False, False] of
      Ok f \<Rightarrow> f 0 = Some 1 \<and> f 1 = Some 0 | _ \<Rightarrow> False"
    by code_simp
  then obtain f where f: "gr1_strategy_single 3 wait_arena [True, True] [False, False] = Ok f"
      "f 0 = Some 1" "f 1 = Some 0"
    by (cases "gr1_strategy_single 3 wait_arena [True, True] [False, False]") auto
  have mv: "game_moves wait_arena 0 = {0, 1}" "game_moves wait_arena 1 = {0}"
    by (auto simp: arena_moves)
  have "follows wait_arena f (\<lambda>i. i mod 2)"
    unfolding follows_def using f mv by (auto simp: mod_Suc mod2_eq_if)
  moreover have "inf_often {1} (\<lambda>i. i mod 2)" unfolding inf_often_def
  proof
    fix N :: nat
    show "\<exists>i\<ge>N. i mod 2 \<in> {1}" by (rule exI [of _ "2 * N + 1"]) simp
  qed
  moreover have "\<not> inf_often {} (\<lambda>i. i mod 2)" by (simp add: inf_often_def)
  ultimately show ?thesis using f(1) wait_arena_win by (auto simp: gr1_goal_def bset_two)
qed

end
