(* ===== verification/Gr1_Modes.thy ===== *)
theory Gr1_Modes
  imports Gr1_Extract
begin

section \<open>The GR(1) strategy with modes\<close>

text \<open>
  \<open>gr1_strategy_multi\<close> remembers the guarantee it pursues. It wins when there is at most one assumption and the
  guarantee sets are entered by Eve's moves only (the games built from specifications have this shape: the
  guarantees are read off the environment's states, which only controller moves lead to). With two
  assumptions it can lose a game that Eve wins.
\<close>

subsection \<open>Each pursuit covers the region\<close>

lemma pursuit_region:
  assumes "G \<in> Gs" and ne: "As \<noteq> {}"
  shows "mu_y_set (cpre_set c S) As G (gr1_set (cpre_set c S) Gs As) = gr1_set (cpre_set c S) Gs As"
proof (rule antisym)
  let ?pre = "cpre_set c S" and ?Z = "gr1_set (cpre_set c S) Gs As"
  have "mu_y_set ?pre As G ?Z \<subseteq> mu_y_set ?pre As G' ?Z" if G': "G' \<in> Gs" for G'
  proof -
    let ?Y = "mu_y_set ?pre As G' ?Z"
    have base: "G \<inter> ?pre ?Z \<union> ?pre ?Y \<subseteq> G' \<inter> ?pre ?Z \<union> ?pre ?Y"
      using cp.pre_le [OF cp.gr1_in_mu_y [OF G']] by blast
    have "nu_x_set ?pre (G \<inter> ?pre ?Z \<union> ?pre ?Y) A \<subseteq> ?Y" if "A \<in> As" for A
      using cp.nu_x_le [OF base] cp.mu_y_each [OF that, of c S G' ?Z] by blast
    then show ?thesis by (subst (1) mu_y_set_def) (intro lfp_lowerbound UN_least)
  qed
  then have "mu_y_set ?pre As G ?Z \<subseteq> (\<Inter>G'\<in>Gs. mu_y_set ?pre As G' ?Z)" by blast
  also have "\<dots> = ?Z" by (rule cp.gr1_unfold [symmetric])
  finally show "mu_y_set ?pre As G ?Z \<subseteq> ?Z" .
qed (rule cp.gr1_in_mu_y [OF assms(1)])

lemma region_closed:
  assumes "Gs \<noteq> {}" and "As \<noteq> {}"
  shows "gr1_set (cpre_set c S) Gs As \<subseteq> cpre_set c S (gr1_set (cpre_set c S) Gs As)"
proof -
  obtain G where "G \<in> Gs" using assms by blast
  from pursuit_region [OF this assms(2), of c S] cp.mu_y_stays [of c S As G "gr1_set (cpre_set c S) Gs As"]
  show ?thesis by simp
qed

subsection \<open>Ranks of all modes\<close>

lemma res_all_Ok:
  "(\<And>x. x \<in> set xs \<Longrightarrow> \<exists>y. f x = Ok y \<and> P x y) \<Longrightarrow>
    \<exists>ys. res_all (map f xs) = Ok ys \<and> length ys = length xs \<and> (\<forall>i<length xs. P (xs ! i) (ys ! i))"
proof (induction xs)
  case (Cons x xs)
  obtain y where y: "f x = Ok y" "P x y" using Cons.prems [of x] by auto
  obtain ys where ys: "res_all (map f xs) = Ok ys" "length ys = length xs" "\<forall>i<length xs. P (xs ! i) (ys ! i)"
    using Cons.IH Cons.prems by auto
  show ?case using y ys by (auto simp: nth_Cons split: nat.splits)
qed simp

abbreviation rank_body :: "clts \<Rightarrow> nat set \<Rightarrow> nat set set \<Rightarrow> nat set \<Rightarrow> nat set \<Rightarrow> nat set \<Rightarrow> nat set" where
  "rank_body c S As G Z Y \<equiv> \<Union>A\<in>As. nu_x_set (cpre_set c S) (G \<inter> cpre_set c S Z \<union> cpre_set c S Y) A"

lemma mu_y_ranks_ranks:
  assumes "state_count c < k" and "sized c (safe # g # as)"
  shows "\<exists>rank. gr1_mu_y_ranks k c safe g z as = Ok rank \<and>
    ranks_of (rank_body c (bset safe) (fair_sets (state_count c) as) (bset g) (bset z)) (state_count c) rank"
proof -
  let ?n = "state_count c" and ?gz = "bv_and g (cpre c safe z)"
  have gz: "bset ?gz = bset g \<inter> cpre_set c (bset safe) (bset z)" using assms by (simp add: bset_and)
  then have gz': "bset ?gz \<subseteq> bset safe" using cpre_set_subset(1) by blast
  have none: "ranked (replicate ?n None) = {}" "below (replicate ?n None) 0 = {}"
    by (auto simp: ranked_def below_def)
  show ?thesis unfolding gr1_mu_y_ranks_def Let_def
  proof (rule mu_y_ranks_loop_ranks)
    show "\<exists>d. mu_y_disj k c safe ?gz as y = Ok d \<and> length d = ?n \<and>
        bset d = rank_body c (bset safe) (fair_sets ?n as) (bset g) (bset z) (bset y)" for y
      using mu_y_disj_value [OF assms(1), of safe ?gz as y] assms(2) gz gz' by simp
    show "rank_body c (bset safe) (fair_sets ?n as) (bset g) (bset z) X \<subseteq> {..<?n}" for X
      using fcp.nu_x_in_U [OF fcp.base_in_U] by blast
  qed (use assms none in \<open>auto simp: ranks_upto_def grounded_def\<close>)
qed

lemma rank_body_lfp: "ranks_of (rank_body c S As G Z) n rank \<Longrightarrow> ranked rank = mu_y_set (cpre_set c S) As G Z"
  unfolding mu_y_set_def by (rule ranks_of_lfp [OF cp.mu_y_body_mono])

text \<open>With one assumption a rank never has to grow: it is at the goal, can be lowered, or Eve waits.\<close>

lemma rank_cases:
  assumes rk: "ranks_of (rank_body c S {A} G Z) n rank" and s: "rank ! s = Some q" "s < n"
  shows "s \<in> G \<or> s \<in> cpre_set c S (below rank q) \<or> s \<notin> A \<and> s \<in> cpre_set c S (below rank (Suc q))"
proof -
  let ?X = "nu_x_set (cpre_set c S) (G \<inter> cpre_set c S Z \<union> cpre_set c S (below rank q)) A"
  have "s \<in> ?X" using ranks_of_grounded [OF rk s] by simp
  moreover have "?X \<subseteq> below rank (Suc q)" using ranks_of_below [OF rk, of q] by simp
  then have "cpre_set c S ?X \<subseteq> cpre_set c S (below rank (Suc q))" by (rule cp.pre_le)
  ultimately show ?thesis by (subst (asm) cp.nu_x_iff) blast
qed
subsection \<open>Plays with modes\<close>

definition follows_modes :: "clts \<Rightarrow> gr1_multi_strategy \<Rightarrow> (nat \<Rightarrow> nat) \<Rightarrow> (nat \<Rightarrow> nat) \<Rightarrow> bool" where
  \<comment> \<open>Eve moves and changes the mode as prescribed; Adam's moves keep the mode\<close>
  "follows_modes c ms p md \<longleftrightarrow> (\<forall>i. p (Suc i) \<in> game_moves c (p i) \<and>
     (if eve_owned c (p i) then ms_moves ms (p i, md i) = Some (p (Suc i), md (Suc i)) else md (Suc i) = md i))"

definition stays_in_modes :: "clts \<Rightarrow> gr1_multi_strategy \<Rightarrow> nat set \<Rightarrow> bool" where
  "stays_in_modes c ms Z \<longleftrightarrow> (\<forall>s\<in>Z. \<forall>j<ms_n_modes ms. game_moves c s \<noteq> {} \<and>
     (if eve_owned c s then \<exists>t\<in>game_moves c s. \<exists>j'<ms_n_modes ms. ms_moves ms (s, j) = Some (t, j') \<and> t \<in> Z
      else game_moves c s \<subseteq> Z))"

lemma stays_in_modes_play:
  assumes "stays_in_modes c ms Z" and "follows_modes c ms p md" and "p 0 \<in> Z" "md 0 < ms_n_modes ms"
  shows "p i \<in> Z \<and> md i < ms_n_modes ms"
proof (induction i)
  case (Suc i)
  have f: "p (Suc i) \<in> game_moves c (p i)"
      "if eve_owned c (p i) then ms_moves ms (p i, md i) = Some (p (Suc i), md (Suc i)) else md (Suc i) = md i"
    using assms(2) by (auto simp: follows_modes_def)
  have "if eve_owned c (p i) then \<exists>t\<in>game_moves c (p i). \<exists>j'<ms_n_modes ms. ms_moves ms (p i, md i) = Some (t, j') \<and> t \<in> Z
      else game_moves c (p i) \<subseteq> Z"
    using assms(1) Suc unfolding stays_in_modes_def by blast
  then show ?case using f Suc by (auto split: if_splits)
qed (use assms in simp)

lemma settles_avoiding:
  fixes f :: "nat \<Rightarrow> nat"
  assumes "\<And>i. i \<ge> N \<Longrightarrow> f (Suc i) < f i \<or> Q i \<and> f (Suc i) \<le> f i"
  shows "\<exists>M. \<forall>i\<ge>M. Q i"
proof -
  obtain M where M: "M \<ge> N" "\<And>i. i \<ge> M \<Longrightarrow> f i = f M"
    using eventually_constant [of N f] assms by (meson less_imp_le)
  have "Q i" if "i \<ge> M" for i
    using assms [of i] M(1) M(2) [OF that] M(2) [of "Suc i"] that by auto
  then show ?thesis by blast
qed

text \<open>
  The moves of a strategy with modes: in each mode the play goes round robin over the goals it meets, and
  between goals its rank falls or the play is outside the assumption.
\<close>

lemma modes_goal:
  assumes md: "\<And>i. md i < length gs"
    and adv: "\<And>i. md (Suc i) = (if eve i \<and> p (Suc i) \<in> gs ! md i then Suc (md i) mod length gs else md i)"
    and entered: "\<And>i g. \<not> eve i \<Longrightarrow> g \<in> set gs \<Longrightarrow> p (Suc i) \<notin> g"
    and ranks: "\<And>i. p i \<in> gs ! md i \<or> rk (md i) (p (Suc i)) < rk (md i) (p i)
      \<or> p i \<notin> A \<and> rk (md i) (p (Suc i)) \<le> (rk (md i) (p i) :: nat)"
  shows "gr1_goal {A} (set gs) p"
proof (cases "\<forall>N. \<exists>i\<ge>N. eve i \<and> p (Suc i) \<in> gs ! md i")
  case True
  have m: "0 < length gs" using md [of 0] by linarith
  have "inf_often g p" if "g \<in> set gs" for g
  proof -
    obtain q where q: "q < length gs" "gs ! q = g" using \<open>g \<in> set gs\<close> by (auto simp: in_set_conv_nth)
    have "\<exists>i\<ge>N. md i = q \<and> (eve i \<and> p (Suc i) \<in> gs ! md i)" for N
      by (rule round_robin [where m = "length gs" and j = md]) (use m md adv q(1) True in blast)+
    then show ?thesis using q(2) unfolding inf_often_def by (metis le_SucI)
  qed
  then show ?thesis by (simp add: gr1_goal_def)
next
  case False
  then obtain N where N: "\<And>i. i \<ge> N \<Longrightarrow> \<not> (eve i \<and> p (Suc i) \<in> gs ! md i)" by blast
  have mdN: "md (N + d) = md N" for d
  proof (induction d)
    case (Suc d)
    then show ?case using adv [of "N + d"] N [of "N + d"] by auto
  qed simp
  have out: "p (Suc i) \<notin> gs ! md N" if "i \<ge> N" for i
    using N [OF that] entered [of i "gs ! md N"] md [of N] mdN [of "i - N"] that by auto
  have "rk (md N) (p (Suc i)) < rk (md N) (p i) \<or> p i \<notin> A \<and> rk (md N) (p (Suc i)) \<le> rk (md N) (p i)"
    if "i \<ge> Suc N" for i
    using ranks [of i] out [of "i - 1"] mdN [of "i - N"] that by auto
  from settles_avoiding [of "Suc N" "\<lambda>i. rk (md N) (p i)", OF this] show ?thesis
    by (auto simp: gr1_goal_def inf_often_def)
qed
subsection \<open>The extracted strategy\<close>

definition mode_strategy :: "clts \<Rightarrow> state_set \<Rightarrow> state_set list \<Rightarrow> ranks list \<Rightarrow> gr1_multi_strategy" where
  "mode_strategy c z gs ranks = \<lparr>ms_moves = (\<lambda>(s, mode).
      if s < state_count c \<and> bit_is_set z s \<and> eve_owned c s \<and> mode < length gs
      then map_option (\<lambda>(r, ti). (ti, if bit_is_set (gs ! mode) ti then (mode + 1) mod length gs else mode))
        (best_target (ranks ! mode) z (controllable_targets c s) None)
      else None), ms_n_modes = length gs\<rparr>"

lemma strategy_multi_value:
  assumes "state_count c < k" and "sized c (safe # gs @ as)" and "gs \<noteq> []"
  shows "\<exists>ranks. gr1_strategy_multi k c safe z gs as = Ok (mode_strategy c z gs ranks) \<and>
    (\<forall>j<length gs. ranks_of (rank_body c (bset safe) (fair_sets (state_count c) as) (bset (gs ! j)) (bset z))
       (state_count c) (ranks ! j))"
proof -
  have sz: "sized c (safe # g # as)" if "g \<in> set gs" for g using assms(2) that by (auto simp: sized_def list_all_iff)
  obtain ranks where "res_all (map (\<lambda>g. gr1_mu_y_ranks k c safe g z as) gs) = Ok ranks"
      "\<forall>j<length gs. ranks_of (rank_body c (bset safe) (fair_sets (state_count c) as) (bset (gs ! j)) (bset z))
         (state_count c) (ranks ! j)"
    using res_all_Ok [of gs "\<lambda>g. gr1_mu_y_ranks k c safe g z as"
        "\<lambda>g. ranks_of (rank_body c (bset safe) (fair_sets (state_count c) as) (bset g) (bset z)) (state_count c)"]
      mu_y_ranks_ranks [OF assms(1) sz] by blast
  moreover have "max (length gs) 1 = length gs" using assms(3) by (cases gs) auto
  ultimately show ?thesis using assms(3) by (auto simp: gr1_strategy_multi_def mode_strategy_def Let_def)
qed

lemma mode_move:
  assumes "ms_moves (mode_strategy c z gs ranks) (s, j) = Some (t, j')"
  shows "j < length gs" "\<exists>r. best_target (ranks ! j) z (controllable_targets c s) None = Some (r, t)"
    "j' = (if t \<in> bset (gs ! j) then Suc j mod length gs else j)"
  using assms by (auto simp: mode_strategy_def split: if_splits)

lemma mode_strategy_stays:
  assumes Z: "bset z \<subseteq> cpre_set c S (bset z)" and len: "length z = state_count c" "gs \<noteq> []"
  shows "stays_in_modes c (mode_strategy c z gs ranks) (bset z)"
  unfolding stays_in_modes_def
proof (intro ballI allI impI)
  let ?ms = "mode_strategy c z gs ranks"
  fix s j assume s: "s \<in> bset z" and j: "j < ms_n_modes ?ms"
  have f: "s \<in> cpre_set c S (bset z)" using Z s by blast
  have "\<exists>t\<in>game_moves c s. \<exists>j'<ms_n_modes ?ms. ms_moves ?ms (s, j) = Some (t, j') \<and> t \<in> bset z" if e: "eve_owned c s"
  proof (rule best_pick_in [OF f e, of "ranks ! j"])
    fix r t assume t: "best_target (ranks ! j) z (controllable_targets c s) None = Some (r, t)" "t \<in> game_moves c s" "t \<in> bset z"
    have "Suc j mod length gs < length gs" using len(2) by simp
    then show ?thesis using t e s j bset_less [OF s] len by (intro bexI [of _ t]) (auto simp: mode_strategy_def)
  qed
  then show "game_moves c s \<noteq> {} \<and> (if eve_owned c s
      then \<exists>t\<in>game_moves c s. \<exists>j'<ms_n_modes ?ms. ms_moves ?ms (s, j) = Some (t, j') \<and> t \<in> bset z
      else game_moves c s \<subseteq> bset z)"
    using cpre_forces(2,4) [OF f] by auto
qed

lemma mode_ranks_step:
  assumes rk: "ranks_of (rank_body c S {A} G (bset z)) (state_count c) rank" and all: "ranked rank = bset z"
    and len: "length z = state_count c" and s: "s \<in> bset z" and t: "t \<in> game_moves c s"
    and pick: "eve_owned c s \<Longrightarrow> \<exists>r. best_target rank z (controllable_targets c s) None = Some (r, t)"
  shows "s \<in> G \<or> the (rank ! t) < the (rank ! s) \<or> s \<notin> A \<and> the (rank ! t) \<le> the (rank ! s)"
proof -
  have lr: "length rank = state_count c" using rk by (simp add: ranks_of_def)
  obtain q where q: "rank ! s = Some q" "s < state_count c" using s all lr by (auto simp: ranked_def)
  have "t \<in> below rank r" if "s \<in> cpre_set c S (below rank r)" for r
  proof (cases "eve_owned c s")
    case True
    then show ?thesis using rank_descent [OF that _ _ t] below_ranked [of rank r] all len lr pick by auto
  qed (use cpre_forces(2) [OF that _ t] in blast)
  then show ?thesis using rank_cases [OF rk q] q by (force simp: below_def)
qed

text \<open>The strategy with modes wins on the region it is computed from.\<close>

lemma mode_strategy_wins:
  assumes "state_count c < k" and "sized c (safe # gs @ as)" and "gs \<noteq> []" and "length as \<le> 1"
    and region: "length z = state_count c" "bset z = gr1_set (cpre_set c (bset safe)) (bset ` set gs) (fair_sets (state_count c) as)"
    and entered: "\<And>s t g. s \<in> bset z \<Longrightarrow> \<not> eve_owned c s \<Longrightarrow> t \<in> game_moves c s \<Longrightarrow> g \<in> set gs \<Longrightarrow> t \<notin> bset g"
  shows "\<exists>ms. gr1_strategy_multi k c safe z gs as = Ok ms \<and> ms_n_modes ms = length gs \<and> bset z \<subseteq> bset safe \<and>
    stays_in_modes c ms (bset z) \<and>
    (\<forall>p md. p 0 \<in> bset z \<longrightarrow> md 0 < length gs \<longrightarrow> follows_modes c ms p md \<longrightarrow>
       gr1_goal (bset ` set as) (bset ` set gs) p)"
proof -
  let ?n = "state_count c" and ?S = "bset safe"
  obtain A where A: "fair_sets ?n as = {A}" using assms(4) by (cases as) (auto simp: fair_sets_def)
  have z: "length z = ?n" "bset z = gr1_set (cpre_set c ?S) (bset ` set gs) {A}"
    using region A by simp_all
  have closed: "bset z \<subseteq> cpre_set c ?S (bset z)" unfolding z(2) by (rule region_closed) (use assms(3) in auto)
  obtain ranks where ms: "gr1_strategy_multi k c safe z gs as = Ok (mode_strategy c z gs ranks)"
      and rk: "\<And>j. j < length gs \<Longrightarrow> ranks_of (rank_body c ?S {A} (bset (gs ! j)) (bset z)) ?n (ranks ! j)"
    using strategy_multi_value [OF assms(1-3), of z] A by auto
  have all: "ranked (ranks ! j) = bset z" if "j < length gs" for j
    using rank_body_lfp [OF rk [OF that]] pursuit_region [of "bset (gs ! j)" "bset ` set gs" "{A}" c ?S] z(2) that by simp
  note stays = mode_strategy_stays [OF closed z(1) assms(3), of ranks]
  have goal: "gr1_goal {A} (set (map bset gs)) p"
    if p: "p 0 \<in> bset z" "md 0 < length gs" and f: "follows_modes c (mode_strategy c z gs ranks) p md" for p md
  proof (rule modes_goal [where rk = "\<lambda>j s. the (ranks ! j ! s)" and eve = "\<lambda>i. eve_owned c (p i)" and md = md])
    have inv: "p i \<in> bset z" "md i < length gs" for i
      using stays_in_modes_play [OF stays f p(1)] p(2) by (simp_all add: mode_strategy_def)
    have mv: "p (Suc i) \<in> game_moves c (p i)" for i using f by (simp add: follows_modes_def)
    fix i
    have nx: "eve_owned c (p i) \<Longrightarrow> ms_moves (mode_strategy c z gs ranks) (p i, md i) = Some (p (Suc i), md (Suc i))"
        "\<not> eve_owned c (p i) \<Longrightarrow> md (Suc i) = md i"
      using f by (auto simp: follows_modes_def split: if_splits)
    show "md i < length (map bset gs)" using inv by simp
    show "md (Suc i) = (if eve_owned c (p i) \<and> p (Suc i) \<in> map bset gs ! md i then Suc (md i) mod length (map bset gs) else md i)"
      using nx(2) mode_move(3) [OF nx(1)] inv(2) [of i] by (cases "eve_owned c (p i)") simp_all
    show "p (Suc i) \<notin> g" if "\<not> eve_owned c (p i)" "g \<in> set (map bset gs)" for g
      using entered [OF inv(1) that(1) mv] that(2) by auto
    show "p i \<in> map bset gs ! md i \<or> the (ranks ! md i ! p (Suc i)) < the (ranks ! md i ! p i)
        \<or> p i \<notin> A \<and> the (ranks ! md i ! p (Suc i)) \<le> the (ranks ! md i ! p i)"
      using mode_ranks_step [OF rk [OF inv(2) [of i]] all [OF inv(2)] z(1) inv(1) mv mode_move(2) [OF nx(1)]] inv(2) [of i]
      by simp
  qed
  have less: "p i < ?n" if "p 0 \<in> bset z" "md 0 < length gs" "follows_modes c (mode_strategy c z gs ranks) p md" for p md i
    using stays_in_modes_play [OF stays that(3,1), of i] that(2) bset_less [of "p i" z] z(1) by (simp add: mode_strategy_def)
  have "gr1_goal (bset ` set as) (bset ` set gs) p"
    if "p 0 \<in> bset z" "md 0 < length gs" "follows_modes c (mode_strategy c z gs ranks) p md" for p md
    using goal [OF that] fair_sets_inf_often [of p ?n as] less [OF that] A by (simp add: gr1_goal_def)
  moreover have "bset z \<subseteq> ?S" using closed cpre_set_subset(1) by blast
  ultimately show ?thesis using ms stays by (auto simp: mode_strategy_def)
qed


abbreviation tour_arena :: clts where
  \<comment> \<open>Eve's \<open>0\<close> goes to \<open>1\<close> or \<open>3\<close>; Adam's \<open>1\<close> goes to \<open>0\<close> or \<open>2\<close>; Eve's \<open>2\<close> and \<open>3\<close> go to \<open>0\<close>\<close>
  "tour_arena \<equiv> arena_clts [(True, [1, 3]), (False, [0, 2]), (True, [0]), (True, [0])]"

abbreviation tour_goals :: "state_set list" where
  "tour_goals \<equiv> [[False, True, False, False], [False, False, False, True]]"

lemma tour_arena_win:
  "gr1_win 5 tour_arena [True, True, True, True] tour_goals [[True, False, False, False]] = Ok [True, True, True, True]"
  by code_simp

lemma tour_adam_moves:
  assumes "s \<in> bset [True, True, True, True]" "\<not> eve_owned tour_arena s" "t \<in> game_moves tour_arena s" "g \<in> set tour_goals"
  shows "t \<notin> bset g"
proof -
  have "s < 4" using bset_less [OF assms(1)] by simp
  then have "s = 1" using assms(2) by (auto simp: arena_owned numeral_eq_Suc less_Suc_eq)
  then have "t = 0 \<or> t = 2" using assms(3) by (auto simp: arena_moves)
  then show ?thesis using assms(4) by (auto simp: mem_bset_iff)
qed


text \<open>
  C40: With two assumptions the strategy with modes can lose a game that Eve wins. Eve owns two states with both
  moves each; the assumptions are \<open>{1}\<close> and \<open>{0}\<close>, the guarantees are empty. Staying in either state wins, all
  ranks are zero, and the extracted strategy alternates between the states in mode \<open>0\<close>: both assumptions are
  met forever and no guarantee is.
\<close>

theorem gr1_strategy_multi_loses:
  "gr1_win 3 (arena_clts [(True, [1, 0]), (True, [0, 1])]) [True, True] [[False, False], [False, False]]
     [[False, True], [True, False]] = Ok [True, True] \<and>
   (\<exists>ms. gr1_strategy_multi 3 (arena_clts [(True, [1, 0]), (True, [0, 1])]) [True, True] [True, True]
       [[False, False], [False, False]] [[False, True], [True, False]] = Ok ms \<and>
     follows_modes (arena_clts [(True, [1, 0]), (True, [0, 1])]) ms (\<lambda>i. i mod 2) (\<lambda>i. 0) \<and>
     \<not> gr1_goal (bset ` {[False, True], [True, False]}) (bset ` {[False, False]}) (\<lambda>i. i mod 2))"
proof -
  let ?c = "arena_clts [(True, [1, 0]), (True, [0, 1])]"
  let ?ms = "gr1_strategy_multi 3 ?c [True, True] [True, True] [[False, False], [False, False]] [[False, True], [True, False]]"
  have win: "gr1_win 3 ?c [True, True] [[False, False], [False, False]] [[False, True], [True, False]] = Ok [True, True]"
    by code_simp
  have "case ?ms of Ok ms \<Rightarrow> ms_moves ms (0, 0) = Some (1, 0) \<and> ms_moves ms (1, 0) = Some (0, 0) | _ \<Rightarrow> False"
    by code_simp
  then obtain ms where ms: "?ms = Ok ms" "ms_moves ms (0, 0) = Some (1, 0)" "ms_moves ms (1, 0) = Some (0, 0)"
    by (cases ?ms) auto
  have mv: "game_moves ?c 0 = {0, 1}" "game_moves ?c 1 = {0, 1}" "eve_owned ?c 0" "eve_owned ?c 1"
    by (auto simp: arena_moves arena_owned)
  have "follows_modes ?c ms (\<lambda>i. i mod 2) (\<lambda>i. 0)"
    unfolding follows_modes_def using ms mv by (auto simp: mod_Suc mod2_eq_if)
  moreover have "inf_often {b} (\<lambda>i. i mod 2)" if "b < 2" for b
    unfolding inf_often_def
  proof
    fix N :: nat
    show "\<exists>i\<ge>N. i mod 2 \<in> {b}" by (rule exI [of _ "2 * N + b"]) (use that in simp)
  qed
  moreover have "\<not> inf_often {} (\<lambda>i. i mod 2)" by (simp add: inf_often_def)
  moreover have "bset [True, False] = {0}" by (auto simp: mem_bset_iff less_Suc_eq nth_Cons split: nat.splits)
  ultimately show ?thesis using ms(1) win by (auto simp: gr1_goal_def bset_two)
qed

end
