(* ===== verification/Gr1_Build.thy ===== *)
theory Gr1_Build
  imports Gr1_Modes Ltl_Paths
begin

section \<open>From LTL specifications to GR(1) games\<close>

text \<open>
  Models \<^verbatim>\<open>mu_calculus/gr1_build.rs\<close>: the classification of assumptions and guarantees into safety clauses,
  responses and input fairness, the construction of the game with one monitor bit per transition clause and
  per response, and \<open>synthesise_gr1\<close> with the SystemVerilog module that is printed from the moves of the
  extracted strategy, the record \<open>mealy\<close>. A hash map that is iterated is a list of its entries. Shifts that exceed the width of their type panic, as in
  a build with overflow checks.
\<close>

subsection \<open>The propositional layer\<close>

fun gr1_is_propositional :: "ltl \<Rightarrow> bool" where
  "gr1_is_propositional LTrue = True"
| "gr1_is_propositional LFalse = True"
| "gr1_is_propositional (LPredicate p) = True"
| "gr1_is_propositional (LNot a) = gr1_is_propositional a"
| "gr1_is_propositional (LAnd a b) = (gr1_is_propositional a \<and> gr1_is_propositional b)"
| "gr1_is_propositional (LOr a b) = (gr1_is_propositional a \<and> gr1_is_propositional b)"
| "gr1_is_propositional (LImplies a b) = (gr1_is_propositional a \<and> gr1_is_propositional b)"
| "gr1_is_propositional _ = False"

type_synonym signals = "string \<rightharpoonup> bool"

fun eval_prop :: "ltl \<Rightarrow> signals \<Rightarrow> bool" where
  "eval_prop LTrue val = True"
| "eval_prop LFalse val = False"
| "eval_prop (LPredicate p) val = (val p = Some True)"
| "eval_prop (LNot a) val = (\<not> eval_prop a val)"
| "eval_prop (LAnd a b) val = (eval_prop a val \<and> eval_prop b val)"
| "eval_prop (LOr a b) val = (eval_prop a val \<or> eval_prop b val)"
| "eval_prop (LImplies a b) val = (\<not> eval_prop a val \<or> eval_prop b val)"
| "eval_prop _ val = False"

fun predicates_of :: "ltl \<Rightarrow> string list \<Rightarrow> string list" where
  "predicates_of (LPredicate p) out = (if p \<in> set out then out else out @ [p])"
| "predicates_of (LNot a) out = predicates_of a out"
| "predicates_of (LAnd a b) out = predicates_of b (predicates_of a out)"
| "predicates_of (LOr a b) out = predicates_of b (predicates_of a out)"
| "predicates_of (LImplies a b) out = predicates_of b (predicates_of a out)"
| "predicates_of (LNext a) out = predicates_of a out"
| "predicates_of (LAlways a) out = predicates_of a out"
| "predicates_of (LEventually a) out = predicates_of a out"
| "predicates_of (LRecurrence a) out = predicates_of a out"
| "predicates_of (LStabilization a) out = predicates_of a out"
| "predicates_of (LUntil a b) out = predicates_of b (predicates_of a out)"
| "predicates_of (LWeakUntil a b) out = predicates_of b (predicates_of a out)"
| "predicates_of (LRelease a b) out = predicates_of b (predicates_of a out)"
| "predicates_of (LResponse a b) out = predicates_of b (predicates_of a out)"
| "predicates_of _ out = out"

subsection \<open>Classification\<close>

datatype safety_clause = Invariant ltl | Transition ltl ltl

record response_clause =
  rc_trigger :: ltl
  rc_response :: ltl

record gr1_spec =
  gs_inputs :: "string list"
  gs_outputs :: "string list"
  gs_safety :: "safety_clause list"
  gs_responses :: "response_clause list"
  gs_env_fair :: "ltl list"

datatype classify_error =
    Unsupported ltl | UnsupportedImplies ltl | UnsupportedAlways ltl
  | FairOverOutputs ltl | FairOverInputs ltl | ResponseAssumption | TemporalResponse

definition push_fair :: "ltl \<Rightarrow> bool \<Rightarrow> gr1_spec \<Rightarrow> (classify_error, gr1_spec) res" where
  "push_fair p is_guarantee spec =
     (if is_guarantee
      then if list_ex (\<lambda>q. q \<in> set (gs_outputs spec)) (predicates_of p [])
           then Err (FairOverOutputs p)
           else Err (FairOverInputs p)
      else Ok (spec\<lparr>gs_env_fair := gs_env_fair spec @ [p]\<rparr>))"

definition push_response :: "ltl \<Rightarrow> ltl \<Rightarrow> bool \<Rightarrow> gr1_spec \<Rightarrow> (classify_error, gr1_spec) res" where
  "push_response trigger response is_guarantee spec =
     (if \<not> is_guarantee then Err ResponseAssumption
      else if \<not> gr1_is_propositional trigger \<or> \<not> gr1_is_propositional response then Err TemporalResponse
      else Ok (spec\<lparr>gs_responses := gs_responses spec @ [\<lparr>rc_trigger = trigger, rc_response = response\<rparr>]\<rparr>))"

definition push_safety :: "safety_clause \<Rightarrow> gr1_spec \<Rightarrow> (classify_error, gr1_spec) res" where
  "push_safety cl spec = Ok (spec\<lparr>gs_safety := gs_safety spec @ [cl]\<rparr>)"

definition classify_implies :: "ltl \<Rightarrow> ltl \<Rightarrow> bool \<Rightarrow> gr1_spec \<Rightarrow> (classify_error, gr1_spec) res" where
  \<comment> \<open>the arm \<open>Implies(pre, rhs) if is_propositional(pre)\<close>\<close>
  "classify_implies pre rhs is_guarantee spec =
     (case rhs of
        LNext post \<Rightarrow> if gr1_is_propositional post then push_safety (Transition pre post) spec
                      else Err (UnsupportedImplies rhs)
      | LEventually resp \<Rightarrow> if gr1_is_propositional resp then push_response pre resp is_guarantee spec
                      else Err (UnsupportedImplies rhs)
      | _ \<Rightarrow> Err (UnsupportedImplies rhs))"

definition classify_prop :: "ltl \<Rightarrow> gr1_spec \<Rightarrow> (classify_error, gr1_spec) res" where
  \<comment> \<open>the last two arms of \<open>classify_always\<close>\<close>
  "classify_prop body spec =
     (if gr1_is_propositional body then push_safety (Invariant body) spec else Err (UnsupportedAlways body))"

definition classify_always :: "ltl \<Rightarrow> bool \<Rightarrow> gr1_spec \<Rightarrow> (classify_error, gr1_spec) res" where
  "classify_always body is_guarantee spec =
     (case body of
        LEventually inner \<Rightarrow> if gr1_is_propositional inner then push_fair inner is_guarantee spec else classify_prop body spec
      | LRecurrence inner \<Rightarrow> if gr1_is_propositional inner then push_fair inner is_guarantee spec else classify_prop body spec
      | LImplies pre rhs \<Rightarrow> if gr1_is_propositional pre then classify_implies pre rhs is_guarantee spec else classify_prop body spec
      | _ \<Rightarrow> classify_prop body spec)"

definition classify_one :: "ltl \<Rightarrow> bool \<Rightarrow> gr1_spec \<Rightarrow> (classify_error, gr1_spec) res" where
  "classify_one f is_guarantee spec =
     (case f of
        LRecurrence inner \<Rightarrow> if gr1_is_propositional inner then push_fair inner is_guarantee spec else Err (Unsupported f)
      | LAlways inner \<Rightarrow> classify_always inner is_guarantee spec
      | LResponse t r \<Rightarrow> if gr1_is_propositional t \<and> gr1_is_propositional r then push_response t r is_guarantee spec
                         else Err (Unsupported f)
      | _ \<Rightarrow> Err (Unsupported f))"

fun classify_all :: "bool \<Rightarrow> ltl list \<Rightarrow> gr1_spec \<Rightarrow> (classify_error, gr1_spec) res" where
  "classify_all is_guarantee [] spec = Ok spec"
| "classify_all is_guarantee (f # fs) spec = rbind (classify_one f is_guarantee spec) (classify_all is_guarantee fs)"

definition classify :: "ltl list \<Rightarrow> ltl list \<Rightarrow> string list \<Rightarrow> string list \<Rightarrow> (classify_error, gr1_spec) res" where
  "classify assumptions guarantees inputs outputs =
     rbind (classify_all False assumptions
         \<lparr>gs_inputs = inputs, gs_outputs = outputs, gs_safety = [], gs_responses = [], gs_env_fair = []\<rparr>)
       (classify_all True guarantees)"
subsection \<open>The game\<close>

record gr1_game =
  gg_clts :: clts
  gg_safe :: state_set
  gg_sys_fair :: "state_set list"
  gg_env_fair :: "state_set list"
  gg_init :: nat
  gg_ctrl_meta :: "(nat \<times> nat \<times> nat) list"
  gg_move_output :: "nat \<times> nat \<rightharpoonup> nat"
  gg_e_meta :: "nat \<rightharpoonup> nat"
  gg_n_monitors :: nat
  gg_inputs :: "string list"
  gg_outputs :: "string list"

fun transition_clauses :: "safety_clause list \<Rightarrow> (ltl \<times> ltl) list" where
  "transition_clauses [] = []"
| "transition_clauses (Transition pre post # cs) = (pre, post) # transition_clauses cs"
| "transition_clauses (Invariant p # cs) = transition_clauses cs"

fun invariant_clauses :: "safety_clause list \<Rightarrow> ltl list" where
  "invariant_clauses [] = []"
| "invariant_clauses (Invariant p # cs) = p # invariant_clauses cs"
| "invariant_clauses (Transition pre post # cs) = invariant_clauses cs"

definition shl_one :: "nat \<Rightarrow> nat \<Rightarrow> (classify_error, nat) res" where
  \<comment> \<open>\<open>1 << k\<close> at width \<open>w\<close>\<close>
  "shl_one w k = (if k < w then Ok (2 ^ k) else Panic)"

fun unwrap_res :: "('e, 'a) res \<Rightarrow> ('f, 'a) res" where
  "unwrap_res (Ok x) = Ok x"
| "unwrap_res (Err e) = Panic"
| "unwrap_res Panic = Panic"
| "unwrap_res OutOfFuel = OutOfFuel"

fun alloc_labels :: "string \<Rightarrow> label_controllability \<Rightarrow> nat list \<Rightarrow> clts_builder \<Rightarrow> (classify_error, nat list \<times> clts_builder) res" where
  "alloc_labels prefix lc [] b = Ok ([], b)"
| "alloc_labels prefix lc (k # ks) b =
     rbind (unwrap_res (builder_intern_label [prefix @ show_nat k] b)) (\<lambda>(l, b1).
       rbind (alloc_labels prefix lc ks (set_label_controllability l lc b1)) (\<lambda>(ls, b2). Ok (l # ls, b2)))"

fun alloc_states :: "string list \<Rightarrow> clts_builder \<Rightarrow> (classify_error, nat list \<times> clts_builder) res" where
  "alloc_states [] b = Ok ([], b)"
| "alloc_states (name # names) b =
     (case state_with_name name b of
        (None, b1) \<Rightarrow> Panic
      | (Some s, b1) \<Rightarrow> rbind (alloc_states names b1) (\<lambda>(ss, b2). Ok (s # ss, b2)))"

fun add_signals :: "nat \<Rightarrow> nat \<Rightarrow> string list \<Rightarrow> signals \<Rightarrow> signals" where
  "add_signals v i [] val = val"
| "add_signals v i (name # names) val = add_signals v (Suc i) names (val(name \<mapsto> bit v i))"

definition signal_val :: "gr1_spec \<Rightarrow> nat \<Rightarrow> nat \<Rightarrow> signals" where
  "signal_val spec iv ov = add_signals ov 0 (gs_outputs spec) (add_signals iv 0 (gs_inputs spec) Map.empty)"

definition unsafe_move :: "gr1_spec \<Rightarrow> nat \<Rightarrow> signals \<Rightarrow> bool" where
  "unsafe_move spec m val \<longleftrightarrow>
     list_ex (\<lambda>p. \<not> eval_prop p val) (invariant_clauses (gs_safety spec))
     \<or> list_ex (\<lambda>(i, (pre, post)). bit m i \<and> \<not> eval_prop post val)
         (enumerate 0 (transition_clauses (gs_safety spec)))"

definition next_monitors :: "gr1_spec \<Rightarrow> nat \<Rightarrow> signals \<Rightarrow> nat" where
  "next_monitors spec m val =
     (let ts = transition_clauses (gs_safety spec); n_ts = length ts;
          m2 = fold (\<lambda>(i, (pre, post)) m2. if eval_prop pre val then set_bit i m2 else m2) (enumerate 0 ts) 0
      in fold (\<lambda>(j, r) m2.
             if (bit m (n_ts + j) \<or> eval_prop (rc_trigger r) val) \<and> \<not> eval_prop (rc_response r) val
             then set_bit (n_ts + j) m2 else m2)
           (enumerate 0 (gs_responses spec)) m2)"

definition env_moves :: "nat list \<Rightarrow> (nat \<times> nat \<rightharpoonup> nat) \<Rightarrow> nat list \<Rightarrow> (nat \<times> nat) list \<Rightarrow> clts_builder \<Rightarrow> clts_builder" where
  \<comment> \<open>\<open>E[m] -env_iv-> C[m,iv]\<close>\<close>
  "env_moves es cs env_labels pairs b =
     fold (\<lambda>(m, iv). transition_ids (es ! m) [env_labels ! iv] (the (cs (m, iv)))) pairs b"

definition move_target :: "gr1_spec \<Rightarrow> nat list \<Rightarrow> nat \<Rightarrow> nat \<times> nat \<times> nat \<Rightarrow> nat" where
  "move_target spec es bad = (\<lambda>(m, iv, ov).
     let val = signal_val spec iv ov
     in if unsafe_move spec m val then bad else es ! next_monitors spec m val)"

definition ctrl_moves ::
  "gr1_spec \<Rightarrow> nat list \<Rightarrow> (nat \<times> nat \<rightharpoonup> nat) \<Rightarrow> nat \<Rightarrow> nat list \<Rightarrow> (nat \<times> nat \<times> nat) list \<Rightarrow> clts_builder \<Rightarrow> clts_builder" where
  \<comment> \<open>\<open>C[m,iv] -ctrl_ov-> E[m'] or BAD\<close>\<close>
  "ctrl_moves spec es cs bad ctrl_labels triples b =
     fold (\<lambda>(m, iv, ov). transition_ids (the (cs (m, iv))) [ctrl_labels ! ov] (move_target spec es bad (m, iv, ov))) triples b"

definition move_outputs :: "gr1_spec \<Rightarrow> nat list \<Rightarrow> (nat \<times> nat \<rightharpoonup> nat) \<Rightarrow> nat \<Rightarrow> (nat \<times> nat \<times> nat) list \<Rightarrow> (nat \<times> nat \<rightharpoonup> nat)" where
  "move_outputs spec es cs bad triples =
     fold (\<lambda>(m, iv, ov) out. out((the (cs (m, iv)), move_target spec es bad (m, iv, ov)) \<mapsto> ov)) triples Map.empty"

definition set_states :: "nat \<Rightarrow> nat list \<Rightarrow> state_set" where
  \<comment> \<open>\<open>bitvec![0; n]\<close> with the bits of a list set\<close>
  "set_states n ss = fold (\<lambda>s v. v[s := True]) ss (bv_repeat False n)"

definition gr1_game_build :: "gr1_spec \<Rightarrow> (classify_error, gr1_game) res" where
  "gr1_game_build spec =
     (let n_ts = length (transition_clauses (gs_safety spec)); n_resp = length (gs_responses spec);
          n_monitors = n_ts + n_resp
      in rbind (shl_one 64 n_monitors) (\<lambda>n_mon_states.
         rbind (shl_one 32 (length (gs_inputs spec))) (\<lambda>n_in_vals.
         rbind (shl_one 32 (length (gs_outputs spec))) (\<lambda>n_out_vals.
         let pairs = List.product [0..<n_mon_states] [0..<n_in_vals];
             triples = List.product [0..<n_mon_states] (List.product [0..<n_in_vals] [0..<n_out_vals])
         in
         rbind (alloc_labels ''env_'' LUncontrollable [0..<n_in_vals] builder_default) (\<lambda>(env_labels, b1).
         rbind (alloc_labels ''ctrl_'' LControllable [0..<n_out_vals] b1) (\<lambda>(ctrl_labels, b2).
         rbind (unwrap_res (builder_intern_label [''bad''] b2)) (\<lambda>(bad_label, b3).
         rbind (alloc_states (map (\<lambda>m. ''E'' @ show_nat m) [0..<n_mon_states])
             (set_label_controllability bad_label LUncontrollable b3)) (\<lambda>(es, b4).
         rbind (alloc_states (map (\<lambda>(m, iv). ''C'' @ show_nat m @ ''_'' @ show_nat iv) pairs) b4) (\<lambda>(c_ids, b5).
         rbind (alloc_states [''BAD''] b5) (\<lambda>(bads, b6).
         let cs = map_of (zip pairs c_ids); bad = hd bads; init = es ! 0;
             b7 = initial_state_id init b6;
             b8 = env_moves es cs env_labels pairs b7;
             b9 = ctrl_moves spec es cs bad ctrl_labels triples b8;
             b10 = transition_ids bad [bad_label] bad b9
         in
         rbind (unwrap_res (builder_build b10)) (\<lambda>clts.
         let n = state_count clts
         in Ok \<lparr>gg_clts = clts,
             gg_safe = (bv_repeat True n)[bad := False],
             gg_sys_fair = map (\<lambda>j. set_states n (map ((!) es) (filter (\<lambda>m. \<not> bit m (n_ts + j)) [0..<n_mon_states]))) [0..<n_resp],
             gg_env_fair = map (\<lambda>p. set_states n (map (the \<circ> cs)
                 (filter (\<lambda>(m, iv). eval_prop p (signal_val spec iv 0)) pairs))) (gs_env_fair spec),
             gg_init = init,
             gg_ctrl_meta = zip c_ids pairs,
             gg_move_output = move_outputs spec es cs bad triples,
             gg_e_meta = map_of (zip es [0..<n_mon_states]),
             gg_n_monitors = n_monitors,
             gg_inputs = gs_inputs spec,
             gg_outputs = gs_outputs spec\<rparr>)))))))))))"

subsection \<open>The printed controller\<close>

record mealy =
  \<comment> \<open>the case items of the printed module: a selector with its branches \<open>(iv, ov, mon', mode')\<close>, and the widths
    of the registers (no mode register for \<open>emit_mealy_sv\<close>)\<close>
  my_n_mon :: nat
  my_n_mode :: "nat option"
  my_items :: "(nat \<times> (nat \<times> nat \<times> nat \<times> nat) list) list"

definition mealy_branch :: "gr1_game \<Rightarrow> nat \<Rightarrow> nat \<Rightarrow> nat \<Rightarrow> nat \<Rightarrow> nat \<Rightarrow> nat \<times> nat \<times> nat \<times> nat" where
  \<comment> \<open>\<open>ov\<close> and \<open>mprime\<close> of the chosen target, with the fallbacks of the code\<close>
  "mealy_branch game m c iv t mode' =
     (iv, case gg_move_output game (c, t) of Some ov \<Rightarrow> ov | None \<Rightarrow> 0,
          case gg_e_meta game t of Some m' \<Rightarrow> m' | None \<Rightarrow> m, mode')"

definition mealy_single :: "gr1_game \<Rightarrow> state_set \<Rightarrow> (nat \<rightharpoonup> nat) \<Rightarrow> mealy" where
  "mealy_single game z strat =
     (let entries = filter (\<lambda>(c, m, iv). bit_is_set z c) (gg_ctrl_meta game)
      in \<lparr>my_n_mon = max (gg_n_monitors game) 1, my_n_mode = None,
          my_items = map (\<lambda>m. (m, List.map_filter
              (\<lambda>(iv, c). map_option (\<lambda>t. mealy_branch game m c iv t 0) (strat c))
              (sort_key fst (map (\<lambda>(c, m', iv). (iv, c)) (filter (\<lambda>(c, m', iv). m' = m) entries)))))
            (sort (remdups (map (\<lambda>(c, m, iv). m) entries)))\<rparr>)"

fun ceil_log2 :: "nat \<Rightarrow> nat" where
  "ceil_log2 n = (if n \<le> 1 then 0 else Suc (ceil_log2 (Suc n div 2)))"

declare ceil_log2.simps [simp del]

definition mealy_multi :: "gr1_game \<Rightarrow> state_set \<Rightarrow> gr1_multi_strategy \<Rightarrow> mealy" where
  "mealy_multi game z strat =
     (let n_mon = max (gg_n_monitors game) 1; modes = max (ms_n_modes strat) 1;
          c_of = map_of (map (\<lambda>(c, mv, iv). ((mv, iv), c)) (gg_ctrl_meta game));
          branches = (\<lambda>j mv. List.map_filter (\<lambda>iv.
             case c_of (mv, iv) of None \<Rightarrow> None
             | Some c \<Rightarrow> if \<not> bit_is_set z c then None
                 else map_option (\<lambda>(t, next_j). mealy_branch game mv c iv t next_j) (ms_moves strat (c, j)))
             [0..<2 ^ length (gg_inputs game)])
      in \<lparr>my_n_mon = n_mon, my_n_mode = Some (max (ceil_log2 modes) 1),
          my_items = filter (\<lambda>(sel, bs). bs \<noteq> [])
            (map (\<lambda>(j, mv). (or (push_bit n_mon j) mv, branches j mv))
              (List.product [0..<modes] [0..<2 ^ gg_n_monitors game]))\<rparr>)"

definition writeln :: "string list \<Rightarrow> string" where
  "writeln parts = concat parts @ ''\<newline>''"

definition input_cond :: "gr1_game \<Rightarrow> nat \<Rightarrow> string" where
  "input_cond game iv =
     (if gg_inputs game = [] then ''1'b1''
      else join '' && '' (map (\<lambda>(k, name). if bit iv k then name else ''!'' @ name) (enumerate 0 (gg_inputs game))))"

definition branch_sv :: "gr1_game \<Rightarrow> mealy \<Rightarrow> nat \<times> nat \<times> nat \<times> nat \<Rightarrow> string" where
  "branch_sv game my = (\<lambda>(iv, ov, mon', mode').
     writeln [''        if ('', input_cond game iv, '') begin'']
     @ concat (map (\<lambda>(k, out). writeln [''          '', out, ''_c = 1'b'', if bit ov k then ''1'' else ''0'', '';''])
         (enumerate 0 (gg_outputs game)))
     @ writeln [''          mon_next = '', show_nat (my_n_mon my), '''d'', show_nat mon', '';'']
     @ (case my_n_mode my of None \<Rightarrow> []
        | Some w \<Rightarrow> writeln [''          mode_next = '', show_nat w, '''d'', show_nat mode', '';''])
     @ writeln [''        end''])"

definition item_sv :: "gr1_game \<Rightarrow> mealy \<Rightarrow> nat \<times> (nat \<times> nat \<times> nat \<times> nat) list \<Rightarrow> string" where
  "item_sv game my = (\<lambda>(sel, bs).
     writeln [''      '', show_nat (my_n_mon my + (case my_n_mode my of None \<Rightarrow> 0 | Some w \<Rightarrow> w)), '''d'', show_nat sel, '': begin'']
     @ concat (map (branch_sv game my) bs) @ writeln [''      end''])"

definition mealy_sv :: "string \<Rightarrow> gr1_game \<Rightarrow> mealy \<Rightarrow> string" where
  \<comment> \<open>the module that both emitters print; the dash of the first line is three bytes\<close>
  "mealy_sv modname game my =
     (let multi = my_n_mode my \<noteq> None; n_mon = my_n_mon my; mode_lines = (\<lambda>f. case my_n_mode my of None \<Rightarrow> [] | Some w \<Rightarrow> f w)
      in writeln [''// Generated by Mununu GR(1) synthesis '', [CHR 0xE2, CHR 0x80, CHR 0x94], '' sound-by-construction'',
           if multi then '' (multi-guarantee)'' else []]
       @ concat ([''module '', modname, '' (input logic clk'']
           @ map (\<lambda>i. '', input logic '' @ i) (gg_inputs game) @ map (\<lambda>x. '', output logic '' @ x) (gg_outputs game))
       @ writeln ['');'']
       @ writeln [''  logic ['', show_nat (n_mon - 1), '':0] mon = '', show_nat n_mon, '''d0;'']
       @ writeln [''  logic ['', show_nat (n_mon - 1), '':0] mon_next;'']
       @ mode_lines (\<lambda>w. writeln [''  logic ['', show_nat (w - 1), '':0] mode = '', show_nat w, '''d0;'']
           @ writeln [''  logic ['', show_nat (w - 1), '':0] mode_next;''])
       @ concat (map (\<lambda>x. writeln [''  logic '', x, ''_c;'']) (gg_outputs game))
       @ writeln [''  always_comb begin'']
       @ concat (map (\<lambda>x. writeln [''    '', x, ''_c = 1'b0;'']) (gg_outputs game))
       @ writeln [''    mon_next = mon;'']
       @ mode_lines (\<lambda>w. writeln [''    mode_next = mode;''])
       @ writeln [if multi then ''    unique case ({mode, mon})'' else ''    unique case (mon)'']
       @ concat (map (item_sv game my) (my_items my))
       @ writeln [''      default: ;''] @ writeln [''    endcase''] @ writeln [''  end'']
       @ concat (map (\<lambda>x. writeln [''  assign '', x, '' = '', x, ''_c;'']) (gg_outputs game))
       @ (if multi
          then writeln [''  always_ff @(posedge clk) begin''] @ writeln [''    mon <= mon_next;'']
            @ writeln [''    mode <= mode_next;''] @ writeln [''  end'']
          else writeln [''  always_ff @(posedge clk) mon <= mon_next;''])
       @ writeln [''endmodule''])"

definition emit_mealy_sv :: "string \<Rightarrow> gr1_game \<Rightarrow> state_set \<Rightarrow> (nat \<rightharpoonup> nat) \<Rightarrow> string" where
  "emit_mealy_sv modname game z strat = mealy_sv modname game (mealy_single game z strat)"

definition emit_mealy_sv_multi :: "string \<Rightarrow> gr1_game \<Rightarrow> state_set \<Rightarrow> gr1_multi_strategy \<Rightarrow> string" where
  "emit_mealy_sv_multi modname game z strat = mealy_sv modname game (mealy_multi game z strat)"

subsection \<open>Synthesis\<close>

record gr1_synthesis =
  sy_realizable :: bool
  sy_controller_sv :: "string option"
  sy_n_monitor_bits :: nat
  sy_n_game_states :: nat
  sy_notes :: "string list"

definition gr1_controller :: "nat \<Rightarrow> string \<Rightarrow> gr1_game \<Rightarrow> state_set \<Rightarrow> (unit, string \<times> string list) res" where
  \<comment> \<open>the controller by the number of guarantees, with the notes\<close>
  "gr1_controller k modname game z =
     (case gg_sys_fair game of
        [] \<Rightarrow> rbind (gr1_strategy_single k (gg_clts game) z z) (\<lambda>s. Ok (emit_mealy_sv modname game z s, []))
      | [g] \<Rightarrow> rbind (gr1_strategy_single k (gg_clts game) z g) (\<lambda>s. Ok (emit_mealy_sv modname game z s, []))
      | gs \<Rightarrow> rbind (gr1_strategy_multi k (gg_clts game) (gg_safe game) z gs (gg_env_fair game)) (\<lambda>s.
          Ok (emit_mealy_sv_multi modname game z s,
            [show_nat (length gs) @ '' system guarantees: multi-guarantee memoryful strategy''])))"

definition synthesise_gr1 ::
  "nat \<Rightarrow> ltl list \<Rightarrow> ltl list \<Rightarrow> string list \<Rightarrow> string list \<Rightarrow> string \<Rightarrow> (classify_error, gr1_synthesis) res" where
  "synthesise_gr1 k assumptions guarantees inputs outputs modname =
     rbind (classify assumptions guarantees inputs outputs) (\<lambda>spec.
     rbind (gr1_game_build spec) (\<lambda>game.
     rbind (unwrap_res (gr1_win k (gg_clts game) (gg_safe game) (gg_sys_fair game) (gg_env_fair game))) (\<lambda>z.
     let n = state_count (gg_clts game); m = gg_n_monitors game
     in if \<not> bit_is_set z (gg_init game)
        then Ok \<lparr>sy_realizable = False, sy_controller_sv = None, sy_n_monitor_bits = m, sy_n_game_states = n, sy_notes = []\<rparr>
        else rbind (unwrap_res (gr1_controller k modname game z)) (\<lambda>(sv, notes).
          Ok \<lparr>sy_realizable = True, sy_controller_sv = Some sv, sy_n_monitor_bits = m, sy_n_game_states = n, sy_notes = notes\<rparr>))))"

end
