(* ===== verification/Gr1_Arena.thy ===== *)
theory Gr1_Arena
  imports Gr1_Build
begin

section \<open>The arena that the game construction builds\<close>

text \<open>
  What \<open>gr1_game_build\<close> returns when the sizes fit: the environment states are \<open>0\<close> to \<open>M - 1\<close>, one per monitor
  value, followed by a controller state for each monitor and input value, followed by the bad state; each
  environment state offers all inputs, each controller state all outputs.
\<close>

subsection \<open>Generated names\<close>

lemma show_nat_rec:
  "show_nat n = (if n < 10 then [char_of (48 + n)] else show_nat (n div 10) @ [char_of (48 + n mod 10)])"
  by (rule show_nat.simps)

lemma digit_inj: "a < 10 \<Longrightarrow> b < 10 \<Longrightarrow> char_of (48 + a) = (char_of (48 + b) :: char) \<Longrightarrow> a = b" for a b :: nat
  by (drule arg_cong [of _ _ "of_char :: char \<Rightarrow> nat"]) simp

lemma show_nat_not_Nil [simp]: "show_nat n \<noteq> []" "[] \<noteq> show_nat n"
  by (subst show_nat_rec, simp)+

lemma show_nat_inj: "show_nat n = show_nat m \<Longrightarrow> n = m"
proof (induction n arbitrary: m rule: less_induct)
  case (less n)
  have ends: "last (show_nat k) = char_of (48 + k mod 10)" "butlast (show_nat k) = (if k < 10 then [] else show_nat (k div 10))" for k
    by (subst show_nat_rec, simp)+
  have last: "n mod 10 = m mod 10" using ends(1) [of n] ends(1) [of m] less.prems by (intro digit_inj) simp_all
  have but: "(if n < 10 then [] else show_nat (n div 10)) = (if m < 10 then [] else show_nat (m div 10))"
    using ends(2) [of n] ends(2) [of m] less.prems by simp
  show ?case
  proof (cases "n < 10")
    case True
    then have "m < 10" using but by (auto split: if_splits)
    then show ?thesis using True last by simp
  next
    case False
    then have "\<not> m < 10" "show_nat (n div 10) = show_nat (m div 10)" using but by (auto split: if_splits)
    then have "n div 10 = m div 10" using less.IH [of "n div 10"] False by simp
    then show ?thesis using last by (metis div_mult_mod_eq)
  qed
qed

lemma show_nat_no_underscore: "CHR ''_'' \<notin> set (show_nat n)"
proof (induction n rule: less_induct)
  case (less n)
  have "char_of (48 + k mod 10) \<noteq> CHR ''_''" for k :: nat
  proof
    assume "char_of (48 + k mod 10) = CHR ''_''"
    then have "of_char (char_of (48 + k mod 10)) = (of_char CHR ''_'' :: nat)" by simp
    then show False by simp
  qed
  from this [of n] show ?case using less [of "n div 10"] by (subst show_nat_rec) auto
qed

lemma pair_name_inj:
  assumes "show_nat a @ CHR ''_'' # show_nat b = show_nat a' @ CHR ''_'' # show_nat b'"
  shows "a = a' \<and> b = b'"
proof -
  have tw: "takeWhile (\<lambda>c. c \<noteq> CHR ''_'') (show_nat x @ CHR ''_'' # ys) = show_nat x" for x ys
    using show_nat_no_underscore [of x] by (subst takeWhile_append2) auto
  from arg_cong [OF assms, of "takeWhile (\<lambda>c. c \<noteq> CHR ''_'')"] have "show_nat a = show_nat a'" by (simp add: tw)
  then show ?thesis using assms show_nat_inj by auto
qed

subsection \<open>Allocation\<close>

definition same_rest :: "clts_builder \<Rightarrow> clts_builder \<Rightarrow> bool" where
  "same_rest b b' \<longleftrightarrow> b_transitions b' = b_transitions b \<and> b_declared_labels b' = b_declared_labels b
     \<and> b_state_overflow b' = b_state_overflow b \<and> b_initial_states b' = b_initial_states b"

abbreviation label_entries :: "clts_builder \<Rightarrow> string list list" where
  "label_entries b \<equiv> sb_entries (b_labels b)"

lemma set_controllability_fields [simp]:
  "b_labels (set_label_controllability l lc b) = b_labels b" "b_state_names (set_label_controllability l lc b) = b_state_names b"
  "same_rest b (set_label_controllability l lc b)"
  "map_of (b_label_controllability (set_label_controllability l lc b)) = (map_of (b_label_controllability b))(l \<mapsto> lc)"
  by (simp_all add: set_label_controllability_def same_rest_def update_conv')

lemma same_rest_trans: "same_rest b b' \<Longrightarrow> same_rest b' b'' \<Longrightarrow> same_rest b b''"
  by (simp add: same_rest_def)

lemma sort_dedup_single [simp]: "sort_dedup [x] = [x]"
  by (simp add: sort_dedup_def)

lemma intern_fresh_label:
  assumes b: "builder_reach b" and "[x] \<notin> set (label_entries b)" "length (label_entries b) \<le> u32_max"
  shows "\<exists>b'. builder_intern_label [x] b = Ok (length (label_entries b), b') \<and> builder_reach b'
    \<and> label_entries b' = label_entries b @ [[x]] \<and> b_state_names b' = b_state_names b
    \<and> b_label_controllability b' = b_label_controllability b \<and> same_rest b b'"
proof -
  have "map_of (sb_entry_map (b_labels b)) [x] = None"
    using builder_reach_inv [OF b] entry_map_None assms(2) by (simp add: builder_inv_def)
  then obtain b' where b': "builder_intern_label [x] b = Ok (length (label_entries b), b')"
      "label_entries b' = label_entries b @ [[x]]" "b_state_names b' = b_state_names b"
      "b_label_controllability b' = b_label_controllability b" "same_rest b b'"
    using assms(3) by (auto simp: builder_intern_label_def label_intern_def try_from_usize_def Let_def same_rest_def)
  then show ?thesis using br_intern [OF b b'(1)] by blast
qed

lemma alloc_labels_spec:
  assumes "builder_reach b" "distinct ks" "(\<lambda>k. [prefix @ show_nat k]) ` set ks \<inter> set (label_entries b) = {}"
    and "length (label_entries b) + length ks \<le> Suc u32_max"
  shows "\<exists>b'. alloc_labels prefix lc ks b = Ok ([length (label_entries b)..<length (label_entries b) + length ks], b')
    \<and> builder_reach b' \<and> label_entries b' = label_entries b @ map (\<lambda>k. [prefix @ show_nat k]) ks
    \<and> b_state_names b' = b_state_names b \<and> same_rest b b'
    \<and> (\<forall>l. map_of (b_label_controllability b') l =
         (if l \<in> {length (label_entries b)..<length (label_entries b) + length ks} then Some lc
          else map_of (b_label_controllability b) l))"
  using assms
proof (induction ks arbitrary: b)
  case (Cons k ks)
  let ?n = "length (label_entries b)"
  obtain b1 where b1: "builder_intern_label [prefix @ show_nat k] b = Ok (?n, b1)" "builder_reach b1"
      "label_entries b1 = label_entries b @ [[prefix @ show_nat k]]" "b_state_names b1 = b_state_names b"
      "b_label_controllability b1 = b_label_controllability b" "same_rest b b1"
    using intern_fresh_label [OF Cons.prems(1), of "prefix @ show_nat k"] Cons.prems(3,4) by auto
  let ?b2 = "set_label_controllability ?n lc b1"
  have r2: "builder_reach ?b2" using b1(2) by (rule br_controllability)
  have fresh: "(\<lambda>k. [prefix @ show_nat k]) ` set ks \<inter> set (label_entries ?b2) = {}"
    using Cons.prems(2,3) b1(3) show_nat_inj by auto
  have n2: "length (label_entries ?b2) = Suc ?n" using b1(3) by simp
  have "distinct ks" "length (label_entries ?b2) + length ks \<le> Suc u32_max" using Cons.prems(2,4) n2 by simp_all
  from Cons.IH [OF r2 this(1) fresh this(2), unfolded n2]
  obtain b' where b': "alloc_labels prefix lc ks ?b2 = Ok ([Suc ?n..<Suc ?n + length ks], b')" "builder_reach b'"
      "label_entries b' = label_entries ?b2 @ map (\<lambda>k. [prefix @ show_nat k]) ks"
      "b_state_names b' = b_state_names ?b2" "same_rest ?b2 b'"
      "\<forall>l. map_of (b_label_controllability b') l = (if l \<in> {Suc ?n..<Suc ?n + length ks} then Some lc
          else map_of (b_label_controllability ?b2) l)"
    by (elim exE conjE) (rule that)
  have rest: "same_rest b b'" using b'(5) b1(6) by (meson same_rest_trans set_controllability_fields(3))
  have lc: "map_of (b_label_controllability b') l = (if l \<in> {?n..<?n + length (k # ks)} then Some lc
      else map_of (b_label_controllability b) l)" for l
    using b'(6) b1(5) by auto
  have "[?n..<?n + length (k # ks)] = ?n # [Suc ?n..<Suc ?n + length ks]" by (simp add: upt_rec)
  then show ?case using b1(1,3,4) b'(1-4) rest lc by (simp del: upt_Suc)
qed (auto simp: same_rest_def)

lemma alloc_states_spec:
  assumes "builder_reach b" "distinct names" "set names \<inter> set (b_state_names b) = {}"
    and "length (b_state_names b) + length names \<le> Suc u32_max"
  shows "\<exists>b'. alloc_states names b = Ok ([length (b_state_names b)..<length (b_state_names b) + length names], b')
    \<and> builder_reach b' \<and> b_state_names b' = b_state_names b @ names \<and> same_rest b b'
    \<and> b_label_controllability b' = b_label_controllability b"
  using assms
proof (induction names arbitrary: b)
  case (Cons x names)
  let ?n = "length (b_state_names b)" and ?b1 = "snd (state_with_name x b)"
  have "map_of (b_state_map b) x = None"
  proof (rule ccontr)
    assume "map_of (b_state_map b) x \<noteq> None"
    then have "x \<in> set (b_state_names b)" using builder_reach_inv [OF Cons.prems(1)] by (auto simp: builder_inv_def)
    then show False using Cons.prems(3) by simp
  qed
  then have sw: "state_with_name x b = (Some ?n, ?b1)" "b_state_names ?b1 = b_state_names b @ [x]" "same_rest b ?b1"
      "b_label_controllability ?b1 = b_label_controllability b"
    using Cons.prems(4)
    by (auto simp: state_with_name_def insert_state_owned_def try_from_usize_def Let_def same_rest_def split: prod.splits)
  have r1: "builder_reach ?b1" using Cons.prems(1) by (rule br_state_with_name)
  obtain b' where b': "alloc_states names ?b1 = Ok ([Suc ?n..<Suc ?n + length names], b')" "builder_reach b'"
      "b_state_names b' = b_state_names b @ x # names" "same_rest ?b1 b'"
      "b_label_controllability b' = b_label_controllability ?b1"
    using Cons.IH [OF r1] Cons.prems sw(2) by (auto simp del: upt_Suc)
  have "[?n..<?n + length (x # names)] = ?n # [Suc ?n..<Suc ?n + length names]" by (simp add: upt_rec)
  then show ?case using sw b' by (auto simp: same_rest_def simp del: upt_Suc split: prod.splits)
qed (auto simp: same_rest_def)
subsection \<open>Sizes and identifiers\<close>

definition n_ts :: "gr1_spec \<Rightarrow> nat" where
  "n_ts spec = length (transition_clauses (gs_safety spec))"

definition mon_states :: "gr1_spec \<Rightarrow> nat" where
  "mon_states spec = 2 ^ (n_ts spec + length (gs_responses spec))"

definition in_vals :: "gr1_spec \<Rightarrow> nat" where
  "in_vals spec = 2 ^ length (gs_inputs spec)"

definition out_vals :: "gr1_spec \<Rightarrow> nat" where
  "out_vals spec = 2 ^ length (gs_outputs spec)"

definition ctrl_id :: "gr1_spec \<Rightarrow> nat \<Rightarrow> nat \<Rightarrow> nat" where
  "ctrl_id spec m iv = mon_states spec + (m * in_vals spec + iv)"

definition bad_id :: "gr1_spec \<Rightarrow> nat" where
  "bad_id spec = mon_states spec + mon_states spec * in_vals spec"

definition spec_fits :: "gr1_spec \<Rightarrow> bool" where
  "spec_fits spec \<longleftrightarrow> n_ts spec + length (gs_responses spec) < 64 \<and> length (gs_inputs spec) < 32
     \<and> length (gs_outputs spec) < 32 \<and> bad_id spec \<le> u32_max \<and> in_vals spec + out_vals spec \<le> u32_max"

lemma pair_index:
  fixes m :: nat
  assumes "m < M" "iv < I"
  shows "m * I + iv < M * I"
proof -
  have "m * I + iv < Suc m * I" using assms(2) by simp
  also have "\<dots> \<le> M * I" by (rule mult_le_mono1) (use assms(1) in simp)
  finally show ?thesis .
qed

lemma sizes_pos [simp]: "0 < mon_states spec" "0 < in_vals spec" "0 < out_vals spec"
  by (simp_all add: mon_states_def in_vals_def out_vals_def)

lemma ctrl_id_inj:
  assumes "iv < in_vals spec" "iv' < in_vals spec" and eq: "ctrl_id spec m iv = ctrl_id spec m' iv'"
  shows "m = m' \<and> iv = iv'"
proof -
  have "m * in_vals spec + iv = m' * in_vals spec + iv'" using eq by (simp add: ctrl_id_def)
  from arg_cong [OF this, of "\<lambda>x. x div in_vals spec"] arg_cong [OF this, of "\<lambda>x. x mod in_vals spec"]
  show ?thesis using assms(1,2) by simp
qed

lemma ctrl_id_range:
  assumes "m < mon_states spec" "iv < in_vals spec"
  shows "mon_states spec \<le> ctrl_id spec m iv" "ctrl_id spec m iv < bad_id spec"
  using pair_index [OF assms] by (simp_all add: ctrl_id_def bad_id_def)

lemma states_cases:
  assumes "s \<le> bad_id spec"
  obtains (E) "s < mon_states spec"
  | (C) m iv where "m < mon_states spec" "iv < in_vals spec" "s = ctrl_id spec m iv"
  | (B) "s = bad_id spec"
proof -
  consider "s < mon_states spec" | "mon_states spec \<le> s" "s < bad_id spec" | "s = bad_id spec" using assms by linarith
  then show ?thesis
  proof cases
    case 2
    let ?d = "s - mon_states spec"
    have "?d < mon_states spec * in_vals spec" using 2 by (simp add: bad_id_def)
    then have "?d div in_vals spec < mon_states spec" by (simp add: less_mult_imp_div_less)
    moreover have "s = ctrl_id spec (?d div in_vals spec) (?d mod in_vals spec)" using 2 by (simp add: ctrl_id_def)
    ultimately show ?thesis by (intro C [of "?d div in_vals spec" "?d mod in_vals spec"]) simp_all
  qed (use E B in blast)+
qed

lemma ctrl_id_map:
  assumes "m < mon_states spec" "iv < in_vals spec"
  shows "map_of (zip (List.product [0..<mon_states spec] [0..<in_vals spec]) [mon_states spec..<bad_id spec]) (m, iv)
    = Some (ctrl_id spec m iv)"
proof -
  let ?ps = "List.product [0..<mon_states spec] [0..<in_vals spec]" and ?i = "m * in_vals spec + iv"
  have i: "?i < mon_states spec * in_vals spec" by (rule pair_index [OF assms])
  have "?ps ! ?i = (m, iv)" using product_nth [of ?i "[0..<mon_states spec]" "[0..<in_vals spec]"] i assms by simp
  moreover have "map_of (zip ?ps [mon_states spec..<bad_id spec]) (?ps ! ?i) = Some ([mon_states spec..<bad_id spec] ! ?i)"
    using i by (intro map_of_zip_nth) (simp_all add: distinct_product bad_id_def)
  ultimately show ?thesis using i by (simp add: ctrl_id_def bad_id_def)
qed

subsection \<open>Monitors\<close>

lemma bit_fold_set_bit:
  "bit (fold (\<lambda>(i, x) m. if Q i x then set_bit (d + i) m else m) (enumerate k xs) m0) n \<longleftrightarrow>
     bit m0 n \<or> (\<exists>j<length xs. n = d + (k + j) \<and> Q (k + j) (xs ! j))" for m0 :: nat
proof (induction xs arbitrary: k m0)
  case (Cons x xs)
  have "(\<exists>j<length (x # xs). n = d + (k + j) \<and> Q (k + j) ((x # xs) ! j)) \<longleftrightarrow>
      n = d + k \<and> Q k x \<or> (\<exists>j<length xs. n = d + (Suc k + j) \<and> Q (Suc k + j) (xs ! j))"
    by (simp add: Ex_less_Suc2)
  then show ?case using Cons.IH by (auto simp: bit_simps)
qed simp

lemma less_exp_of_bits: "(\<And>n. bit m n \<Longrightarrow> n < N) \<Longrightarrow> m < 2 ^ N" for m :: nat
proof -
  assume bits: "\<And>n. bit m n \<Longrightarrow> n < N"
  have "take_bit N m = m" by (rule bit_eqI) (use bits in \<open>auto simp: bit_simps\<close>)
  then show ?thesis by (metis take_bit_nat_less_exp)
qed

definition pending_next :: "gr1_spec \<Rightarrow> nat \<Rightarrow> signals \<Rightarrow> nat \<Rightarrow> bool" where
  "pending_next spec m val j \<longleftrightarrow> (bit m (n_ts spec + j) \<or> eval_prop (rc_trigger (gs_responses spec ! j)) val)
     \<and> \<not> eval_prop (rc_response (gs_responses spec ! j)) val"

lemma bit_next_monitors:
  "bit (next_monitors spec m val) n \<longleftrightarrow>
     n < n_ts spec \<and> eval_prop (fst (transition_clauses (gs_safety spec) ! n)) val
     \<or> (\<exists>j<length (gs_responses spec). n = n_ts spec + j \<and> pending_next spec m val j)"
proof -
  let ?ts = "transition_clauses (gs_safety spec)"
  let ?m2 = "fold (\<lambda>(i, (pre, post)) m2. if eval_prop pre val then set_bit i m2 else m2) (enumerate 0 ?ts) 0 :: nat"
  have a: "bit ?m2 n \<longleftrightarrow> n < n_ts spec \<and> eval_prop (fst (?ts ! n)) val"
    using bit_fold_set_bit [of "\<lambda>i x. eval_prop (fst x) val" 0 0 ?ts 0 n, unfolded add_0_left]
    by (auto simp: split_beta' n_ts_def)
  have b: "bit (next_monitors spec m val) n \<longleftrightarrow> bit ?m2 n \<or>
      (\<exists>j<length (gs_responses spec). n = n_ts spec + j \<and> pending_next spec m val j)"
    using bit_fold_set_bit [of "\<lambda>j r. (bit m (n_ts spec + j) \<or> eval_prop (rc_trigger r) val) \<and> \<not> eval_prop (rc_response r) val"
        "n_ts spec" 0 "gs_responses spec" ?m2 n]
    unfolding next_monitors_def Let_def pending_next_def n_ts_def by simp
  show ?thesis using a b by blast
qed

lemma next_monitors_less: "next_monitors spec m val < mon_states spec"
  unfolding mon_states_def by (rule less_exp_of_bits) (auto simp: bit_next_monitors)

lemma list_ex_enumerate: "list_ex P (enumerate 0 xs) \<longleftrightarrow> (\<exists>i<length xs. P (i, xs ! i))"
  by (auto simp: list_ex_length nth_enumerate_eq)

lemma unsafe_move_iff:
  "unsafe_move spec m val \<longleftrightarrow> (\<exists>p\<in>set (invariant_clauses (gs_safety spec)). \<not> eval_prop p val)
     \<or> (\<exists>i<n_ts spec. bit m i \<and> \<not> eval_prop (snd (transition_clauses (gs_safety spec) ! i)) val)"
  unfolding unsafe_move_def list_ex_enumerate n_ts_def by (simp add: list_ex_iff split_beta)
subsection \<open>The builder before the moves are added\<close>

abbreviation env_names :: "gr1_spec \<Rightarrow> string list" where
  "env_names spec \<equiv> map (\<lambda>m. ''E'' @ show_nat m) [0..<mon_states spec]"

abbreviation monitor_inputs :: "gr1_spec \<Rightarrow> (nat \<times> nat) list" where
  "monitor_inputs spec \<equiv> List.product [0..<mon_states spec] [0..<in_vals spec]"

abbreviation ctrl_names :: "gr1_spec \<Rightarrow> string list" where
  "ctrl_names spec \<equiv> map (\<lambda>(m, iv). ''C'' @ show_nat m @ ''_'' @ show_nat iv) (monitor_inputs spec)"

definition label_kind :: "gr1_spec \<Rightarrow> nat \<Rightarrow> label_controllability option" where
  "label_kind spec l = (if l < in_vals spec then Some LUncontrollable
     else if l < in_vals spec + out_vals spec then Some LControllable
     else if l = in_vals spec + out_vals spec then Some LUncontrollable else None)"

lemma label_kind_not_internal [simp]: "label_kind spec l \<noteq> Some LInternal"
  by (simp add: label_kind_def)

lemma labels_allocated:
  assumes "spec_fits spec"
  shows "\<exists>b1 b2 b3. alloc_labels ''env_'' LUncontrollable [0..<in_vals spec] builder_default = Ok ([0..<in_vals spec], b1)
    \<and> alloc_labels ''ctrl_'' LControllable [0..<out_vals spec] b1 = Ok ([in_vals spec..<in_vals spec + out_vals spec], b2)
    \<and> builder_intern_label [''bad''] b2 = Ok (in_vals spec + out_vals spec, b3) \<and> builder_reach b3
    \<and> b_state_names b3 = [] \<and> same_rest builder_default b3
    \<and> map_of (b_label_controllability (set_label_controllability (in_vals spec + out_vals spec) LUncontrollable b3)) = label_kind spec"
proof -
  let ?I = "in_vals spec" and ?O = "out_vals spec"
  have fit: "?I + ?O \<le> u32_max" using assms by (simp add: spec_fits_def)
  have e0: "label_entries builder_default = []" "map_of (b_label_controllability builder_default) = Map.empty"
      "b_state_names builder_default = []"
    by (simp_all add: builder_default_def symbol_builder_default_def)
  from alloc_labels_spec [OF br_default, of "[0..<?I]" "''env_''" LUncontrollable, unfolded e0]
  obtain b1 where b1: "alloc_labels ''env_'' LUncontrollable [0..<?I] builder_default = Ok ([0..<?I], b1)" "builder_reach b1"
      "label_entries b1 = map (\<lambda>k. [''env_'' @ show_nat k]) [0..<?I]" "b_state_names b1 = []" "same_rest builder_default b1"
      "\<forall>l. map_of (b_label_controllability b1) l = (if l \<in> {0..<?I} then Some LUncontrollable else None)"
    using fit by auto
  have n1: "length (label_entries b1) = ?I" by (simp add: b1(3))
  have "(\<lambda>k. [''ctrl_'' @ show_nat k]) ` set [0..<?O] \<inter> set (label_entries b1) = {}" by (auto simp: b1(3))
  from alloc_labels_spec [OF b1(2) _ this, of LControllable, unfolded n1]
  obtain b2 where b2: "alloc_labels ''ctrl_'' LControllable [0..<?O] b1 = Ok ([?I..<?I + ?O], b2)" "builder_reach b2"
      "label_entries b2 = label_entries b1 @ map (\<lambda>k. [''ctrl_'' @ show_nat k]) [0..<?O]" "b_state_names b2 = []" "same_rest b1 b2"
      "\<forall>l. map_of (b_label_controllability b2) l = (if l \<in> {?I..<?I + ?O} then Some LControllable
         else map_of (b_label_controllability b1) l)"
    using fit b1(4) by auto
  have n2: "length (label_entries b2) = ?I + ?O" by (simp add: b2(3) n1)
  have "[''bad''] \<notin> set (label_entries b2)" by (auto simp: b2(3) b1(3))
  from intern_fresh_label [OF b2(2) this, unfolded n2]
  obtain b3 where b3: "builder_intern_label [''bad''] b2 = Ok (?I + ?O, b3)" "builder_reach b3" "b_state_names b3 = []"
      "b_label_controllability b3 = b_label_controllability b2" "same_rest b2 b3"
    using fit b2(4) by auto
  have rest: "same_rest builder_default b3" by (meson b1(5) b2(5) b3(5) same_rest_trans)
  have kinds: "map_of (b_label_controllability (set_label_controllability (?I + ?O) LUncontrollable b3)) = label_kind spec"
    using b1(6) b2(6) b3(4) by (auto simp: label_kind_def)
  show ?thesis using b1(1) b2(1) b3(1-3) rest kinds by blast
qed

lemma states_allocated:
  assumes "spec_fits spec" and b: "builder_reach b" "b_state_names b = []"
  shows "\<exists>b4 b5 b6. alloc_states (env_names spec) b = Ok ([0..<mon_states spec], b4)
    \<and> alloc_states (ctrl_names spec) b4 = Ok ([mon_states spec..<bad_id spec], b5)
    \<and> alloc_states [''BAD''] b5 = Ok ([bad_id spec], b6) \<and> builder_reach b6
    \<and> length (b_state_names b6) = Suc (bad_id spec) \<and> same_rest b b6 \<and> b_label_controllability b6 = b_label_controllability b"
proof -
  let ?M = "mon_states spec" and ?B = "bad_id spec"
  have fit: "?B \<le> u32_max" and MB: "?M + length (monitor_inputs spec) = ?B"
    using assms(1) by (simp_all add: spec_fits_def bad_id_def)
  have "distinct (env_names spec)" by (auto simp: distinct_map inj_on_def dest: show_nat_inj)
  from alloc_states_spec [OF b(1) this, unfolded b(2)]
  obtain b4 where b4: "alloc_states (env_names spec) b = Ok ([0..<?M], b4)" "builder_reach b4" "b_state_names b4 = env_names spec"
      "same_rest b b4" "b_label_controllability b4 = b_label_controllability b"
    using fit MB by auto
  have d: "distinct (ctrl_names spec)"
    unfolding distinct_map by (intro conjI inj_onI) (auto simp: distinct_product dest!: pair_name_inj)
  have disj: "set (ctrl_names spec) \<inter> set (b_state_names b4) = {}" by (auto simp: b4(3))
  have n4: "length (b_state_names b4) = ?M" by (simp add: b4(3))
  obtain b5 where b5: "alloc_states (ctrl_names spec) b4 = Ok ([?M..<?B], b5)" "builder_reach b5"
      "b_state_names b5 = env_names spec @ ctrl_names spec" "same_rest b4 b5"
      "b_label_controllability b5 = b_label_controllability b4"
    using alloc_states_spec [OF b4(2) d disj] fit MB n4 b4(3) by auto
  have n5: "length (b_state_names b5) = ?B" using MB by (simp add: b5(3))
  have "set [''BAD''] \<inter> set (b_state_names b5) = {}" by (auto simp: b5(3))
  then obtain b6 where "alloc_states [''BAD''] b5 = Ok ([?B], b6)" "builder_reach b6"
      "b_state_names b6 = b_state_names b5 @ [''BAD'']" "same_rest b5 b6"
      "b_label_controllability b6 = b_label_controllability b5"
    using alloc_states_spec [OF b5(2), of "[''BAD'']"] fit n5 by auto
  moreover from this have "same_rest b b6" by (meson b4(4) b5(4) same_rest_trans)
  ultimately show ?thesis using b4(1,5) b5(1,5) n5 by auto
qed
subsection \<open>The moves\<close>

definition move_to :: "gr1_spec \<Rightarrow> nat \<Rightarrow> nat \<Rightarrow> nat \<Rightarrow> nat" where
  "move_to spec m iv ov = (let val = signal_val spec iv ov
     in if unsafe_move spec m val then bad_id spec else next_monitors spec m val)"

definition edge :: "nat \<Rightarrow> nat \<Rightarrow> nat \<Rightarrow> transition_spec" where
  "edge s l t = \<lparr>ts_from = s, ts_to = t, ts_labels = [l], ts_modality = Sharp\<rparr>"

definition game_edges :: "gr1_spec \<Rightarrow> transition_spec set" where
  "game_edges spec =
     {edge m iv (ctrl_id spec m iv) | m iv. m < mon_states spec \<and> iv < in_vals spec}
     \<union> {edge (ctrl_id spec m iv) (in_vals spec + ov) (move_to spec m iv ov) | m iv ov.
          m < mon_states spec \<and> iv < in_vals spec \<and> ov < out_vals spec}
     \<union> {edge (bad_id spec) (in_vals spec + out_vals spec) (bad_id spec)}"

lemma move_to_cases: "move_to spec m iv ov = bad_id spec \<or> move_to spec m iv ov < mon_states spec"
  by (simp add: move_to_def Let_def next_monitors_less)

lemma fold_transition_ids:
  assumes "\<And>x b. g x b = transition_ids (f x) [l x] (t x) b"
  shows "fold g xs b = b\<lparr>b_transitions := b_transitions b @ map (\<lambda>x. edge (f x) (l x) (t x)) xs\<rparr>"
  by (induction xs arbitrary: b) (simp_all add: assms transition_ids_def transition_ids_with_modality_def edge_def)

abbreviation game_moves_list :: "gr1_spec \<Rightarrow> (nat \<times> nat \<times> nat) list" where
  "game_moves_list spec \<equiv> List.product [0..<mon_states spec] (List.product [0..<in_vals spec] [0..<out_vals spec])"

lemma moves_added:
  assumes cs: "\<And>m iv. m < mon_states spec \<Longrightarrow> iv < in_vals spec \<Longrightarrow> cs (m, iv) = Some (ctrl_id spec m iv)"
    and b: "b_transitions b = []"
  shows "\<exists>ts. set ts = game_edges spec \<and>
    transition_ids (bad_id spec) [in_vals spec + out_vals spec] (bad_id spec)
      (ctrl_moves spec [0..<mon_states spec] cs (bad_id spec) [in_vals spec..<in_vals spec + out_vals spec] (game_moves_list spec)
        (env_moves [0..<mon_states spec] cs [0..<in_vals spec] (monitor_inputs spec) b)) = b\<lparr>b_transitions := ts\<rparr>"
proof -
  let ?es = "[0..<mon_states spec]" and ?cl = "[in_vals spec..<in_vals spec + out_vals spec]"
  let ?e1 = "map (\<lambda>x. edge (?es ! fst x) ([0..<in_vals spec] ! snd x) (the (cs x))) (monitor_inputs spec)"
  let ?e2 = "map (\<lambda>x. edge (the (cs (fst x, fst (snd x)))) (?cl ! snd (snd x)) (move_target spec ?es (bad_id spec) x)) (game_moves_list spec)"
  let ?e3 = "[edge (bad_id spec) (in_vals spec + out_vals spec) (bad_id spec)]"
  have 1: "env_moves ?es cs [0..<in_vals spec] (monitor_inputs spec) b = b\<lparr>b_transitions := ?e1\<rparr>"
    unfolding env_moves_def by (subst fold_transition_ids) (auto simp: b)
  have 2: "ctrl_moves spec ?es cs (bad_id spec) ?cl (game_moves_list spec) (b\<lparr>b_transitions := ?e1\<rparr>) = b\<lparr>b_transitions := ?e1 @ ?e2\<rparr>"
    unfolding ctrl_moves_def
    by (subst fold_transition_ids [where f = "\<lambda>x. the (cs (fst x, fst (snd x)))" and l = "\<lambda>x. ?cl ! snd (snd x)"
          and t = "move_target spec ?es (bad_id spec)"]) auto
  have tgt: "move_target spec ?es (bad_id spec) (m, iv, ov) = move_to spec m iv ov" for m iv ov
    by (simp add: move_target_def move_to_def Let_def next_monitors_less)
  have "set ?e1 = {edge m iv (ctrl_id spec m iv) | m iv. m < mon_states spec \<and> iv < in_vals spec}"
    by (force simp: cs)
  moreover have "set ?e2 = {edge (ctrl_id spec m iv) (in_vals spec + ov) (move_to spec m iv ov) | m iv ov.
      m < mon_states spec \<and> iv < in_vals spec \<and> ov < out_vals spec}"
    by (force simp: cs tgt)
  ultimately have "set (?e1 @ ?e2 @ ?e3) = game_edges spec" by (simp add: game_edges_def)
  moreover have "transition_ids (bad_id spec) [in_vals spec + out_vals spec] (bad_id spec) (b\<lparr>b_transitions := ?e1 @ ?e2\<rparr>)
      = b\<lparr>b_transitions := ?e1 @ ?e2 @ ?e3\<rparr>"
    by (simp add: transition_ids_def transition_ids_with_modality_def edge_def)
  ultimately show ?thesis using 1 2 by (intro exI [of _ "?e1 @ ?e2 @ ?e3"]) simp
qed

lemma game_edges_range:
  assumes "e \<in> game_edges spec"
  shows "ts_from e \<le> bad_id spec" "ts_to e \<le> bad_id spec" "l \<in> set (ts_labels e) \<Longrightarrow> label_kind spec l \<noteq> None"
proof -
  have M: "mon_states spec \<le> bad_id spec" by (simp add: bad_id_def)
  have C: "ctrl_id spec m iv \<le> bad_id spec" if "m < mon_states spec" "iv < in_vals spec" for m iv
    using ctrl_id_range(2) [OF that] by simp
  have T: "move_to spec m iv ov \<le> bad_id spec" for m iv ov using move_to_cases [of spec m iv ov] M by auto
  show "ts_from e \<le> bad_id spec" "ts_to e \<le> bad_id spec" "l \<in> set (ts_labels e) \<Longrightarrow> label_kind spec l \<noteq> None"
    using assms M C T by (auto simp: game_edges_def edge_def label_kind_def)
qed

lemma built_clts:
  assumes b: "builder_reach b" "length (b_state_names b) = Suc (bad_id spec)" "same_rest builder_default b"
    and kinds: "map_of (b_label_controllability b) = label_kind spec" and ts: "set ts = game_edges spec"
  shows "\<exists>c. builder_build ((initial_state_id 0 b)\<lparr>b_transitions := ts\<rparr>) = Ok c \<and> wf_clts c \<and> state_count c = Suc (bad_id spec)
    \<and> (\<forall>s\<le>bad_id spec. set (outgoing c s) = mk_outgoing ` {e \<in> game_edges spec. ts_from e = s})
    \<and> (\<forall>l. (l \<in> c_controllable_alphabet c \<or> l \<in> c_internal_alphabet c) \<longleftrightarrow>
         (\<exists>e\<in>game_edges spec. l \<in> set (ts_labels e)) \<and> label_kind spec l = Some LControllable)"
proof -
  let ?b = "(initial_state_id 0 b)\<lparr>b_transitions := ts\<rparr>"
  have inv: "builder_inv ?b"
    using builder_reach_inv [OF b(1)] b(2) ts game_edges_range
    by (auto simp: builder_inv_def initial_state_id_def less_Suc_eq_le)
  have ov: "b_state_overflow ?b = None" and dc: "b_declared_labels ?b = {}"
    using b(3) by (simp_all add: same_rest_def builder_default_def initial_state_id_def)
  obtain c where c: "builder_build ?b = Ok c" "wf_clts c" using build_wf [OF inv ov] by blast
  have fields: "state_count c = Suc (bad_id spec)"
      "c_outgoing c = map (\<lambda>s. map mk_outgoing (filter (\<lambda>e. ts_from e = s) ts)) [0..<Suc (bad_id spec)]"
      "c_controllable_alphabet c = alphabet_of ?b (Some LControllable) \<union> alphabet_of ?b None"
      "c_internal_alphabet c = alphabet_of ?b (Some LInternal)"
    using c(1) ov b(2) by (auto simp: builder_build_def Let_def initial_state_id_def state_count_def split: if_splits)
  have out: "set (outgoing c s) = mk_outgoing ` {e \<in> game_edges spec. ts_from e = s}" if "s \<le> bad_id spec" for s
    using that ts by (simp add: outgoing_def fields(2) del: upt_Suc)
  have used: "all_labels ?b = {l. \<exists>e\<in>game_edges spec. l \<in> set (ts_labels e)}"
    using ts dc by (auto simp: all_labels_def)
  have k: "map_of (b_label_controllability ?b) = label_kind spec" using kinds by (simp add: initial_state_id_def)
  have "(l \<in> c_controllable_alphabet c \<or> l \<in> c_internal_alphabet c) \<longleftrightarrow>
      (\<exists>e\<in>game_edges spec. l \<in> set (ts_labels e)) \<and> label_kind spec l = Some LControllable" for l
    unfolding fields(3,4) alphabet_of_def used k using game_edges_range(3) [of _ spec l] label_kind_not_internal by auto
  then show ?thesis using c fields(1) out by blast
qed
subsection \<open>Owners, moves and sets\<close>

definition spec_arena :: "gr1_spec \<Rightarrow> clts \<Rightarrow> bool" where
  "spec_arena spec c \<longleftrightarrow> wf_clts c \<and> state_count c = Suc (bad_id spec)
     \<and> (\<forall>m<mon_states spec. \<not> eve_owned c m \<and> game_moves c m = ctrl_id spec m ` {..<in_vals spec})
     \<and> (\<forall>m<mon_states spec. \<forall>iv<in_vals spec. eve_owned c (ctrl_id spec m iv)
          \<and> game_moves c (ctrl_id spec m iv) = move_to spec m iv ` {..<out_vals spec})
     \<and> \<not> eve_owned c (bad_id spec) \<and> game_moves c (bad_id spec) = {bad_id spec}"

lemma edges_from:
  shows "m < mon_states spec \<Longrightarrow> {e \<in> game_edges spec. ts_from e = m} = (\<lambda>iv. edge m iv (ctrl_id spec m iv)) ` {..<in_vals spec}"
    and "m < mon_states spec \<Longrightarrow> iv < in_vals spec \<Longrightarrow> {e \<in> game_edges spec. ts_from e = ctrl_id spec m iv} =
      (\<lambda>ov. edge (ctrl_id spec m iv) (in_vals spec + ov) (move_to spec m iv ov)) ` {..<out_vals spec}"
    and "{e \<in> game_edges spec. ts_from e = bad_id spec} = {edge (bad_id spec) (in_vals spec + out_vals spec) (bad_id spec)}"
proof -
  have src: "ts_from (edge s l t) = s" for s l t by (simp add: edge_def)
  have MB: "mon_states spec \<le> bad_id spec" by (simp add: bad_id_def)
  have r: "mon_states spec \<le> ctrl_id spec m iv" "ctrl_id spec m iv < bad_id spec" if "m < mon_states spec" "iv < in_vals spec" for m iv
    using ctrl_id_range [OF that] by auto
  show "{e \<in> game_edges spec. ts_from e = m} = (\<lambda>iv. edge m iv (ctrl_id spec m iv)) ` {..<in_vals spec}"
    if "m < mon_states spec" for m
    using that MB by (auto simp: game_edges_def src dest: r)
  show "{e \<in> game_edges spec. ts_from e = ctrl_id spec m iv} =
      (\<lambda>ov. edge (ctrl_id spec m iv) (in_vals spec + ov) (move_to spec m iv ov)) ` {..<out_vals spec}"
    if mi: "m < mon_states spec" "iv < in_vals spec" for m iv
  proof (intro equalityI subsetI)
    fix e assume "e \<in> {e \<in> game_edges spec. ts_from e = ctrl_id spec m iv}"
    then have e: "e \<in> game_edges spec" "ts_from e = ctrl_id spec m iv" by simp_all
    from e(1) consider m' iv' where "e = edge m' iv' (ctrl_id spec m' iv')" "m' < mon_states spec"
      | m' iv' ov where "e = edge (ctrl_id spec m' iv') (in_vals spec + ov) (move_to spec m' iv' ov)" "iv' < in_vals spec" "ov < out_vals spec"
      | "ts_from e = bad_id spec"
      unfolding game_edges_def using src by blast
    then show "e \<in> (\<lambda>ov. edge (ctrl_id spec m iv) (in_vals spec + ov) (move_to spec m iv ov)) ` {..<out_vals spec}"
    proof cases
      case (2 m' iv' ov)
      then have "m' = m \<and> iv' = iv" using e(2) mi(2) by (intro ctrl_id_inj) (simp_all add: src)
      then show ?thesis using 2 by blast
    qed (use e(2) r [OF mi] src in auto)
  qed (use mi in \<open>auto simp: game_edges_def src\<close>)
  show "{e \<in> game_edges spec. ts_from e = bad_id spec} = {edge (bad_id spec) (in_vals spec + out_vals spec) (bad_id spec)}"
    using MB by (auto simp: game_edges_def src dest: r)
qed

lemma spec_arenaI:
  assumes "wf_clts c" "state_count c = Suc (bad_id spec)"
    and out: "\<And>s. s \<le> bad_id spec \<Longrightarrow> set (outgoing c s) = mk_outgoing ` {e \<in> game_edges spec. ts_from e = s}"
    and ctrl: "\<And>l. (l \<in> c_controllable_alphabet c \<or> l \<in> c_internal_alphabet c) \<longleftrightarrow>
         (\<exists>e\<in>game_edges spec. l \<in> set (ts_labels e)) \<and> label_kind spec l = Some LControllable"
  shows "spec_arena spec c"
proof -
  have used: "\<exists>e\<in>game_edges spec. l \<in> set (ts_labels e)" if "edge s l t \<in> game_edges spec" for s l t
    using that by (intro bexI [of _ "edge s l t"]) (simp_all add: edge_def)
  have isc: "is_controllable c (mk_outgoing (edge s l t)) \<longleftrightarrow> label_kind spec l = Some LControllable"
    if "edge s l t \<in> game_edges spec" for s l t
    using ctrl [of l] used [OF that]
    by (simp add: is_controllable_def is_controllable_label_def is_internal_label_def mk_outgoing_def edge_def)
  have tgt: "t_target (mk_outgoing (edge s l t)) = t" for s l t by (simp add: mk_outgoing_def edge_def)
  have E: "\<not> eve_owned c m \<and> game_moves c m = ctrl_id spec m ` {..<in_vals spec}" if m: "m < mon_states spec" for m
  proof -
    have s: "m \<le> bad_id spec" using m by (simp add: bad_id_def)
    have e: "edge m iv (ctrl_id spec m iv) \<in> game_edges spec" "label_kind spec iv \<noteq> Some LControllable" if "iv < in_vals spec" for iv
      using m that by (auto simp: game_edges_def label_kind_def)
    have "\<not> eve_owned c m" using isc [OF e(1)] e(2) by (auto simp: eve_owned_def list_ex_iff out [OF s] edges_from(1) [OF m])
    then show ?thesis by (simp add: game_moves_def out [OF s] edges_from(1) [OF m] image_image tgt)
  qed
  have C: "eve_owned c (ctrl_id spec m iv) \<and> game_moves c (ctrl_id spec m iv) = move_to spec m iv ` {..<out_vals spec}"
    if mi: "m < mon_states spec" "iv < in_vals spec" for m iv
  proof -
    have s: "ctrl_id spec m iv \<le> bad_id spec" using ctrl_id_range(2) [OF mi] by simp
    have e: "edge (ctrl_id spec m iv) (in_vals spec + ov) (move_to spec m iv ov) \<in> game_edges spec"
        "label_kind spec (in_vals spec + ov) = Some LControllable" if "ov < out_vals spec" for ov
      using mi that by (auto simp: game_edges_def label_kind_def)
    have all: "\<forall>t\<in>set (outgoing c (ctrl_id spec m iv)). is_controllable c t"
      using isc [OF e(1)] e(2) by (auto simp: out [OF s] edges_from(2) [OF mi])
    moreover have "set (outgoing c (ctrl_id spec m iv)) \<noteq> {}" by (simp add: out [OF s] edges_from(2) [OF mi] lessThan_empty_iff)
    ultimately have "eve_owned c (ctrl_id spec m iv)" by (cases "outgoing c (ctrl_id spec m iv)") (auto simp: eve_owned_def)
    moreover have "{t \<in> set (outgoing c (ctrl_id spec m iv)). is_controllable c t} = set (outgoing c (ctrl_id spec m iv))" using all by blast
    ultimately show ?thesis by (simp add: game_moves_def out [OF s] edges_from(2) [OF mi] image_image tgt)
  qed
  let ?e = "edge (bad_id spec) (in_vals spec + out_vals spec) (bad_id spec)"
  have e: "?e \<in> game_edges spec" "label_kind spec (in_vals spec + out_vals spec) \<noteq> Some LControllable"
    by (auto simp: game_edges_def label_kind_def)
  have B: "\<not> eve_owned c (bad_id spec)" using isc [OF e(1)] e(2) by (simp add: eve_owned_def list_ex_iff out edges_from(3))
  then have "game_moves c (bad_id spec) = {bad_id spec}" by (simp add: game_moves_def out edges_from(3) tgt)
  then show ?thesis using assms(1,2) E C B unfolding spec_arena_def by blast
qed

lemma bset_clear: "bset (v[s := False]) = bset v - {s}"
  by (cases "s < length v") (auto simp: mem_bset_iff nth_list_update split: if_splits)

lemma set_states_bits:
  assumes "\<And>s. s \<in> set ss \<Longrightarrow> s < n"
  shows "length (set_states n ss) = n" "bset (set_states n ss) = set ss"
proof -
  have "length (fold (\<lambda>s v. v[s := True]) ss v) = length v \<and>
      (length v = n \<longrightarrow> bset (fold (\<lambda>s v. v[s := True]) ss v) = bset v \<union> set ss)" for v
    using assms
  proof (induction ss arbitrary: v)
    case (Cons s ss)
    then have "length v = n \<Longrightarrow> bset (v[s := True]) = insert s (bset v)"
      by (auto simp: mem_bset_iff nth_list_update split: if_splits)
    then show ?case using Cons by auto
  qed simp
  then show "length (set_states n ss) = n" "bset (set_states n ss) = set ss"
    by (simp_all add: set_states_def)
qed

subsection \<open>What the printer reads\<close>

lemma ctrl_meta_entries:
  "zip [mon_states spec..<bad_id spec] (monitor_inputs spec) = map (\<lambda>(m, iv). (ctrl_id spec m iv, m, iv)) (monitor_inputs spec)"
proof (rule nth_equalityI)
  fix i assume "i < length (zip [mon_states spec..<bad_id spec] (monitor_inputs spec))"
  then have i: "i < mon_states spec * in_vals spec" by (simp add: bad_id_def)
  then have "monitor_inputs spec ! i = (i div in_vals spec, i mod in_vals spec)"
    by (simp add: product_nth less_mult_imp_div_less)
  then show "zip [mon_states spec..<bad_id spec] (monitor_inputs spec) ! i
      = map (\<lambda>(m, iv). (ctrl_id spec m iv, m, iv)) (monitor_inputs spec) ! i"
    using i by (simp add: bad_id_def ctrl_id_def)
qed (simp add: bad_id_def)

lemma fold_map_update:
  assumes "x \<in> set xs \<or> m (key x) = Some v \<and> (\<exists>y\<in>Y. key y = key x \<and> v = val y)"
  shows "\<exists>y\<in>set xs \<union> Y. key y = key x \<and> fold (\<lambda>x m. m(key x \<mapsto> val x)) xs m (key x) = Some (val y)"
  using assms
proof (induction xs arbitrary: m v Y)
  case (Cons a xs)
  show ?case
  proof (cases "key a = key x")
    case True
    then have "x \<in> set xs \<or> (m(key a \<mapsto> val a)) (key x) = Some (val a) \<and> (\<exists>y\<in>insert a Y. key y = key x \<and> val a = val y)" by auto
    from Cons.IH [where v = "val a" and Y = "insert a Y" and m = "m(key a \<mapsto> val a)", OF this] show ?thesis by auto
  next
    case False
    then have "x \<in> set xs \<or> (m(key a \<mapsto> val a)) (key x) = Some v \<and> (\<exists>y\<in>Y. key y = key x \<and> v = val y)"
      using Cons.prems by auto
    from Cons.IH [where v = v and Y = Y and m = "m(key a \<mapsto> val a)", OF this] show ?thesis by auto
  qed
qed auto

lemma move_outputs_found:
  assumes cs: "\<And>m iv. m < mon_states spec \<Longrightarrow> iv < in_vals spec \<Longrightarrow> cs (m, iv) = Some (ctrl_id spec m iv)"
    and b: "m < mon_states spec" "iv < in_vals spec" "ov < out_vals spec"
  shows "\<exists>ov'<out_vals spec. move_outputs spec [0..<mon_states spec] cs (bad_id spec) (game_moves_list spec)
      (ctrl_id spec m iv, move_to spec m iv ov) = Some ov' \<and> move_to spec m iv ov' = move_to spec m iv ov"
proof -
  let ?es = "[0..<mon_states spec]" and ?key = "\<lambda>x. (the (cs (fst x, fst (snd x))), move_target spec [0..<mon_states spec] (bad_id spec) x)"
  have tgt: "move_target spec ?es (bad_id spec) (m, iv, ov) = move_to spec m iv ov" for m iv ov
    by (simp add: move_target_def move_to_def Let_def next_monitors_less)
  have mo: "move_outputs spec ?es cs (bad_id spec) (game_moves_list spec)
      = fold (\<lambda>x out. out(?key x \<mapsto> snd (snd x))) (game_moves_list spec) Map.empty"
    unfolding move_outputs_def by (intro fold_cong) auto
  have "(m, iv, ov) \<in> set (game_moves_list spec)" using b by simp
  with fold_map_update [of "(m, iv, ov)" "game_moves_list spec" Map.empty ?key 0 "{}" "\<lambda>x. snd (snd x)"]
  obtain m' iv' ov' where y: "m' < mon_states spec" "iv' < in_vals spec" "ov' < out_vals spec"
      "?key (m', iv', ov') = ?key (m, iv, ov)"
      "fold (\<lambda>x out. out(?key x \<mapsto> snd (snd x))) (game_moves_list spec) Map.empty (?key (m, iv, ov)) = Some ov'"
    by auto
  then have "m' = m" "iv' = iv" "move_to spec m iv ov' = move_to spec m iv ov"
    using cs b ctrl_id_inj [of iv' spec iv m' m] by (auto simp: tgt)
  then show ?thesis using y(3,5) cs b mo by (auto simp: tgt)
qed

definition spec_meta :: "gr1_spec \<Rightarrow> gr1_game \<Rightarrow> bool" where
  \<comment> \<open>what the printer reads\<close>
  "spec_meta spec g \<longleftrightarrow> gg_inputs g = gs_inputs spec \<and> gg_outputs g = gs_outputs spec
     \<and> gg_n_monitors g = n_ts spec + length (gs_responses spec)
     \<and> gg_ctrl_meta g = map (\<lambda>(m, iv). (ctrl_id spec m iv, m, iv)) (List.product [0..<mon_states spec] [0..<in_vals spec])
     \<and> (\<forall>m<mon_states spec. gg_e_meta g m = Some m)
     \<and> (\<forall>m<mon_states spec. \<forall>iv<in_vals spec. \<forall>ov<out_vals spec. \<exists>ov'<out_vals spec.
          gg_move_output g (ctrl_id spec m iv, move_to spec m iv ov) = Some ov' \<and> move_to spec m iv ov' = move_to spec m iv ov)"

definition spec_game :: "gr1_spec \<Rightarrow> gr1_game \<Rightarrow> bool" where
  "spec_game spec g \<longleftrightarrow> spec_arena spec (gg_clts g) \<and> spec_meta spec g
     \<and> sized (gg_clts g) (gg_safe g # gg_sys_fair g @ gg_env_fair g)
     \<and> bset (gg_safe g) = {..<bad_id spec} \<and> gg_init g = 0
     \<and> map bset (gg_sys_fair g) = map (\<lambda>j. {m. m < mon_states spec \<and> \<not> bit m (n_ts spec + j)}) [0..<length (gs_responses spec)]
     \<and> map bset (gg_env_fair g) = map (\<lambda>p. {ctrl_id spec m iv | m iv.
          m < mon_states spec \<and> iv < in_vals spec \<and> eval_prop p (signal_val spec iv 0)}) (gs_env_fair spec)"

lemma sys_fair_bits:
  assumes "M \<le> n"
  shows "length (set_states n (map ((!) [0..<M]) (filter (\<lambda>m. \<not> bit m i) [0..<M]))) = n"
    "bset (set_states n (map ((!) [0..<M]) (filter (\<lambda>m. \<not> bit m i) [0..<M]))) = {m. m < M \<and> \<not> bit m i}"
proof -
  have eq: "map ((!) [0..<M]) (filter (\<lambda>m. \<not> bit m i) [0..<M]) = filter (\<lambda>m. \<not> bit m i) [0..<M]"
    by (rule map_idI) simp
  show "length (set_states n (map ((!) [0..<M]) (filter (\<lambda>m. \<not> bit m i) [0..<M]))) = n"
    "bset (set_states n (map ((!) [0..<M]) (filter (\<lambda>m. \<not> bit m i) [0..<M]))) = {m. m < M \<and> \<not> bit m i}"
    unfolding eq using set_states_bits [of "filter (\<lambda>m. \<not> bit m i) [0..<M]" n] assms by auto
qed

lemma env_fair_bits:
  assumes "n = Suc (bad_id spec)" and cs: "\<And>m iv. m < mon_states spec \<Longrightarrow> iv < in_vals spec \<Longrightarrow> cs (m, iv) = Some (ctrl_id spec m iv)"
  shows "length (set_states n (map (the \<circ> cs) (filter (\<lambda>(m, iv). eval_prop p (signal_val spec iv 0)) (monitor_inputs spec)))) = n"
    "bset (set_states n (map (the \<circ> cs) (filter (\<lambda>(m, iv). eval_prop p (signal_val spec iv 0)) (monitor_inputs spec))))
       = {ctrl_id spec m iv | m iv. m < mon_states spec \<and> iv < in_vals spec \<and> eval_prop p (signal_val spec iv 0)}"
proof -
  let ?ss = "map (the \<circ> cs) (filter (\<lambda>(m, iv). eval_prop p (signal_val spec iv 0)) (monitor_inputs spec))"
  have set: "set ?ss = {ctrl_id spec m iv | m iv. m < mon_states spec \<and> iv < in_vals spec \<and> eval_prop p (signal_val spec iv 0)}"
    by (force simp: cs)
  then have less: "s < n" if "s \<in> set ?ss" for s using that assms(1) ctrl_id_range(2) by (auto simp: less_SucI)
  show "length (set_states n ?ss) = n" by (rule set_states_bits(1) [OF less])
  show "bset (set_states n ?ss)
       = {ctrl_id spec m iv | m iv. m < mon_states spec \<and> iv < in_vals spec \<and> eval_prop p (signal_val spec iv 0)}"
    unfolding set [symmetric] by (rule set_states_bits(2) [OF less])
qed

lemma gr1_game_build_game:
  assumes fits: "spec_fits spec"
  shows "\<exists>g. gr1_game_build spec = Ok g \<and> spec_game spec g"
proof -
  let ?M = "mon_states spec" and ?I = "in_vals spec" and ?O = "out_vals spec"
  let ?cs = "map_of (zip (monitor_inputs spec) [?M..<bad_id spec])"
  obtain b1 b2 b3 where lab: "alloc_labels ''env_'' LUncontrollable [0..<?I] builder_default = Ok ([0..<?I], b1)"
      "alloc_labels ''ctrl_'' LControllable [0..<?O] b1 = Ok ([?I..<?I + ?O], b2)"
      "builder_intern_label [''bad''] b2 = Ok (?I + ?O, b3)" "builder_reach b3"
      "b_state_names b3 = []" "same_rest builder_default b3"
      "map_of (b_label_controllability (set_label_controllability (?I + ?O) LUncontrollable b3)) = label_kind spec"
    using labels_allocated [OF fits] by blast
  let ?b3 = "set_label_controllability (?I + ?O) LUncontrollable b3"
  obtain b4 b5 b6 where st: "alloc_states (env_names spec) ?b3 = Ok ([0..<?M], b4)"
      "alloc_states (ctrl_names spec) b4 = Ok ([?M..<bad_id spec], b5)" "alloc_states [''BAD''] b5 = Ok ([bad_id spec], b6)"
      "builder_reach b6" "length (b_state_names b6) = Suc (bad_id spec)" "same_rest ?b3 b6"
      "b_label_controllability b6 = b_label_controllability ?b3"
    using states_allocated [OF fits br_controllability [OF lab(4)]] lab(5) set_controllability_fields(2) by metis
  have rest: "same_rest builder_default b6" by (meson lab(6) st(6) same_rest_trans set_controllability_fields(3))
  have none: "b_transitions (initial_state_id 0 b6) = []"
    using rest by (simp add: same_rest_def builder_default_def initial_state_id_def)
  obtain ts where ts: "set ts = game_edges spec"
      "transition_ids (bad_id spec) [?I + ?O] (bad_id spec)
        (ctrl_moves spec [0..<?M] ?cs (bad_id spec) [?I..<?I + ?O] (game_moves_list spec)
          (env_moves [0..<?M] ?cs [0..<?I] (monitor_inputs spec) (initial_state_id 0 b6)))
        = (initial_state_id 0 b6)\<lparr>b_transitions := ts\<rparr>"
    using moves_added [OF ctrl_id_map none] by blast
  have "map_of (b_label_controllability b6) = label_kind spec" using st(7) lab(7) by simp
  from built_clts [OF st(4,5) rest this ts(1)]
  obtain c where c: "builder_build ((initial_state_id 0 b6)\<lparr>b_transitions := ts\<rparr>) = Ok c" "wf_clts c"
      "state_count c = Suc (bad_id spec)"
      "\<forall>s\<le>bad_id spec. set (outgoing c s) = mk_outgoing ` {e \<in> game_edges spec. ts_from e = s}"
      "\<forall>l. (l \<in> c_controllable_alphabet c \<or> l \<in> c_internal_alphabet c) \<longleftrightarrow>
         (\<exists>e\<in>game_edges spec. l \<in> set (ts_labels e)) \<and> label_kind spec l = Some LControllable"
    by (elim exE conjE)
  have ar: "spec_arena spec c" by (rule spec_arenaI [OF c(2,3)]) (use c(4,5) in simp_all)
  note n = c(3)
  have sh: "shl_one 64 (length (transition_clauses (gs_safety spec)) + length (gs_responses spec)) = Ok ?M"
      "shl_one 32 (length (gs_inputs spec)) = Ok ?I" "shl_one 32 (length (gs_outputs spec)) = Ok ?O"
    using fits by (simp_all add: spec_fits_def shl_one_def mon_states_def in_vals_def out_vals_def n_ts_def)
  have safe: "bset ((bv_repeat True (Suc (bad_id spec)))[bad_id spec := False]) = {..<bad_id spec}"
    by (auto simp: bset_clear)
  obtain g where g: "gr1_game_build spec = Ok g" "gg_clts g = c" "gg_init g = 0"
      "gg_safe g = (bv_repeat True (Suc (bad_id spec)))[bad_id spec := False]"
      "gg_sys_fair g = map (\<lambda>j. set_states (Suc (bad_id spec)) (map ((!) [0..<?M])
         (filter (\<lambda>m. \<not> bit m (n_ts spec + j)) [0..<?M]))) [0..<length (gs_responses spec)]"
      "gg_env_fair g = map (\<lambda>p. set_states (Suc (bad_id spec)) (map (the \<circ> ?cs)
         (filter (\<lambda>(m, iv). eval_prop p (signal_val spec iv 0)) (monitor_inputs spec)))) (gs_env_fair spec)"
    using lab(1-3) st(1-3) ts(2) c(1) n sh unfolding gr1_game_build_def Let_def n_ts_def [symmetric]
    by (simp add: n_ts_def)
  have "gg_inputs g = gs_inputs spec" "gg_outputs g = gs_outputs spec" "gg_n_monitors g = n_ts spec + length (gs_responses spec)"
      "gg_ctrl_meta g = zip [?M..<bad_id spec] (monitor_inputs spec)" "gg_e_meta g = map_of (zip [0..<?M] [0..<?M])"
      "gg_move_output g = move_outputs spec [0..<?M] ?cs (bad_id spec) (game_moves_list spec)"
    using g(1) lab(1-3) st(1-3) ts(2) c(1) n sh unfolding gr1_game_build_def Let_def n_ts_def [symmetric]
    by (auto simp: n_ts_def)
  then have "spec_meta spec g"
    using move_outputs_found [OF ctrl_id_map] unfolding spec_meta_def ctrl_meta_entries
    by (simp add: zip_same_conv_map map_of_map_restrict)
  moreover have MB: "?M \<le> Suc (bad_id spec)" by (simp add: bad_id_def)
  ultimately have "spec_game spec g"
    using ar n safe MB g(2-) sys_fair_bits [of ?M "Suc (bad_id spec)"] env_fair_bits [OF refl ctrl_id_map]
    by (auto simp: spec_game_def sized_def list_all_iff)
  then show ?thesis using g(1) by blast
qed

end
