(* ===== verification/Gr1_Monitors.thy ===== *)
theory Gr1_Monitors
  imports Gr1_Arena
begin

section \<open>Monitors and traces\<close>

text \<open>
  A trace is the sequence of input and output valuations of the rounds. Running the monitors over it decides
  the clauses of the specification: no round is unsafe iff all safety clauses hold, and the pending bit of a
  response is clear infinitely often iff the response holds.
\<close>

type_synonym trace = "nat \<Rightarrow> nat \<times> nat"

definition holds_at :: "gr1_spec \<Rightarrow> ltl \<Rightarrow> nat \<times> nat \<Rightarrow> bool" where
  "holds_at spec p x = eval_prop p (signal_val spec (fst x) (snd x))"

fun clause_sat :: "gr1_spec \<Rightarrow> trace \<Rightarrow> safety_clause \<Rightarrow> bool" where
  "clause_sat spec w (Invariant p) \<longleftrightarrow> (\<forall>i. holds_at spec p (w i))"
| "clause_sat spec w (Transition pre post) \<longleftrightarrow> (\<forall>i. holds_at spec pre (w i) \<longrightarrow> holds_at spec post (w (Suc i)))"

definition response_sat :: "gr1_spec \<Rightarrow> trace \<Rightarrow> response_clause \<Rightarrow> bool" where
  "response_sat spec w r \<longleftrightarrow> (\<forall>i. holds_at spec (rc_trigger r) (w i) \<longrightarrow> (\<exists>j\<ge>i. holds_at spec (rc_response r) (w j)))"

definition fair_sat :: "gr1_spec \<Rightarrow> trace \<Rightarrow> ltl \<Rightarrow> bool" where
  "fair_sat spec w a \<longleftrightarrow> (\<forall>i. \<exists>j\<ge>i. holds_at spec a (w j))"

definition spec_sat :: "gr1_spec \<Rightarrow> trace \<Rightarrow> bool" where
  "spec_sat spec w \<longleftrightarrow> (\<forall>cl\<in>set (gs_safety spec). clause_sat spec w cl)
     \<and> ((\<forall>a\<in>set (gs_env_fair spec). fair_sat spec w a) \<longrightarrow> (\<forall>r\<in>set (gs_responses spec). response_sat spec w r))"

primrec monitor :: "gr1_spec \<Rightarrow> trace \<Rightarrow> nat \<Rightarrow> nat" where
  "monitor spec w 0 = 0"
| "monitor spec w (Suc i) = next_monitors spec (monitor spec w i) (signal_val spec (fst (w i)) (snd (w i)))"

definition safe_round :: "gr1_spec \<Rightarrow> trace \<Rightarrow> nat \<Rightarrow> bool" where
  "safe_round spec w i \<longleftrightarrow> \<not> unsafe_move spec (monitor spec w i) (signal_val spec (fst (w i)) (snd (w i)))"

lemma monitor_less [simp]: "monitor spec w i < mon_states spec"
  by (cases i) (simp_all add: next_monitors_less)

subsection \<open>Safety\<close>

lemma all_clauses:
  "(\<forall>cl\<in>set cs. clause_sat spec w cl) \<longleftrightarrow> (\<forall>p\<in>set (invariant_clauses cs). clause_sat spec w (Invariant p))
     \<and> (\<forall>(pre, post)\<in>set (transition_clauses cs). clause_sat spec w (Transition pre post))"
proof (induction cs)
  case (Cons cl cs)
  then show ?case by (cases cl) auto
qed simp

lemma monitor_pre_bit:
  assumes "k < n_ts spec"
  shows "\<not> bit (monitor spec w 0) k"
    and "bit (monitor spec w (Suc i)) k \<longleftrightarrow> holds_at spec (fst (transition_clauses (gs_safety spec) ! k)) (w i)"
  using assms by (auto simp: bit_next_monitors holds_at_def)

lemma safe_rounds_iff: "(\<forall>i. safe_round spec w i) \<longleftrightarrow> (\<forall>cl\<in>set (gs_safety spec). clause_sat spec w cl)"
proof -
  let ?ts = "transition_clauses (gs_safety spec)"
  have ts: "(\<forall>(pre, post)\<in>set ?ts. clause_sat spec w (Transition pre post)) \<longleftrightarrow>
      (\<forall>k<n_ts spec. clause_sat spec w (Transition (fst (?ts ! k)) (snd (?ts ! k))))"
    by (auto simp: n_ts_def all_set_conv_all_nth split_beta simp del: clause_sat.simps)
  have step: "(\<forall>i k. k < n_ts spec \<longrightarrow> bit (monitor spec w i) k \<longrightarrow> holds_at spec (snd (?ts ! k)) (w i)) \<longleftrightarrow>
      (\<forall>k<n_ts spec. clause_sat spec w (Transition (fst (?ts ! k)) (snd (?ts ! k))))" (is "?l \<longleftrightarrow> ?r")
  proof
    assume ?l
    then show ?r using monitor_pre_bit(2) by auto
  next
    assume r: ?r
    show ?l
    proof (intro allI impI)
      fix i k assume "k < n_ts spec" "bit (monitor spec w i) k"
      then show "holds_at spec (snd (?ts ! k)) (w i)" using r monitor_pre_bit by (cases i) auto
    qed
  qed
  have "(\<forall>i. safe_round spec w i) \<longleftrightarrow> (\<forall>i. \<forall>p\<in>set (invariant_clauses (gs_safety spec)). holds_at spec p (w i))
      \<and> (\<forall>i k. k < n_ts spec \<longrightarrow> bit (monitor spec w i) k \<longrightarrow> holds_at spec (snd (?ts ! k)) (w i))"
    unfolding safe_round_def unsafe_move_iff holds_at_def by blast
  then show ?thesis unfolding all_clauses ts step by auto
qed

subsection \<open>Responses\<close>

lemma monitor_pending_bit:
  assumes "j < length (gs_responses spec)"
  shows "\<not> bit (monitor spec w 0) (n_ts spec + j)"
    and "bit (monitor spec w (Suc i)) (n_ts spec + j) \<longleftrightarrow>
      (bit (monitor spec w i) (n_ts spec + j) \<or> holds_at spec (rc_trigger (gs_responses spec ! j)) (w i))
      \<and> \<not> holds_at spec (rc_response (gs_responses spec ! j)) (w i)"
  using assms by (auto simp: bit_next_monitors holds_at_def pending_next_def)

text \<open>A request stays pending until it is answered, whatever the latch starts with.\<close>

lemma latch_iff:
  fixes pend trig resp :: "nat \<Rightarrow> bool"
  assumes 0: "\<not> pend 0" and step: "\<And>i. pend (Suc i) \<longleftrightarrow> (pend i \<or> trig i) \<and> \<not> resp i"
  shows "(\<forall>N. \<exists>i\<ge>N. \<not> pend i) \<longleftrightarrow> (\<forall>i. trig i \<longrightarrow> (\<exists>j\<ge>i. resp j))"
proof
  assume clear: "\<forall>N. \<exists>i\<ge>N. \<not> pend i"
  show "\<forall>i. trig i \<longrightarrow> (\<exists>j\<ge>i. resp j)"
  proof (intro allI impI, rule ccontr)
    fix i assume "trig i" and no: "\<not> (\<exists>j\<ge>i. resp j)"
    then have "pend (Suc i + d)" for d by (induction d) (auto simp: step)
    then show False using clear by (metis le_Suc_ex)
  qed
next
  assume answered: "\<forall>i. trig i \<longrightarrow> (\<exists>j\<ge>i. resp j)"
  have since: "pend n \<Longrightarrow> \<exists>i<n. trig i \<and> (\<forall>k. i \<le> k \<longrightarrow> k < n \<longrightarrow> \<not> resp k)" for n
  proof (induction n)
    case (Suc n)
    then show ?case
    proof (cases "pend n")
      case True
      then obtain i where "i < n" "trig i" "\<forall>k. i \<le> k \<longrightarrow> k < n \<longrightarrow> \<not> resp k" using Suc.IH by blast
      then show ?thesis using Suc.prems step [of n] by (intro exI [of _ i]) (auto simp: less_Suc_eq)
    next
      case False
      then show ?thesis using Suc.prems step [of n] by (intro exI [of _ n]) (auto simp: less_Suc_eq)
    qed
  qed (simp add: 0)
  show "\<forall>N. \<exists>i\<ge>N. \<not> pend i"
  proof
    fix N
    show "\<exists>i\<ge>N. \<not> pend i"
    proof (cases "pend N")
      case True
      then obtain i where i: "trig i" "\<forall>k. i \<le> k \<longrightarrow> k < N \<longrightarrow> \<not> resp k" using since by blast
      then obtain k where "k \<ge> i" "resp k" using answered by blast
      then have "Suc k \<ge> N" "\<not> pend (Suc k)" using i(2) step [of k] by (auto simp: not_less [symmetric])
      then show ?thesis by blast
    qed blast
  qed
qed

lemma pending_clear_iff:
  assumes "j < length (gs_responses spec)"
  shows "(\<forall>N. \<exists>i\<ge>N. \<not> bit (monitor spec w i) (n_ts spec + j)) \<longleftrightarrow> response_sat spec w (gs_responses spec ! j)"
  unfolding response_sat_def by (rule latch_iff) (use monitor_pending_bit [OF assms] in auto)

subsection \<open>The play of a trace\<close>

definition play :: "gr1_spec \<Rightarrow> trace \<Rightarrow> nat \<Rightarrow> nat" where
  "play spec w k = (if even k then monitor spec w (k div 2) else ctrl_id spec (monitor spec w (k div 2)) (fst (w (k div 2))))"

lemma play_simps [simp]:
  "play spec w (2 * i) = monitor spec w i"
  "play spec w (Suc (2 * i)) = ctrl_id spec (monitor spec w i) (fst (w i))"
  by (simp_all add: play_def)

lemma inf_often_even:
  assumes "\<And>i. q (Suc (2 * i)) \<notin> S"
  shows "inf_often S q \<longleftrightarrow> (\<forall>N. \<exists>i\<ge>N. q (2 * i) \<in> S)"
proof
  assume inf: "inf_often S q"
  show "\<forall>N. \<exists>i\<ge>N. q (2 * i) \<in> S"
  proof
    fix N
    obtain k where k: "k \<ge> 2 * N" "q k \<in> S" using inf unfolding inf_often_def by blast
    show "\<exists>i\<ge>N. q (2 * i) \<in> S"
    proof (cases "even k")
      case True
      then show ?thesis using k by (intro exI [of _ "k div 2"]) auto
    next
      case False
      then have "k = Suc (2 * (k div 2))" by simp
      then show ?thesis using k(2) assms by metis
    qed
  qed
next
  assume ev: "\<forall>N. \<exists>i\<ge>N. q (2 * i) \<in> S"
  show "inf_often S q" unfolding inf_often_def
  proof
    fix N
    obtain i where "i \<ge> N" "q (2 * i) \<in> S" using ev by blast
    then show "\<exists>k\<ge>N. q k \<in> S" by (intro exI [of _ "2 * i"]) simp
  qed
qed

lemma inf_often_odd:
  assumes "\<And>i. q (2 * i) \<notin> S"
  shows "inf_often S q \<longleftrightarrow> (\<forall>N. \<exists>i\<ge>N. q (Suc (2 * i)) \<in> S)"
proof -
  have shift: "inf_often S q \<longleftrightarrow> inf_often S (\<lambda>k. q (Suc k))"
    unfolding inf_often_def by (metis Suc_le_D Suc_le_mono le_SucI)
  have "\<And>i. q (Suc (Suc (2 * i))) \<notin> S" using assms [of "Suc i" for i] by simp
  from inf_often_even [of "\<lambda>k. q (Suc k)", OF this] shift show ?thesis by simp
qed

text \<open>
  The play of a safe trace visits the sets of the game exactly as the trace satisfies the clauses, when the
  fairness assumptions do not mention outputs.
\<close>

definition fair_over_inputs :: "gr1_spec \<Rightarrow> bool" where
  "fair_over_inputs spec \<longleftrightarrow> (\<forall>a\<in>set (gs_env_fair spec). set (predicates_of a []) \<inter> set (gs_outputs spec) = {})"

primrec lpreds :: "ltl \<Rightarrow> string set" where
  "lpreds LTrue = {}"
| "lpreds LFalse = {}"
| "lpreds (LPredicate p) = {p}"
| "lpreds (LNot a) = lpreds a"
| "lpreds (LAnd a b) = lpreds a \<union> lpreds b"
| "lpreds (LOr a b) = lpreds a \<union> lpreds b"
| "lpreds (LImplies a b) = lpreds a \<union> lpreds b"
| "lpreds (LNext a) = lpreds a"
| "lpreds (LAlways a) = lpreds a"
| "lpreds (LEventually a) = lpreds a"
| "lpreds (LUntil a b) = lpreds a \<union> lpreds b"
| "lpreds (LWeakUntil a b) = lpreds a \<union> lpreds b"
| "lpreds (LRelease a b) = lpreds a \<union> lpreds b"
| "lpreds (LRecurrence a) = lpreds a"
| "lpreds (LStabilization a) = lpreds a"
| "lpreds (LResponse a b) = lpreds a \<union> lpreds b"

lemma predicates_of_set: "set (predicates_of f out) = set out \<union> lpreds f"
  by (induction f arbitrary: out) auto

lemma eval_prop_cong: "(\<And>p. p \<in> lpreds f \<Longrightarrow> v p = v' p) \<Longrightarrow> eval_prop f v = eval_prop f v'"
  by (induction f) auto

lemma add_signals_other: "p \<notin> set names \<Longrightarrow> add_signals v i names val p = val p"
  by (induction names arbitrary: i val) auto

lemma fair_ignores_outputs:
  assumes "fair_over_inputs spec" "a \<in> set (gs_env_fair spec)"
  shows "eval_prop a (signal_val spec iv ov) = eval_prop a (signal_val spec iv 0)"
proof (rule eval_prop_cong)
  fix p assume "p \<in> lpreds a"
  then have "p \<notin> set (gs_outputs spec)" using assms by (auto simp: fair_over_inputs_def predicates_of_set)
  then show "signal_val spec iv ov p = signal_val spec iv 0 p" by (simp add: signal_val_def add_signals_other)
qed

lemma play_goal:
  assumes g: "spec_game spec g" and fair: "fair_over_inputs spec" and w: "\<And>i. fst (w i) < in_vals spec"
  shows "gr1_goal (bset ` set (gg_env_fair g)) (bset ` set (gg_sys_fair g)) (play spec w) \<longleftrightarrow>
    ((\<forall>a\<in>set (gs_env_fair spec). fair_sat spec w a) \<longrightarrow> (\<forall>r\<in>set (gs_responses spec). response_sat spec w r))"
proof -
  have C: "mon_states spec \<le> ctrl_id spec m iv" for m iv by (simp add: ctrl_id_def)
  have sys: "inf_often {m. m < mon_states spec \<and> \<not> bit m (n_ts spec + j)} (play spec w) \<longleftrightarrow> response_sat spec w (gs_responses spec ! j)"
    if "j < length (gs_responses spec)" for j
    using pending_clear_iff [OF that] C by (subst inf_often_even) (auto simp: not_less [symmetric])
  have env: "inf_often {ctrl_id spec m iv | m iv. m < mon_states spec \<and> iv < in_vals spec \<and> eval_prop a (signal_val spec iv 0)} (play spec w)
      \<longleftrightarrow> fair_sat spec w a" if "a \<in> set (gs_env_fair spec)" for a
  proof -
    have "ctrl_id spec (monitor spec w i) (fst (w i)) \<in> {ctrl_id spec m iv | m iv. m < mon_states spec \<and> iv < in_vals spec
        \<and> eval_prop a (signal_val spec iv 0)} \<longleftrightarrow> holds_at spec a (w i)" for i
    proof
      assume "ctrl_id spec (monitor spec w i) (fst (w i)) \<in> {ctrl_id spec m iv | m iv. m < mon_states spec \<and> iv < in_vals spec
        \<and> eval_prop a (signal_val spec iv 0)}"
      then obtain m iv where "ctrl_id spec (monitor spec w i) (fst (w i)) = ctrl_id spec m iv" "iv < in_vals spec"
          and a: "eval_prop a (signal_val spec iv 0)" by blast
      then have "fst (w i) = iv" using w [of i] ctrl_id_inj [of "fst (w i)" spec iv] by blast
      then show "holds_at spec a (w i)"
        using a fair_ignores_outputs [OF fair that, of iv "snd (w i)"] by (simp add: holds_at_def)
    next
      assume "holds_at spec a (w i)"
      then have "eval_prop a (signal_val spec (fst (w i)) 0)"
        using fair_ignores_outputs [OF fair that, of "fst (w i)" "snd (w i)"] by (simp add: holds_at_def)
      then show "ctrl_id spec (monitor spec w i) (fst (w i)) \<in> {ctrl_id spec m iv | m iv. m < mon_states spec \<and> iv < in_vals spec
        \<and> eval_prop a (signal_val spec iv 0)}"
        using w [of i] monitor_less [of spec w i] by blast
    qed
    moreover have "monitor spec w i \<notin> {ctrl_id spec m iv | m iv. m < mon_states spec \<and> iv < in_vals spec \<and> eval_prop a (signal_val spec iv 0)}" for i
      using C monitor_less [of spec w i] by (auto simp: not_le [symmetric])
    ultimately show ?thesis by (subst inf_often_odd) (simp_all add: fair_sat_def)
  qed
  have sets: "bset ` set (gg_sys_fair g) = (\<lambda>j. {m. m < mon_states spec \<and> \<not> bit m (n_ts spec + j)}) ` {..<length (gs_responses spec)}"
    "bset ` set (gg_env_fair g) = (\<lambda>p. {ctrl_id spec m iv | m iv.
          m < mon_states spec \<and> iv < in_vals spec \<and> eval_prop p (signal_val spec iv 0)}) ` set (gs_env_fair spec)"
    using g arg_cong [of _ _ set] unfolding spec_game_def set_map [symmetric] by (simp_all add: atLeast0LessThan)
  show ?thesis unfolding gr1_goal_def sets using sys env by (auto simp: all_set_conv_all_nth)
qed

end
