(* ===== verification/Gr1_Realize.thy ===== *)
theory Gr1_Realize
  imports Gr1_Monitors
begin

section \<open>Winning the game is realizing the specification\<close>

text \<open>
  A controller maps the inputs seen so far to an output. It realizes a classified specification if all its
  traces satisfy it. Eve wins the game built from the specification iff some controller realizes it: a winning
  strategy is read as a controller by running the game along the inputs, and a controller is played as a
  strategy by reading the inputs off the history.
\<close>

definition trace_of :: "(nat list \<Rightarrow> nat) \<Rightarrow> (nat \<Rightarrow> nat) \<Rightarrow> trace" where
  "trace_of f u i = (u i, f (map u [0..<Suc i]))"

definition realizes :: "gr1_spec \<Rightarrow> (nat list \<Rightarrow> nat) \<Rightarrow> bool" where
  "realizes spec f \<longleftrightarrow> (\<forall>u. (\<forall>i. u i < in_vals spec) \<longrightarrow>
     (\<forall>i. f (map u [0..<Suc i]) < out_vals spec) \<and> spec_sat spec (trace_of f u))"

lemma fst_trace_of [simp]: "fst (trace_of f u i) = u i"
  by (simp add: trace_of_def)

abbreviation game_goal :: "gr1_game \<Rightarrow> (nat \<Rightarrow> nat) \<Rightarrow> bool" where
  "game_goal g \<equiv> gr1_goal (bset ` set (gg_env_fair g)) (bset ` set (gg_sys_fair g))"

abbreviation controller_wins :: "gr1_game \<Rightarrow> bool" where
  "controller_wins g \<equiv> eve_wins (gg_clts g) (bset (gg_safe g)) (bset ` set (gg_env_fair g)) (bset ` set (gg_sys_fair g)) (gg_init g)"

lemma spec_game_arena:
  assumes "spec_game spec g"
  shows "m < mon_states spec \<Longrightarrow> \<not> eve_owned (gg_clts g) m"
    "m < mon_states spec \<Longrightarrow> game_moves (gg_clts g) m = ctrl_id spec m ` {..<in_vals spec}"
    "m < mon_states spec \<Longrightarrow> iv < in_vals spec \<Longrightarrow> eve_owned (gg_clts g) (ctrl_id spec m iv)"
    "m < mon_states spec \<Longrightarrow> iv < in_vals spec \<Longrightarrow> game_moves (gg_clts g) (ctrl_id spec m iv) = move_to spec m iv ` {..<out_vals spec}"
    "bset (gg_safe g) = {..<bad_id spec}" "gg_init g = 0"
  using assms by (auto simp: spec_game_def spec_arena_def)

lemma safe_move: "move_to spec m iv ov \<noteq> bad_id spec \<Longrightarrow>
    \<not> unsafe_move spec m (signal_val spec iv ov) \<and> move_to spec m iv ov = next_monitors spec m (signal_val spec iv ov)"
  by (auto simp: move_to_def Let_def split: if_splits)

lemma mon_less_bad: "m < mon_states spec \<Longrightarrow> m < bad_id spec"
  by (simp add: bad_id_def)

text \<open>A safe trace runs along moves of the arena.\<close>

lemma safe_play_move:
  assumes "safe_round spec w i"
  shows "play spec w (Suc (Suc (2 * i))) = move_to spec (monitor spec w i) (fst (w i)) (snd (w i))"
  using assms play_simps(1) [of spec w "Suc i"] by (simp add: safe_round_def move_to_def)

subsection \<open>From a winning strategy to a controller\<close>

fun game_history :: "gr1_spec \<Rightarrow> strategy \<Rightarrow> nat list \<Rightarrow> nat list" where
  \<comment> \<open>the history after the given inputs, newest input first\<close>
  "game_history spec \<sigma> [] = [0]"
| "game_history spec \<sigma> (iv # ivs) = (let h = game_history spec \<sigma> ivs; c = ctrl_id spec (hd h) iv in \<sigma> (c # h) # c # h)"

definition strategy_output :: "gr1_spec \<Rightarrow> strategy \<Rightarrow> nat list \<Rightarrow> nat" where
  "strategy_output spec \<sigma> xs = (let h = game_history spec \<sigma> (rev (butlast xs)); c = ctrl_id spec (hd h) (last xs)
     in SOME ov. ov < out_vals spec \<and> move_to spec (hd h) (last xs) ov = \<sigma> (c # h))"

lemma strategy_controller_round:
  assumes g: "spec_game spec g" and u: "\<And>i. u i < in_vals spec"
    and \<sigma>: "\<And>h. partial_play (eve_owned (gg_clts g)) (game_moves (gg_clts g)) \<sigma> 0 h \<Longrightarrow>
      hd h \<in> bset (gg_safe g) \<and> (eve_owned (gg_clts g) (hd h) \<longrightarrow> \<sigma> h \<in> game_moves (gg_clts g) (hd h))"
  defines "w \<equiv> trace_of (strategy_output spec \<sigma>) u" and "h \<equiv> \<lambda>i. game_history spec \<sigma> (rev (map u [0..<i]))"
  shows "partial_play (eve_owned (gg_clts g)) (game_moves (gg_clts g)) \<sigma> 0 (h i) \<and> hd (h i) = monitor spec w i \<and>
    snd (w i) < out_vals spec \<and> safe_round spec w i \<and>
    h (Suc i) = monitor spec w (Suc i) # ctrl_id spec (monitor spec w i) (u i) # h i \<and>
    monitor spec w (Suc i) = \<sigma> (ctrl_id spec (monitor spec w i) (u i) # h i)"
proof -
  let ?eve = "eve_owned (gg_clts g)" and ?mv = "game_moves (gg_clts g)"
  note ar = spec_game_arena [OF g]
  have round: "snd (w i) < out_vals spec \<and> safe_round spec w i \<and> monitor spec w (Suc i) = \<sigma> (ctrl_id spec (hd (h i)) (u i) # h i)
      \<and> partial_play ?eve ?mv \<sigma> 0 (\<sigma> (ctrl_id spec (hd (h i)) (u i) # h i) # ctrl_id spec (hd (h i)) (u i) # h i)"
    if pp: "partial_play ?eve ?mv \<sigma> 0 (h i)" and hd: "hd (h i) = monitor spec w i" for i
  proof -
    let ?m = "monitor spec w i" and ?c = "ctrl_id spec (monitor spec w i) (u i)"
    have m: "?m < mon_states spec" by simp
    have pc: "partial_play ?eve ?mv \<sigma> 0 (?c # h i)"
      by (rule pp_step [OF pp]) (use ar(1,2) [OF m] u [of i] hd in auto)
    have "\<sigma> (?c # h i) \<in> ?mv ?c" using \<sigma> [OF pc] ar(3) [OF m u] by simp
    then have ex: "\<exists>ov. ov < out_vals spec \<and> move_to spec ?m (u i) ov = \<sigma> (?c # h i)"
      unfolding ar(4) [OF m u] by auto
    have "snd (w i) = strategy_output spec \<sigma> (map u [0..<Suc i])" by (simp add: w_def trace_of_def)
    also have "\<dots> = (SOME ov. ov < out_vals spec \<and> move_to spec (hd (h i)) (u i) ov = \<sigma> (ctrl_id spec (hd (h i)) (u i) # h i))"
      by (simp add: strategy_output_def h_def Let_def)
    finally have "snd (w i) = (SOME ov. ov < out_vals spec \<and> move_to spec ?m (u i) ov = \<sigma> (?c # h i))"
      by (simp only: hd)
    with someI_ex [OF ex] have ov: "snd (w i) < out_vals spec" "move_to spec ?m (u i) (snd (w i)) = \<sigma> (?c # h i)" by simp_all
    have pn: "partial_play ?eve ?mv \<sigma> 0 (\<sigma> (?c # h i) # ?c # h i)"
      by (rule pp_step [OF pc]) (use \<open>\<sigma> (?c # h i) \<in> ?mv ?c\<close> in auto)
    have "\<sigma> (?c # h i) \<noteq> bad_id spec" using \<sigma> [OF pn] ar(5) by auto
    then have "move_to spec ?m (u i) (snd (w i)) \<noteq> bad_id spec" using ov(2) by simp
    from safe_move [OF this] ov pn hd show ?thesis by (simp add: safe_round_def w_def)
  qed
  have hS: "h (Suc i) = \<sigma> (ctrl_id spec (hd (h i)) (u i) # h i) # ctrl_id spec (hd (h i)) (u i) # h i" for i
    by (simp add: h_def Let_def)
  have inv: "partial_play ?eve ?mv \<sigma> 0 (h i) \<and> hd (h i) = monitor spec w i" for i
  proof (induction i)
    case 0
    then show ?case by (simp add: h_def pp_start)
  next
    case (Suc i)
    then show ?case using round [of i] by (simp add: hS del: monitor.simps)
  qed
  show ?thesis using inv round hS by (simp del: monitor.simps)
qed

lemma strategy_realizes:
  assumes g: "spec_game spec g" and fair: "fair_over_inputs spec" and win: "controller_wins g"
  shows "\<exists>f. realizes spec f"
proof -
  let ?eve = "eve_owned (gg_clts g)" and ?mv = "game_moves (gg_clts g)"
  note ar = spec_game_arena [OF g]
  obtain \<sigma> where \<sigma>: "\<And>h. partial_play ?eve ?mv \<sigma> 0 h \<Longrightarrow> hd h \<in> bset (gg_safe g) \<and> (?eve (hd h) \<longrightarrow> \<sigma> h \<in> ?mv (hd h))"
      and \<sigma>_win: "\<And>p. p 0 = 0 \<Longrightarrow> conforms ?eve ?mv \<sigma> p \<Longrightarrow> game_goal g p"
    using win unfolding eve_wins_def ar(6) by blast
  have "(\<forall>i. strategy_output spec \<sigma> (map u [0..<Suc i]) < out_vals spec) \<and> spec_sat spec (trace_of (strategy_output spec \<sigma>) u)"
    if u: "\<forall>i. u i < in_vals spec" for u
  proof -
    let ?w = "trace_of (strategy_output spec \<sigma>) u"
    let ?h = "\<lambda>i. game_history spec \<sigma> (rev (map u [0..<i]))"
    have rd: "snd (?w i) < out_vals spec" "safe_round spec ?w i"
        "?h (Suc i) = monitor spec ?w (Suc i) # ctrl_id spec (monitor spec ?w i) (u i) # ?h i"
        "monitor spec ?w (Suc i) = \<sigma> (ctrl_id spec (monitor spec ?w i) (u i) # ?h i)" for i
      using strategy_controller_round [OF g _ \<sigma>, of u i] u by auto
    have hist: "hist (play spec ?w) (2 * i) = ?h i" for i
    proof (induction i)
      case (Suc i)
      then show ?case using rd(3) [of i] play_simps [of spec ?w i] play_simps(1) [of spec ?w "Suc i"]
        by (simp del: monitor.simps game_history.simps)
    qed (simp add: play_def)
    have step: "play spec ?w (Suc k) \<in> ?mv (play spec ?w k) \<and> (?eve (play spec ?w k) \<longrightarrow> play spec ?w (Suc k) = \<sigma> (hist (play spec ?w) k))" for k
    proof (cases "even k")
      case True
      then obtain i where k: "k = 2 * i" by (auto elim!: evenE)
      then show ?thesis using ar(1,2) [of "monitor spec ?w i"] u by simp
    next
      case False
      then obtain i where k: "k = Suc (2 * i)" by (auto elim!: oddE)
      have "play spec ?w (Suc k) = move_to spec (monitor spec ?w i) (u i) (snd (?w i))"
        using safe_play_move [OF rd(2) [of i]] k by simp
      moreover have "play spec ?w (Suc k) = \<sigma> (hist (play spec ?w) k)"
        using rd(4) [of i] hist [of i] k play_simps(1) [of spec ?w "Suc i"] by (simp del: monitor.simps)
      moreover have "move_to spec (monitor spec ?w i) (u i) (snd (?w i)) \<in> ?mv (play spec ?w k)"
        using ar(4) [of "monitor spec ?w i" "u i"] u rd(1) [of i] k by simp
      ultimately show ?thesis by simp
    qed
    then have "conforms ?eve ?mv \<sigma> (play spec ?w)" by (simp add: conforms_def)
    moreover have "play spec ?w 0 = 0" by (simp add: play_def)
    ultimately have "game_goal g (play spec ?w)" using \<sigma>_win by blast
    then have "spec_sat spec ?w"
      using play_goal [OF g fair, of ?w] safe_rounds_iff [of spec ?w] rd(2) u by (simp add: spec_sat_def)
    then show ?thesis using rd(1) by (simp add: trace_of_def)
  qed
  then show ?thesis unfolding realizes_def by blast
qed
subsection \<open>From a controller to a winning strategy\<close>

definition inputs_of :: "gr1_spec \<Rightarrow> nat list \<Rightarrow> nat list" where
  \<comment> \<open>the inputs along a history, oldest first\<close>
  "inputs_of spec h = map (\<lambda>s. (s - mon_states spec) mod in_vals spec) (rev (filter (\<lambda>s. mon_states spec \<le> s) h))"

definition controller_strategy :: "gr1_spec \<Rightarrow> (nat list \<Rightarrow> nat) \<Rightarrow> strategy" where
  "controller_strategy spec f h = (let d = hd h - mon_states spec
     in move_to spec (d div in_vals spec) (d mod in_vals spec) (f (inputs_of spec h)))"

lemma ctrl_id_decode:
  assumes "iv < in_vals spec"
  shows "(ctrl_id spec m iv - mon_states spec) div in_vals spec = m" "(ctrl_id spec m iv - mon_states spec) mod in_vals spec = iv"
  using assms by (simp_all add: ctrl_id_def)

lemma inputs_of_hist:
  assumes "\<And>i. fst (w i) = u i" "\<And>i. u i < in_vals spec"
  shows "inputs_of spec (hist (play spec w) (2 * k)) = map u [0..<k]"
    and "inputs_of spec (hist (play spec w) (Suc (2 * k))) = map u [0..<Suc k]"
proof -
  have odd: "inputs_of spec (hist (play spec w) (Suc (2 * k))) = inputs_of spec (hist (play spec w) (2 * k)) @ [u k]" for k
    using ctrl_id_decode(2) [OF assms(2) [of k]] assms(1) by (simp add: inputs_of_def ctrl_id_def)
  have even: "inputs_of spec (hist (play spec w) (2 * Suc k)) = inputs_of spec (hist (play spec w) (Suc (2 * k)))" for k
    using play_simps(1) [of spec w "Suc k"] monitor_less [of spec w "Suc k"]
    by (simp add: inputs_of_def not_le [symmetric] del: monitor.simps)
  have all: "inputs_of spec (hist (play spec w) (2 * k)) = map u [0..<k]" for k
  proof (induction k)
    case 0
    then show ?case using sizes_pos(1) [of spec] by (simp add: inputs_of_def play_def)
  next
    case (Suc k)
    then show ?case using even [of k] odd [of k] by simp
  qed
  show "inputs_of spec (hist (play spec w) (2 * k)) = map u [0..<k]" by (rule all)
  show "inputs_of spec (hist (play spec w) (Suc (2 * k))) = map u [0..<Suc k]" using odd [of k] all [of k] by simp
qed

lemma controller_strategy_plays:
  assumes u: "\<And>i. u i < in_vals spec" and safe: "safe_round spec (trace_of f u) k"
  shows "controller_strategy spec f (hist (play spec (trace_of f u)) (Suc (2 * k))) = play spec (trace_of f u) (Suc (Suc (2 * k)))"
proof -
  let ?w = "trace_of f u"
  have "inputs_of spec (hist (play spec ?w) (Suc (2 * k))) = map u [0..<Suc k]"
    by (rule inputs_of_hist(2)) (use u in simp_all)
  then have "controller_strategy spec f (hist (play spec ?w) (Suc (2 * k))) = move_to spec (monitor spec ?w k) (u k) (snd (?w k))"
    unfolding controller_strategy_def Let_def hd_hist play_simps(2) fst_trace_of ctrl_id_decode [OF u]
    by (simp add: trace_of_def)
  then show ?thesis using safe_play_move [OF safe] by simp
qed

lemma play_prefix:
  assumes "\<And>i. i < k \<Longrightarrow> u i = u' i"
  shows "j \<le> 2 * k \<Longrightarrow> hist (play spec (trace_of f u)) j = hist (play spec (trace_of f u')) j"
proof -
  have tr: "trace_of f u i = trace_of f u' i" if "i < k" for i
    using that assms by (auto simp: trace_of_def intro!: arg_cong [of _ _ f])
  have mon: "i \<le> k \<Longrightarrow> monitor spec (trace_of f u) i = monitor spec (trace_of f u') i" for i
    by (induction i) (simp_all add: tr)
  have pl: "play spec (trace_of f u) j = play spec (trace_of f u') j" if "j \<le> 2 * k" for j
  proof -
    have "even j \<Longrightarrow> j div 2 \<le> k" "odd j \<Longrightarrow> j div 2 < k" using that by (auto elim!: oddE)
    then show ?thesis using mon [of "j div 2"] tr [of "j div 2"] by (auto simp: play_def)
  qed
  show "j \<le> 2 * k \<Longrightarrow> hist (play spec (trace_of f u)) j = hist (play spec (trace_of f u')) j"
    by (induction j) (simp_all add: pl)
qed

lemma realizes_safe:
  assumes "realizes spec f" "\<And>i. u i < in_vals spec"
  shows "safe_round spec (trace_of f u) k" "f (map u [0..<Suc k]) < out_vals spec" "spec_sat spec (trace_of f u)"
proof -
  show sat: "spec_sat spec (trace_of f u)" "f (map u [0..<Suc k]) < out_vals spec"
    using assms unfolding realizes_def by blast+
  then show "safe_round spec (trace_of f u) k" using safe_rounds_iff [of spec "trace_of f u"] by (simp add: spec_sat_def)
qed

lemma controller_partial_play:
  assumes g: "spec_game spec g" and f: "realizes spec f"
    and h: "partial_play (eve_owned (gg_clts g)) (game_moves (gg_clts g)) (controller_strategy spec f) 0 h"
  shows "\<exists>u k. (\<forall>i. u i < in_vals spec) \<and> h = hist (play spec (trace_of f u)) k"
  using h
proof (induction rule: partial_play.induct)
  case pp_start
  have "[0] = hist (play spec (trace_of f (\<lambda>_. 0))) 0" by (simp add: play_def)
  then show ?case using sizes_pos(2) [of spec] by (intro exI [of _ "\<lambda>_. 0"] exI [of _ 0]) simp
next
  case (pp_step h t)
  note ar = spec_game_arena [OF g]
  obtain u k where u: "\<And>i. u i < in_vals spec" and h: "h = hist (play spec (trace_of f u)) k" using pp_step.IH by blast
  show ?case
  proof (cases "even k")
    case True
    then obtain i where k: "k = 2 * i" by (auto elim!: evenE)
    let ?m = "monitor spec (trace_of f u) i"
    obtain iv where iv: "iv < in_vals spec" "t = ctrl_id spec ?m iv" using pp_step.hyps(2) h k ar(2) [of ?m] by auto
    let ?u = "u(i := iv)"
    have pre: "hist (play spec (trace_of f ?u)) k = h" using play_prefix [of i ?u u k spec f] h k by simp
    then have "hd (hist (play spec (trace_of f ?u)) k) = ?m" using h k by simp
    then have "t # h = hist (play spec (trace_of f ?u)) (Suc k)" using iv(2) pre k by simp
    moreover have "\<forall>j. ?u j < in_vals spec" using u iv(1) by simp
    ultimately show ?thesis by blast
  next
    case False
    then obtain i where k: "k = Suc (2 * i)" by (auto elim!: oddE)
    have "eve_owned (gg_clts g) (hd h)" using h k ar(3) [of "monitor spec (trace_of f u) i" "u i"] u by simp
    then have "t = controller_strategy spec f h" by (rule pp_step.hyps(3))
    then have "t # h = hist (play spec (trace_of f u)) (Suc k)"
      using controller_strategy_plays [where k = i, OF u realizes_safe(1) [OF f u]] h k by simp
    then show ?thesis using u by blast
  qed
qed

lemma controller_play:
  assumes g: "spec_game spec g" and f: "realizes spec f" and p0: "p 0 = 0"
    and p: "conforms (eve_owned (gg_clts g)) (game_moves (gg_clts g)) (controller_strategy spec f) p"
  shows "\<exists>u. (\<forall>i. u i < in_vals spec) \<and> p = play spec (trace_of f u)"
proof -
  note ar = spec_game_arena [OF g]
  define u where "u i = (p (Suc (2 * i)) - mon_states spec) mod in_vals spec" for i
  have u: "u i < in_vals spec" for i by (simp add: u_def)
  let ?q = "play spec (trace_of f u)"
  have mv: "p (Suc k) \<in> game_moves (gg_clts g) (p k)" "eve_owned (gg_clts g) (p k) \<Longrightarrow> p (Suc k) = controller_strategy spec f (hist p k)" for k
    using p by (simp_all add: conforms_def)
  have "hist p k = hist ?q k" for k
  proof (induction k)
    case 0
    then show ?case using p0 by (simp add: play_def)
  next
    case (Suc k)
    have pk: "p k = ?q k" using arg_cong [OF Suc, of hd] by simp
    show ?case
    proof (cases "even k")
      case True
      then obtain i where k: "k = 2 * i" by (auto elim!: evenE)
      let ?m = "monitor spec (trace_of f u) i"
      obtain iv where iv: "iv < in_vals spec" "p (Suc k) = ctrl_id spec ?m iv" using mv(1) [of k] pk k ar(2) [of ?m] by auto
      then have "u i = iv" using ctrl_id_decode(2) [OF iv(1)] k by (simp add: u_def)
      then have "p (Suc k) = ?q (Suc k)" using iv(2) k by simp
      then show ?thesis using Suc by simp
    next
      case False
      then obtain i where k: "k = Suc (2 * i)" by (auto elim!: oddE)
      have "eve_owned (gg_clts g) (p k)" using pk k ar(3) [of "monitor spec (trace_of f u) i" "u i"] u by simp
      then have "p (Suc k) = ?q (Suc k)"
        using mv(2) [of k] Suc controller_strategy_plays [where k = i, OF u realizes_safe(1) [OF f u]] k by simp
      then show ?thesis using Suc by simp
    qed
  qed
  then have "p k = ?q k" for k by (metis hd_hist)
  then show ?thesis using u by blast
qed

lemma realizes_wins:
  assumes g: "spec_game spec g" and fair: "fair_over_inputs spec" and f: "realizes spec f"
  shows "controller_wins g"
proof -
  let ?eve = "eve_owned (gg_clts g)" and ?mv = "game_moves (gg_clts g)" and ?\<sigma> = "controller_strategy spec f"
  note ar = spec_game_arena [OF g]
  have legal: "hd h \<in> bset (gg_safe g) \<and> ?mv (hd h) \<noteq> {} \<and> (?eve (hd h) \<longrightarrow> ?\<sigma> h \<in> ?mv (hd h))"
    if h: "partial_play ?eve ?mv ?\<sigma> 0 h" for h
  proof -
    obtain u k where u: "\<And>i. u i < in_vals spec" and hk: "h = hist (play spec (trace_of f u)) k"
      using controller_partial_play [OF g f h] by blast
    let ?w = "trace_of f u"
    show ?thesis
    proof (cases "even k")
      case True
      then obtain i where k: "k = 2 * i" by (auto elim!: evenE)
      have m: "monitor spec ?w i < mon_states spec" by simp
      have "{..<in_vals spec} \<noteq> {}" using sizes_pos(2) [of spec] by blast
      then show ?thesis using hk k ar(1,2) [OF m] ar(5) mon_less_bad [OF m] by simp
    next
      case False
      then obtain i where k: "k = Suc (2 * i)" by (auto elim!: oddE)
      let ?m = "monitor spec ?w i"
      have m: "?m < mon_states spec" by simp
      have "?\<sigma> h = move_to spec ?m (u i) (snd (?w i))"
        using controller_strategy_plays [where k = i, OF u realizes_safe(1) [OF f u]] safe_play_move [where i = i, OF realizes_safe(1) [OF f u]] hk k
        by simp
      moreover have "snd (?w i) < out_vals spec" using realizes_safe(2) [OF f u] by (simp add: trace_of_def)
      ultimately show ?thesis using hk k ar(4) [OF m u] ar(5) ctrl_id_range(2) [OF m u] by auto
    qed
  qed
  have goal: "game_goal g p" if p: "p 0 = 0" "conforms ?eve ?mv ?\<sigma> p" for p
  proof -
    obtain u where u: "\<And>i. u i < in_vals spec" and pu: "p = play spec (trace_of f u)"
      using controller_play [OF g f p] by blast
    show ?thesis using play_goal [OF g fair, of "trace_of f u"] realizes_safe(3) [OF f u] u pu by (simp add: spec_sat_def)
  qed
  show ?thesis unfolding eve_wins_def ar(6) using legal goal by (intro exI [of _ ?\<sigma>]) blast
qed

lemma wins_iff_realizable:
  assumes "spec_game spec g" "fair_over_inputs spec"
  shows "controller_wins g \<longleftrightarrow> (\<exists>f. realizes spec f)"
  using strategy_realizes [OF assms] realizes_wins [OF assms] by blast

end
