(* ===== verification/Gr1_Synthesis.thy ===== *)
theory Gr1_Synthesis
  imports Gr1_Realize
begin

section \<open>GR(1) synthesis decides realizability\<close>

text \<open>
  The classification keeps the meaning of the formulas it accepts, so that together with the correctness of
  the solver and of the game, \<open>synthesise_gr1\<close> answers whether a controller exists whose traces satisfy the
  safety formulas, and the guarantees whenever they satisfy the assumptions.
\<close>

subsection \<open>Classification\<close>

definition signals_true :: "gr1_spec \<Rightarrow> string \<Rightarrow> (nat \<times> nat) set" where
  "signals_true spec p = {x. signal_val spec (fst x) (snd x) p = Some True}"

definition safety_form :: "ltl \<Rightarrow> bool" where
  "safety_form f \<longleftrightarrow> (\<exists>p. f = LAlways p \<and> (gr1_is_propositional p \<or> (\<exists>a b. p = LImplies a (LNext b))))"

lemma lsat_prop: "gr1_is_propositional f \<Longrightarrow> lsat (signals_true spec) f w \<longleftrightarrow> holds_at spec f (w 0)"
  by (induction f arbitrary: w) (auto simp: signals_true_def holds_at_def)

lemma suffix_0: "suffix i w 0 = w i" for w :: "nat \<Rightarrow> 'a"
  by (simp add: suffix_def)

lemma same_signals:
  assumes "gs_inputs s = gs_inputs t" "gs_outputs s = gs_outputs t"
  shows "signals_true s = signals_true t" "clause_sat s = clause_sat t" "fair_sat s = fair_sat t" "response_sat s = response_sat t"
proof -
  have v: "signal_val s = signal_val t" using assms by (simp add: signal_val_def fun_eq_iff)
  show "signals_true s = signals_true t" by (simp add: signals_true_def v fun_eq_iff)
  have h: "holds_at s = holds_at t" by (simp add: holds_at_def v fun_eq_iff)
  show "clause_sat s = clause_sat t"
  proof (intro ext)
    show "clause_sat s w cl = clause_sat t w cl" for w cl by (cases cl) (simp_all add: h)
  qed
  show "fair_sat s = fair_sat t" "response_sat s = response_sat t"
    by (simp_all add: fair_sat_def response_sat_def h fun_eq_iff)
qed
lemma ex_offset: "(\<exists>j. P (i + j)) \<longleftrightarrow> (\<exists>j\<ge>i. P j)" for i :: nat
  by (metis le_add1 le_iff_add)

lemma lsat_forms:
  assumes "gr1_is_propositional p"
  shows "lsat (signals_true spec) (LAlways p) w \<longleftrightarrow> clause_sat spec w (Invariant p)"
    and "lsat (signals_true spec) (LRecurrence p) w \<longleftrightarrow> fair_sat spec w p"
    and "lsat (signals_true spec) (LAlways (LEventually p)) w \<longleftrightarrow> fair_sat spec w p"
    and "lsat (signals_true spec) (LAlways (LRecurrence p)) w \<longleftrightarrow> fair_sat spec w p"
proof -
  note P = lsat_prop [OF assms]
  show "lsat (signals_true spec) (LAlways p) w \<longleftrightarrow> clause_sat spec w (Invariant p)"
    "lsat (signals_true spec) (LRecurrence p) w \<longleftrightarrow> fair_sat spec w p"
    by (simp_all add: P fair_sat_def)
  show "lsat (signals_true spec) (LAlways (LEventually p)) w \<longleftrightarrow> fair_sat spec w p"
    using ex_offset [of "\<lambda>j. holds_at spec p (w j)"] by (simp add: P fair_sat_def)
  show "lsat (signals_true spec) (LAlways (LRecurrence p)) w \<longleftrightarrow> fair_sat spec w p"
  proof
    assume "lsat (signals_true spec) (LAlways (LRecurrence p)) w"
    then have "\<forall>i. \<exists>j. holds_at spec p (w (i + j))" by (simp add: P) blast
    then show "fair_sat spec w p" using ex_offset [of "\<lambda>j. holds_at spec p (w j)"] by (auto simp: fair_sat_def)
  next
    assume f: "fair_sat spec w p"
    have "\<exists>j\<ge>i'. holds_at spec p (w (i + j))" for i i'
    proof -
      obtain j where "j \<ge> i + i'" "holds_at spec p (w j)" using f by (auto simp: fair_sat_def)
      then show ?thesis by (intro exI [of _ "j - i"]) auto
    qed
    then show "lsat (signals_true spec) (LAlways (LRecurrence p)) w" by (simp add: P)
  qed
qed

lemma lsat_implies_forms:
  assumes p: "gr1_is_propositional p" and q: "gr1_is_propositional q"
  shows "lsat (signals_true spec) (LAlways (LImplies p (LNext q))) w \<longleftrightarrow> clause_sat spec w (Transition p q)"
    and "lsat (signals_true spec) (LAlways (LImplies p (LEventually q))) w \<longleftrightarrow> response_sat spec w \<lparr>rc_trigger = p, rc_response = q\<rparr>"
    and "lsat (signals_true spec) (LResponse p q) w \<longleftrightarrow> response_sat spec w \<lparr>rc_trigger = p, rc_response = q\<rparr>"
  using ex_offset [of "\<lambda>j. holds_at spec q (w j)"]
  by (simp_all add: lsat_prop [OF p] lsat_prop [OF q] response_sat_def)

definition adds_clause :: "bool \<Rightarrow> ltl \<Rightarrow> gr1_spec \<Rightarrow> gr1_spec \<Rightarrow> bool" where
  \<comment> \<open>one formula adds one clause with its meaning\<close>
  "adds_clause is_guarantee f spec spec' \<longleftrightarrow>
     (\<exists>cl. spec' = spec\<lparr>gs_safety := gs_safety spec @ [cl]\<rparr> \<and> safety_form f
        \<and> (\<forall>w. lsat (signals_true spec) f w \<longleftrightarrow> clause_sat spec w cl))
     \<or> \<not> is_guarantee \<and> \<not> safety_form f \<and> (\<exists>a. spec' = spec\<lparr>gs_env_fair := gs_env_fair spec @ [a]\<rparr>
        \<and> lpreds a = lpreds f \<and> (\<forall>w. lsat (signals_true spec) f w \<longleftrightarrow> fair_sat spec w a))
     \<or> is_guarantee \<and> \<not> safety_form f \<and> (\<exists>r. spec' = spec\<lparr>gs_responses := gs_responses spec @ [r]\<rparr>
        \<and> (\<forall>w. lsat (signals_true spec) f w \<longleftrightarrow> response_sat spec w r))"

lemma adds_fair:
  assumes "push_fair p b spec = Ok spec'" "\<And>w. lsat (signals_true spec) f w \<longleftrightarrow> fair_sat spec w p"
    and "\<not> safety_form f" "lpreds p = lpreds f"
  shows "adds_clause b f spec spec'"
  using assms by (auto simp: push_fair_def adds_clause_def split: if_splits)

lemma adds_response:
  assumes "push_response p q b spec = Ok spec'"
    and "\<And>w. lsat (signals_true spec) f w \<longleftrightarrow> response_sat spec w \<lparr>rc_trigger = p, rc_response = q\<rparr>" "\<not> safety_form f"
  shows "adds_clause b f spec spec'"
  using assms by (auto simp: push_response_def adds_clause_def split: if_splits)

lemma adds_safety:
  assumes "push_safety cl spec = Ok spec'" "\<And>w. lsat (signals_true spec) f w \<longleftrightarrow> clause_sat spec w cl" "safety_form f"
  shows "adds_clause b f spec spec'"
  using assms by (auto simp: push_safety_def adds_clause_def)

lemma classify_prop_adds:
  "classify_prop body spec = Ok spec' \<Longrightarrow> adds_clause b (LAlways body) spec spec'"
  using lsat_forms(1) [of body spec] by (intro adds_safety) (auto simp: classify_prop_def safety_form_def split: if_splits)

lemma classify_implies_adds:
  assumes "classify_implies p rhs b spec = Ok spec'" "gr1_is_propositional p"
  shows "adds_clause b (LAlways (LImplies p rhs)) spec spec'"
proof (cases rhs)
  case (LNext q)
  then show ?thesis using assms lsat_implies_forms(1) [OF assms(2), of q spec]
    by (intro adds_safety [of "Transition p q"]) (auto simp: classify_implies_def safety_form_def split: if_splits)
next
  case (LEventually q)
  then show ?thesis using assms lsat_implies_forms(2) [OF assms(2), of q spec]
    by (intro adds_response [of p q]) (auto simp: classify_implies_def safety_form_def split: if_splits)
qed (use assms(1) in \<open>auto simp: classify_implies_def\<close>)

lemma classify_always_adds:
  assumes "classify_always body b spec = Ok spec'"
  shows "adds_clause b (LAlways body) spec spec'"
proof (cases "\<exists>p. body = LEventually p \<and> gr1_is_propositional p \<or> body = LRecurrence p \<and> gr1_is_propositional p")
  case True
  then obtain p where p: "body = LEventually p \<or> body = LRecurrence p" "gr1_is_propositional p" by blast
  then show ?thesis using assms lsat_forms(3,4) [OF p(2), of spec]
    by (intro adds_fair [of p]) (auto simp: classify_always_def safety_form_def simp del: lsat.simps)
next
  case False
  show ?thesis
  proof (cases "\<exists>p rhs. body = LImplies p rhs \<and> gr1_is_propositional p")
    case True
    then show ?thesis using assms classify_implies_adds by (auto simp: classify_always_def)
  next
    case nimp: False
    have "classify_always body b spec = classify_prop body spec"
      using False nimp by (cases body) (auto simp: classify_always_def)
    then show ?thesis using assms classify_prop_adds by simp
  qed
qed

lemma classify_one_adds:
  assumes "classify_one f b spec = Ok spec'"
  shows "adds_clause b f spec spec'"
proof (cases f)
  case (LAlways body)
  then show ?thesis using assms classify_always_adds by (simp add: classify_one_def)
next
  case (LRecurrence p)
  then show ?thesis using assms lsat_forms(2) [of p spec]
    by (intro adds_fair [of p]) (auto simp: classify_one_def safety_form_def split: if_splits)
next
  case (LResponse p q)
  then show ?thesis using assms lsat_implies_forms(3) [of p q spec]
    by (intro adds_response [of p q]) (auto simp: classify_one_def safety_form_def split: if_splits)
qed (use assms in \<open>auto simp: classify_one_def\<close>)
text \<open>A list of formulas adds one clause for each of them, of the kind its shape and its side give.\<close>

definition adds_clauses :: "bool \<Rightarrow> ltl list \<Rightarrow> gr1_spec \<Rightarrow> gr1_spec \<Rightarrow> bool" where
  "adds_clauses is_guarantee fs spec spec' \<longleftrightarrow>
     (\<exists>cls as rs. spec' = spec\<lparr>gs_safety := gs_safety spec @ cls, gs_env_fair := gs_env_fair spec @ as,
          gs_responses := gs_responses spec @ rs\<rparr>
        \<and> (\<forall>w. (\<forall>cl\<in>set cls. clause_sat spec w cl) \<longleftrightarrow> (\<forall>f\<in>set fs. safety_form f \<longrightarrow> lsat (signals_true spec) f w))
        \<and> (if is_guarantee
           then as = [] \<and> (\<forall>w. (\<forall>r\<in>set rs. response_sat spec w r) \<longleftrightarrow>
                  (\<forall>f\<in>set fs. \<not> safety_form f \<longrightarrow> lsat (signals_true spec) f w))
           else rs = [] \<and> (\<forall>a\<in>set as. \<exists>f\<in>set fs. \<not> safety_form f \<and> lpreds a = lpreds f)
              \<and> (\<forall>w. (\<forall>a\<in>set as. fair_sat spec w a) \<longleftrightarrow>
                  (\<forall>f\<in>set fs. \<not> safety_form f \<longrightarrow> lsat (signals_true spec) f w))))"

lemma adds_clausesI:
  assumes "spec' = spec\<lparr>gs_safety := gs_safety spec @ cls, gs_env_fair := gs_env_fair spec @ as,
      gs_responses := gs_responses spec @ rs\<rparr>"
    and "\<And>w. (\<forall>cl\<in>set cls. clause_sat spec w cl) \<longleftrightarrow> (\<forall>f\<in>set fs. safety_form f \<longrightarrow> lsat (signals_true spec) f w)"
    and "b \<Longrightarrow> as = []" "\<not> b \<Longrightarrow> rs = []"
    and "\<And>w. b \<Longrightarrow> (\<forall>r\<in>set rs. response_sat spec w r) \<longleftrightarrow> (\<forall>f\<in>set fs. \<not> safety_form f \<longrightarrow> lsat (signals_true spec) f w)"
    and "\<And>w. \<not> b \<Longrightarrow> (\<forall>a\<in>set as. fair_sat spec w a) \<longleftrightarrow> (\<forall>f\<in>set fs. \<not> safety_form f \<longrightarrow> lsat (signals_true spec) f w)"
    and "\<And>a. \<not> b \<Longrightarrow> a \<in> set as \<Longrightarrow> \<exists>f\<in>set fs. \<not> safety_form f \<and> lpreds a = lpreds f"
  shows "adds_clauses b fs spec spec'"
  unfolding adds_clauses_def using assms by (intro exI [of _ cls] exI [of _ as] exI [of _ rs]) simp

lemma adds_clauses_Cons:
  assumes one: "adds_clause b f spec s1" and rest: "adds_clauses b fs s1 s2"
  shows "adds_clauses b (f # fs) spec s2"
proof -
  have io: "gs_inputs s1 = gs_inputs spec" "gs_outputs s1 = gs_outputs spec" using one by (auto simp: adds_clause_def)
  note same = same_signals [OF io]
  obtain cls as rs where s2: "s2 = s1\<lparr>gs_safety := gs_safety s1 @ cls, gs_env_fair := gs_env_fair s1 @ as,
          gs_responses := gs_responses s1 @ rs\<rparr>"
      and cls: "\<And>w. (\<forall>cl\<in>set cls. clause_sat spec w cl) \<longleftrightarrow> (\<forall>f\<in>set fs. safety_form f \<longrightarrow> lsat (signals_true spec) f w)"
      and kinds: "if b then as = [] \<and> (\<forall>w. (\<forall>r\<in>set rs. response_sat spec w r) \<longleftrightarrow>
                  (\<forall>f\<in>set fs. \<not> safety_form f \<longrightarrow> lsat (signals_true spec) f w))
           else rs = [] \<and> (\<forall>a\<in>set as. \<exists>f\<in>set fs. \<not> safety_form f \<and> lpreds a = lpreds f)
              \<and> (\<forall>w. (\<forall>a\<in>set as. fair_sat spec w a) \<longleftrightarrow> (\<forall>f\<in>set fs. \<not> safety_form f \<longrightarrow> lsat (signals_true spec) f w))"
    using rest unfolding adds_clauses_def same by blast
  from one consider (safety) cl where "s1 = spec\<lparr>gs_safety := gs_safety spec @ [cl]\<rparr>" "safety_form f"
        "\<And>w. lsat (signals_true spec) f w \<longleftrightarrow> clause_sat spec w cl"
    | (fair) a where "\<not> b" "\<not> safety_form f" "s1 = spec\<lparr>gs_env_fair := gs_env_fair spec @ [a]\<rparr>" "lpreds a = lpreds f"
        "\<And>w. lsat (signals_true spec) f w \<longleftrightarrow> fair_sat spec w a"
    | (response) r where "b" "\<not> safety_form f" "s1 = spec\<lparr>gs_responses := gs_responses spec @ [r]\<rparr>"
        "\<And>w. lsat (signals_true spec) f w \<longleftrightarrow> response_sat spec w r"
    unfolding adds_clause_def by blast
  then show ?thesis
  proof cases
    case safety
    then show ?thesis using s2 cls kinds by (intro adds_clausesI [where cls = "cl # cls" and as = as and rs = rs]) simp_all
  next
    case fair
    then show ?thesis using s2 cls kinds by (intro adds_clausesI [where cls = cls and as = "a # as" and rs = rs]) auto
  next
    case response
    then show ?thesis using s2 cls kinds by (intro adds_clausesI [where cls = cls and as = as and rs = "r # rs"]) simp_all
  qed
qed

lemma classify_all_adds: "classify_all b fs spec = Ok spec' \<Longrightarrow> adds_clauses b fs spec spec'"
proof (induction fs arbitrary: spec)
  case Nil
  then show ?case by (intro adds_clausesI [where cls = "[]" and as = "[]" and rs = "[]"]) auto
next
  case (Cons f fs)
  then obtain s1 where "classify_one f b spec = Ok s1" "classify_all b fs s1 = Ok spec'"
    by (cases "classify_one f b spec") auto
  then show ?case using adds_clauses_Cons classify_one_adds Cons.IH by blast
qed

subsection \<open>The objective of a specification\<close>

definition io_signals :: "string list \<Rightarrow> string list \<Rightarrow> string \<Rightarrow> (nat \<times> nat) set" where
  \<comment> \<open>the rounds, as input and output values, in which a signal is high\<close>
  "io_signals inputs outputs p =
     {x. add_signals (snd x) 0 outputs (add_signals (fst x) 0 inputs Map.empty) p = Some True}"

definition ltl_objective :: "ltl list \<Rightarrow> ltl list \<Rightarrow> string list \<Rightarrow> string list \<Rightarrow> trace \<Rightarrow> bool" where
  \<comment> \<open>all safety formulas, and all guarantees if all assumptions\<close>
  "ltl_objective assumptions guarantees inputs outputs w \<longleftrightarrow>
     (\<forall>f\<in>set (assumptions @ guarantees). safety_form f \<longrightarrow> lsat (io_signals inputs outputs) f w)
     \<and> ((\<forall>f\<in>set assumptions. lsat (io_signals inputs outputs) f w) \<longrightarrow>
         (\<forall>f\<in>set guarantees. lsat (io_signals inputs outputs) f w))"

lemma signals_true_io: "signals_true spec = io_signals (gs_inputs spec) (gs_outputs spec)"
  by (simp add: signals_true_def io_signals_def signal_val_def fun_eq_iff)

lemma classify_objective:
  assumes "classify assumptions guarantees inputs outputs = Ok spec"
  shows "gs_inputs spec = inputs" "gs_outputs spec = outputs"
    and "spec_sat spec w \<longleftrightarrow> ltl_objective assumptions guarantees inputs outputs w"
    and "\<And>a. a \<in> set (gs_env_fair spec) \<Longrightarrow> \<exists>f\<in>set assumptions. \<not> safety_form f \<and> lpreds a = lpreds f"
proof -
  let ?s0 = "\<lparr>gs_inputs = inputs, gs_outputs = outputs, gs_safety = [], gs_responses = [], gs_env_fair = []\<rparr>"
  obtain s1 where "classify_all False assumptions ?s0 = Ok s1" "classify_all True guarantees s1 = Ok spec"
    using assms unfolding classify_def by (cases "classify_all False assumptions ?s0") auto
  then have adds: "adds_clauses False assumptions ?s0 s1" "adds_clauses True guarantees s1 spec"
    using classify_all_adds by blast+
  then obtain cls as where s1: "s1 = ?s0\<lparr>gs_safety := cls, gs_env_fair := as\<rparr>"
    and cls: "\<And>w. (\<forall>cl\<in>set cls. clause_sat ?s0 w cl) \<longleftrightarrow> (\<forall>f\<in>set assumptions. safety_form f \<longrightarrow> lsat (signals_true ?s0) f w)"
    and as: "\<And>w. (\<forall>a\<in>set as. fair_sat ?s0 w a) \<longleftrightarrow> (\<forall>f\<in>set assumptions. \<not> safety_form f \<longrightarrow> lsat (signals_true ?s0) f w)"
    and lp: "\<forall>a\<in>set as. \<exists>f\<in>set assumptions. \<not> safety_form f \<and> lpreds a = lpreds f"
    unfolding adds_clauses_def by auto
  have "gs_inputs s1 = gs_inputs ?s0" "gs_outputs s1 = gs_outputs ?s0" using s1 by simp_all
  note same1 = same_signals [OF this]
  obtain cls2 rs where spec: "spec = s1\<lparr>gs_safety := cls @ cls2, gs_responses := rs\<rparr>"
    and cls2: "\<And>w. (\<forall>cl\<in>set cls2. clause_sat ?s0 w cl) \<longleftrightarrow> (\<forall>f\<in>set guarantees. safety_form f \<longrightarrow> lsat (signals_true ?s0) f w)"
    and rs: "\<And>w. (\<forall>r\<in>set rs. response_sat ?s0 w r) \<longleftrightarrow> (\<forall>f\<in>set guarantees. \<not> safety_form f \<longrightarrow> lsat (signals_true ?s0) f w)"
    using adds(2) unfolding adds_clauses_def same1 by (auto simp: s1)
  show io: "gs_inputs spec = inputs" "gs_outputs spec = outputs" using spec s1 by simp_all
  have "gs_inputs spec = gs_inputs ?s0" "gs_outputs spec = gs_outputs ?s0" using io by simp_all
  note same = same_signals [OF this]
  have sg: "io_signals inputs outputs = signals_true ?s0" by (simp add: signals_true_io)
  have ef: "gs_env_fair spec = as" "gs_safety spec = cls @ cls2" "gs_responses spec = rs" using spec s1 by simp_all
  show "spec_sat spec w \<longleftrightarrow> ltl_objective assumptions guarantees inputs outputs w"
    unfolding spec_sat_def ltl_objective_def ef same sg set_append ball_Un cls cls2 as rs by blast
  show "\<And>a. a \<in> set (gs_env_fair spec) \<Longrightarrow> \<exists>f\<in>set assumptions. \<not> safety_form f \<and> lpreds a = lpreds f"
    using lp ef(1) by simp
qed
subsection \<open>Synthesis\<close>

lemma strategy_single_Ok:
  assumes "state_count c < k" "length z = state_count c" "length g = state_count c"
  shows "\<exists>s. gr1_strategy_single k c z g = Ok s"
  using reach_ranks_ranks [OF assms(1), of z "bv_and g (cpre c z z)"] assms(2,3) by (auto simp: gr1_strategy_single_def)

lemma gr1_controller_Ok:
  assumes k: "state_count (gg_clts g) < k" and sz: "sized (gg_clts g) (gg_safe g # gg_sys_fair g @ gg_env_fair g)"
    and z: "length z = state_count (gg_clts g)"
  shows "\<exists>r. gr1_controller k modname g z = Ok r"
proof (cases "gg_sys_fair g")
  case Nil
  then show ?thesis using strategy_single_Ok [OF k z z] by (auto simp: gr1_controller_def)
next
  case (Cons a gs)
  show ?thesis
  proof (cases gs)
    case Nil
    then have "length a = state_count (gg_clts g)" using sz Cons by (simp add: sized_def)
    then show ?thesis using strategy_single_Ok [OF k z, of a] Cons Nil by (auto simp: gr1_controller_def)
  next
    case (Cons a' gs')
    then show ?thesis using strategy_multi_value [OF k sz, of z] \<open>gg_sys_fair g = a # gs\<close>
      by (auto simp: gr1_controller_def)
  qed
qed

definition game_region :: "gr1_game \<Rightarrow> nat set" where
  "game_region g = gr1_set (cpre_set (gg_clts g) (bset (gg_safe g)))
     (fair_sets (state_count (gg_clts g)) (gg_sys_fair g)) (fair_sets (state_count (gg_clts g)) (gg_env_fair g))"

text \<open>The steps of a synthesis whose formulas are classified and whose game fits all return.\<close>

lemma synthesise_gr1_run:
  assumes c: "classify assumptions guarantees inputs outputs = Ok spec" and fits: "spec_fits spec" and k: "Suc (bad_id spec) < k"
  obtains g z sv remarks where "gr1_game_build spec = Ok g" "spec_game spec g" "state_count (gg_clts g) < k"
    "length z = state_count (gg_clts g)" "bset z = game_region g" "gr1_controller k modname g z = Ok (sv, remarks)"
    "synthesise_gr1 k assumptions guarantees inputs outputs modname =
       Ok \<lparr>sy_realizable = 0 \<in> bset z, sy_controller_sv = (if 0 \<in> bset z then Some sv else None),
         sy_n_monitor_bits = gg_n_monitors g, sy_n_game_states = state_count (gg_clts g),
         sy_notes = (if 0 \<in> bset z then remarks else [])\<rparr>"
proof -
  obtain g where g: "gr1_game_build spec = Ok g" "spec_game spec g" using gr1_game_build_game [OF fits] by blast
  have init: "gg_init g = 0" and fuel: "state_count (gg_clts g) < k"
      and sz: "sized (gg_clts g) (gg_safe g # gg_sys_fair g @ gg_env_fair g)"
    using g(2) k by (simp_all add: spec_game_def spec_arena_def)
  obtain z where z: "gr1_win k (gg_clts g) (gg_safe g) (gg_sys_fair g) (gg_env_fair g) = Ok z"
      "length z = state_count (gg_clts g)" "bset z = game_region g"
    using gr1_win_loop [OF fuel sz] unfolding game_region_def by blast
  obtain sv remarks where ctl: "gr1_controller k modname g z = Ok (sv, remarks)" using gr1_controller_Ok [OF fuel sz z(2)] by force
  have "bit_is_set z (gg_init g) \<longleftrightarrow> 0 \<in> bset z" using init by (simp add: bit_is_set_def mem_bset_iff)
  then show ?thesis using c g z(1) ctl by (intro that [OF g fuel z(2,3) ctl]) (simp add: synthesise_gr1_def Let_def)
qed

lemma initial_region:
  assumes "spec_game spec g"
  shows "0 \<in> game_region g \<longleftrightarrow> controller_wins g"
  using region_determined(1) [of "gg_clts g" 0, OF _ _ refl, where S = "bset (gg_safe g)"] assms
  by (simp add: spec_game_def spec_arena_def game_region_def)

lemma synthesise_gr1_decides:
  assumes "classify assumptions guarantees inputs outputs = Ok spec" and "spec_fits spec" and "Suc (bad_id spec) < k"
    and fair: "fair_over_inputs spec"
  shows "\<exists>r. synthesise_gr1 k assumptions guarantees inputs outputs modname = Ok r \<and> (sy_realizable r \<longleftrightarrow> (\<exists>f. realizes spec f))"
proof -
  obtain g z r where g: "spec_game spec g" "bset z = game_region g"
      and r: "synthesise_gr1 k assumptions guarantees inputs outputs modname = Ok r" "sy_realizable r \<longleftrightarrow> 0 \<in> bset z"
    by (rule synthesise_gr1_run [OF assms(1-3), where modname = modname]) simp
  then show ?thesis using wins_iff_realizable [OF g(1) fair] initial_region [OF g(1)] by simp
qed

text \<open>
  C4: GR(1) synthesis decides realizability. If the formulas are classified, the game fits the state numbers, the
  fuel exceeds the number of game states and the fairness assumptions do not mention outputs, then
  \<open>synthesise_gr1\<close> returns, and it answers realizable iff there is a controller, a function from the inputs
  seen so far to an output, all of whose traces satisfy the safety formulas, and all guarantees if they satisfy
  all assumptions.
\<close>

theorem synthesise_gr1_exact:
  assumes "classify assumptions guarantees inputs outputs = Ok spec" and "spec_fits spec" and "Suc (bad_id spec) < k"
    and "\<And>f. f \<in> set assumptions \<Longrightarrow> \<not> safety_form f \<Longrightarrow> lpreds f \<inter> set outputs = {}"
  shows "\<exists>r. synthesise_gr1 k assumptions guarantees inputs outputs modname = Ok r \<and>
    (sy_realizable r \<longleftrightarrow> (\<exists>f. \<forall>u. (\<forall>i. u i < 2 ^ length inputs) \<longrightarrow>
       (\<forall>i. f (map u [0..<Suc i]) < 2 ^ length outputs)
       \<and> ltl_objective assumptions guarantees inputs outputs (trace_of f u)))"
proof -
  note obj = classify_objective [OF assms(1)]
  have "fair_over_inputs spec" using obj(2,4) assms(4) by (force simp: fair_over_inputs_def predicates_of_set)
  from synthesise_gr1_decides [OF assms(1-3) this] show ?thesis
    unfolding realizes_def in_vals_def out_vals_def obj(1-3) by blast
qed

text \<open>A client requests infinitely often; every request is granted, and no grant comes after a grant.\<close>

abbreviation arbiter_assumptions :: "ltl list" where
  "arbiter_assumptions \<equiv> [LRecurrence (LPredicate ''r'')]"

abbreviation arbiter_guarantees :: "ltl list" where
  "arbiter_guarantees \<equiv> [LResponse (LPredicate ''r'') (LPredicate ''g''), LAlways (LImplies (LPredicate ''g'') (LNext (LNot (LPredicate ''g''))))]"

abbreviation arbiter_spec :: "ltl list \<Rightarrow> gr1_spec" where
  "arbiter_spec fair \<equiv> \<lparr>gs_inputs = [''r''], gs_outputs = [''g''],
     gs_safety = [Transition (LPredicate ''g'') (LNot (LPredicate ''g''))],
     gs_responses = [\<lparr>rc_trigger = LPredicate ''r'', rc_response = LPredicate ''g''\<rparr>], gs_env_fair = fair\<rparr>"

lemma arbiter_classified:
  "classify arbiter_assumptions arbiter_guarantees [''r''] [''g''] = Ok (arbiter_spec [LPredicate ''r''])"
  "classify [] arbiter_guarantees [''r''] [''g''] = Ok (arbiter_spec [])"
  by (simp_all add: classify_def classify_one_def classify_always_def classify_implies_def push_fair_def push_response_def push_safety_def)

lemma arbiter_fits: "spec_fits (arbiter_spec fair)" "Suc (bad_id (arbiter_spec fair)) < 14"
  by (simp_all add: spec_fits_def bad_id_def mon_states_def in_vals_def out_vals_def n_ts_def u32_max_def)

text \<open>Granting in every second round realizes it.\<close>

lemma arbiter_objective:
  fixes u :: "nat \<Rightarrow> nat"
  defines "f \<equiv> \<lambda>xs. length xs mod 2"
  assumes "as = arbiter_assumptions \<or> as = []"
  shows "ltl_objective as arbiter_guarantees [''r''] [''g''] (trace_of f u)"
proof -
  have g: "trace_of f u i \<in> io_signals [''r''] [''g''] ''g'' \<longleftrightarrow> even i" for i
    by (auto simp: io_signals_def trace_of_def f_def bit_iff_odd)
  have ev: "\<exists>j\<ge>i. even j" for i :: nat by (cases "even i") (auto intro: exI [of _ i] exI [of _ "Suc i"])
  show ?thesis using assms(2) unfolding ltl_objective_def by (auto simp: safety_form_def g ev)
qed

theorem synthesise_gr1_exact_witness:
  "\<exists>r. synthesise_gr1 14 arbiter_assumptions arbiter_guarantees [''r''] [''g''] ''arbiter'' = Ok r \<and> sy_realizable r"
proof -
  obtain r where r: "synthesise_gr1 14 arbiter_assumptions arbiter_guarantees [''r''] [''g''] ''arbiter'' = Ok r"
      "sy_realizable r \<longleftrightarrow> (\<exists>f. \<forall>u. (\<forall>i. u i < 2 ^ length [''r'']) \<longrightarrow>
         (\<forall>i. f (map u [0..<Suc i]) < 2 ^ length [''g''])
         \<and> ltl_objective arbiter_assumptions arbiter_guarantees [''r''] [''g''] (trace_of f u))"
    using synthesise_gr1_exact [OF arbiter_classified(1) arbiter_fits, where modname = "''arbiter''"] by auto
  have "sy_realizable r" unfolding r(2) using arbiter_objective [of arbiter_assumptions]
    by (intro exI [of _ "\<lambda>xs. length xs mod 2"]) simp
  then show ?thesis using r(1) by blast
qed

end
