(* ===== verification/Gr1_Controller.thy ===== *)
theory Gr1_Controller
  imports Gr1_Synthesis
begin

section \<open>The printed controller realizes the specification\<close>

text \<open>
  The table of moves that is printed is run as a Mealy machine with a mode and a monitor register. On the game
  of a specification it plays the extracted strategy, so its traces satisfy the objective whenever the strategy
  wins.
\<close>

subsection \<open>The machine\<close>

definition mealy_step :: "mealy \<Rightarrow> nat \<times> nat \<Rightarrow> nat \<Rightarrow> nat \<times> nat \<times> nat" where
  \<comment> \<open>outputs, next mode and next monitor; the registers truncate, and an unlisted case holds them\<close>
  "mealy_step my = (\<lambda>(mode, mon) iv.
     case map_of (my_items my) (mode * 2 ^ my_n_mon my + mon) of
       None \<Rightarrow> (0, mode, mon)
     | Some bs \<Rightarrow> (case map_of bs iv of
         None \<Rightarrow> (0, mode, mon)
       | Some (ov, mon', mode') \<Rightarrow>
           (ov, mode' mod 2 ^ (case my_n_mode my of None \<Rightarrow> 0 | Some w \<Rightarrow> w), mon' mod 2 ^ my_n_mon my)))"

definition mealy_after :: "mealy \<Rightarrow> nat list \<Rightarrow> nat \<times> nat" where
  "mealy_after my ivs = foldl (\<lambda>s iv. snd (mealy_step my s iv)) (0, 0) ivs"

definition mealy_output :: "mealy \<Rightarrow> nat list \<Rightarrow> nat" where
  \<comment> \<open>the output of the last round\<close>
  "mealy_output my ivs = fst (mealy_step my (mealy_after my (butlast ivs)) (last ivs))"

lemma mealy_after_Suc: "mealy_after my (map u [0..<Suc i]) = snd (mealy_step my (mealy_after my (map u [0..<i])) (u i))"
  by (simp add: mealy_after_def)

lemma mealy_output_Suc: "mealy_output my (map u [0..<Suc i]) = fst (mealy_step my (mealy_after my (map u [0..<i])) (u i))"
  by (simp add: mealy_output_def butlast_append)

subsection \<open>Reading the table\<close>

lemma set_map_filter: "set (List.map_filter f xs) = {y. \<exists>x\<in>set xs. f x = Some y}"
  by (force simp: List.map_filter_def)

lemma spec_game_meta:
  assumes "spec_game spec g"
  shows "set (gg_ctrl_meta g) = {(ctrl_id spec m iv, m, iv) | m iv. m < mon_states spec \<and> iv < in_vals spec}"
    and "m < mon_states spec \<Longrightarrow> gg_e_meta g m = Some m"
    and "2 ^ gg_n_monitors g = mon_states spec" "mon_states spec \<le> 2 ^ max (gg_n_monitors g) 1"
    and "2 ^ length (gg_inputs g) = in_vals spec"
  using assms by (auto simp: spec_game_def spec_meta_def mon_states_def in_vals_def power_increasing)

text \<open>A branch holds an output that leads to the chosen target.\<close>

definition good_branch :: "gr1_spec \<Rightarrow> gr1_game \<Rightarrow> nat \<Rightarrow> nat \<Rightarrow> nat \<Rightarrow> nat \<Rightarrow> bool" where
  "good_branch spec g m iv t ov \<longleftrightarrow> ov < out_vals spec \<and> move_to spec m iv ov = t
     \<and> (\<forall>mode'. mealy_branch g m (ctrl_id spec m iv) iv t mode' = (iv, ov, t, mode'))"

lemma branch_found:
  assumes g: "spec_game spec g" and b: "m < mon_states spec" "iv < in_vals spec" "t < mon_states spec"
    and t: "t \<in> game_moves (gg_clts g) (ctrl_id spec m iv)"
  obtains ov where "good_branch spec g m iv t ov"
proof -
  obtain ov where "ov < out_vals spec" "t = move_to spec m iv ov" using t spec_game_arena(4) [OF g b(1,2)] by auto
  then obtain ov' where "ov' < out_vals spec" "gg_move_output g (ctrl_id spec m iv, t) = Some ov'" "move_to spec m iv ov' = t"
    using g b(1,2) unfolding spec_game_def spec_meta_def by blast
  then show ?thesis using spec_game_meta(2) [OF g b(3)] by (intro that [of ov']) (simp add: good_branch_def mealy_branch_def)
qed

lemma mealy_single_step:
  assumes g: "spec_game spec g" and b: "m < mon_states spec" "iv < in_vals spec" "t < mon_states spec"
    and c: "bit_is_set z (ctrl_id spec m iv)" "strat (ctrl_id spec m iv) = Some t" and ov: "good_branch spec g m iv t ov"
  shows "mealy_step (mealy_single g z strat) (0, m) iv = (ov, 0, t)"
proof -
  let ?my = "mealy_single g z strat"
  let ?br = "\<lambda>(iv, c). map_option (\<lambda>t. mealy_branch g m c iv t 0) (strat c)"
  define rows where "rows = sort_key fst (map (\<lambda>(c, m', iv). (iv, c))
      (filter (\<lambda>(c, m', iv). m' = m) (filter (\<lambda>(c, m, iv). bit_is_set z c) (gg_ctrl_meta g))))"
  have rows: "set rows = {(iv, ctrl_id spec m iv) | iv. iv < in_vals spec \<and> bit_is_set z (ctrl_id spec m iv)}"
    using spec_game_meta(1) [OF g] b(1) by (auto simp: rows_def image_iff)
  have "map_of (List.map_filter ?br rows) iv = Some (ov, t, 0)"
  proof (rule map_of_unique)
    have "(iv, ctrl_id spec m iv) \<in> set rows" using rows b(2) c(1) by blast
    then show "(iv, ov, t, 0) \<in> set (List.map_filter ?br rows)"
      unfolding set_map_filter using c(2) ov by (force simp: good_branch_def)
    fix w assume "(iv, w) \<in> set (List.map_filter ?br rows)"
    then show "w = (ov, t, 0)" using c(2) ov by (auto simp: set_map_filter rows good_branch_def mealy_branch_def)
  qed
  moreover have "map_of (my_items ?my) m = Some (List.map_filter ?br rows)"
  proof -
    have "(ctrl_id spec m iv, m, iv) \<in> set (gg_ctrl_meta g)" using spec_game_meta(1) [OF g] b(1,2) by blast
    then show ?thesis using c(1) unfolding mealy_single_def Let_def rows_def
      by (simp add: map_of_map_restrict restrict_map_def) force
  qed
  moreover have "t < 2 ^ my_n_mon ?my" using b(3) spec_game_meta(4) [OF g] by (simp add: mealy_single_def Let_def)
  moreover have "my_n_mode ?my = None" by (simp add: mealy_single_def Let_def)
  ultimately show ?thesis by (simp add: mealy_step_def)
qed

lemma le_ceil_log2: "n \<le> 2 ^ ceil_log2 n"
proof (induction n rule: ceil_log2.induct)
  case (1 n)
  show ?case
  proof (cases "n \<le> 1")
    case False
    then have "Suc n div 2 \<le> 2 ^ ceil_log2 (Suc n div 2)" using 1 by simp
    then show ?thesis using False by (subst ceil_log2.simps) simp
  qed (simp add: ceil_log2.simps)
qed

lemma selector:
  fixes mv :: nat
  assumes "mv < 2 ^ n"
  shows "or (push_bit n j) mv = j * 2 ^ n + mv"
proof -
  have "\<not> bit mv i" if "n \<le> i" for i
  proof -
    have "mv < 2 ^ i" by (rule less_le_trans [OF assms power_increasing]) (use that in simp_all)
    then show ?thesis by (simp add: bit_iff_odd)
  qed
  then have "and (push_bit n j) mv = 0" by (intro bit_eqI) (auto simp: bit_simps)
  then have "push_bit n j + mv = or (push_bit n j) mv" by (rule disjunctive_add_eq_or)
  then show ?thesis by (simp add: push_bit_eq_mult)
qed

lemma selector_inj:
  fixes m m' :: nat
  assumes "j * 2 ^ n + m = j' * 2 ^ n + m'" "m < 2 ^ n" "m' < 2 ^ n"
  shows "j = j' \<and> m = m'"
  using arg_cong [OF assms(1), of "\<lambda>x. x div 2 ^ n"] arg_cong [OF assms(1), of "\<lambda>x. x mod 2 ^ n"] assms(2,3) by simp

lemma mealy_multi_step:
  assumes g: "spec_game spec g" and b: "m < mon_states spec" "iv < in_vals spec" "t < mon_states spec"
    and j: "j < ms_n_modes ms" "j' < ms_n_modes ms"
    and c: "bit_is_set z (ctrl_id spec m iv)" "ms_moves ms (ctrl_id spec m iv, j) = Some (t, j')"
    and ov: "good_branch spec g m iv t ov"
  shows "mealy_step (mealy_multi g z ms) (j, m) iv = (ov, j', t)"
proof -
  let ?my = "mealy_multi g z ms"
  define n where "n = max (gg_n_monitors g) 1"
  define c_of where "c_of = map_of (map (\<lambda>(c, mv, iv). ((mv, iv), c)) (gg_ctrl_meta g))"
  define h where "h j mv iv = (case c_of (mv, iv) of None \<Rightarrow> None
       | Some c \<Rightarrow> if \<not> bit_is_set z c then None
           else map_option (\<lambda>(t, next_j). mealy_branch g mv c iv t next_j) (ms_moves ms (c, j)))" for j mv iv
  define br where "br j mv = List.map_filter (h j mv) [0..<in_vals spec]" for j mv
  note meta = spec_game_meta [OF g]
  have mn: "mv < 2 ^ n" if "mv < mon_states spec" for mv using meta(4) that by (simp add: n_def)
  have modes: "max (ms_n_modes ms) 1 = ms_n_modes ms" using j(1) by simp
  have my: "my_n_mon ?my = n" "my_n_mode ?my = Some (max (ceil_log2 (ms_n_modes ms)) 1)"
      "my_items ?my = filter (\<lambda>(sel, bs). bs \<noteq> []) (map (\<lambda>(j, mv). (or (push_bit n j) mv, br j mv))
         (List.product [0..<ms_n_modes ms] [0..<mon_states spec]))"
    unfolding mealy_multi_def Let_def n_def br_def h_def c_of_def meta(3,5) modes by simp_all
  have cof: "c_of (m, iv) = Some (ctrl_id spec m iv)"
    unfolding c_of_def by (rule map_of_unique) (use meta(1) b(1,2) in force)+
  have h: "h j m iv = Some (iv, ov, t, j')" using cof c ov by (simp add: h_def good_branch_def)
  have key: "k = x" if "h j m x = Some (k, w)" for x k w
    using that by (auto simp: h_def mealy_branch_def split: option.splits if_splits)
  have bs: "map_of (br j m) iv = Some (ov, t, j')"
    unfolding br_def by (rule map_of_unique) (use b(2) h key in \<open>force simp: set_map_filter\<close>)+
  have "map_of (my_items ?my) (j * 2 ^ n + m) = Some (br j m)"
  proof (rule map_of_unique)
    have "br j m \<noteq> []" using bs by auto
    then show "(j * 2 ^ n + m, br j m) \<in> set (my_items ?my)"
      unfolding my(3) using b(1) j(1) selector [OF mn [OF b(1)], of j, symmetric]
      unfolding set_filter set_map by (intro CollectI conjI image_eqI [of _ _ "(j, m)"]) auto
    fix w assume "(j * 2 ^ n + m, w) \<in> set (my_items ?my)"
    then obtain j1 m1 where 1: "m1 < mon_states spec" "or (push_bit n j1) m1 = j * 2 ^ n + m" "w = br j1 m1"
      unfolding my(3) by auto
    then show "w = br j m" using selector [OF mn [OF 1(1)], of j1] selector_inj [OF _ mn [OF 1(1)] mn [OF b(1)], of j1 j] by simp
  qed
  moreover have "j' < 2 ^ max (ceil_log2 (ms_n_modes ms)) 1"
    by (rule less_le_trans [OF j(2) order_trans [OF le_ceil_log2 power_increasing]]) simp_all
  ultimately show ?thesis using bs mn [OF b(3)] by (simp add: mealy_step_def my(1,2))
qed

subsection \<open>Running the machine\<close>

text \<open>On the states of a region the machine plays moves that stay in the region.\<close>

definition machine_plays :: "gr1_spec \<Rightarrow> mealy \<Rightarrow> nat set \<Rightarrow> nat \<Rightarrow> (nat \<times> nat \<rightharpoonup> nat \<times> nat) \<Rightarrow> bool" where
  "machine_plays spec my Z J moves \<longleftrightarrow> 0 \<in> Z \<and> 0 < J \<and>
     (\<forall>m iv j. m \<in> Z \<longrightarrow> m < mon_states spec \<longrightarrow> iv < in_vals spec \<longrightarrow> j < J \<longrightarrow>
       (\<exists>t j' ov. moves (ctrl_id spec m iv, j) = Some (t, j') \<and> t \<in> Z \<and> t < mon_states spec \<and> j' < J
          \<and> ov < out_vals spec \<and> move_to spec m iv ov = t \<and> mealy_step my (j, m) iv = (ov, j', t)))"

definition mode_at :: "mealy \<Rightarrow> (nat \<Rightarrow> nat) \<Rightarrow> nat \<Rightarrow> nat" where
  "mode_at my u i = fst (mealy_after my (map u [0..<i]))"

lemma machine_run:
  assumes mp: "machine_plays spec my Z J moves" and u: "\<And>i. u i < in_vals spec"
  shows "mealy_after my (map u [0..<i]) = (mode_at my u i, monitor spec (trace_of (mealy_output my) u) i)
    \<and> monitor spec (trace_of (mealy_output my) u) i \<in> Z \<and> mode_at my u i < J"
proof (induction i)
  case 0
  then show ?case using mp by (simp add: machine_plays_def mealy_after_def mode_at_def)
next
  case (Suc i)
  let ?w = "trace_of (mealy_output my) u"
  let ?m = "monitor spec ?w i" and ?j = "mode_at my u i"
  have "?m \<in> Z" "?m < mon_states spec" "u i < in_vals spec" "?j < J" using Suc u by simp_all
  then obtain t j' ov where t: "t \<in> Z" "t < mon_states spec" "j' < J" "move_to spec ?m (u i) ov = t"
      "mealy_step my (?j, ?m) (u i) = (ov, j', t)"
    using mp unfolding machine_plays_def by blast
  have "mealy_step my (mealy_after my (map u [0..<i])) (u i) = (ov, j', t)" using Suc t(5) by simp
  then have st: "mealy_after my (map u [0..<Suc i]) = (j', t)" "snd (?w i) = ov"
    unfolding mealy_after_Suc trace_of_def mealy_output_Suc by simp_all
  have "t \<noteq> bad_id spec" using mon_less_bad [OF t(2)] by simp
  then have "monitor spec ?w (Suc i) = t" using safe_move [of spec ?m "u i" ov] t(4) st(2) by simp
  then show ?case using st(1) t(1,3) by (simp add: mode_at_def)
qed

lemma machine_round:
  assumes mp: "machine_plays spec my Z J moves" and u: "\<And>i. u i < in_vals spec"
  defines "w \<equiv> trace_of (mealy_output my) u"
  shows "moves (ctrl_id spec (monitor spec w i) (u i), mode_at my u i) = Some (monitor spec w (Suc i), mode_at my u (Suc i))"
    and "snd (w i) < out_vals spec" and "safe_round spec w i"
    and "monitor spec w (Suc i) = move_to spec (monitor spec w i) (u i) (snd (w i))"
proof -
  let ?m = "monitor spec w i" and ?j = "mode_at my u i"
  have run: "mealy_after my (map u [0..<i]) = (mode_at my u i, monitor spec w i)" "monitor spec w i \<in> Z" "mode_at my u i < J"
    and run': "mealy_after my (map u [0..<Suc i]) = (mode_at my u (Suc i), monitor spec w (Suc i))" for i
    using machine_run [OF mp, of u] u unfolding w_def by blast+
  obtain t j' ov where t: "moves (ctrl_id spec ?m (u i), ?j) = Some (t, j')" "t < mon_states spec" "ov < out_vals spec"
      "move_to spec ?m (u i) ov = t" "mealy_step my (?j, ?m) (u i) = (ov, j', t)"
    using mp run(2,3) u unfolding machine_plays_def by (metis monitor_less)
  have "mealy_step my (mealy_after my (map u [0..<i])) (u i) = (ov, j', t)" using run(1) t(5) by simp
  then have "mealy_after my (map u [0..<Suc i]) = (j', t)" and ov: "snd (w i) = ov"
    unfolding mealy_after_Suc w_def trace_of_def mealy_output_Suc by simp_all
  then have st: "mode_at my u (Suc i) = j'" "monitor spec w (Suc i) = t" using run' [of i] by simp_all
  show "moves (ctrl_id spec ?m (u i), ?j) = Some (monitor spec w (Suc i), mode_at my u (Suc i))" using t(1) st by simp
  show "snd (w i) < out_vals spec" "monitor spec w (Suc i) = move_to spec ?m (u i) (snd (w i))"
    unfolding ov using t(3,4) st by simp_all
  have "t \<noteq> bad_id spec" using mon_less_bad [OF t(2)] by simp
  then show "safe_round spec w i" using safe_move [of spec ?m "u i" ov] t(4) ov unfolding safe_round_def by (simp add: w_def)
qed

lemma machine_follows:
  assumes g: "spec_game spec g" and mp: "machine_plays spec my Z J moves" and u: "\<And>i. u i < in_vals spec"
  defines "p \<equiv> play spec (trace_of (mealy_output my) u)" and "md \<equiv> \<lambda>k. mode_at my u (k div 2)"
  shows "p (Suc k) \<in> game_moves (gg_clts g) (p k)"
    and "if eve_owned (gg_clts g) (p k) then moves (p k, md k) = Some (p (Suc k), md (Suc k)) else md (Suc k) = md k"
proof -
  note ar = spec_game_arena [OF g]
  note round = machine_round [where my = my and u = u, OF mp u]
  let ?m = "monitor spec (trace_of (mealy_output my) u)"
  have "p (Suc k) \<in> game_moves (gg_clts g) (p k) \<and>
      (if eve_owned (gg_clts g) (p k) then moves (p k, md k) = Some (p (Suc k), md (Suc k)) else md (Suc k) = md k)"
  proof (cases "even k")
    case True
    then obtain i where k: "k = 2 * i" by (auto elim!: evenE)
    then have "p k = ?m i" "p (Suc k) = ctrl_id spec (?m i) (u i)" "md (Suc k) = md k" by (simp_all add: p_def md_def)
    then show ?thesis using ar(1,2) [OF monitor_less] u by simp
  next
    case False
    then obtain i where k: "k = Suc (2 * i)" by (auto elim!: oddE)
    have "p k = ctrl_id spec (?m i) (u i)" "md k = mode_at my u i" "md (Suc k) = mode_at my u (Suc i)"
      using k by (simp_all add: p_def md_def)
    moreover have "p (Suc k) = ?m (Suc i)" using k play_simps(1) [of spec _ "Suc i"] by (simp add: p_def)
    moreover have "?m (Suc i) \<in> game_moves (gg_clts g) (ctrl_id spec (?m i) (u i))"
      unfolding round(4) [of i] ar(4) [OF monitor_less u] using round(2) [of i] by blast
    ultimately show ?thesis using ar(3) [OF monitor_less u] round(1) [of i] by simp
  qed
  then show "p (Suc k) \<in> game_moves (gg_clts g) (p k)"
    and "if eve_owned (gg_clts g) (p k) then moves (p k, md k) = Some (p (Suc k), md (Suc k)) else md (Suc k) = md k"
    by blast+
qed

lemma machine_realizes:
  assumes g: "spec_game spec g" and "fair_over_inputs spec" and mp: "machine_plays spec my Z J moves"
    and goal: "\<And>u. (\<And>i. u i < in_vals spec) \<Longrightarrow> game_goal g (play spec (trace_of (mealy_output my) u))"
  shows "realizes spec (mealy_output my)"
  unfolding realizes_def
proof (intro allI impI)
  fix u :: "nat \<Rightarrow> nat" assume "\<forall>i. u i < in_vals spec"
  then have u: "\<And>i. u i < in_vals spec" by blast
  let ?w = "trace_of (mealy_output my) u"
  have "\<forall>i. safe_round spec ?w i" using machine_round(3) [where my = my and u = u, OF mp u] by blast
  moreover have "((\<forall>a\<in>set (gs_env_fair spec). fair_sat spec ?w a) \<longrightarrow> (\<forall>r\<in>set (gs_responses spec). response_sat spec ?w r))"
    using play_goal [OF assms(1,2), of ?w] goal [OF u] u by simp
  moreover have "\<forall>i. mealy_output my (map u [0..<Suc i]) < out_vals spec"
    using machine_round(2) [where my = my and u = u, OF mp u] by (simp add: trace_of_def)
  ultimately show "(\<forall>i. mealy_output my (map u [0..<Suc i]) < out_vals spec) \<and> spec_sat spec ?w"
    unfolding spec_sat_def safe_rounds_iff by blast
qed

subsection \<open>The machines of the extracted strategies\<close>

lemma region_round:
  assumes g: "spec_game spec g" and safe: "bset z \<subseteq> bset (gg_safe g)" and m: "m < mon_states spec" and iv: "iv < in_vals spec"
  shows "game_moves (gg_clts g) m \<subseteq> bset z \<Longrightarrow> ctrl_id spec m iv \<in> bset z"
    and "t \<in> game_moves (gg_clts g) (ctrl_id spec m iv) \<Longrightarrow> t \<in> bset z \<Longrightarrow> t < mon_states spec"
proof -
  note ar = spec_game_arena [OF g]
  show "game_moves (gg_clts g) m \<subseteq> bset z \<Longrightarrow> ctrl_id spec m iv \<in> bset z" using ar(2) [OF m] iv by auto
  show "t \<in> game_moves (gg_clts g) (ctrl_id spec m iv) \<Longrightarrow> t \<in> bset z \<Longrightarrow> t < mon_states spec"
    using ar(4) [OF m iv] ar(5) safe move_to_cases [of spec m iv] by (metis imageE lessThan_iff less_irrefl subsetD)
qed

lemma modes_machine:
  assumes g: "spec_game spec g" and safe: "bset z \<subseteq> bset (gg_safe g)" and 0: "0 \<in> bset z" "0 < ms_n_modes ms"
    and stays: "stays_in_modes (gg_clts g) ms (bset z)"
  shows "machine_plays spec (mealy_multi g z ms) (bset z) (ms_n_modes ms) (ms_moves ms)"
  unfolding machine_plays_def
proof (intro conjI allI impI)
  fix m iv j assume m: "m \<in> bset z" "m < mon_states spec" and iv: "iv < in_vals spec" and j: "j < ms_n_modes ms"
  note ar = spec_game_arena [OF g] and round = region_round [OF g safe m(2) iv]
  have c: "ctrl_id spec m iv \<in> bset z" using stays m j ar(1) [OF m(2)] by (intro round(1)) (auto simp: stays_in_modes_def)
  then obtain t j' where t: "t \<in> game_moves (gg_clts g) (ctrl_id spec m iv)" "j' < ms_n_modes ms"
      "ms_moves ms (ctrl_id spec m iv, j) = Some (t, j')" "t \<in> bset z"
    using stays j ar(3) [OF m(2) iv] unfolding stays_in_modes_def by force
  have tM: "t < mon_states spec" by (rule round(2) [OF t(1,4)])
  obtain ov where ov: "good_branch spec g m iv t ov" by (rule branch_found [OF g m(2) iv tM t(1)])
  have "bit_is_set z (ctrl_id spec m iv)" using c by (simp add: bit_is_set_def mem_bset_iff)
  from mealy_multi_step [OF g m(2) iv tM j t(2) this t(3) ov] t(2-4) tM ov
  show "\<exists>t j' ov. ms_moves ms (ctrl_id spec m iv, j) = Some (t, j') \<and> t \<in> bset z \<and> t < mon_states spec \<and> j' < ms_n_modes ms
      \<and> ov < out_vals spec \<and> move_to spec m iv ov = t \<and> mealy_step (mealy_multi g z ms) (j, m) iv = (ov, j', t)"
    by (auto simp: good_branch_def)
qed (use 0 in simp_all)

lemma single_machine:
  assumes g: "spec_game spec g" and safe: "bset z \<subseteq> bset (gg_safe g)" and 0: "0 \<in> bset z"
    and stays: "stays_in (gg_clts g) strat (bset z)"
  shows "machine_plays spec (mealy_single g z strat) (bset z) 1 (\<lambda>(c, j). map_option (\<lambda>t. (t, 0)) (strat c))"
  unfolding machine_plays_def
proof (intro conjI allI impI)
  fix m iv and j :: nat assume m: "m \<in> bset z" "m < mon_states spec" and iv: "iv < in_vals spec" and j: "j < 1"
  note ar = spec_game_arena [OF g] and round = region_round [OF g safe m(2) iv]
  have c: "ctrl_id spec m iv \<in> bset z" using stays m ar(1) [OF m(2)] by (intro round(1)) (auto simp: stays_in_def)
  then obtain t where t: "t \<in> game_moves (gg_clts g) (ctrl_id spec m iv)" "strat (ctrl_id spec m iv) = Some t" "t \<in> bset z"
    using stays ar(3) [OF m(2) iv] unfolding stays_in_def by force
  have tM: "t < mon_states spec" by (rule round(2) [OF t(1,3)])
  obtain ov where ov: "good_branch spec g m iv t ov" by (rule branch_found [OF g m(2) iv tM t(1)])
  have "bit_is_set z (ctrl_id spec m iv)" using c by (simp add: bit_is_set_def mem_bset_iff)
  from mealy_single_step [where strat = strat, OF g m(2) iv tM this t(2) ov] t(2,3) tM ov j
  show "\<exists>t j' ov. (\<lambda>(c, j). map_option (\<lambda>t. (t, 0)) (strat c)) (ctrl_id spec m iv, j) = Some (t, j') \<and> t \<in> bset z
      \<and> t < mon_states spec \<and> j' < 1 \<and> ov < out_vals spec \<and> move_to spec m iv ov = t
      \<and> mealy_step (mealy_single g z strat) (j, m) iv = (ov, j', t)"
    by (auto simp: good_branch_def)
qed (use 0 in simp_all)

lemma spec_game_lengths:
  assumes "spec_game spec g"
  shows "length (gg_sys_fair g) = length (gs_responses spec)" "length (gg_env_fair g) = length (gs_env_fair spec)"
proof -
  have "map bset (gg_sys_fair g) = map (\<lambda>j. {m. m < mon_states spec \<and> \<not> bit m (n_ts spec + j)}) [0..<length (gs_responses spec)]"
    "map bset (gg_env_fair g) = map (\<lambda>p. {ctrl_id spec m iv | m iv.
          m < mon_states spec \<and> iv < in_vals spec \<and> eval_prop p (signal_val spec iv 0)}) (gs_env_fair spec)"
    using assms by (simp_all add: spec_game_def)
  from this [THEN arg_cong, of length]
  show "length (gg_sys_fair g) = length (gs_responses spec)" "length (gg_env_fair g) = length (gs_env_fair spec)" by simp_all
qed

lemma adam_enters_no_guarantee:
  assumes g: "spec_game spec g" and safe: "bset z \<subseteq> bset (gg_safe g)"
    and s: "s \<in> bset z" "\<not> eve_owned (gg_clts g) s" "t \<in> game_moves (gg_clts g) s" and G: "G \<in> set (gg_sys_fair g)"
  shows "t \<notin> bset G"
proof -
  note ar = spec_game_arena [OF g]
  have "s < bad_id spec" using safe s(1) ar(5) by auto
  then have "s < mon_states spec"
    by (cases rule: states_cases [OF less_imp_le]) (use s(2) ar(3) in auto)
  then have "mon_states spec \<le> t" using s(3) ar(2) by (auto simp: ctrl_id_def)
  moreover have "bset G \<in> set (map bset (gg_sys_fair g))" using G by simp
  then have "bset G \<subseteq> {..<mon_states spec}" using g unfolding spec_game_def by auto
  ultimately show ?thesis by auto
qed

text \<open>The two kinds of controllers, on the winning region of the game.\<close>

lemma single_controller:
  assumes g: "spec_game spec g" and fair: "fair_over_inputs spec" and k: "state_count (gg_clts g) < k"
    and z: "length z = state_count (gg_clts g)" "bset z = game_region g" "0 \<in> bset z"
    and gs: "gg_sys_fair g = [] \<or> (\<exists>G. gg_sys_fair g = [G] \<and> gg_env_fair g = [])"
    and goal: "G = (if gg_sys_fair g = [] then z else hd (gg_sys_fair g))"
  shows "\<exists>strat. gr1_strategy_single k (gg_clts g) z G = Ok strat \<and> realizes spec (mealy_output (mealy_single g z strat))"
proof -
  let ?c = "gg_clts g"
  have sz: "sized ?c (gg_safe g # gg_sys_fair g)" using g by (auto simp: spec_game_def sized_def)
  have l: "length (gg_sys_fair g) \<le> 1" using gs by auto
  have Z: "bset z = gr1_set (cpre_set ?c (bset (gg_safe g))) (fair_sets (state_count ?c) (gg_sys_fair g)) {{..<state_count ?c}}"
    using z(2) gs cp.gr1_no_goal [OF _ cpre_set_subset(2), of _ ?c "bset (gg_safe g)"] by (auto simp: game_region_def fair_sets_def)
  obtain strat where st: "gr1_strategy_single k ?c z G = Ok strat" "bset z \<subseteq> bset (gg_safe g)"
      "stays_in ?c strat (bset z)" "\<And>p. p 0 \<in> bset z \<Longrightarrow> follows ?c strat p \<Longrightarrow> inf_often (bset G) p"
    using single_region_wins [OF k sz l z(1) Z goal] by blast
  let ?my = "mealy_single g z strat"
  note mp = single_machine [OF g st(2) z(3) st(3)]
  have "game_goal g (play spec (trace_of (mealy_output ?my) u))" if u: "\<And>i. u i < in_vals spec" for u
  proof -
    let ?p = "play spec (trace_of (mealy_output ?my) u)"
    note f = machine_follows [where my = ?my and u = u, OF g mp u]
    have "strat (?p i) = Some (?p (Suc i))" if "eve_owned ?c (?p i)" for i using f(2) [of i] that by auto
    then have "follows ?c strat ?p" using f(1) by (simp add: follows_def)
    then have "inf_often (bset G) ?p" using z(3) by (intro st(4)) (simp_all add: play_def)
    then show ?thesis using gs goal by (auto simp: gr1_goal_def)
  qed
  from machine_realizes [OF g fair mp this] st(1) show ?thesis by blast
qed

lemma modes_controller:
  assumes g: "spec_game spec g" and fair: "fair_over_inputs spec" and k: "state_count (gg_clts g) < k"
    and z: "length z = state_count (gg_clts g)" "bset z = game_region g" "0 \<in> bset z"
    and gs: "gg_sys_fair g \<noteq> []" "length (gg_env_fair g) \<le> 1"
  shows "\<exists>ms. gr1_strategy_multi k (gg_clts g) (gg_safe g) z (gg_sys_fair g) (gg_env_fair g) = Ok ms
    \<and> realizes spec (mealy_output (mealy_multi g z ms))"
proof -
  let ?c = "gg_clts g"
  have sz: "sized ?c (gg_safe g # gg_sys_fair g @ gg_env_fair g)" using g by (simp add: spec_game_def)
  have Z: "bset z = gr1_set (cpre_set ?c (bset (gg_safe g))) (bset ` set (gg_sys_fair g)) (fair_sets (state_count ?c) (gg_env_fair g))"
    using z(2) gs(1) by (simp add: game_region_def fair_sets_def)
  have "bset z \<subseteq> cpre_set ?c (bset (gg_safe g)) (bset z)"
    unfolding Z by (rule region_closed) (use gs(1) in \<open>auto simp: fair_sets_def\<close>)
  then have safe: "bset z \<subseteq> bset (gg_safe g)" using cpre_set_subset(1) by blast
  obtain ms where ms: "gr1_strategy_multi k ?c (gg_safe g) z (gg_sys_fair g) (gg_env_fair g) = Ok ms"
      "ms_n_modes ms = length (gg_sys_fair g)" "stays_in_modes ?c ms (bset z)"
      "\<And>p md. p 0 \<in> bset z \<Longrightarrow> md 0 < length (gg_sys_fair g) \<Longrightarrow> follows_modes ?c ms p md \<Longrightarrow> game_goal g p"
    using mode_strategy_wins [OF k sz gs z(1) Z] adam_enters_no_guarantee [OF g safe] by (metis (full_types))
  let ?my = "mealy_multi g z ms"
  have mp: "machine_plays spec ?my (bset z) (ms_n_modes ms) (ms_moves ms)"
    by (rule modes_machine [OF g safe z(3) _ ms(3)]) (use gs(1) ms(2) in simp)
  have "game_goal g (play spec (trace_of (mealy_output ?my) u))" if u: "\<And>i. u i < in_vals spec" for u
  proof (rule ms(4) [where md = "\<lambda>k. mode_at ?my u (k div 2)"])
    show "follows_modes ?c ms (play spec (trace_of (mealy_output ?my) u)) (\<lambda>k. mode_at ?my u (k div 2))"
      using machine_follows [where my = ?my and u = u, OF g mp u] unfolding follows_modes_def by blast
    show "mode_at ?my u (0 div 2) < length (gg_sys_fair g)" using gs(1) by (simp add: mode_at_def mealy_after_def)
  qed (use z(3) in \<open>simp add: play_def\<close>)
  from machine_realizes [OF g fair mp this] ms(1) show ?thesis by blast
qed

lemma gr1_controller_realizes:
  assumes g: "spec_game spec g" and fair: "fair_over_inputs spec" and k: "state_count (gg_clts g) < k"
    and z: "length z = state_count (gg_clts g)" "bset z = game_region g" "0 \<in> bset z"
    and one: "length (gs_responses spec) = 1 \<Longrightarrow> gs_env_fair spec = []"
    and many: "2 \<le> length (gs_responses spec) \<Longrightarrow> length (gs_env_fair spec) \<le> 1"
  shows "\<exists>my notes. gr1_controller k modname g z = Ok (mealy_sv modname g my, notes) \<and> realizes spec (mealy_output my)"
proof -
  note len = spec_game_lengths [OF g]
  consider "gg_sys_fair g = []" | G where "gg_sys_fair g = [G]" | G G' gs where "gg_sys_fair g = G # G' # gs"
    by (cases "gg_sys_fair g"; cases "tl (gg_sys_fair g)") auto
  then show ?thesis
  proof cases
    case 1
    then obtain strat where "gr1_strategy_single k (gg_clts g) z z = Ok strat" "realizes spec (mealy_output (mealy_single g z strat))"
      using single_controller [OF g fair k z, of z] by auto
    then show ?thesis using 1 by (intro exI [of _ "mealy_single g z strat"]) (simp add: gr1_controller_def emit_mealy_sv_def)
  next
    case 2
    have "length (gs_responses spec) = 1" unfolding len(1) [symmetric] 2 by simp
    from one [OF this] have "gg_env_fair g = []" using len(2) by simp
    then have "gg_sys_fair g = [] \<or> (\<exists>G. gg_sys_fair g = [G] \<and> gg_env_fair g = [])" using 2 by blast
    moreover have "G = (if gg_sys_fair g = [] then z else hd (gg_sys_fair g))" unfolding 2 by simp
    ultimately obtain strat where "gr1_strategy_single k (gg_clts g) z G = Ok strat"
        "realizes spec (mealy_output (mealy_single g z strat))"
      using single_controller [OF g fair k z] by blast
    then show ?thesis using 2 by (intro exI [of _ "mealy_single g z strat"]) (simp add: gr1_controller_def emit_mealy_sv_def)
  next
    case 3
    have "2 \<le> length (gs_responses spec)" unfolding len(1) [symmetric] 3 by simp
    from many [OF this] have "length (gg_env_fair g) \<le> 1" unfolding len(2) .
    then obtain ms where "gr1_strategy_multi k (gg_clts g) (gg_safe g) z (gg_sys_fair g) (gg_env_fair g) = Ok ms"
        "realizes spec (mealy_output (mealy_multi g z ms))"
      using 3 modes_controller [OF g fair k z] by auto
    then show ?thesis using 3 by (intro exI [of _ "mealy_multi g z ms"]) (simp add: gr1_controller_def emit_mealy_sv_multi_def)
  qed
qed



end
