(* ===== verification/Minimize.thy ===== *)
theory Minimize
  imports Clts
begin

section \<open>Minimization by strong bisimulation\<close>

text \<open>
  Models \<^verbatim>\<open>composition/minimize.rs\<close>: partition refinement from one block by the signatures of the states, and
  the quotient that is built from the representatives of the final blocks, with its report. The order of
  transition signatures, first the block and then the labels, is the lexicographic order of the list that puts
  the block before the labels.
\<close>

definition state_variables :: "clts \<Rightarrow> nat \<Rightarrow> string list" where
  "state_variables c s = st_sets (c_variables c) ! (c_state_variables c ! s)"

definition state_variable_bits :: "clts \<Rightarrow> nat \<Rightarrow> bitvec" where
  "state_variable_bits c s = st_bitsets (c_variables c) ! (c_state_variables c ! s)"

type_synonym transition_signature = "nat \<times> nat list"

definition transition_signature :: "nat list \<Rightarrow> transition \<Rightarrow> transition_signature" where
  "transition_signature blocks t = (blocks ! t_target t, sort (t_labels t))"

definition state_signature :: "clts \<Rightarrow> nat list \<Rightarrow> nat \<Rightarrow> bitvec \<times> transition_signature list" where
  "state_signature c blocks s =
     (state_variable_bits c s,
      remdups_adj (sort_key (\<lambda>(b, ls). b # ls) (map (transition_signature blocks) (outgoing c s))))"

fun block_ids :: "('s \<times> nat) list \<Rightarrow> nat \<Rightarrow> 's list \<Rightarrow> nat list" where
  \<comment> \<open>\<open>sig_map.entry(signature).or_insert_with(next_id)\<close> for the states in order\<close>
  "block_ids sig_map next_id [] = []"
| "block_ids sig_map next_id (x # xs) =
     (case map_of sig_map x of
        Some i \<Rightarrow> i # block_ids sig_map next_id xs
      | None \<Rightarrow> next_id # block_ids ((x, next_id) # sig_map) (next_id + 1) xs)"

definition refine_once :: "clts \<Rightarrow> nat list \<Rightarrow> nat list" where
  "refine_once c blocks = block_ids [] 0 (map (state_signature c blocks) [0..<state_count c])"

fun refine_loop :: "nat \<Rightarrow> clts \<Rightarrow> nat list \<Rightarrow> (clts_error, nat list) res" where
  "refine_loop 0 c blocks = OutOfFuel"
| "refine_loop (Suc k) c blocks =
     (let next_blocks = refine_once c blocks
      in if next_blocks \<noteq> blocks then refine_loop k c next_blocks else Ok blocks)"

definition class_count :: "nat list \<Rightarrow> nat" where
  "class_count blocks = (if blocks = [] then 0 else fold max blocks 0 + 1)"

definition class_info :: "nat list \<Rightarrow> nat list list" where
  "class_info blocks =
     (let class_members = map (\<lambda>k. filter (\<lambda>s. blocks ! s = k) [0..<length blocks]) [0..<class_count blocks]
      in sort_key hd (map sort (filter (\<lambda>members. members \<noteq> []) class_members)))"

definition add_class :: "clts \<Rightarrow> nat list \<Rightarrow> clts_builder \<Rightarrow> (clts_error, nat \<times> clts_builder) res" where
  "add_class c members b =
     (let representative = hd members
      in case state_with_name (c_state_names c ! representative) b of
           (None, b1) \<Rightarrow> Err (IdOverflow ''state'' (2 ^ 64 - 1))
         | (Some new_state, b1) \<Rightarrow>
             (let b2 = (if list_ex (\<lambda>s. s \<in> c_initial_states c) members then initial_state_id new_state b1 else b1);
                  vars = state_variables c representative
              in Ok (new_state, if vars \<noteq> [] then with_variables_for_state new_state vars b2 else b2)))"

fun add_classes :: "clts \<Rightarrow> nat list list \<Rightarrow> clts_builder \<Rightarrow> (clts_error, nat list \<times> clts_builder) res" where
  "add_classes c [] b = Ok ([], b)"
| "add_classes c (members # classes) b =
     rbind (add_class c members b) (\<lambda>(new_state, b1).
       rbind (add_classes c classes b1) (\<lambda>(new_states, b2). Ok (new_state # new_states, b2)))"

fun quotient_edges ::
  "(nat \<rightharpoonup> nat) \<Rightarrow> nat \<Rightarrow> transition list \<Rightarrow> (nat \<times> nat list) list \<Rightarrow> clts_builder \<times> nat \<Rightarrow> clts_builder \<times> nat" where
  \<comment> \<open>the outgoing transitions of one representative, with the keys seen so far\<close>
  "quotient_edges mapping new_source [] seen acc = acc"
| "quotient_edges mapping new_source (t # ts) seen (b, n) =
     (case mapping (t_target t) of
        None \<Rightarrow> quotient_edges mapping new_source ts seen (b, n)
      | Some target_new \<Rightarrow>
          (let key = (target_new, sort (t_labels t))
           in if key \<in> set seen then quotient_edges mapping new_source ts seen (b, n)
              else quotient_edges mapping new_source ts (key # seen)
                     (transition_ids new_source (t_labels t) target_new b, n + 1)))"

record minimization_report =
  mr_states_before :: nat
  mr_states_after :: nat
  mr_transitions_before :: nat
  mr_transitions_after :: nat
  mr_merged_states :: "string list"

definition minimize_bisimulation ::
  "nat \<Rightarrow> clts \<Rightarrow> symbol_builder option \<Rightarrow> (clts_error, (clts \<times> minimization_report) option) res" where
  "minimize_bisimulation k c label_store =
     (if state_count c \<le> 1 then Ok None
      else rbind (refine_loop k c (replicate (state_count c) 0)) (\<lambda>blocks.
        if class_count blocks = state_count c \<or> class_info blocks = [] then Ok None
        else
         (let classes = class_info blocks;
              builder = (case label_store of Some store \<Rightarrow> with_label_store store | None \<Rightarrow> builder_default)
          in rbind (add_classes c classes builder) (\<lambda>(new_states, b1).
             let mapping = map_of (concat (map2 (\<lambda>members ns. map (\<lambda>s. (s, ns)) members) classes new_states));
                 (b2, edges) = fold (\<lambda>(source, new_source). quotient_edges mapping new_source (outgoing c source) [])
                   (zip (map hd classes) new_states) (b1, 0)
             in rbind (builder_build b2) (\<lambda>minimized.
                Ok (Some (minimized,
                  \<lparr>mr_states_before = state_count c, mr_states_after = length new_states,
                   mr_transitions_before = sum_list (map (\<lambda>s. length (outgoing c s)) [0..<state_count c]),
                   mr_transitions_after = edges,
                   mr_merged_states = concat (map (\<lambda>members. map (\<lambda>s. c_state_names c ! s) (tl members)) classes)\<rparr>)))))))"

subsection \<open>Block numbers\<close>

text \<open>Equal signatures get equal numbers, in order of first occurrence.\<close>

lemma block_ids_kernel:
  assumes "inj_on (the \<circ> map_of m) (dom (map_of m))" "\<And>x i. map_of m x = Some i \<Longrightarrow> i < j"
  shows "\<exists>f. inj_on f (set xs \<union> dom (map_of m)) \<and> (\<forall>x i. map_of m x = Some i \<longrightarrow> f x = i) \<and> block_ids m j xs = map f xs"
  using assms
proof (induction xs arbitrary: m j)
  case Nil
  then show ?case by (intro exI [of _ "the \<circ> map_of m"]) auto
next
  case (Cons x xs)
  show ?case
  proof (cases "map_of m x")
    case (Some i)
    then show ?thesis using Cons.IH [OF Cons.prems] by (fastforce simp: insert_absorb domI)
  next
    case None
    let ?m = "(x, j) # m"
    have inj: "inj_on (the \<circ> map_of ?m) (dom (map_of ?m))"
      using Cons.prems None by (force simp: inj_on_def split: if_splits)
    have less: "i < j + 1" if "map_of ?m y = Some i" for y i
      using that Cons.prems(2) [of y i] by (auto split: if_splits)
    obtain f where f: "inj_on f (set xs \<union> dom (map_of ?m))" "\<forall>x i. map_of ?m x = Some i \<longrightarrow> f x = i"
        "block_ids ?m (j + 1) xs = map f xs"
      using Cons.IH [of ?m "j + 1"] inj less by blast
    have "f x = j" using f(2) by simp
    moreover have "f y = i" if "map_of m y = Some i" for y i using f(2) None that by (cases "y = x") auto
    ultimately have "f x = j" "\<forall>y i. map_of m y = Some i \<longrightarrow> f y = i" by blast+
    then show ?thesis using f(1,3) None by (intro exI [of _ f]) (auto simp: insert_commute)
  qed
qed

lemma block_ids_eq_iff:
  "a < length xs \<Longrightarrow> b < length xs \<Longrightarrow> block_ids [] 0 xs ! a = block_ids [] 0 xs ! b \<longleftrightarrow> xs ! a = xs ! b"
  using block_ids_kernel [of "[]" 0 xs] by (auto simp: inj_on_def)

lemma length_block_ids [simp]: "length (block_ids m j xs) = length xs"
  by (induction xs arbitrary: m j) (auto split: option.splits)

lemma map_of_map_key:
  "inj_on f (insert x (fst ` set m)) \<Longrightarrow> map_of (map (\<lambda>(x, i). (f x, i)) m) (f x) = map_of m x"
proof (induction m)
  case (Cons a m)
  have "inj_on f (insert x (fst ` set m))" by (rule inj_on_subset [OF Cons.prems]) auto
  moreover have "f (fst a) = f x \<longleftrightarrow> fst a = x" using Cons.prems by (auto simp: inj_on_def)
  ultimately show ?case using Cons.IH by (cases a) auto
qed simp

lemma block_ids_map:
  "inj_on f (set zs \<union> fst ` set m) \<Longrightarrow> block_ids (map (\<lambda>(x, i). (f x, i)) m) j (map f zs) = block_ids m j zs"
proof (induction zs arbitrary: m j)
  case (Cons z zs)
  have "map_of (map (\<lambda>(x, i). (f x, i)) m) (f z) = map_of m z"
    by (rule map_of_map_key, rule inj_on_subset [OF Cons.prems]) auto
  moreover have "inj_on f (set zs \<union> fst ` set m)" by (rule inj_on_subset [OF Cons.prems]) auto
  moreover have "inj_on f (set zs \<union> fst ` set ((z, j) # m))" by (rule inj_on_subset [OF Cons.prems]) auto
  ultimately show ?case using Cons.IH [of m j] Cons.IH [of "(z, j) # m" "j + 1"] by (auto split: option.splits)
qed simp

lemma block_ids_same_kernel:
  assumes len: "length xs = length ys" and ker: "\<And>a b. a < length xs \<Longrightarrow> b < length xs \<Longrightarrow> xs ! a = xs ! b \<longleftrightarrow> ys ! a = ys ! b"
  shows "block_ids [] 0 xs = block_ids [] 0 ys"
proof -
  let ?zs = "zip xs ys"
  have "inj_on fst (set ?zs)" "inj_on snd (set ?zs)" using len ker by (auto simp: inj_on_def in_set_zip)
  then have "block_ids [] 0 (map fst ?zs) = block_ids [] 0 ?zs" "block_ids [] 0 (map snd ?zs) = block_ids [] 0 ?zs"
    using block_ids_map [of fst ?zs "[]" 0] block_ids_map [of snd ?zs "[]" 0] by simp_all
  then show ?thesis using len by simp
qed


subsection \<open>Signatures\<close>

lemma sorted_set_eq_iff:
  fixes f :: "'a \<Rightarrow> 'b::linorder"
  assumes f: "inj f"
  shows "remdups_adj (sort_key f xs) = remdups_adj (sort_key f ys) \<longleftrightarrow> set xs = set ys"
proof
  assume "remdups_adj (sort_key f xs) = remdups_adj (sort_key f ys)"
  from arg_cong [OF this, of set] show "set xs = set ys" by simp
next
  assume eq: "set xs = set ys"
  have norm: "sorted (map f (remdups_adj (sort_key f zs)))" "distinct (map f (remdups_adj (sort_key f zs)))" for zs
  proof -
    have "map f (remdups_adj (sort_key f zs)) = remdups_adj (map f (sort_key f zs))"
      by (simp add: remdups_adj_map_injective [OF f])
    moreover have "sorted (remdups_adj (map f (sort_key f zs)))" by (simp add: sorted_remdups_adj)
    ultimately show "sorted (map f (remdups_adj (sort_key f zs)))" "distinct (map f (remdups_adj (sort_key f zs)))"
      using sorted_distinct_adj [of "remdups_adj (map f (sort_key f zs))"] by simp_all
  qed
  have "map f (remdups_adj (sort_key f xs)) = map f (remdups_adj (sort_key f ys))"
    by (rule sorted_distinct_set_unique [OF norm norm]) (simp add: eq)
  then show "remdups_adj (sort_key f xs) = remdups_adj (sort_key f ys)" using f by (simp add: inj_map_eq_map)
qed

lemma state_signature_eq_iff:
  "state_signature c p s = state_signature c p t \<longleftrightarrow> state_variable_bits c s = state_variable_bits c t
     \<and> transition_signature p ` set (outgoing c s) = transition_signature p ` set (outgoing c t)"
proof -
  have "inj (\<lambda>(b, ls). b # ls :: nat list)" by (auto simp: inj_def)
  from sorted_set_eq_iff [OF this] show ?thesis by (simp add: state_signature_def)
qed

subsection \<open>Bisimilarity\<close>

definition bisimulation :: "clts \<Rightarrow> (nat \<times> nat) set \<Rightarrow> bool" where
  "bisimulation c R \<longleftrightarrow> (\<forall>(s, t)\<in>R. s < state_count c \<and> t < state_count c
     \<and> state_variable_bits c s = state_variable_bits c t
     \<and> (\<forall>e\<in>set (outgoing c s). \<exists>e'\<in>set (outgoing c t). sort (t_labels e') = sort (t_labels e) \<and> (t_target e, t_target e') \<in> R)
     \<and> (\<forall>e'\<in>set (outgoing c t). \<exists>e\<in>set (outgoing c s). sort (t_labels e) = sort (t_labels e') \<and> (t_target e, t_target e') \<in> R))"

definition bisimilar :: "clts \<Rightarrow> nat \<Rightarrow> nat \<Rightarrow> bool" where
  "bisimilar c s t \<longleftrightarrow> (\<exists>R. bisimulation c R \<and> (s, t) \<in> R)"

definition coarse :: "clts \<Rightarrow> nat list \<Rightarrow> bool" where
  \<comment> \<open>bisimilar states are in the same block\<close>
  "coarse c p \<longleftrightarrow> (\<forall>s t. bisimilar c s t \<longrightarrow> p ! s = p ! t)"

definition finer :: "nat \<Rightarrow> nat list \<Rightarrow> nat list \<Rightarrow> bool" where
  "finer n p' p \<longleftrightarrow> (\<forall>s<n. \<forall>t<n. p' ! s = p' ! t \<longrightarrow> p ! s = p ! t)"

lemma refine_once_eq_iff:
  assumes "s < state_count c" "t < state_count c"
  shows "refine_once c p ! s = refine_once c p ! t \<longleftrightarrow> state_signature c p s = state_signature c p t"
  using assms block_ids_eq_iff [of s "map (state_signature c p) [0..<state_count c]" t] by (simp add: refine_once_def)

lemma bisimilar_signature:
  assumes "coarse c p" "bisimilar c s t"
  shows "s < state_count c" "t < state_count c" "state_signature c p s = state_signature c p t"
proof -
  obtain R where R: "bisimulation c R" "(s, t) \<in> R" using assms(2) by (auto simp: bisimilar_def)
  have blk: "p ! t_target e = p ! t_target e'" if "(t_target e, t_target e') \<in> R" for e e'
    using that R(1) assms(1) by (auto simp: coarse_def bisimilar_def)
  have st: "s < state_count c \<and> t < state_count c \<and> state_variable_bits c s = state_variable_bits c t"
      "\<And>e. e \<in> set (outgoing c s) \<Longrightarrow> \<exists>e'\<in>set (outgoing c t). sort (t_labels e') = sort (t_labels e) \<and> (t_target e, t_target e') \<in> R"
      "\<And>e'. e' \<in> set (outgoing c t) \<Longrightarrow> \<exists>e\<in>set (outgoing c s). sort (t_labels e) = sort (t_labels e') \<and> (t_target e, t_target e') \<in> R"
    using R unfolding bisimulation_def by blast+
  have "transition_signature p ` set (outgoing c s) = transition_signature p ` set (outgoing c t)"
  proof (rule set_eqI, rule iffI)
    fix x assume "x \<in> transition_signature p ` set (outgoing c s)"
    then obtain e where e: "e \<in> set (outgoing c s)" "x = transition_signature p e" by blast
    from st(2) [OF e(1)] obtain e' where "e' \<in> set (outgoing c t)" "sort (t_labels e') = sort (t_labels e)" "(t_target e, t_target e') \<in> R" by blast
    moreover from this(3) have "p ! t_target e = p ! t_target e'" by (rule blk)
    ultimately show "x \<in> transition_signature p ` set (outgoing c t)"
      unfolding e(2) by (intro image_eqI [of _ _ e']) (simp_all add: transition_signature_def)
  next
    fix x assume "x \<in> transition_signature p ` set (outgoing c t)"
    then obtain e' where e: "e' \<in> set (outgoing c t)" "x = transition_signature p e'" by blast
    from st(3) [OF e(1)] obtain e where "e \<in> set (outgoing c s)" "sort (t_labels e) = sort (t_labels e')" "(t_target e, t_target e') \<in> R" by blast
    moreover from this(3) have "p ! t_target e = p ! t_target e'" by (rule blk)
    ultimately show "x \<in> transition_signature p ` set (outgoing c s)"
      unfolding e(2) by (intro image_eqI [of _ _ e]) (simp_all add: transition_signature_def)
  qed
  then show "s < state_count c" "t < state_count c" "state_signature c p s = state_signature c p t"
    using st(1) by (simp_all add: state_signature_eq_iff)
qed

lemma coarse_step: "coarse c p \<Longrightarrow> coarse c (refine_once c p)"
  using bisimilar_signature refine_once_eq_iff unfolding coarse_def by metis

lemma stable_bisimulation:
  assumes wf: "wf_clts c" and p: "refine_once c p = p"
  shows "bisimulation c {(s, t). s < state_count c \<and> t < state_count c \<and> p ! s = p ! t}"
  unfolding bisimulation_def
proof (clarify, intro conjI ballI)
  fix s t assume st: "s < state_count c" "t < state_count c" "p ! s = p ! t"
  then have sig: "state_variable_bits c s = state_variable_bits c t"
      "transition_signature p ` set (outgoing c s) = transition_signature p ` set (outgoing c t)"
    using refine_once_eq_iff [OF st(1,2), of p] p by (simp_all add: state_signature_eq_iff)
  have less: "t_target e < state_count c" if "e \<in> set (outgoing c q)" "q < state_count c" for e q
    using that wf by (auto simp: wf_clts_def outgoing_def)
  show "state_variable_bits c s = state_variable_bits c t" by (rule sig(1))
  fix e assume e: "e \<in> set (outgoing c s)"
  then obtain e' where "e' \<in> set (outgoing c t)" "transition_signature p e = transition_signature p e'" using sig(2) by blast
  then show "\<exists>e'\<in>set (outgoing c t). sort (t_labels e') = sort (t_labels e)
      \<and> (t_target e, t_target e') \<in> {(s, t). s < state_count c \<and> t < state_count c \<and> p ! s = p ! t}"
    using less e st by (auto simp: transition_signature_def)
next
  fix s t e' assume st: "s < state_count c" "t < state_count c" "p ! s = p ! t" and e: "e' \<in> set (outgoing c t)"
  have less: "t_target e < state_count c" if "e \<in> set (outgoing c q)" "q < state_count c" for e q
    using that wf by (auto simp: wf_clts_def outgoing_def)
  have "transition_signature p ` set (outgoing c s) = transition_signature p ` set (outgoing c t)"
    using refine_once_eq_iff [OF st(1,2), of p] p st(3) by (simp add: state_signature_eq_iff)
  then obtain e0 where "e0 \<in> set (outgoing c s)" "transition_signature p e' = transition_signature p e0" using e by blast
  then show "\<exists>e\<in>set (outgoing c s). sort (t_labels e) = sort (t_labels e')
      \<and> (t_target e, t_target e') \<in> {(s, t). s < state_count c \<and> t < state_count c \<and> p ! s = p ! t}"
    using less e st by (auto simp: transition_signature_def)
qed

subsection \<open>The loop ends with bisimilarity\<close>

definition canonical :: "nat list \<Rightarrow> bool" where
  "canonical p \<longleftrightarrow> p = block_ids [] 0 p"

lemma block_ids_canonical: "canonical (block_ids [] 0 xs)"
  unfolding canonical_def by (rule block_ids_same_kernel) (simp_all add: block_ids_eq_iff)

lemma replicate_canonical: "canonical (replicate n 0)"
proof -
  have rep: "block_ids [(0::nat, 0)] (Suc 0) (replicate k 0) = replicate k 0" for k by (induction k) auto
  show ?thesis unfolding canonical_def by (cases n) (simp_all add: rep)
qed

lemma length_refine_once [simp]: "length (refine_once c p) = state_count c"
  by (simp add: refine_once_def)

lemma finer_step:
  assumes "wf_clts c" "finer (state_count c) p' p"
  shows "finer (state_count c) (refine_once c p') (refine_once c p)"
  unfolding finer_def
proof (intro allI impI)
  fix s t assume st: "s < state_count c" "t < state_count c" "refine_once c p' ! s = refine_once c p' ! t"
  have less: "t_target e < state_count c" if "e \<in> set (outgoing c q)" "q < state_count c" for e q
    using that assms(1) by (auto simp: wf_clts_def outgoing_def)
  have bits: "state_variable_bits c s = state_variable_bits c t"
    and sig: "transition_signature p' ` set (outgoing c s) = transition_signature p' ` set (outgoing c t)"
    using st refine_once_eq_iff [OF st(1,2), of p'] by (simp_all add: state_signature_eq_iff)
  have sub: "transition_signature p ` set (outgoing c q) \<subseteq> transition_signature p ` set (outgoing c r)"
    if eq: "transition_signature p' ` set (outgoing c q) = transition_signature p' ` set (outgoing c r)"
      and qr: "q < state_count c" "r < state_count c" for q r
  proof
    fix x assume "x \<in> transition_signature p ` set (outgoing c q)"
    then obtain e where e: "e \<in> set (outgoing c q)" "x = transition_signature p e" by blast
    then obtain e' where e': "e' \<in> set (outgoing c r)" "transition_signature p' e = transition_signature p' e'" using eq by blast
    then have "p ! t_target e = p ! t_target e'" "sort (t_labels e) = sort (t_labels e')"
      using assms(2) less e(1) qr by (auto simp: finer_def transition_signature_def)
    then show "x \<in> transition_signature p ` set (outgoing c r)"
      unfolding e(2) using e'(1) by (intro image_eqI [of _ _ e']) (simp_all add: transition_signature_def)
  qed
  have "transition_signature p ` set (outgoing c s) = transition_signature p ` set (outgoing c t)"
    using sub [OF sig st(1,2)] sub [OF sig [symmetric] st(2,1)] by blast
  then show "refine_once c p ! s = refine_once c p ! t"
    using refine_once_eq_iff [OF st(1,2), of p] bits by (simp add: state_signature_eq_iff)
qed

lemma more_blocks:
  assumes len: "length p = n" "length p' = n" and fin: "finer n p' p" and can: "canonical p" "canonical p'" "p' \<noteq> p"
  shows "card (set p) < card (set p')"
proof -
  define g where "g x = p ! (SOME s. s < n \<and> p' ! s = x)" for x
  have g: "g (p' ! s) = p ! s" if "s < n" for s
  proof -
    let ?r = "SOME r. r < n \<and> p' ! r = p' ! s"
    have "?r < n \<and> p' ! ?r = p' ! s" by (rule someI [of _ s]) (simp add: that)
    then have "p ! ?r = p ! s" using fin that unfolding finer_def by blast
    then show ?thesis unfolding g_def .
  qed
  have "map g p' = p" using g len by (intro nth_equalityI) simp_all
  from arg_cong [OF this, of set] have img: "set p = g ` set p'" by simp
  then have le: "card (set p) \<le> card (set p')" by (simp add: card_image_le)
  show ?thesis
  proof (rule ccontr)
    assume "\<not> card (set p) < card (set p')"
    then have "inj_on g (set p')" using le img by (intro eq_card_imp_inj_on) simp_all
    then have "p' ! s = p' ! t \<longleftrightarrow> p ! s = p ! t" if "s < n" "t < n" for s t
      using g that len fin by (metis inj_onD nth_mem)
    then have "block_ids [] 0 p' = block_ids [] 0 p" by (intro block_ids_same_kernel) (simp_all add: len)
    then show False using can by (simp add: canonical_def)
  qed
qed

lemma refine_loop_exact:
  assumes wf: "wf_clts c"
    and inv: "length p = state_count c" "canonical p" "finer (state_count c) (refine_once c p) p" "coarse c p"
    and fuel: "state_count c - card (set p) < k"
  shows "\<exists>q. refine_loop k c p = Ok q \<and> length q = state_count c \<and> canonical q \<and>
    (\<forall>s<state_count c. \<forall>t<state_count c. q ! s = q ! t \<longleftrightarrow> bisimilar c s t)"
  using inv fuel
proof (induction k arbitrary: p)
  case (Suc k)
  let ?n = "state_count c" and ?p = "refine_once c p"
  show ?case
  proof (cases "?p = p")
    case True
    have "p ! s = p ! t \<longleftrightarrow> bisimilar c s t" if "s < ?n" "t < ?n" for s t
      using stable_bisimulation [OF wf True] that Suc.prems(4) by (auto simp: bisimilar_def coarse_def)
    then show ?thesis using True Suc.prems(1,2) by simp
  next
    case False
    have can: "canonical ?p" unfolding refine_once_def by (rule block_ids_canonical)
    have more: "card (set p) < card (set ?p)"
      by (rule more_blocks [OF Suc.prems(1) _ Suc.prems(3,2) can False]) simp
    have "card (set ?p) \<le> ?n" using card_length [of ?p] by simp
    then have "?n - card (set ?p) < k" using more Suc.prems(5) by linarith
    from Suc.IH [OF _ can finer_step [OF wf Suc.prems(3)] coarse_step [OF Suc.prems(4)] this] show ?thesis
      using False by (simp add: Let_def)
  qed
qed simp

lemma partition_exact:
  assumes "wf_clts c" "0 < state_count c" "state_count c \<le> k"
  shows "\<exists>q. refine_loop k c (replicate (state_count c) 0) = Ok q \<and> length q = state_count c \<and> canonical q \<and>
    (\<forall>s<state_count c. \<forall>t<state_count c. q ! s = q ! t \<longleftrightarrow> bisimilar c s t)"
proof (rule refine_loop_exact [OF assms(1) _ replicate_canonical])
  have "s < state_count c \<and> t < state_count c" if "bisimilar c s t" for s t
    using that by (auto simp: bisimilar_def bisimulation_def)
  then show "coarse c (replicate (state_count c) 0)" by (simp add: coarse_def)
  show "state_count c - card (set (replicate (state_count c) (0::nat))) < k" using assms(2,3) by simp
qed (simp_all add: finer_def)

end
