(* ===== verification/Minimize_Quotient.thy ===== *)
theory Minimize_Quotient
  imports Minimize
begin

section \<open>The minimized model\<close>

text \<open>
  The model that is built from the final blocks is the quotient by strong bisimilarity: one state per class,
  named after its first member, with the variables and the moves that all members share.
\<close>

subsection \<open>The classes\<close>

lemma block_ids_range:
  assumes "\<And>x i. map_of m x = Some i \<Longrightarrow> i < j"
  shows "\<exists>N\<ge>j. set (block_ids m j xs) \<union> {..<j} = {..<N}"
  using assms
proof (induction xs arbitrary: m j)
  case (Cons x xs)
  show ?case
  proof (cases "map_of m x")
    case None
    have "i < j + 1" if "map_of ((x, j) # m) y = Some i" for y i
      using that Cons.prems [of y i] by (auto split: if_splits)
    then obtain N where "N \<ge> j + 1" "set (block_ids ((x, j) # m) (j + 1) xs) \<union> {..<j + 1} = {..<N}"
      using Cons.IH [of "(x, j) # m" "j + 1"] by blast
    then show ?thesis using None by (intro exI [of _ N]) (auto simp: lessThan_Suc)
  next
    case (Some i)
    obtain N where "N \<ge> j" "set (block_ids m j xs) \<union> {..<j} = {..<N}" using Cons.IH [of m j] Cons.prems by blast
    then show ?thesis using Some Cons.prems [OF Some] by (intro exI [of _ N]) auto
  qed
qed auto

lemma canonical_range:
  assumes "canonical q" "q \<noteq> []"
  shows "set q = {..<class_count q}" "class_count q = card (set q)"
proof -
  have bq: "block_ids [] 0 q = q" using assms(1) unfolding canonical_def by (rule sym)
  have "\<exists>N\<ge>0. set (block_ids [] 0 q) \<union> {..<0} = {..<N}" by (rule block_ids_range) simp
  then obtain N where N: "set q = {..<N}" unfolding bq by blast
  have pos: "0 < N" using N assms(2) by (metis gr0I lessThan_0 set_empty)
  have mx: "fold max xs a = Max (insert a (set xs))" for xs and a :: nat
    by (metis Max.set_eq_fold list.simps(15))
  have "fold max q 0 = Max (insert 0 {..<N})" unfolding mx N ..
  also have "\<dots> = N - 1" by (rule Max_eqI) (use pos in auto)
  finally have "class_count q = N" using pos assms(2) by (simp add: class_count_def)
  then show "set q = {..<class_count q}" "class_count q = card (set q)" using N by simp_all
qed

lemma class_count_full:
  assumes "canonical q" "q \<noteq> []"
  shows "class_count q = length q \<longleftrightarrow> distinct q" "class_count q \<le> length q"
  using canonical_range(2) [OF assms] card_distinct [of q] distinct_card [of q] card_length [of q] by auto

definition block_of :: "nat list \<Rightarrow> nat \<Rightarrow> nat list" where
  "block_of q k = filter (\<lambda>s. q ! s = k) [0..<length q]"

lemma class_info_blocks:
  assumes "canonical q" "q \<noteq> []"
  shows "length (class_info q) = class_count q" "set (class_info q) = block_of q ` {..<class_count q}" "distinct (class_info q)"
    and "ms \<in> set (class_info q) \<Longrightarrow> ms \<noteq> []"
proof -
  note rng = canonical_range(1) [OF assms]
  have ne: "block_of q k \<noteq> []" if "k < class_count q" for k
  proof -
    have "k \<in> set q" using that rng by simp
    then obtain s where "s < length q" "q ! s = k" by (auto simp: in_set_conv_nth)
    then have "s \<in> set (block_of q k)" by (simp add: block_of_def)
    then show ?thesis by auto
  qed
  have srt: "sort (block_of q k) = block_of q k" for k by (rule sorted_sort_id) (simp add: block_of_def sorted_wrt_filter)
  have eq: "class_info q = sort_key hd (map (block_of q) [0..<class_count q])"
  proof -
    have "filter (\<lambda>ms. ms \<noteq> []) (map (block_of q) [0..<class_count q]) = map (block_of q) [0..<class_count q]"
      using ne by (intro filter_True) auto
    then show ?thesis unfolding class_info_def Let_def block_of_def [symmetric] by (simp add: srt o_def)
  qed
  have inj: "inj_on (block_of q) {..<class_count q}"
  proof (rule inj_onI)
    fix k k' assume k: "k \<in> {..<class_count q}" "block_of q k = block_of q k'"
    then have "hd (block_of q k) \<in> set (block_of q k)" "hd (block_of q k) \<in> set (block_of q k')"
      using ne [of k] by (simp_all add: k(2) [symmetric])
    then show "k = k'" by (simp add: block_of_def)
  qed
  show "length (class_info q) = class_count q" "set (class_info q) = block_of q ` {..<class_count q}"
    by (simp_all add: eq atLeast0LessThan)
  show "distinct (class_info q)" using inj by (simp add: eq distinct_map atLeast0LessThan)
  then show "ms \<in> set (class_info q) \<Longrightarrow> ms \<noteq> []" using ne by (auto simp: eq)
qed

text \<open>The number of the class of a state.\<close>

definition class_of :: "nat list \<Rightarrow> nat \<Rightarrow> nat" where
  "class_of q s = (THE i. i < length (class_info q) \<and> s \<in> set (class_info q ! i))"

lemma class_of:
  assumes q: "canonical q" and s: "s < length q"
  shows "class_of q s < class_count q" "class_info q ! class_of q s = block_of q (q ! s)"
    "i < class_count q \<Longrightarrow> s \<in> set (class_info q ! i) \<Longrightarrow> i = class_of q s"
proof -
  have ne: "q \<noteq> []" using s by auto
  note ci = class_info_blocks [OF q ne]
  have "q ! s < class_count q" using canonical_range(1) [OF q ne] s nth_mem by blast
  then have "block_of q (q ! s) \<in> set (class_info q)" using ci(2) by blast
  then obtain i where i: "i < class_count q" "class_info q ! i = block_of q (q ! s)" using ci(1) by (auto simp: in_set_conv_nth)
  have uniq: "j = i" if j: "j < class_count q" "s \<in> set (class_info q ! j)" for j
  proof -
    have "class_info q ! j \<in> block_of q ` {..<class_count q}" using j(1) ci(1,2) nth_mem by metis
    then have "class_info q ! j = block_of q (q ! s)" using j(2) by (auto simp: block_of_def)
    then show ?thesis using i j(1) ci(1,3) by (metis nth_eq_iff_index_eq)
  qed
  have mem: "s \<in> set (block_of q (q ! s))" using s by (simp add: block_of_def)
  have "class_of q s = i" unfolding class_of_def ci(1)
  proof (rule the_equality)
    show "i < class_count q \<and> s \<in> set (class_info q ! i)" using i mem by simp
  qed (use uniq in blast)
  then show "class_of q s < class_count q" "class_info q ! class_of q s = block_of q (q ! s)"
      "i' < class_count q \<Longrightarrow> s \<in> set (class_info q ! i') \<Longrightarrow> i' = class_of q s" for i'
    using i uniq [of i'] by simp_all
qed

subsection \<open>Adding the classes\<close>

definition var_set :: "clts_builder \<Rightarrow> nat \<Rightarrow> string set" where
  "var_set b s = set (sb_entries (b_variables b) ! (b_state_variables b ! s))"

definition same_frame :: "clts_builder \<Rightarrow> clts_builder \<Rightarrow> bool" where
  "same_frame b b' \<longleftrightarrow> b_transitions b' = b_transitions b \<and> b_declared_labels b' = b_declared_labels b
     \<and> b_state_overflow b' = b_state_overflow b \<and> b_label_controllability b' = b_label_controllability b"

lemma same_frame_trans: "same_frame b b' \<Longrightarrow> same_frame b' b'' \<Longrightarrow> same_frame b b''"
  by (simp add: same_frame_def)

lemma new_state_spec:
  assumes b: "builder_reach b" and fresh: "name \<notin> set (b_state_names b)" and len: "length (b_state_names b) \<le> u32_max"
  defines "n \<equiv> length (b_state_names b)"
  shows "\<exists>b'. state_with_name name b = (Some n, b') \<and> builder_reach b' \<and> same_frame b b'
    \<and> b_state_names b' = b_state_names b @ [name] \<and> b_initial_states b' = b_initial_states b
    \<and> var_set b' n = {} \<and> (\<forall>s<n. var_set b' s = var_set b s)"
proof -
  have inv: "builder_inv b" by (rule builder_reach_inv [OF b])
  have none: "map_of (b_state_map b) name = None"
    using inv fresh by (metis builder_inv_def not_None_eq nth_mem)
  obtain v vars where vi: "variable_empty (b_variables b) = (v, vars)" by force
  have "wf_symbol_builder (b_variables b)" using inv by (simp add: builder_inv_def)
  from variable_intern_spec [OF this vi [unfolded variable_empty_def]]
  obtain zs where v: "sb_entries vars ! v = []" "sb_entries vars = sb_entries (b_variables b) @ zs"
    by (auto simp: sort_dedup_def)
  define b' where "b' = snd (state_with_name name b)"
  have b': "state_with_name name b = (Some n, b')" "same_frame b b'" "b_state_names b' = b_state_names b @ [name]"
      "b_initial_states b' = b_initial_states b" "b_variables b' = vars" "b_state_variables b' = b_state_variables b @ [v]"
    using none len by (simp_all add: b'_def state_with_name_def insert_state_owned_def try_from_usize_def vi n_def same_frame_def Let_def)
  have lv: "length (b_state_variables b) = n" using inv by (simp add: builder_inv_def n_def)
  have old: "b_state_variables b ! s < length (sb_entries (b_variables b))" if "s < n" for s
    using inv that nth_mem [of s "b_state_variables b"] lv by (simp add: builder_inv_def)
  have "(b_state_variables b @ [v]) ! n = v" using lv nth_append_length by metis
  then have "var_set b' n = {}" unfolding var_set_def b' using v(1) by simp
  moreover have "var_set b' s = var_set b s" if "s < n" for s using that lv old [OF that] by (simp add: var_set_def b' v nth_append)
  moreover have "builder_reach b'" unfolding b'_def by (rule br_state_with_name [OF b])
  ultimately show ?thesis using b' by blast
qed

lemma state_vars_spec:
  fixes vars :: "string list"
  assumes b: "builder_reach b" and s: "s < length (b_state_names b)"
  defines "b' \<equiv> with_variables_for_state s vars b"
  shows "builder_reach b'" "same_frame b b'" "b_state_names b' = b_state_names b" "b_initial_states b' = b_initial_states b"
    "var_set b' s = set vars" "r < length (b_state_names b) \<Longrightarrow> r \<noteq> s \<Longrightarrow> var_set b' r = var_set b r"
proof -
  have inv: "builder_inv b" by (rule builder_reach_inv [OF b])
  have lv: "length (b_state_variables b) = length (b_state_names b)" using inv by (simp add: builder_inv_def)
  obtain v store where vi: "variable_intern vars (b_variables b) = (v, store)" by force
  have "wf_symbol_builder (b_variables b)" using inv by (simp add: builder_inv_def)
  from variable_intern_spec [OF this vi]
  obtain zs where v: "sb_entries store ! v = sort_dedup vars" "sb_entries store = sb_entries (b_variables b) @ zs" by blast
  have b': "b' = b\<lparr>b_variables := store, b_state_variables := (b_state_variables b)[s := v]\<rparr>"
    using s lv by (simp add: b'_def with_variables_for_state_def vi)
  show "builder_reach b'" unfolding b'_def by (rule br_vars_id [OF b]) (simp add: lv s)
  show "same_frame b b'" "b_state_names b' = b_state_names b" "b_initial_states b' = b_initial_states b"
    by (simp_all add: b' same_frame_def)
  show "var_set b' s = set vars" using s lv by (simp add: b' var_set_def v(1))
  show "var_set b' r = var_set b r" if "r < length (b_state_names b)" "r \<noteq> s"
  proof -
    have "b_state_variables b ! r < length (sb_entries (b_variables b))"
      using inv that(1) nth_mem [of r "b_state_variables b"] lv by (simp add: builder_inv_def)
    then show ?thesis using that by (simp add: b' var_set_def v(2) nth_append)
  qed
qed

lemma add_class_spec:
  assumes b: "builder_reach b" and fresh: "c_state_names c ! hd ms \<notin> set (b_state_names b)" and len: "length (b_state_names b) \<le> u32_max"
  defines "n \<equiv> length (b_state_names b)"
  shows "\<exists>b'. add_class c ms b = Ok (n, b') \<and> builder_reach b' \<and> same_frame b b'
    \<and> b_state_names b' = b_state_names b @ [c_state_names c ! hd ms]
    \<and> b_initial_states b' = b_initial_states b \<union> (if \<exists>s\<in>set ms. s \<in> c_initial_states c then {n} else {})
    \<and> var_set b' n = set (state_variables c (hd ms)) \<and> (\<forall>s<n. var_set b' s = var_set b s)"
proof -
  obtain b1 where b1: "state_with_name (c_state_names c ! hd ms) b = (Some n, b1)" "builder_reach b1" "same_frame b b1"
      "b_state_names b1 = b_state_names b @ [c_state_names c ! hd ms]" "b_initial_states b1 = b_initial_states b"
      "var_set b1 n = {}" "\<forall>s<n. var_set b1 s = var_set b s"
    using new_state_spec [OF b fresh len] unfolding n_def by blast
  define b2 where "b2 = (if list_ex (\<lambda>s. s \<in> c_initial_states c) ms then initial_state_id n b1 else b1)"
  have n1: "n < length (b_state_names b1)" using b1(4) by (simp add: n_def)
  have "length (b_state_variables b1) = length (b_state_names b1)" using builder_reach_inv [OF b1(2)] by (simp add: builder_inv_def)
  then have r2: "builder_reach b2" using b1(2) n1 br_initial_id by (simp add: b2_def)
  have b2: "same_frame b1 b2" "b_state_names b2 = b_state_names b1" "var_set b2 = var_set b1"
      "b_initial_states b2 = b_initial_states b \<union> (if \<exists>s\<in>set ms. s \<in> c_initial_states c then {n} else {})"
    using b1(5) by (auto simp: b2_def initial_state_id_def same_frame_def var_set_def fun_eq_iff list_ex_iff)
  show ?thesis
  proof (cases "state_variables c (hd ms) = []")
    case True
    then show ?thesis using b1 b2 r2 same_frame_trans [OF b1(3) b2(1)] by (simp add: add_class_def b2_def [symmetric])
  next
    case False
    let ?b3 = "with_variables_for_state n (state_variables c (hd ms)) b2"
    have n2: "n < length (b_state_names b2)" using n1 b2(2) by simp
    note b3 = state_vars_spec [OF r2 n2, where vars = "state_variables c (hd ms)"]
    have "var_set ?b3 s = var_set b s" if "s < n" for s
      using b3(6) [of s] that b1(7) b2(3) n2 by simp
    then show ?thesis using b1 b2 b3 False same_frame_trans [OF same_frame_trans [OF b1(3) b2(1)] b3(2)]
      by (simp add: add_class_def b2_def [symmetric])
  qed
qed

lemma ex_nat_split: "(\<exists>i. P i) \<longleftrightarrow> P 0 \<or> (\<exists>i. P (Suc i))"
  by (metis nat.exhaust)

lemma add_classes_spec:
  assumes "builder_reach b" and "distinct (b_state_names b @ map (\<lambda>ms. c_state_names c ! hd ms) cl)"
    and "length (b_state_names b) + length cl \<le> Suc u32_max"
  defines "n \<equiv> length (b_state_names b)"
  shows "\<exists>b'. add_classes c cl b = Ok ([n..<n + length cl], b') \<and> builder_reach b' \<and> same_frame b b'
    \<and> b_state_names b' = b_state_names b @ map (\<lambda>ms. c_state_names c ! hd ms) cl
    \<and> b_initial_states b' = b_initial_states b \<union> {n + i | i. i < length cl \<and> (\<exists>s\<in>set (cl ! i). s \<in> c_initial_states c)}
    \<and> (\<forall>i<length cl. var_set b' (n + i) = set (state_variables c (hd (cl ! i)))) \<and> (\<forall>s<n. var_set b' s = var_set b s)"
  using assms(1-3) unfolding n_def
proof (induction cl arbitrary: b)
  case Nil
  then show ?case by (auto simp: same_frame_def)
next
  case (Cons ms cl)
  let ?n = "length (b_state_names b)"
  obtain b1 where b1: "add_class c ms b = Ok (?n, b1)" "builder_reach b1" "same_frame b b1"
      "b_state_names b1 = b_state_names b @ [c_state_names c ! hd ms]"
      "b_initial_states b1 = b_initial_states b \<union> (if \<exists>s\<in>set ms. s \<in> c_initial_states c then {?n} else {})"
      "var_set b1 ?n = set (state_variables c (hd ms))" "\<forall>s<?n. var_set b1 s = var_set b s"
    using add_class_spec [OF Cons.prems(1), of c ms] Cons.prems(2,3) by auto
  obtain b' where b': "add_classes c cl b1 = Ok ([Suc ?n..<Suc ?n + length cl], b')" "builder_reach b'" "same_frame b1 b'"
      "b_state_names b' = b_state_names b @ (c_state_names c ! hd ms) # map (\<lambda>ms. c_state_names c ! hd ms) cl"
      "b_initial_states b' = b_initial_states b1 \<union> {Suc ?n + i | i. i < length cl \<and> (\<exists>s\<in>set (cl ! i). s \<in> c_initial_states c)}"
      "\<forall>i<length cl. var_set b' (Suc ?n + i) = set (state_variables c (hd (cl ! i)))" "\<forall>s<Suc ?n. var_set b' s = var_set b1 s"
    using Cons.IH [OF b1(2)] Cons.prems(2,3) b1(4) by (auto simp del: upt_Suc)
  have up: "[?n..<?n + length (ms # cl)] = ?n # [Suc ?n..<Suc ?n + length cl]" by (simp add: upt_rec)
  have ini: "b_initial_states b' = b_initial_states b \<union>
      {?n + i | i. i < length (ms # cl) \<and> (\<exists>s\<in>set ((ms # cl) ! i). s \<in> c_initial_states c)}"
  proof -
    have "{?n + i | i. i < length (ms # cl) \<and> (\<exists>s\<in>set ((ms # cl) ! i). s \<in> c_initial_states c)}
        = (if \<exists>s\<in>set ms. s \<in> c_initial_states c then {?n} else {})
          \<union> {Suc ?n + i | i. i < length cl \<and> (\<exists>s\<in>set (cl ! i). s \<in> c_initial_states c)}" (is "?l = ?a \<union> ?r")
    proof (rule set_eqI)
      fix x
      have "x \<in> ?l \<longleftrightarrow> x = ?n + 0 \<and> (\<exists>s\<in>set ms. s \<in> c_initial_states c) \<or>
          (\<exists>i. x = ?n + Suc i \<and> i < length cl \<and> (\<exists>s\<in>set (cl ! i). s \<in> c_initial_states c))"
        unfolding mem_Collect_eq by (subst ex_nat_split) simp
      then show "x \<in> ?l \<longleftrightarrow> x \<in> ?a \<union> ?r" by auto
    qed
    then show ?thesis using b'(5) b1(5) by auto
  qed
  have vs: "var_set b' (?n + i) = set (state_variables c (hd ((ms # cl) ! i)))" if "i < length (ms # cl)" for i
    using that b'(6,7) b1(6) by (cases i) auto
  have "\<forall>s<?n. var_set b' s = var_set b s" using b'(7) b1(7) by simp
  then show ?case using b1(1) b' up ini vs same_frame_trans [OF b1(3) b'(3)] by (simp del: upt_Suc)
qed


subsection \<open>The quotient\<close>

definition edge_keys :: "(nat \<rightharpoonup> nat) \<Rightarrow> transition list \<Rightarrow> (nat \<times> nat list) set" where
  "edge_keys mapping ts = {(target, sort (t_labels t)) | t target. t \<in> set ts \<and> mapping (t_target t) = Some target}"

definition spec_key :: "transition_spec \<Rightarrow> nat \<times> nat list" where
  "spec_key e = (ts_to e, sort (ts_labels e))"

lemma edge_keys_Cons:
  "edge_keys mapping (t # ts) = (case mapping (t_target t) of None \<Rightarrow> edge_keys mapping ts
     | Some target \<Rightarrow> insert (target, sort (t_labels t)) (edge_keys mapping ts))"
  by (auto simp: edge_keys_def split: option.splits)

lemma quotient_edges_spec:
  "\<exists>es. quotient_edges mapping ns ts seen (b, n) = (b\<lparr>b_transitions := b_transitions b @ es\<rparr>, n + length es)
     \<and> (\<forall>e\<in>set es. ts_from e = ns) \<and> spec_key ` set es = edge_keys mapping ts - set seen"
proof (induction ts arbitrary: seen b n)
  case Nil
  then show ?case by (intro exI [of _ "[]"]) (simp add: edge_keys_def)
next
  case (Cons t ts)
  show ?case
  proof (cases "mapping (t_target t)")
    case None
    then show ?thesis using Cons.IH [of seen b n] by (simp add: edge_keys_Cons)
  next
    case (Some tn)
    let ?key = "(tn, sort (t_labels t))"
    show ?thesis
    proof (cases "?key \<in> set seen")
      case True
      then show ?thesis using Some Cons.IH [of seen b n] by (simp add: edge_keys_Cons insert_Diff_if)
    next
      case False
      let ?e = "\<lparr>ts_from = ns, ts_to = tn, ts_labels = t_labels t, ts_modality = Sharp\<rparr>"
      have b1: "transition_ids ns (t_labels t) tn b = b\<lparr>b_transitions := b_transitions b @ [?e]\<rparr>"
        by (simp add: transition_ids_def transition_ids_with_modality_def)
      obtain es where es: "quotient_edges mapping ns ts (?key # seen) (transition_ids ns (t_labels t) tn b, n + 1)
            = (b\<lparr>b_transitions := b_transitions b @ ?e # es\<rparr>, n + 1 + length es)"
          "\<forall>e\<in>set es. ts_from e = ns" "spec_key ` set es = edge_keys mapping ts - set (?key # seen)"
        using Cons.IH [of "?key # seen" "transition_ids ns (t_labels t) tn b" "n + 1"] unfolding b1 by auto
      have "spec_key ?e = ?key" by (simp add: spec_key_def)
      then have "spec_key ` set (?e # es) = edge_keys mapping (t # ts) - set seen"
        using es(3) Some False by (auto simp: edge_keys_Cons)
      then show ?thesis using es(1,2) Some False by (intro exI [of _ "?e # es"]) simp
    qed
  qed
qed

lemma all_edges_spec:
  "\<exists>es. fold (\<lambda>(source, ns). quotient_edges mapping ns (outgoing c source) []) xs (b, n)
       = (b\<lparr>b_transitions := b_transitions b @ es\<rparr>, n + length es)
     \<and> (\<forall>e\<in>set es. ts_from e \<in> snd ` set xs)
     \<and> (\<forall>i. spec_key ` {e \<in> set es. ts_from e = i} = (\<Union>(source, ns)\<in>{x \<in> set xs. snd x = i}. edge_keys mapping (outgoing c source)))"
proof (induction xs arbitrary: b n)
  case Nil
  then show ?case by (intro exI [of _ "[]"]) simp
next
  case (Cons x xs)
  obtain src ns where x: "x = (src, ns)" by (cases x)
  obtain es where es: "quotient_edges mapping ns (outgoing c src) [] (b, n) = (b\<lparr>b_transitions := b_transitions b @ es\<rparr>, n + length es)"
      "\<forall>e\<in>set es. ts_from e = ns" "spec_key ` set es = edge_keys mapping (outgoing c src)"
    using quotient_edges_spec [of mapping ns "outgoing c src" "[]" b n] by auto
  let ?b = "b\<lparr>b_transitions := b_transitions b @ es\<rparr>"
  obtain es' where es': "fold (\<lambda>(source, ns). quotient_edges mapping ns (outgoing c source) []) xs (?b, n + length es)
        = (b\<lparr>b_transitions := b_transitions b @ es @ es'\<rparr>, n + length es + length es')"
      "\<forall>e\<in>set es'. ts_from e \<in> snd ` set xs"
      "\<And>i. spec_key ` {e \<in> set es'. ts_from e = i} = (\<Union>(source, ns)\<in>{x \<in> set xs. snd x = i}. edge_keys mapping (outgoing c source))"
    using Cons.IH [of ?b "n + length es"] by auto
  have "spec_key ` {e \<in> set (es @ es'). ts_from e = i}
      = (\<Union>(source, ns)\<in>{y \<in> set (x # xs). snd y = i}. edge_keys mapping (outgoing c source))" for i
  proof -
    have "{e \<in> set (es @ es'). ts_from e = i} = (if ns = i then set es else {}) \<union> {e \<in> set es'. ts_from e = i}"
      using es(2) by auto
    moreover have "{y \<in> set (x # xs). snd y = i} = (if ns = i then {x} else {}) \<union> {y \<in> set xs. snd y = i}" using x by auto
    ultimately show ?thesis using es(3) es'(3) [of i] x by (simp add: image_Un)
  qed
  moreover have "\<forall>e\<in>set (es @ es'). ts_from e \<in> snd ` set (x # xs)" using es(2) es'(2) x by auto
  ultimately show ?case using es(1) es'(1) x by (intro exI [of _ "es @ es'"]) simp
qed

lemma class_mapping:
  assumes q: "canonical q" and s: "s < length q"
  shows "map_of (concat (map2 (\<lambda>ms ns. map (\<lambda>s. (s, ns)) ms) (class_info q) [0..<class_count q])) s = Some (class_of q s)"
proof -
  have ne: "q \<noteq> []" using s by auto
  note ci = class_info_blocks [OF q ne] and co = class_of [OF q s]
  let ?xs = "concat (map2 (\<lambda>ms ns. map (\<lambda>s. (s, ns)) ms) (class_info q) [0..<class_count q])"
  have mem: "(s, i) \<in> set ?xs \<longleftrightarrow> i < class_count q \<and> s \<in> set (class_info q ! i)" for i
  proof -
    have "zip (class_info q) [0..<class_count q] = map (\<lambda>i. (class_info q ! i, i)) [0..<class_count q]"
      using ci(1) by (intro nth_equalityI) simp_all
    then have "?xs = concat (map (\<lambda>i. map (\<lambda>s. (s, i)) (class_info q ! i)) [0..<class_count q])" by (simp add: o_def)
    then show ?thesis by auto
  qed
  have "(s, class_of q s) \<in> set ?xs" unfolding mem using co(1,2) s by (simp add: block_of_def)
  moreover have "i = class_of q s" if "(s, i) \<in> set ?xs" for i using that co(3) unfolding mem by blast
  ultimately show ?thesis by (rule map_of_unique)
qed

lemma class_of_eq_iff:
  assumes "canonical q" "s < length q" "t < length q"
  shows "class_of q s = class_of q t \<longleftrightarrow> q ! s = q ! t"
proof
  assume eq: "class_of q s = class_of q t"
  have "s \<in> set (class_info q ! class_of q t)" using class_of(2) [OF assms(1,2)] assms(2) eq by (simp add: block_of_def)
  then show "q ! s = q ! t" using class_of(2) [OF assms(1,3)] by (simp add: block_of_def)
next
  assume eq: "q ! s = q ! t"
  have "s \<in> set (class_info q ! class_of q t)" using class_of(2) [OF assms(1,3)] assms(2) eq by (simp add: block_of_def)
  then show "class_of q s = class_of q t" using class_of(1,3) assms by metis
qed

lemma class_of_onto:
  assumes "canonical q" "q \<noteq> []"
  shows "class_of q ` {..<length q} = {..<class_count q}"
proof (intro equalityI subsetI)
  fix i assume i: "i \<in> {..<class_count q}"
  note ci = class_info_blocks [OF assms]
  have "class_info q ! i \<in> set (class_info q)" using i ci(1) by simp
  then obtain s where s: "s \<in> set (class_info q ! i)" using ci(4) by (metis hd_in_set)
  have "class_info q ! i \<in> block_of q ` {..<class_count q}" using \<open>class_info q ! i \<in> set (class_info q)\<close> ci(2) by simp
  then have "s < length q" using s by (auto simp: block_of_def)
  then show "i \<in> class_of q ` {..<length q}" using class_of(3) [OF assms(1)] s i by blast
qed (use class_of(1) [OF assms(1)] in auto)

subsection \<open>Minimization is the quotient by bisimilarity\<close>

definition quotient_by :: "clts \<Rightarrow> clts \<Rightarrow> (nat \<Rightarrow> nat) \<Rightarrow> bool" where
  \<comment> \<open>the states of \<open>q\<close> are the classes of bisimilar states, with their variables and moves\<close>
  "quotient_by c q h \<longleftrightarrow> h ` {..<state_count c} = {..<state_count q}
     \<and> (\<forall>s<state_count c. \<forall>t<state_count c. h s = h t \<longleftrightarrow> bisimilar c s t)
     \<and> c_initial_states q = h ` c_initial_states c
     \<and> (\<forall>s<state_count c. (\<forall>v. state_has_var q (h s) v \<longleftrightarrow> state_has_var c s v)
          \<and> (\<lambda>e. (t_target e, sort (t_labels e))) ` set (outgoing q (h s))
            = (\<lambda>e. (h (t_target e), sort (t_labels e))) ` set (outgoing c s))"

lemma built_has_var:
  assumes inv: "builder_inv b" and c: "builder_build b = Ok c" and s: "s < state_count c"
  shows "state_has_var c s v \<longleftrightarrow> v \<in> var_set b s" "set (state_variables c s) = var_set b s"
proof -
  have f: "c_variables c = symbol_store_build (b_variables b)" "c_state_variables c = b_state_variables b"
      "c_state_names c = b_state_names b"
    using c by (auto simp: builder_build_def Let_def split: option.splits if_splits)
  have wf: "wf_symbol_builder (b_variables b)" and id: "b_state_variables b ! s < length (sb_entries (b_variables b))"
    using inv s nth_mem [of s "b_state_variables b"] by (simp_all add: builder_inv_def state_count_def f(3))
  show "state_has_var c s v \<longleftrightarrow> v \<in> var_set b s"
    using store_contains_build [OF wf id, of v] id
    by (simp add: state_has_var_def f var_set_def store_contains_def label_store_bitset_def)
  show "set (state_variables c s) = var_set b s" by (simp add: state_variables_def var_set_def f)
qed

lemma outgoing_target: "wf_clts c \<Longrightarrow> e \<in> set (outgoing c s) \<Longrightarrow> s < state_count c \<Longrightarrow> t_target e < state_count c"
  by (auto simp: wf_clts_def outgoing_def)

lemma class_keys_subset:
  assumes wf: "wf_clts c" and q: "canonical q" "length q = state_count c" and rs: "r < state_count c" "s < state_count c"
    and sig: "transition_signature q ` set (outgoing c r) \<subseteq> transition_signature q ` set (outgoing c s)"
  shows "(\<lambda>e. (class_of q (t_target e), sort (t_labels e))) ` set (outgoing c r)
    \<subseteq> (\<lambda>e. (class_of q (t_target e), sort (t_labels e))) ` set (outgoing c s)"
proof
  fix x assume "x \<in> (\<lambda>e. (class_of q (t_target e), sort (t_labels e))) ` set (outgoing c r)"
  then obtain e where e: "e \<in> set (outgoing c r)" "x = (class_of q (t_target e), sort (t_labels e))" by blast
  then obtain e' where e': "e' \<in> set (outgoing c s)" "transition_signature q e = transition_signature q e'" using sig by blast
  then have "class_of q (t_target e) = class_of q (t_target e')"
    using class_of_eq_iff [OF q(1)] outgoing_target [OF wf e(1) rs(1)] outgoing_target [OF wf e'(1) rs(2)] q(2)
    by (simp add: transition_signature_def)
  then show "x \<in> (\<lambda>e. (class_of q (t_target e), sort (t_labels e))) ` set (outgoing c s)"
    unfolding e(2) using e' by (intro image_eqI [of _ _ e']) (simp_all add: transition_signature_def)
qed

lemma bisimilar_moves:
  assumes "wf_clts c" and q: "canonical q" "length q = state_count c" and "coarse c q" and bis: "bisimilar c r s"
  shows "state_has_var c r v = state_has_var c s v"
    and "(\<lambda>e. (class_of q (t_target e), sort (t_labels e))) ` set (outgoing c r)
      = (\<lambda>e. (class_of q (t_target e), sort (t_labels e))) ` set (outgoing c s)"
proof -
  note b = bisimilar_signature [OF assms(4) bis]
  have sig: "state_variable_bits c r = state_variable_bits c s"
      "transition_signature q ` set (outgoing c r) = transition_signature q ` set (outgoing c s)"
    using b(3) by (simp_all add: state_signature_eq_iff)
  show "state_has_var c r v = state_has_var c s v" using sig(1) by (simp add: state_has_var_def state_variable_bits_def)
  show "(\<lambda>e. (class_of q (t_target e), sort (t_labels e))) ` set (outgoing c r)
      = (\<lambda>e. (class_of q (t_target e), sort (t_labels e))) ` set (outgoing c s)"
    using class_keys_subset [OF assms(1) q b(1,2)] class_keys_subset [OF assms(1) q b(2,1)] sig(2) by simp
qed

text \<open>The first state of a class stands for it.\<close>

lemma class_representative:
  assumes q: "canonical q" "length q = n" and s: "s < n"
  shows "class_of q s < class_count q" "s \<in> set (class_info q ! class_of q s)"
    "hd (class_info q ! class_of q s) < n" "q ! hd (class_info q ! class_of q s) = q ! s"
proof -
  note co = class_of(1,2) [OF q(1), of s]
  show "class_of q s < class_count q" using co(1) q(2) s by simp
  have mem: "s \<in> set (block_of q (q ! s))" using q(2) s by (simp add: block_of_def)
  then show "s \<in> set (class_info q ! class_of q s)" using co(2) q(2) s by simp
  have "hd (block_of q (q ! s)) \<in> set (block_of q (q ! s))" using mem by (intro hd_in_set) auto
  then show "hd (class_info q ! class_of q s) < n" "q ! hd (class_info q ! class_of q s) = q ! s"
    using co(2) q(2) s by (simp_all add: block_of_def)
qed

lemma built_wf: "builder_reach b \<Longrightarrow> builder_build b = Ok c \<Longrightarrow> wf_clts c"
  using build_wf [OF builder_reach_inv, of b] build_overflow [of b] by (cases "b_state_overflow b") auto

lemma kernel_coarse:
  assumes "\<And>s t. s < state_count c \<Longrightarrow> t < state_count c \<Longrightarrow> q ! s = q ! t \<longleftrightarrow> bisimilar c s t"
  shows "coarse c q"
  unfolding coarse_def
proof (intro allI impI)
  fix s t assume bis: "bisimilar c s t"
  then have "s < state_count c \<and> t < state_count c" by (auto simp: bisimilar_def bisimulation_def)
  then show "q ! s = q ! t" using assms bis by blast
qed

lemma initial_classes:
  assumes "wf_clts c" and q: "canonical q" "length q = state_count c"
  shows "{i. i < class_count q \<and> (\<exists>s\<in>set (class_info q ! i). s \<in> c_initial_states c)} = class_of q ` c_initial_states c"
proof -
  have "s < state_count c" if "s \<in> c_initial_states c" for s using assms(1) that by (auto simp: wf_clts_def)
  moreover have "i = class_of q s" if "i < class_count q" "s \<in> set (class_info q ! i)" "s < state_count c" for i s
    using class_of(3) [OF q(1)] that q(2) by simp
  ultimately show ?thesis using class_representative(1,2) [OF q] by blast
qed

text \<open>What is built from the classes of the final blocks.\<close>

lemma quotient_built:
  assumes c: "builder_reach b0" "builder_build b0 = Ok c" and q: "canonical q" "length q = state_count c" "q \<noteq> []"
    and ker: "\<And>s t. s < state_count c \<Longrightarrow> t < state_count c \<Longrightarrow> q ! s = q ! t \<longleftrightarrow> bisimilar c s t"
    and b1: "builder_reach b1" "b_state_overflow b1 = None" "length (b_state_names b1) = class_count q"
      "b_initial_states b1 = {i. i < class_count q \<and> (\<exists>s\<in>set (class_info q ! i). s \<in> c_initial_states c)}"
      "\<And>i. i < class_count q \<Longrightarrow> var_set b1 i = set (state_variables c (hd (class_info q ! i)))"
    and es: "\<And>e. e \<in> set es \<Longrightarrow> ts_from e < class_count q"
      "\<And>i. i < class_count q \<Longrightarrow> spec_key ` {e \<in> set es. ts_from e = i}
         = (\<lambda>e. (class_of q (t_target e), sort (t_labels e))) ` set (outgoing c (hd (class_info q ! i)))"
  shows "\<exists>m. builder_build (b1\<lparr>b_transitions := es\<rparr>) = Ok m \<and> wf_clts m \<and> state_count m = class_count q \<and> quotient_by c m (class_of q)"
proof -
  let ?N = "class_count q" and ?h = "class_of q" and ?b = "b1\<lparr>b_transitions := es\<rparr>"
  note wf = built_wf [OF c] and rep = class_representative [OF q(1,2)] and onto = class_of_onto [OF q(1,3)]
  have to: "ts_to e < ?N" if e: "e \<in> set es" for e
  proof -
    obtain s where s: "s < state_count c" "ts_from e = ?h s" using onto es(1) [OF e] q(2) by (metis imageE lessThan_iff)
    then have "spec_key e \<in> (\<lambda>e. (?h (t_target e), sort (t_labels e))) ` set (outgoing c (hd (class_info q ! ?h s)))"
      using es(2) [of "?h s"] rep(1) e by blast
    then show ?thesis using rep(1) outgoing_target [OF wf _ rep(3) [OF s(1)]] by (auto simp: spec_key_def)
  qed
  have inv: "builder_inv ?b" using builder_reach_inv [OF b1(1)] es(1) to b1(3) by (auto simp: builder_inv_def)
  obtain m where m: "builder_build ?b = Ok m" "wf_clts m" using build_wf [OF inv] b1(2) by auto
  have fm: "state_count m = ?N" "c_initial_states m = b_initial_states b1"
      "c_outgoing m = map (\<lambda>s. map mk_outgoing (filter (\<lambda>e. ts_from e = s) es)) [0..<?N]"
    using m(1) b1(2,3) by (auto simp: builder_build_def Let_def state_count_def split: if_splits)
  note coarse = kernel_coarse [of c q, OF ker]
  have init: "c_initial_states m = ?h ` c_initial_states c"
    unfolding fm(2) b1(4) by (rule initial_classes [OF wf q(1,2)])
  have "(\<forall>v. state_has_var m (?h s) v \<longleftrightarrow> state_has_var c s v)
      \<and> (\<lambda>e. (t_target e, sort (t_labels e))) ` set (outgoing m (?h s)) = (\<lambda>e. (?h (t_target e), sort (t_labels e))) ` set (outgoing c s)"
    if s: "s < state_count c" for s
  proof -
    let ?r = "hd (class_info q ! ?h s)"
    have "bisimilar c ?r s" using ker [OF rep(3) [OF s] s] rep(4) [OF s] by simp
    note moves = bisimilar_moves [OF wf q(1,2) coarse this]
    have "state_has_var m (?h s) v \<longleftrightarrow> v \<in> var_set b1 (?h s)" for v
      using built_has_var(1) [OF inv m(1), of "?h s" v] rep(1) [OF s] fm(1) by (simp add: var_set_def)
    then have "state_has_var m (?h s) v \<longleftrightarrow> state_has_var c ?r v" for v
      using b1(5) [OF rep(1) [OF s]] built_has_var [OF builder_reach_inv [OF c(1)] c(2) rep(3) [OF s]] by simp
    moreover have "(\<lambda>e. (t_target e, sort (t_labels e))) ` set (outgoing m (?h s)) = spec_key ` {e \<in> set es. ts_from e = ?h s}"
      using rep(1) [OF s] by (simp add: outgoing_def fm(3) image_image mk_outgoing_def spec_key_def)
    ultimately show ?thesis using moves es(2) [OF rep(1) [OF s]] by simp
  qed
  moreover have "\<forall>s<state_count c. \<forall>t<state_count c. ?h s = ?h t \<longleftrightarrow> bisimilar c s t"
    using class_of_eq_iff [OF q(1)] q(2) ker by simp
  ultimately have "quotient_by c m ?h" unfolding quotient_by_def using init onto q(2) fm(1) by simp
  then show ?thesis using m fm(1) by blast
qed

lemma class_names_distinct:
  assumes "builder_reach b0" "builder_build b0 = Ok c" "canonical q" "length q = state_count c" "q \<noteq> []"
  shows "distinct (map (\<lambda>ms. c_state_names c ! hd ms) (class_info q))" "length (class_info q) \<le> Suc u32_max"
proof -
  have inv: "builder_inv b0" and nm: "c_state_names c = b_state_names b0"
    using assms(1,2) builder_reach_inv by (auto simp: builder_build_def Let_def split: option.splits if_splits)
  note ci = class_info_blocks [OF assms(3,5)]
  have hd_in: "hd ms < state_count c \<and> ms = block_of q (q ! hd ms)" if ms: "ms \<in> set (class_info q)" for ms
  proof -
    obtain k where k: "ms = block_of q k" using ms ci(2) by blast
    have "hd ms \<in> set (block_of q k)" using hd_in_set [OF ci(4) [OF ms]] unfolding k .
    then show ?thesis using assms(4) k by (simp add: block_of_def)
  qed
  have "inj_on (\<lambda>ms. c_state_names c ! hd ms) (set (class_info q))"
  proof (rule inj_onI)
    fix ms ms' assume m: "ms \<in> set (class_info q)" "ms' \<in> set (class_info q)" "c_state_names c ! hd ms = c_state_names c ! hd ms'"
    have "distinct (c_state_names c)" using inv nm by (simp add: builder_inv_def)
    then have "hd ms = hd ms'" using m hd_in nth_eq_iff_index_eq by (metis state_count_def)
    then show "ms = ms'" using hd_in m(1,2) by metis
  qed
  then show "distinct (map (\<lambda>ms. c_state_names c ! hd ms) (class_info q))" using ci(3) by (simp add: distinct_map)
  show "length (class_info q) \<le> Suc u32_max"
    using inv nm ci(1) class_count_full(2) [OF assms(3,5)] assms(4) by (simp add: builder_inv_def state_count_def)
qed

lemma edge_keys_classes:
  assumes wf: "wf_clts c" and "length q = state_count c" and s: "s < state_count c"
    and map: "\<And>t. t < length q \<Longrightarrow> mapping t = Some (class_of q t)"
  shows "edge_keys mapping (outgoing c s) = (\<lambda>e. (class_of q (t_target e), sort (t_labels e))) ` set (outgoing c s)"
  using map outgoing_target [OF wf _ s] assms(2) by (force simp: edge_keys_def)

lemma minimize_builds_quotient:
  assumes c: "builder_reach b0" "builder_build b0 = Ok c" and q: "canonical q" "length q = state_count c" "q \<noteq> []"
    and ker: "\<And>s t. s < state_count c \<Longrightarrow> t < state_count c \<Longrightarrow> q ! s = q ! t \<longleftrightarrow> bisimilar c s t"
    and b: "builder_reach b" "b_state_names b = []" "b_transitions b = []" "b_state_overflow b = None" "b_initial_states b = {}"
  defines "mapping \<equiv> map_of (concat (map2 (\<lambda>ms ns. map (\<lambda>s. (s, ns)) ms) (class_info q) [0..<class_count q]))"
  shows "\<exists>b1 b2 n m. add_classes c (class_info q) b = Ok ([0..<class_count q], b1)
    \<and> fold (\<lambda>(source, ns). quotient_edges mapping ns (outgoing c source) []) (zip (map hd (class_info q)) [0..<class_count q]) (b1, 0) = (b2, n)
    \<and> builder_build b2 = Ok m \<and> wf_clts m \<and> state_count m = class_count q \<and> quotient_by c m (class_of q)"
proof -
  let ?N = "class_count q"
  note ci = class_info_blocks [OF q(1,3)] and wf = built_wf [OF c]
  have names: "distinct (b_state_names b @ map (\<lambda>ms. c_state_names c ! hd ms) (class_info q))"
      "length (b_state_names b) + length (class_info q) \<le> Suc u32_max"
    using class_names_distinct [OF c q] b(2) by simp_all
  obtain b1 where b1: "add_classes c (class_info q) b = Ok ([0..<?N], b1)" "builder_reach b1" "same_frame b b1"
      "b_state_names b1 = map (\<lambda>ms. c_state_names c ! hd ms) (class_info q)"
      "b_initial_states b1 = {i. i < ?N \<and> (\<exists>s\<in>set (class_info q ! i). s \<in> c_initial_states c)}"
      "\<And>i. i < ?N \<Longrightarrow> var_set b1 i = set (state_variables c (hd (class_info q ! i)))"
    using add_classes_spec [OF b(1) names] b(2,5) ci(1) by auto
  let ?xs = "zip (map hd (class_info q)) [0..<?N]"
  have xs: "set ?xs = (\<lambda>i. (hd (class_info q ! i), i)) ` {..<?N}"
  proof -
    have "?xs = map (\<lambda>i. (hd (class_info q ! i), i)) [0..<?N]" using ci(1) by (intro nth_equalityI) simp_all
    then show ?thesis by (simp add: atLeast0LessThan)
  qed
  obtain es where es: "fold (\<lambda>(source, ns). quotient_edges mapping ns (outgoing c source) []) ?xs (b1, 0)
        = (b1\<lparr>b_transitions := es\<rparr>, length es)" "\<And>e. e \<in> set es \<Longrightarrow> ts_from e \<in> snd ` set ?xs"
      "\<And>i. spec_key ` {e \<in> set es. ts_from e = i} = (\<Union>(source, ns)\<in>{x \<in> set ?xs. snd x = i}. edge_keys mapping (outgoing c source))"
    using all_edges_spec [of mapping c ?xs b1 0] b1(3) b(3) by (auto simp: same_frame_def)
  have hd_less: "hd (class_info q ! i) < state_count c" if "i < ?N" for i
  proof -
    obtain s where "s < state_count c" "i = class_of q s"
      using class_of_onto [OF q(1,3)] \<open>i < ?N\<close> q(2) by (metis imageE lessThan_iff)
    then show ?thesis using class_representative(3) [OF q(1,2)] by simp
  qed
  have keys: "spec_key ` {e \<in> set es. ts_from e = i}
      = (\<lambda>e. (class_of q (t_target e), sort (t_labels e))) ` set (outgoing c (hd (class_info q ! i)))" if "i < ?N" for i
  proof -
    have "{x \<in> set ?xs. snd x = i} = {(hd (class_info q ! i), i)}" unfolding xs using that by auto
    then have "spec_key ` {e \<in> set es. ts_from e = i} = edge_keys mapping (outgoing c (hd (class_info q ! i)))" using es(3) [of i] by simp
    also have "\<dots> = (\<lambda>e. (class_of q (t_target e), sort (t_labels e))) ` set (outgoing c (hd (class_info q ! i)))"
      by (rule edge_keys_classes [OF wf q(2) hd_less [OF that]]) (unfold mapping_def, rule class_mapping [OF q(1)])
    finally show ?thesis .
  qed
  have from_less: "ts_from e < ?N" if "e \<in> set es" for e using es(2) [OF that] unfolding xs by auto
  have "b_state_overflow b1 = None" "length (b_state_names b1) = ?N" using b1(3,4) b(4) ci(1) by (simp_all add: same_frame_def)
  from quotient_built [OF c q ker b1(2) this b1(5,6) from_less keys] b1(1) es(1) show ?thesis by blast
qed

text \<open>
  C18: Minimization is the quotient by strong bisimilarity. On a built model, with as much fuel as it has states,
  \<open>minimize_bisimulation\<close> returns. It returns nothing only if no two different states are bisimilar;
  otherwise it returns a smaller well-formed model whose states are the classes of bisimilar states, with
  the variables of their members, the moves of any member up to bisimilarity, and the classes of the initial
  states as initial states, and the report counts them.
\<close>

theorem minimize_bisimulation_quotient:
  assumes c: "builder_reach b0" "builder_build b0 = Ok c" and k: "state_count c \<le> k"
    and ls: "\<And>store. label_store = Some store \<Longrightarrow> wf_symbol_builder store"
  shows "\<exists>r. minimize_bisimulation k c label_store = Ok r \<and>
    (case r of None \<Rightarrow> \<forall>s t. bisimilar c s t \<longrightarrow> s = t
     | Some (m, report) \<Rightarrow> wf_clts m \<and> state_count m < state_count c \<and> mr_states_after report = state_count m
         \<and> (\<exists>h. quotient_by c m h))"
proof (cases "state_count c \<le> 1")
  case True
  have "s = t" if "bisimilar c s t" for s t
    using that True by (auto simp: bisimilar_def bisimulation_def)
  then show ?thesis using True by (simp add: minimize_bisimulation_def)
next
  case False
  obtain q where q: "refine_loop k c (replicate (state_count c) 0) = Ok q" "length q = state_count c" "canonical q"
      and ker: "\<And>s t. s < state_count c \<Longrightarrow> t < state_count c \<Longrightarrow> q ! s = q ! t \<longleftrightarrow> bisimilar c s t"
    using partition_exact [OF built_wf [OF c] _ k] False by auto
  have ne: "q \<noteq> []" using q(2) False by auto
  note ci = class_info_blocks [OF q(3) ne] and full = class_count_full [OF q(3) ne]
  show ?thesis
  proof (cases "class_count q = state_count c")
    case True
    then have "distinct q" using full q(2) by simp
    then have "s = t" if "bisimilar c s t" for s t
      using that ker [of s t] q(2) nth_eq_iff_index_eq [of q s t] by (auto simp: bisimilar_def bisimulation_def)
    then show ?thesis using True False q(1) by (simp add: minimize_bisimulation_def)
  next
    case less: False
    let ?b = "case label_store of Some store \<Rightarrow> with_label_store store | None \<Rightarrow> builder_default"
    have b: "builder_reach ?b" using ls br_default br_label_store by (auto split: option.splits)
    have f: "b_state_names ?b = []" "b_transitions ?b = []" "b_state_overflow ?b = None" "b_initial_states ?b = {}"
      by (simp_all add: with_label_store_def builder_default_def split: option.splits)
    have "0 < class_count q" using ne by (simp add: class_count_def)
    then have "class_info q \<noteq> []" using ci(1) by (metis length_greater_0_conv)
    moreover have "class_count q < state_count c" using less full(2) q(2) by simp
    ultimately show ?thesis
      using minimize_builds_quotient [OF c q(3,2) ne ker b f] False less q(1)
      by (auto simp: minimize_bisimulation_def Let_def)
  qed
qed

definition twins_example :: clts_builder where
  \<comment> \<open>two states, each with a loop under the same label\<close>
  "twins_example = builder_transition ''b'' [0] ''b'' (builder_transition ''a'' [0] ''a'' builder_default)"

theorem minimize_bisimulation_quotient_witness:
  "\<exists>c m report h. builder_build twins_example = Ok c \<and> minimize_bisimulation 2 c None = Ok (Some (m, report))
    \<and> state_count m < 2 \<and> quotient_by c m h"
proof -
  have reach: "builder_reach twins_example" unfolding twins_example_def by (intro br_transition br_default)
  have "(case builder_build twins_example of Ok c \<Rightarrow> state_count c = 2
      \<and> outgoing c 0 = [\<lparr>t_target = 0, t_labels = [0], t_modality = Sharp\<rparr>]
      \<and> outgoing c 1 = [\<lparr>t_target = 1, t_labels = [0], t_modality = Sharp\<rparr>]
      \<and> c_state_variables c ! 0 = c_state_variables c ! 1 | _ \<Rightarrow> False)"
    by (simp add: twins_example_def builder_example_simps all_labels_def upt_rec)
  then obtain c where c: "builder_build twins_example = Ok c" "state_count c = 2"
      "outgoing c 0 = [\<lparr>t_target = 0, t_labels = [0], t_modality = Sharp\<rparr>]"
      "outgoing c 1 = [\<lparr>t_target = 1, t_labels = [0], t_modality = Sharp\<rparr>]"
      "c_state_variables c ! 0 = c_state_variables c ! 1"
    by (cases "builder_build twins_example") auto
  have "bisimulation c {(0, 1)}" using c(2-5) by (simp add: bisimulation_def state_variable_bits_def)
  then have "bisimilar c 0 1" by (auto simp: bisimilar_def)
  then have "\<exists>m report h. minimize_bisimulation 2 c None = Ok (Some (m, report)) \<and> state_count m < 2 \<and> quotient_by c m h"
    using minimize_bisimulation_quotient [OF reach c(1), of 2 None] c(2) by (auto split: option.splits)
  then show ?thesis using c(1) by blast
qed

end
