(* ===== verification/Spec2Isabelle.thy ===== *)
theory Spec2Isabelle
  imports Departures Preservation Simplify Game_Build Ltl_Existential Gr1_Controller Minimize_Quotient
begin

text \<open>
  A verification library for the model-checking core of Mununu
  (\<^verbatim>\<open>src/crates/mununu-core\<close>).

  \<^bold>\<open>The program.\<close> Mununu checks modal mu-calculus formulas on CLTSs: labelled transition systems
  whose labels are controllable, uncontrollable or internal, whose transitions are sharp, may-only
  or must-hyper edges, and whose states carry two- and three-valued predicates. A model is built by
  \<^verbatim>\<open>CltsBuilder\<close> over interned label and variable sets; a formula is an arena of nodes; formulas are
  rewritten (negation normal form, inversion, environment enforcement, simplification) and evaluated
  explicitly, in two or in three truth values, or turned into parity games that are solved by a
  recursive algorithm. Formulas come from a text parser or from LTL, through a some-path and an
  every-path translation. GR(1) synthesis turns LTL assumptions and guarantees over input and output
  signals into a game on a CLTS, solves it, and prints a controller.

  \<^bold>\<open>Theories and the code they model.\<close>
  \<^item> \<^verbatim>\<open>Mununu_Prelude\<close>: the result type with the outcomes value, error, panic and out of fuel, bit
    vectors and their sets of indices, lists and association lists.
  \<^item> \<^verbatim>\<open>Kleene\<close>: \<^verbatim>\<open>mu_calculus/trit.rs\<close> and \<^verbatim>\<open>Tristate\<close> of \<^verbatim>\<open>clts/mod.rs\<close>.
  \<^item> \<^verbatim>\<open>Symbol_Store\<close>: interning and frozen stores of \<^verbatim>\<open>clts/mod.rs\<close>, with the identifier limits of the
    storage types.
  \<^item> \<^verbatim>\<open>Clts\<close>: \<^verbatim>\<open>Clts\<close>, its queries, controllability and \<^verbatim>\<open>CltsBuilder\<close> (\<^verbatim>\<open>clts/mod.rs\<close>).
  \<^item> \<^verbatim>\<open>Formula\<close>: the arena, guards, \<^verbatim>\<open>FormulaBuilder\<close> and the structural analyses
    (\<^verbatim>\<open>mu_calculus/mod.rs\<close>).
  \<^item> \<^verbatim>\<open>Modal_Ops\<close>, \<^verbatim>\<open>Evaluator\<close>: the modal operators and the generic evaluator with its two domains
    (\<^verbatim>\<open>mu_calculus/evaluator.rs\<close>, \<^verbatim>\<open>memo.rs\<close>).
  \<^item> \<^verbatim>\<open>Mu_Semantics\<close>, \<^verbatim>\<open>Mu_Duality\<close>: the reference semantics, least and greatest fixpoints over a
    lattice algebra, and its dualities; no code.
  \<^item> \<^verbatim>\<open>Eval_Correct\<close>, \<^verbatim>\<open>Eval_Domains\<close>, \<^verbatim>\<open>Eval_Props\<close>, \<^verbatim>\<open>Evaluation\<close>: correctness of the evaluator.
  \<^item> \<^verbatim>\<open>Preservation\<close>: refinement between models. \<^verbatim>\<open>Departures\<close>: behaviour the theorems exclude.
  \<^item> \<^verbatim>\<open>Transforms\<close>: \<^verbatim>\<open>nnf.rs\<close>, \<^verbatim>\<open>invert.rs\<close>, \<^verbatim>\<open>env_enforce.rs\<close>. \<^verbatim>\<open>Simplify\<close>: \<^verbatim>\<open>simplify.rs\<close>.
  \<^item> \<^verbatim>\<open>Parity_Game\<close>: \<^verbatim>\<open>parity_game.rs\<close>; \<^verbatim>\<open>Zielonka\<close>: correctness of its solver; \<^verbatim>\<open>Game_Build\<close>: the
    constructed games.
  \<^item> \<^verbatim>\<open>Mu_Parser\<close>: \<^verbatim>\<open>mu_calculus/parser.rs\<close> on UTF-8 bytes; \<^verbatim>\<open>Parser_Props\<close>, \<^verbatim>\<open>Text_Reading\<close>,
    \<^verbatim>\<open>Text_Meaning\<close>: what it returns, and the meaning of printed formulas.
  \<^item> \<^verbatim>\<open>Ltl\<close>: \<^verbatim>\<open>ltl/ast.rs\<close>, \<^verbatim>\<open>ltl/translator.rs\<close>, \<^verbatim>\<open>ltl/universal.rs\<close> and \<^verbatim>\<open>verify/fairness.rs\<close>;
    \<^verbatim>\<open>Ltl_Paths\<close>: satisfaction on sequences and paths; \<^verbatim>\<open>Ltl_Universal\<close>, \<^verbatim>\<open>Ltl_Existential\<close>: the two
    translations.
  \<^item> \<^verbatim>\<open>Gr1\<close>: \<^verbatim>\<open>mu_calculus/gr1.rs\<close>; \<^verbatim>\<open>Gr1_Fixpoint\<close>: its loops compute fixpoints; \<^verbatim>\<open>Gr1_Plays\<close>,
    \<^verbatim>\<open>Gr1_Determined\<close>: plays, strategies and determinacy; \<^verbatim>\<open>Gr1_Solver\<close>, \<^verbatim>\<open>Gr1_Extract\<close>, \<^verbatim>\<open>Gr1_Modes\<close>:
    the solver and the two strategy extractors.
  \<^item> \<^verbatim>\<open>Gr1_Build\<close>: \<^verbatim>\<open>mu_calculus/gr1_build.rs\<close>; \<^verbatim>\<open>Gr1_Arena\<close>: the game it builds; \<^verbatim>\<open>Gr1_Monitors\<close>: its
    monitor bits along traces; \<^verbatim>\<open>Gr1_Realize\<close>: controllers and winning strategies; \<^verbatim>\<open>Gr1_Synthesis\<close>,
    \<^verbatim>\<open>Gr1_Controller\<close>: realizability and the printed controller.
  \<^item> \<^verbatim>\<open>Minimize\<close>: \<^verbatim>\<open>composition/minimize.rs\<close> and its partition refinement; \<^verbatim>\<open>Minimize_Quotient\<close>: the model
    it builds.

  \<^bold>\<open>How the code is modelled.\<close> A struct is a record, an enum a datatype, a \<^verbatim>\<open>BitVec\<close> a list of
  booleans, a \<^verbatim>\<open>HashMap\<close> an association list (an argument fixes the order where the code iterates over
  a hash table), \<^verbatim>\<open>usize\<close> indices are naturals, identifiers of bounded storage are checked against
  their limit. A handler returns \<open>Ok\<close>, \<open>Err\<close> with the error of the code, or \<open>Panic\<close> where the code
  indexes out of range or unwraps; recursion over arena indices and unbounded loops take fuel and
  return \<open>OutOfFuel\<close> when it is used up. Evaluation of guard expressions on demand is code of another
  component and an argument of the model.

  \<^bold>\<open>What is shown.\<close>
  \<^item> Both evaluators return, and return the textbook semantics: \<open>evaluate_is_kripke\<close>,
    \<open>evaluate_tri_is_kmts\<close>. They meet in the locale \<open>sound_domain\<close>: the generic evaluator is
    proved once for a domain, the two domains are interpretations. Fuel: \<open>need n t\<close>, computed from the
    number of states and the formula, suffices.
  \<^item> Three-valued verdicts are consistent, conservative over two-valued ones and preserved by
    refinement; options, memoisation and seeds do not change results.
  \<^item> Rewriting preserves meaning: \<open>to_nnf\<close>, \<open>simplify\<close>; complements it: \<open>invert\<close>; weakens it:
    \<open>env_enforce\<close>. Each is total on well-bound arenas.
  \<^item> The builder never panics and yields well-formed models; the stores answer exactly what was
    interned; Kleene operations are pointwise.
  \<^item> The parity game solver returns the winning regions of both players, on which positional strategies
    win; the strategy it extracts stays in the region. The argument is made in the locale \<open>attractors\<close> and interpreted on \<open>compute_attractor\<close>; recursion depth is bounded
    by the number of positions plus one. Built games are well formed, and priorities ordered.
  \<^item> The parser is total and returns well-formed formulas. The every-path translation, through the text it
    prints and the parser, evaluates to the states all of whose paths satisfy the LTL formula, for the
    formulas it accepts, and the refused ones are characterised; the some-path translation is the
    branching reading of its formula.
  \<^item> The GR(1) solver is exact: inside the returned set the controller wins, outside the environment does.
    Its loops are treated in the locale \<open>predecessor\<close>, the strategies in \<open>finite_predecessor\<close> and
    \<open>memory_strategy\<close>, each interpreted on the operations of the code. Fuel beyond the number of states
    suffices. The extracted strategies win without assumptions (positional) and with at most one (modes).
  \<^item> GR(1) synthesis composes classification, game construction, solver, extraction and printing: it answers
    realizable iff some controller satisfies the specification on all traces, and the printed table of
    moves, run as a Mealy machine, does so. Fuel beyond \<open>bad_id\<close>, the number of the last game state,
    suffices.
  \<^item> Minimization ends, its blocks are the classes of strong bisimilarity, and the returned model is the
    quotient. Fuel equal to the number of states suffices.
  \<^item> Where the code departs from what it documents, a theorem states what it does: divergence on formulas
    that are not positive, inconsistent bounded diamonds, guard partitions that change environment
    diamonds, inversion of negations, games that do not decide least fixpoints, strategies that are not
    winning, printed LTL formulas that capture a predicate, GR(1) strategies that lose under assumptions.

  \<^bold>\<open>Not modelled.\<close> The adapters (BTOR2, SystemVerilog, AIGER and others) drive external tools and
  parse foreign formats; the symbolic evaluator works on a BDD library; the text parser of LTL, the context
  language, the API server, persistence and the command line are text processing and input/output. The
  three-valued parity games (\<^verbatim>\<open>parity_game_3v*.rs\<close>), products and hiding of models, abstraction, contracts
  and verdict aggregation are left out. The fair-path encodings of \<^verbatim>\<open>verify/fairness.rs\<close> are modelled without
  a correctness theorem. The semantics of SystemVerilog is not modelled: the machine of a printed controller
  is the one of its table of moves.
\<close>

end
